(* ===== verification/Prelude.thy ===== *)
theory Prelude
  imports
    Main
    "HOL-Library.Word"
    "HOL-Library.Signed_Division"
    "HOL-Library.List_Lexorder"
    "HOL-Library.Product_Lexorder"
    "HOL-Library.Multiset"
begin

text \<open>
  Shared vocabulary of the development: Go's machine integers, byte strings, the result type of
  operations that return an error or panic, and the generic lemmas on lists that the component
  theories use.

  \<^item> A Go \<^verbatim>\<open>int64\<close> or \<^verbatim>\<open>int32\<close> is an \<^typ>\<open>int\<close>; every addition, subtraction, multiplication and
    negation that the source performs on it goes through \<open>wrap64\<close> or \<open>wrap32\<close>, the two's
    complement reduction, so overflow is visible in the model. \<open>wrap_int_word\<close> ties that
    reduction to the machine words of HOL-Library.
  \<^item> Division truncates towards zero (\<open>sdiv\<close>), shifting right is \<open>drop_bit\<close>.
  \<^item> A byte slice is a list of 8-bit words; \<^verbatim>\<open>bytes.Compare\<close> is the lexicographic order on them.
  \<^item> \<open>'e fault + 'a\<close> is the result of an operation: \<open>Inl (Panic s)\<close> for a Go panic,
    \<open>Inl (Err e)\<close> for a returned error, \<open>Inr x\<close> for a value.
\<close>

subsection \<open>Types\<close>

type_synonym bytes = "8 word list"
type_synonym int64 = int
type_synonym int32 = int

text \<open>A \<^verbatim>\<open>time.Time\<close> as nanoseconds since Go's zero time (year 1), so that 0 is \<^verbatim>\<open>IsZero\<close>.\<close>

type_synonym timestamp = int

text \<open>A byte slice that may be nil; \<^verbatim>\<open>bytes.Equal\<close>, \<^verbatim>\<open>len\<close> and the codecs read nil as empty.\<close>

definition raw :: "bytes option \<Rightarrow> bytes" where
  "raw b = (case b of None \<Rightarrow> [] | Some x \<Rightarrow> x)"

lemma raw_simps [simp]: "raw None = []" "raw (Some x) = x"
  by (simp_all add: raw_def)

datatype 'e fault = Panic string | Err 'e

type_synonym ('e, 'a) result = "'e fault + 'a"

text \<open>Sequencing: the rest runs only if the first operation returned a value.\<close>

definition and_then :: "'e + 'a \<Rightarrow> ('a \<Rightarrow> 'e + 'b) \<Rightarrow> 'e + 'b" where
  "and_then r k = (case r of Inl e \<Rightarrow> Inl e | Inr x \<Rightarrow> k x)"

lemma and_then_simps [simp]:
  "and_then (Inl e) k = Inl e"
  "and_then (Inr x) k = k x"
  by (simp_all add: and_then_def)

lemma and_then_Inr_iff: "and_then r k = Inr y \<longleftrightarrow> (\<exists>x. r = Inr x \<and> k x = Inr y)"
  by (cases r) simp_all

lemma and_then_cong [fundef_cong]:
  "r = r' \<Longrightarrow> (\<And>x. r' = Inr x \<Longrightarrow> k x = k' x) \<Longrightarrow> and_then r k = and_then r' k'"
  by (cases r') simp_all

text \<open>A call whose error type is another component's, of which only panics can occur or matter.\<close>

definition lift_fault :: "('d \<Rightarrow> 'e) \<Rightarrow> ('d, 'a) result \<Rightarrow> ('e, 'a) result" where
  "lift_fault f r = (case r of Inl (Panic s) \<Rightarrow> Inl (Panic s) | Inl (Err d) \<Rightarrow> Inl (Err (f d)) | Inr x \<Rightarrow> Inr x)"

lemma lift_fault_Inr_iff [simp]: "lift_fault f r = Inr x \<longleftrightarrow> r = Inr x"
  by (auto simp: lift_fault_def split: sum.splits fault.splits)

lemma lift_fault_Inr [simp]: "lift_fault f (Inr x) = Inr x"
  by (simp add: lift_fault_def)

subsection \<open>Collections of facts\<close>

named_theorems int_range \<open>membership in the range of a machine integer\<close>
named_theorems wrap_simps \<open>evaluation of wrap-around on values in range\<close>

subsection \<open>Machine integers\<close>

definition in_int :: "nat \<Rightarrow> int \<Rightarrow> bool" where
  "in_int w x \<longleftrightarrow> - (2 ^ (w - 1)) \<le> x \<and> x < 2 ^ (w - 1)"

definition wrap_int :: "nat \<Rightarrow> int \<Rightarrow> int" where
  "wrap_int w x = (x + 2 ^ (w - 1)) mod 2 ^ w - 2 ^ (w - 1)"

abbreviation wrap64 :: "int \<Rightarrow> int64" where
  "wrap64 \<equiv> wrap_int 64"

abbreviation wrap32 :: "int \<Rightarrow> int32" where
  "wrap32 \<equiv> wrap_int 32"

abbreviation int64_range :: "int \<Rightarrow> bool" where
  "int64_range \<equiv> in_int 64"

abbreviation int32_range :: "int \<Rightarrow> bool" where
  "int32_range \<equiv> in_int 32"

definition MaxInt64 :: int64 where
  "MaxInt64 = 9223372036854775807"

definition MinInt64 :: int64 where
  "MinInt64 = -9223372036854775808"

definition MaxInt32 :: int32 where
  "MaxInt32 = 2147483647"

definition MinInt32 :: int32 where
  "MinInt32 = -2147483648"

lemmas int_limits = MaxInt64_def MinInt64_def MaxInt32_def MinInt32_def

lemma int64_range_iff: "int64_range x \<longleftrightarrow> MinInt64 \<le> x \<and> x \<le> MaxInt64"
  by (auto simp: in_int_def int_limits)

lemma int32_range_iff: "int32_range x \<longleftrightarrow> MinInt32 \<le> x \<and> x \<le> MaxInt32"
  by (auto simp: in_int_def int_limits)

lemma wrap_int_id [wrap_simps]:
  assumes "in_int w x" "0 < w"
  shows "wrap_int w x = x"
proof -
  have "(2::int) ^ w = 2 * 2 ^ (w - 1)"
    using assms(2) by (cases w) simp_all
  with assms(1) show ?thesis
    by (simp add: wrap_int_def in_int_def)
qed

lemma wrap_int_range [int_range]:
  assumes "0 < w"
  shows "in_int w (wrap_int w x)"
proof -
  have two: "(2::int) ^ w = 2 * 2 ^ (w - 1)"
    using assms by (cases w) simp_all
  have "0 \<le> (x + 2 ^ (w - 1)) mod 2 ^ w" "(x + 2 ^ (w - 1)) mod 2 ^ w < 2 ^ w"
    by simp_all
  with two show ?thesis
    unfolding in_int_def wrap_int_def by linarith
qed

lemma wrap64_id [simp]: "int64_range x \<Longrightarrow> wrap64 x = x"
  by (simp add: wrap_int_id)

lemma wrap32_id [simp]: "int32_range x \<Longrightarrow> wrap32 x = x"
  by (simp add: wrap_int_id)

text \<open>The reduction is the one of two's complement machine words.\<close>

lemma wrap_int_word: "wrap64 x = sint (word_of_int x :: 64 word)"
  by (simp add: wrap_int_def int_word_sint)

lemma wrap64_idI: "MinInt64 \<le> x \<Longrightarrow> x \<le> MaxInt64 \<Longrightarrow> wrap64 x = x"
  by (simp add: int64_range_iff)

subsection \<open>Truncating division by a positive number\<close>

lemma sdiv_nonneg: "0 \<le> a \<Longrightarrow> 0 < b \<Longrightarrow> a sdiv b = (a::int) div b"
  by (simp add: signed_divide_int_def sgn_if)

lemma sdiv_neg: "a < 0 \<Longrightarrow> 0 < b \<Longrightarrow> a sdiv b = - ((- a) div (b::int))"
  by (simp add: signed_divide_int_def sgn_if)

lemma div_le_dividend_int: "0 \<le> a \<Longrightarrow> a div b \<le> (a::int)"
  by (cases "a = 0") (simp_all add: int_div_le_self)

lemma div_less_iff_int:
  assumes "0 < (b::int)"
  shows "x div b < a \<longleftrightarrow> x < a * b"
proof
  assume "x div b < a"
  then have "(x div b + 1) * b \<le> a * b"
    using assms by (intro mult_right_mono) auto
  moreover have "x < (x div b + 1) * b"
    unfolding distrib_right
    using assms div_mult_mod_eq [of x b] pos_mod_bound [of b x] by linarith
  ultimately show "x < a * b" by linarith
next
  assume less: "x < a * b"
  show "x div b < a"
  proof (rule ccontr)
    assume "\<not> x div b < a"
    then have "a * b \<le> (x div b) * b"
      using assms by (intro mult_right_mono) auto
    also have "\<dots> \<le> x"
      using assms div_mult_mod_eq [of x b] pos_mod_sign [of b x] by linarith
    finally show False using less by simp
  qed
qed

lemma sdiv_abs_le:
  assumes "0 < (b::int)"
  shows "\<bar>a sdiv b\<bar> \<le> \<bar>a\<bar>"
proof (cases "0 \<le> a")
  case True
  with assms show ?thesis
    by (simp add: sdiv_nonneg div_le_dividend_int pos_imp_zdiv_nonneg_iff abs_of_nonneg)
next
  case False
  with assms have "(- a) div b \<le> - a" "0 \<le> (- a) div b"
    by (simp_all add: div_le_dividend_int pos_imp_zdiv_nonneg_iff)
  with False assms show ?thesis by (simp add: sdiv_neg)
qed

lemma sdiv_mono:
  assumes "0 < (b::int)" "x \<le> y"
  shows "x sdiv b \<le> y sdiv b"
proof (cases "0 \<le> x")
  case True
  with assms show ?thesis by (simp add: sdiv_nonneg zdiv_mono1)
next
  case False
  show ?thesis
  proof (cases "0 \<le> y")
    case True
    with False assms have "0 \<le> (- x) div b" "0 \<le> y div b"
      by (simp_all add: pos_imp_zdiv_nonneg_iff)
    with False True assms show ?thesis by (simp add: sdiv_nonneg sdiv_neg)
  next
    case neg: False
    with False assms have "(- y) div b \<le> (- x) div b"
      by (simp add: zdiv_mono1)
    with False neg assms show ?thesis by (simp add: sdiv_neg)
  qed
qed

lemma le_div_iff_int:
  assumes "0 < (b::int)"
  shows "a \<le> x div b \<longleftrightarrow> a * b \<le> x"
  using div_less_iff_int [OF assms, of x a] by linarith

text \<open>Dividing two numbers by \<open>r\<close>, rounding towards zero, also divides their distance.\<close>

lemma sdiv_diff_le:
  assumes "0 < (r::int)" "x - y \<le> r * d" "y \<le> x"
  shows "x sdiv r - y sdiv r \<le> d"
proof -
  have rem: "r * (a sdiv r) \<le> a \<and> a < r * (a sdiv r) + r" if "0 \<le> a" for a
    using that assms(1) mult_div_mod_eq [of r a] pos_mod_bound [of r a] pos_mod_sign [of r a]
    unfolding sdiv_nonneg [OF that assms(1)] by linarith
  have rem': "a \<le> r * (a sdiv r) \<and> r * (a sdiv r) < a + r" if "a < 0" for a
    using that mult_div_mod_eq [of r "- a"] pos_mod_bound [OF assms(1), of "- a"]
      pos_mod_sign [OF assms(1), of "- a"]
    unfolding sdiv_neg [OF that assms(1)] mult_minus_right by linarith
  have "r * (x sdiv r) - r * (y sdiv r) < r * d + r"
    using rem [of x] rem' [of x] rem [of y] rem' [of y] assms(2,3)
    by (cases "0 \<le> x"; cases "0 \<le> y") linarith+
  then have "r * (x sdiv r - y sdiv r) < r * (d + 1)"
    by (simp add: right_diff_distrib distrib_left)
  then show ?thesis using assms(1) by simp
qed

subsection \<open>Lists\<close>

text \<open>The sum of a field over a list, used for voting power and priorities.\<close>

lemma sum_list_update:
  fixes f :: "'a \<Rightarrow> int"
  assumes "i < length xs"
  shows "(\<Sum>x\<leftarrow>xs[i := y]. f x) = (\<Sum>x\<leftarrow>xs. f x) - f (xs ! i) + f y"
  using assms by (induction xs arbitrary: i) (auto split: nat.splits)

lemma sum_list_lower:
  fixes f :: "'a \<Rightarrow> int"
  assumes "\<And>x. x \<in> set xs \<Longrightarrow> l \<le> f x"
  shows "int (length xs) * l \<le> (\<Sum>x\<leftarrow>xs. f x)"
  using assms by (induction xs) (auto simp: algebra_simps intro: add_mono)

lemma sum_list_upper:
  fixes f :: "'a \<Rightarrow> int"
  assumes "\<And>x. x \<in> set xs \<Longrightarrow> f x \<le> u"
  shows "(\<Sum>x\<leftarrow>xs. f x) \<le> int (length xs) * u"
  using assms by (induction xs) (auto simp: algebra_simps intro: add_mono)

lemma sum_list_nonneg_mem:
  fixes f :: "'a \<Rightarrow> int"
  assumes "\<And>x. x \<in> set xs \<Longrightarrow> 0 \<le> f x" "y \<in> set xs"
  shows "f y \<le> (\<Sum>x\<leftarrow>xs. f x)"
  using assms
proof (induction xs)
  case (Cons a xs)
  have "0 \<le> (\<Sum>x\<leftarrow>xs. f x)"
    using Cons.prems(1) by (intro sum_list_nonneg) auto
  with Cons show ?case by fastforce
qed simp

lemma sum_list_filter_le:
  fixes f :: "'a \<Rightarrow> int"
  assumes "\<And>x. x \<in> set xs \<Longrightarrow> 0 \<le> f x"
  shows "(\<Sum>x\<leftarrow>filter P xs. f x) \<le> (\<Sum>x\<leftarrow>xs. f x)"
  using assms by (induction xs) (auto simp: add_increasing)

text \<open>Sorting with an injective key does not depend on the algorithm, nor on its stability.\<close>

lemma sorted_by_unique:
  assumes "mset xs = mset ys" "inj_on f (set xs)"
    and "sorted (map f xs)" "sorted (map f ys)"
  shows "xs = ys"
proof -
  have "map f xs = map f ys"
    using assms by (metis mset_map properties_for_sort)
  moreover have "set xs = set ys"
    using assms(1) by (metis set_mset_mset)
  ultimately show ?thesis
    using assms(2) by (metis Un_absorb inj_on_map_eq_map)
qed

end
