(* ===== verification/Safe_Math.thy ===== *)
theory Safe_Math
  imports Prelude
begin

text \<open>
  Checked integer arithmetic: \<^verbatim>\<open>src/libs/math/math.go\<close>, \<^verbatim>\<open>src/libs/math/safemath.go\<close> and the
  \<^verbatim>\<open>safeAdd\<close>/\<^verbatim>\<open>safeSub\<close>/\<^verbatim>\<open>safeMul\<close> family at the end of \<^verbatim>\<open>src/types/validator_set.go\<close>.
  Every intermediate result of the Go code is reduced to its width, also the bounds the guards
  compare against (\<^verbatim>\<open>math.MaxInt64-b\<close>), and the lemmas show that on operands in range no such
  reduction ever matters: the \<open>Clip\<close> operations saturate the exact result, the others report
  exactly the overflows. \<open>safeMul\<close> is the exception, see \<open>safeMul_MinInt64_unsound\<close>.
\<close>

subsection \<open>\<^verbatim>\<open>libs/math\<close>\<close>

record Fraction =
  fr_Numerator :: int64
  fr_Denominator :: int64

definition MaxInt64_of :: "int64 \<Rightarrow> int64 \<Rightarrow> int64" where
  "MaxInt64_of a b = (if a > b then a else b)"

definition MaxInt_of :: "int64 \<Rightarrow> int64 \<Rightarrow> int64" where
  "MaxInt_of a b = (if a > b then a else b)"

definition MinInt64_of :: "int64 \<Rightarrow> int64 \<Rightarrow> int64" where
  "MinInt64_of a b = (if a < b then a else b)"

definition MinInt_of :: "int64 \<Rightarrow> int64 \<Rightarrow> int64" where
  "MinInt_of a b = (if a < b then a else b)"

lemma MaxInt_of_max [simp]: "MaxInt64_of a b = max a b" "MaxInt_of a b = max a b"
  by (simp_all add: MaxInt64_of_def MaxInt_of_def max_def)

lemma MinInt_of_min [simp]: "MinInt64_of a b = min a b" "MinInt_of a b = min a b"
  by (simp_all add: MinInt64_of_def MinInt_of_def min_def)

datatype math_error = ErrOverflowInt32 | ErrOverflowUint8 | ErrOverflowInt8

definition SafeAddInt32 :: "int32 \<Rightarrow> int32 \<Rightarrow> (math_error, int32) result" where
  "SafeAddInt32 a b =
     (if b > 0 \<and> a > wrap32 (MaxInt32 - b) then Inl (Panic ''int32 overflow'')
      else if b < 0 \<and> a < wrap32 (MinInt32 - b) then Inl (Panic ''int32 overflow'')
      else Inr (wrap32 (a + b)))"

definition SafeSubInt32 :: "int32 \<Rightarrow> int32 \<Rightarrow> (math_error, int32) result" where
  "SafeSubInt32 a b =
     (if b > 0 \<and> a < wrap32 (MinInt32 + b) then Inl (Panic ''int32 overflow'')
      else if b < 0 \<and> a > wrap32 (MaxInt32 + b) then Inl (Panic ''int32 overflow'')
      else Inr (wrap32 (a - b)))"

definition SafeConvertInt32 :: "int64 \<Rightarrow> (math_error, int32) result" where
  "SafeConvertInt32 a =
     (if a > MaxInt32 then Inl (Panic ''int32 overflow'')
      else if a < MinInt32 then Inl (Panic ''int32 overflow'')
      else Inr (wrap32 a))"

definition SafeConvertUint8 :: "int64 \<Rightarrow> (math_error, 8 word) result" where
  "SafeConvertUint8 a =
     (if a > 255 then Inl (Err ErrOverflowUint8)
      else if a < 0 then Inl (Err ErrOverflowUint8)
      else Inr (word_of_int a))"

definition SafeConvertInt8 :: "int64 \<Rightarrow> (math_error, int) result" where
  "SafeConvertInt8 a =
     (if a > 127 then Inl (Err ErrOverflowInt8)
      else if a < -128 then Inl (Err ErrOverflowInt8)
      else Inr (wrap_int 8 a))"

lemma SafeAddInt32_exact:
  assumes "int32_range a" "int32_range b"
  shows "SafeAddInt32 a b =
    (if int32_range (a + b) then Inr (a + b) else Inl (Panic ''int32 overflow''))"
  using assms
  by (auto simp: SafeAddInt32_def in_int_def int_limits wrap_int_id)

lemma SafeSubInt32_exact:
  assumes "int32_range a" "int32_range b"
  shows "SafeSubInt32 a b =
    (if int32_range (a - b) then Inr (a - b) else Inl (Panic ''int32 overflow''))"
  using assms
  by (auto simp: SafeSubInt32_def in_int_def int_limits wrap_int_id)

lemma SafeConvert_exact:
  "SafeConvertInt32 a = (if int32_range a then Inr a else Inl (Panic ''int32 overflow''))"
  "SafeConvertInt8 a = (if in_int 8 a then Inr a else Inl (Err ErrOverflowInt8))"
  by (auto simp: SafeConvertInt32_def SafeConvertInt8_def in_int_def int_limits wrap_int_id)

lemma SafeConvertUint8_exact:
  "SafeConvertUint8 a = Inr u \<longleftrightarrow> 0 \<le> a \<and> a < 256 \<and> uint u = a"
  by (auto simp: SafeConvertUint8_def uint_word_of_int)

subsection \<open>Saturating arithmetic of the validator set\<close>

definition safeAdd :: "int64 \<Rightarrow> int64 \<Rightarrow> int64 \<times> bool" where
  "safeAdd a b =
     (if b > 0 \<and> a > wrap64 (MaxInt64 - b) then (-1, True)
      else if b < 0 \<and> a < wrap64 (MinInt64 - b) then (-1, True)
      else (wrap64 (a + b), False))"

definition safeSub :: "int64 \<Rightarrow> int64 \<Rightarrow> int64 \<times> bool" where
  "safeSub a b =
     (if b > 0 \<and> a < wrap64 (MinInt64 + b) then (-1, True)
      else if b < 0 \<and> a > wrap64 (MaxInt64 + b) then (-1, True)
      else (wrap64 (a - b), False))"

definition safeAddClip :: "int64 \<Rightarrow> int64 \<Rightarrow> int64" where
  "safeAddClip a b =
     (let (c, overflow) = safeAdd a b
      in if overflow then (if b < 0 then MinInt64 else MaxInt64) else c)"

definition safeSubClip :: "int64 \<Rightarrow> int64 \<Rightarrow> int64" where
  "safeSubClip a b =
     (let (c, overflow) = safeSub a b
      in if overflow then (if b > 0 then MinInt64 else MaxInt64) else c)"

definition safeMul :: "int64 \<Rightarrow> int64 \<Rightarrow> int64 \<times> bool" where
  "safeMul a b =
     (if a = 0 \<or> b = 0 then (0, False)
      else
        let absOfB = (if b < 0 then wrap64 (- b) else b);
            absOfA = (if a < 0 then wrap64 (- a) else a)
        in if absOfA > wrap64 (MaxInt64 sdiv absOfB) then (0, True)
           else (wrap64 (a * b), False))"

text \<open>The exact result, clamped to the range of the type.\<close>

definition clamp64 :: "int \<Rightarrow> int64" where
  "clamp64 x = max MinInt64 (min MaxInt64 x)"

lemma clamp64_range [int_range, simp]: "int64_range (clamp64 x)"
  by (simp add: clamp64_def int64_range_iff int_limits)

lemma clamp64_id [simp]: "int64_range x \<Longrightarrow> clamp64 x = x"
  by (simp add: clamp64_def int64_range_iff)

lemma safeAdd_exact:
  assumes "int64_range a" "int64_range b"
  shows "safeAdd a b = (if int64_range (a + b) then (a + b, False) else (-1, True))"
  using assms by (auto simp: safeAdd_def in_int_def int_limits wrap_int_id)

lemma safeSub_exact:
  assumes "int64_range a" "int64_range b"
  shows "safeSub a b = (if int64_range (a - b) then (a - b, False) else (-1, True))"
  using assms by (auto simp: safeSub_def in_int_def int_limits wrap_int_id)

lemma safeAddClip_clamp:
  assumes "int64_range a" "int64_range b"
  shows "safeAddClip a b = clamp64 (a + b)"
  using assms
  by (auto simp: safeAddClip_def safeAdd_exact clamp64_def int64_range_iff int_limits)

lemma safeSubClip_clamp:
  assumes "int64_range a" "int64_range b"
  shows "safeSubClip a b = clamp64 (a - b)"
  using assms
  by (auto simp: safeSubClip_def safeSub_exact clamp64_def int64_range_iff int_limits)

lemma safeMul_exact:
  assumes "int64_range a" "int64_range b" "a \<noteq> MinInt64" "b \<noteq> MinInt64"
  shows "safeMul a b = (if \<bar>a * b\<bar> \<le> MaxInt64 then (a * b, False) else (0, True))"
proof (cases "a = 0 \<or> b = 0")
  case True
  then show ?thesis by (auto simp: safeMul_def int_limits)
next
  case False
  have abs: "(if a < 0 then wrap64 (- a) else a) = \<bar>a\<bar>" "(if b < 0 then wrap64 (- b) else b) = \<bar>b\<bar>"
    using assms by (auto simp: int64_range_iff wrap64_idI int_limits)
  have pos: "0 < \<bar>b\<bar>" using False by simp
  have q: "wrap64 (MaxInt64 sdiv \<bar>b\<bar>) = MaxInt64 div \<bar>b\<bar>"
  proof (rule trans [OF wrap64_idI])
    show "MinInt64 \<le> MaxInt64 sdiv \<bar>b\<bar>" "MaxInt64 sdiv \<bar>b\<bar> \<le> MaxInt64"
      using pos sdiv_abs_le [of "\<bar>b\<bar>" MaxInt64] by (simp_all add: int_limits)
    show "MaxInt64 sdiv \<bar>b\<bar> = MaxInt64 div \<bar>b\<bar>"
      using pos by (simp add: sdiv_nonneg int_limits)
  qed
  have iff: "\<bar>a\<bar> > MaxInt64 div \<bar>b\<bar> \<longleftrightarrow> \<bar>a * b\<bar> > MaxInt64"
    using pos by (simp add: abs_mult div_less_iff_int)
  have wrap: "wrap64 (a * b) = a * b" if "\<bar>a * b\<bar> \<le> MaxInt64"
    using that by (intro wrap64_idI) (auto simp: int_limits)
  show ?thesis
    using False iff wrap unfolding safeMul_def abs q Let_def by auto
qed

text \<open>
  When the first operand is \<^verbatim>\<open>math.MinInt64\<close>, its absolute value wraps back to a negative number
  and the guard never fires: the product wraps silently and no overflow is reported.
\<close>

lemma safeMul_MinInt64_unsound: "safeMul MinInt64 2 = (0, False)"
  by (simp add: safeMul_def int_limits wrap_int_def signed_divide_int_def)

end
