(* ===== verification/Validators.thy ===== *)
theory Validators
  imports Safe_Math
begin

text \<open>
  \<^verbatim>\<open>src/types/validator.go\<close> and the proposer selection of \<^verbatim>\<open>src/types/validator_set.go\<close>: the validator
  and validator set records, their accessors, and \<^verbatim>\<open>IncrementProposerPriority\<close> with everything it
  calls. A pointer into \<^verbatim>\<open>vals.Validators\<close> is an index together with the validator found there
  (\<open>val_ref\<close>), so that the in-place update of the chosen proposer changes exactly that element.
  \<^verbatim>\<open>vals.Proposer\<close> is the value of the proposer when it was set; the priority of a proposer that
  is still shared with the list is not tracked, no operation reads it. The slice never holds nil
  pointers.

  The lemmas establish what the comment on \<^verbatim>\<open>MaxTotalVotingPower\<close> leaves to the reader: within that
  limit re-scaling, centring and incrementing never clip or overflow.
\<close>

subsection \<open>Validators\<close>

record Validator =
  val_Address :: bytes
  val_PubKey :: "bytes option"
  val_VotingPower :: int64
  val_ProposerPriority :: int64

datatype val_error =
    NilValidator
  | NoPublicKey
  | NegativeVotingPower
  | WrongAddressSize

datatype vs_error =
    ErrEmptySet
  | ErrInvalidValidator nat val_error
  | ErrInvalidProposer val_error
  | ErrDuplicateEntry
  | ErrNegativePower
  | ErrPowerTooHigh
  | ErrTotalVotingPowerOverflow
  | ErrDeletesNotAllowed
  | ErrEmptyResult
  | ErrRemoveUnknown bytes

definition AddressSize :: nat where
  "AddressSize = 20"

text \<open>\<^verbatim>\<open>pubKey.Address()\<close> is a method of the key; it is the parameter \<open>addr_of\<close>.\<close>

definition NewValidator :: "(bytes \<Rightarrow> bytes) \<Rightarrow> bytes \<Rightarrow> int64 \<Rightarrow> Validator" where
  "NewValidator addr_of pubKey votingPower =
     \<lparr>val_Address = addr_of pubKey, val_PubKey = Some pubKey,
      val_VotingPower = votingPower, val_ProposerPriority = 0\<rparr>"

definition Validator_ValidateBasic :: "Validator option \<Rightarrow> val_error option" where
  "Validator_ValidateBasic vo =
     (case vo of
        None \<Rightarrow> Some NilValidator
      | Some v \<Rightarrow>
          if val_PubKey v = None then Some NoPublicKey
          else if val_VotingPower v < 0 then Some NegativeVotingPower
          else if length (val_Address v) \<noteq> AddressSize then Some WrongAddressSize
          else None)"

type_synonym val_ref = "nat \<times> Validator"

definition CompareProposerPriority :: "val_ref option \<Rightarrow> val_ref \<Rightarrow> (vs_error, val_ref) result" where
  "CompareProposerPriority v other =
     (case v of
        None \<Rightarrow> Inr other
      | Some v \<Rightarrow>
          if val_ProposerPriority (snd v) > val_ProposerPriority (snd other) then Inr v
          else if val_ProposerPriority (snd v) < val_ProposerPriority (snd other) then Inr other
          else if val_Address (snd v) < val_Address (snd other) then Inr v
          else if val_Address (snd v) > val_Address (snd other) then Inr other
          else Inl (Panic ''Cannot compare identical validators''))"

subsection \<open>The validator set\<close>

definition MaxTotalVotingPower :: int64 where
  "MaxTotalVotingPower = MaxInt64 sdiv 8"

definition PriorityWindowSizeFactor :: int64 where
  "PriorityWindowSizeFactor = 2"

record ValidatorSet =
  vs_Validators :: "Validator list"
  vs_Proposer :: "Validator option"
  vs_totalVotingPower :: int64

definition IsNilOrEmpty :: "ValidatorSet \<Rightarrow> bool" where
  "IsNilOrEmpty vals \<longleftrightarrow> length (vs_Validators vals) = 0"

fun validate_validators :: "nat \<Rightarrow> Validator list \<Rightarrow> vs_error option" where
  "validate_validators idx [] = None"
| "validate_validators idx (val # rest) =
     (case Validator_ValidateBasic (Some val) of
        Some err \<Rightarrow> Some (ErrInvalidValidator idx err)
      | None \<Rightarrow> validate_validators (Suc idx) rest)"

definition ValidatorSet_ValidateBasic :: "ValidatorSet \<Rightarrow> vs_error option" where
  "ValidatorSet_ValidateBasic vals =
     (if IsNilOrEmpty vals then Some ErrEmptySet
      else case validate_validators 0 (vs_Validators vals) of
        Some err \<Rightarrow> Some err
      | None \<Rightarrow>
          (case Validator_ValidateBasic (vs_Proposer vals) of
             Some err \<Rightarrow> Some (ErrInvalidProposer err)
           | None \<Rightarrow> None))"

definition HasAddress :: "bytes \<Rightarrow> ValidatorSet \<Rightarrow> bool" where
  "HasAddress address vals \<longleftrightarrow> list_ex (\<lambda>val. val_Address val = address) (vs_Validators vals)"

fun get_by_address_from :: "nat \<Rightarrow> bytes \<Rightarrow> Validator list \<Rightarrow> int32 \<times> Validator option" where
  "get_by_address_from idx address [] = (-1, None)"
| "get_by_address_from idx address (val # rest) =
     (if val_Address val = address then (wrap32 (int idx), Some val)
      else get_by_address_from (Suc idx) address rest)"

definition GetByAddress :: "bytes \<Rightarrow> ValidatorSet \<Rightarrow> int32 \<times> Validator option" where
  "GetByAddress address vals = get_by_address_from 0 address (vs_Validators vals)"

definition GetByIndex :: "int32 \<Rightarrow> ValidatorSet \<Rightarrow> (bytes \<times> Validator) option" where
  "GetByIndex index vals =
     (if index < 0 \<or> index \<ge> int (length (vs_Validators vals)) then None
      else let val = vs_Validators vals ! nat index in Some (val_Address val, val))"

definition ValidatorSet_Size :: "ValidatorSet \<Rightarrow> nat" where
  "ValidatorSet_Size vals = length (vs_Validators vals)"

subsection \<open>Total voting power\<close>

fun sum_voting_power :: "int64 \<Rightarrow> Validator list \<Rightarrow> (vs_error, int64) result" where
  "sum_voting_power acc [] = Inr acc"
| "sum_voting_power acc (val # rest) =
     (let sum' = safeAddClip acc (val_VotingPower val)
      in if sum' > MaxTotalVotingPower
         then Inl (Panic ''Total voting power should be guarded to not exceed MaxTotalVotingPower'')
         else sum_voting_power sum' rest)"

definition updateTotalVotingPower :: "ValidatorSet \<Rightarrow> (vs_error, ValidatorSet) result" where
  "updateTotalVotingPower vals =
     and_then (sum_voting_power 0 (vs_Validators vals)) (\<lambda>sum.
       Inr (vals\<lparr>vs_totalVotingPower := sum\<rparr>))"

definition TotalVotingPower :: "ValidatorSet \<Rightarrow> (vs_error, int64 \<times> ValidatorSet) result" where
  "TotalVotingPower vals =
     and_then (if vs_totalVotingPower vals = 0 then updateTotalVotingPower vals else Inr vals)
       (\<lambda>vals. Inr (vs_totalVotingPower vals, vals))"

subsection \<open>Proposer selection\<close>

fun most_priority :: "val_ref option \<Rightarrow> nat \<Rightarrow> Validator list \<Rightarrow> (vs_error, val_ref option) result" where
  "most_priority res i [] = Inr res"
| "most_priority res i (val # rest) =
     and_then (CompareProposerPriority res (i, val)) (\<lambda>res.
       most_priority (Some res) (Suc i) rest)"

definition getValWithMostPriority :: "ValidatorSet \<Rightarrow> (vs_error, val_ref option) result" where
  "getValWithMostPriority vals = most_priority None 0 (vs_Validators vals)"

fun find_proposer :: "val_ref option \<Rightarrow> nat \<Rightarrow> Validator list \<Rightarrow> (vs_error, val_ref option) result" where
  "find_proposer proposer i [] = Inr proposer"
| "find_proposer proposer i (val # rest) =
     (if (case proposer of None \<Rightarrow> True | Some p \<Rightarrow> val_Address val \<noteq> val_Address (snd p))
      then and_then (CompareProposerPriority proposer (i, val)) (\<lambda>proposer.
             find_proposer (Some proposer) (Suc i) rest)
      else find_proposer proposer (Suc i) rest)"

definition findProposer :: "ValidatorSet \<Rightarrow> (vs_error, Validator option) result" where
  "findProposer vals =
     and_then (find_proposer None 0 (vs_Validators vals)) (\<lambda>p. Inr (map_option snd p))"

definition GetProposer :: "ValidatorSet \<Rightarrow> (vs_error, Validator option \<times> ValidatorSet) result" where
  "GetProposer vals =
     (if length (vs_Validators vals) = 0 then Inr (None, vals)
      else case vs_Proposer vals of
        Some p \<Rightarrow> Inr (Some p, vals)
      | None \<Rightarrow>
          and_then (findProposer vals) (\<lambda>p.
            case p of
              None \<Rightarrow> Inl (Panic ''nil pointer dereference'')
            | Some v \<Rightarrow> Inr (Some v, vals\<lparr>vs_Proposer := Some v\<rparr>)))"

definition map_priorities :: "(Validator \<Rightarrow> int64) \<Rightarrow> ValidatorSet \<Rightarrow> ValidatorSet" where
  "map_priorities f vals =
     vals\<lparr>vs_Validators := map (\<lambda>val. val\<lparr>val_ProposerPriority := f val\<rparr>) (vs_Validators vals)\<rparr>"

definition incrementProposerPriority :: "ValidatorSet \<Rightarrow> (vs_error, Validator \<times> ValidatorSet) result" where
  "incrementProposerPriority vals =
     (let vals = map_priorities (\<lambda>val. safeAddClip (val_ProposerPriority val) (val_VotingPower val)) vals
      in and_then (getValWithMostPriority vals) (\<lambda>mostest.
           case mostest of
             None \<Rightarrow> Inl (Panic ''nil pointer dereference'')
           | Some (i, v) \<Rightarrow>
               and_then (TotalVotingPower vals) (\<lambda>(tvp, vals).
                 let v = v\<lparr>val_ProposerPriority := safeSubClip (val_ProposerPriority v) tvp\<rparr>
                 in Inr (v, vals\<lparr>vs_Validators := (vs_Validators vals)[i := v]\<rparr>))))"

definition computeAvgProposerPriority :: "ValidatorSet \<Rightarrow> (vs_error, int64) result" where
  "computeAvgProposerPriority vals =
     (let n = int (length (vs_Validators vals));
          sum = (\<Sum>val\<leftarrow>vs_Validators vals. val_ProposerPriority val);
          avg = sum div n
      in if n = 0 then Inl (Panic ''division by zero'')
         else if int64_range avg then Inr avg
         else Inl (Panic ''Cannot represent avg ProposerPriority as an int64''))"

fun max_min_priority :: "int64 \<Rightarrow> int64 \<Rightarrow> Validator list \<Rightarrow> int64 \<times> int64" where
  "max_min_priority mx mn [] = (mx, mn)"
| "max_min_priority mx mn (v # rest) =
     max_min_priority
       (if val_ProposerPriority v > mx then val_ProposerPriority v else mx)
       (if val_ProposerPriority v < mn then val_ProposerPriority v else mn) rest"

definition computeMaxMinPriorityDiff :: "ValidatorSet \<Rightarrow> (vs_error, int64) result" where
  "computeMaxMinPriorityDiff vals =
     (if IsNilOrEmpty vals then Inl (Panic ''empty validator set'')
      else
        let (mx, mn) = max_min_priority MinInt64 MaxInt64 (vs_Validators vals);
            diff = wrap64 (mx - mn)
        in Inr (if diff < 0 then wrap64 (-1 * diff) else diff))"

definition RescalePriorities :: "int64 \<Rightarrow> ValidatorSet \<Rightarrow> (vs_error, ValidatorSet) result" where
  "RescalePriorities diffMax vals =
     (if IsNilOrEmpty vals then Inl (Panic ''empty validator set'')
      else if diffMax \<le> 0 then Inr vals
      else
        and_then (computeMaxMinPriorityDiff vals) (\<lambda>diff.
          let ratio = wrap64 (wrap64 (wrap64 (diff + diffMax) - 1) sdiv diffMax)
          in if diff > diffMax then
               (if ratio = 0 then Inl (Panic ''integer divide by zero'')
                else Inr (map_priorities (\<lambda>val. wrap64 (val_ProposerPriority val sdiv ratio)) vals))
             else Inr vals))"

definition shiftByAvgProposerPriority :: "ValidatorSet \<Rightarrow> (vs_error, ValidatorSet) result" where
  "shiftByAvgProposerPriority vals =
     (if IsNilOrEmpty vals then Inl (Panic ''empty validator set'')
      else and_then (computeAvgProposerPriority vals) (\<lambda>avg.
        Inr (map_priorities (\<lambda>val. safeSubClip (val_ProposerPriority val) avg) vals)))"

fun increment_times :: "nat \<Rightarrow> Validator option \<Rightarrow> ValidatorSet \<Rightarrow> (vs_error, Validator option \<times> ValidatorSet) result" where
  "increment_times 0 proposer vals = Inr (proposer, vals)"
| "increment_times (Suc i) proposer vals =
     and_then (incrementProposerPriority vals) (\<lambda>(p, vals). increment_times i (Some p) vals)"

definition IncrementProposerPriority :: "int32 \<Rightarrow> ValidatorSet \<Rightarrow> (vs_error, ValidatorSet) result" where
  "IncrementProposerPriority ntimes vals =
     (if IsNilOrEmpty vals then Inl (Panic ''empty validator set'')
      else if ntimes \<le> 0
      then Inl (Panic ''Cannot call IncrementProposerPriority with non-positive times'')
      else
        and_then (TotalVotingPower vals) (\<lambda>(tvp, vals).
        and_then (RescalePriorities (wrap64 (PriorityWindowSizeFactor * tvp)) vals) (\<lambda>vals.
        and_then (shiftByAvgProposerPriority vals) (\<lambda>vals.
        and_then (increment_times (nat ntimes) None vals) (\<lambda>(proposer, vals).
          Inr (vals\<lparr>vs_Proposer := proposer\<rparr>))))))"

definition CopyIncrementProposerPriority :: "int32 \<Rightarrow> ValidatorSet \<Rightarrow> (vs_error, ValidatorSet) result" where
  "CopyIncrementProposerPriority ntimes vals =
     (let copy = vals in IncrementProposerPriority ntimes copy)"


subsection \<open>Well-formed validator sets\<close>

abbreviation power_sum :: "Validator list \<Rightarrow> int" where
  "power_sum vs \<equiv> (\<Sum>v\<leftarrow>vs. val_VotingPower v)"

abbreviation priority_sum :: "Validator list \<Rightarrow> int" where
  "priority_sum vs \<equiv> (\<Sum>v\<leftarrow>vs. val_ProposerPriority v)"

definition validators_wf :: "Validator list \<Rightarrow> bool" where
  "validators_wf vs \<longleftrightarrow>
     distinct (map val_Address vs) \<and> (\<forall>v \<in> set vs. 0 < val_VotingPower v) \<and>
     power_sum vs \<le> MaxTotalVotingPower"

definition vset_wf :: "ValidatorSet \<Rightarrow> bool" where
  "vset_wf vals \<longleftrightarrow>
     validators_wf (vs_Validators vals) \<and>
     (vs_totalVotingPower vals = 0 \<or> vs_totalVotingPower vals = power_sum (vs_Validators vals))"

text \<open>What an operation on priorities leaves alone: members, keys and powers, in order.\<close>

definition members :: "Validator list \<Rightarrow> (bytes \<times> bytes option \<times> int64) list" where
  "members vs = map (\<lambda>v. (val_Address v, val_PubKey v, val_VotingPower v)) vs"

lemma MaxTotalVotingPower_eq: "MaxTotalVotingPower = 1152921504606846975"
  by (simp add: MaxTotalVotingPower_def MaxInt64_def signed_divide_int_def)

lemma members_addresses: "members vs = members vs' \<Longrightarrow> map val_Address vs = map val_Address vs'"
  by (drule arg_cong [where f = "map fst"]) (simp add: members_def comp_def)

lemma members_powers: "members vs = members vs' \<Longrightarrow> map val_VotingPower vs = map val_VotingPower vs'"
  by (drule arg_cong [where f = "map (snd \<circ> snd)"]) (simp add: members_def comp_def)

lemma members_power_sum: "members vs = members vs' \<Longrightarrow> power_sum vs = power_sum vs'"
  by (drule members_powers) simp

lemma members_length: "members vs = members vs' \<Longrightarrow> length vs = length vs'"
  by (drule arg_cong [where f = length]) (simp add: members_def)

lemma members_nth:
  assumes "members vs = members vs'" "j < length vs'"
  shows "val_Address (vs ! j) = val_Address (vs' ! j)" "val_VotingPower (vs ! j) = val_VotingPower (vs' ! j)"
  using arg_cong [OF members_addresses [OF assms(1)], of "\<lambda>l. l ! j"]
    arg_cong [OF members_powers [OF assms(1)], of "\<lambda>l. l ! j"] assms(2) members_length [OF assms(1)]
  by simp_all

lemma members_wf: "members vs = members vs' \<Longrightarrow> validators_wf vs \<longleftrightarrow> validators_wf vs'"
proof -
  assume m: "members vs = members vs'"
  have "val_VotingPower ` set vs = val_VotingPower ` set vs'"
    using members_powers [OF m] by (metis set_map)
  then have "(\<forall>v \<in> set vs. 0 < val_VotingPower v) \<longleftrightarrow> (\<forall>v \<in> set vs'. 0 < val_VotingPower v)"
    by (metis (no_types, opaque_lifting) image_iff)
  then show ?thesis
    using members_addresses [OF m] members_power_sum [OF m] by (simp add: validators_wf_def)
qed

lemma members_map_priority [simp]:
  "members (map (\<lambda>v. v\<lparr>val_ProposerPriority := f v\<rparr>) vs) = members vs"
  by (simp add: members_def comp_def)

lemma members_update_priority [simp]:
  assumes "i < length vs"
  shows "members (vs[i := (vs ! i)\<lparr>val_ProposerPriority := p\<rparr>]) = members vs"
  using assms by (simp add: members_def map_update list_update_same_conv)

lemma map_priorities_simps [simp]:
  "vs_Validators (map_priorities f vals) = map (\<lambda>v. v\<lparr>val_ProposerPriority := f v\<rparr>) (vs_Validators vals)"
  "vs_Proposer (map_priorities f vals) = vs_Proposer vals"
  "vs_totalVotingPower (map_priorities f vals) = vs_totalVotingPower vals"
  by (simp_all add: map_priorities_def)

lemma power_le_sum:
  "validators_wf vs \<Longrightarrow> v \<in> set vs \<Longrightarrow> val_VotingPower v \<le> power_sum vs"
  by (rule sum_list_nonneg_mem) (auto simp: validators_wf_def less_imp_le)

lemma power_sum_pos: "validators_wf vs \<Longrightarrow> vs \<noteq> [] \<Longrightarrow> 0 < power_sum vs"
  using power_le_sum [of vs "hd vs"] by (cases vs) (auto simp: validators_wf_def)

lemma power_sum_nonneg: "validators_wf vs \<Longrightarrow> 0 \<le> power_sum vs"
  using power_sum_pos [of vs] by (cases vs) auto

lemma power_range: "validators_wf vs \<Longrightarrow> v \<in> set vs \<Longrightarrow> int64_range (val_VotingPower v)"
  using power_le_sum [of vs v]
  by (auto simp: validators_wf_def int64_range_iff int_limits MaxTotalVotingPower_eq)

subsection \<open>Total voting power: exact, or a panic\<close>

lemma sum_voting_power_exact:
  assumes "\<forall>v \<in> set vs. 0 \<le> val_VotingPower v \<and> val_VotingPower v \<le> MaxInt64"
    and "0 \<le> acc" "acc \<le> MaxTotalVotingPower"
  shows "sum_voting_power acc vs = Inr (acc + power_sum vs) \<and> acc + power_sum vs \<le> MaxTotalVotingPower \<or>
     (\<exists>s. sum_voting_power acc vs = Inl (Panic s)) \<and> acc + power_sum vs > MaxTotalVotingPower"
  using assms
proof (induction vs arbitrary: acc)
  case (Cons v vs)
  have rest: "0 \<le> power_sum vs"
    using Cons.prems(1) by (intro sum_list_nonneg) auto
  have clip: "safeAddClip acc (val_VotingPower v) = clamp64 (acc + val_VotingPower v)"
    using Cons.prems by (intro safeAddClip_clamp) (auto simp: int64_range_iff int_limits MaxTotalVotingPower_eq)
  show ?case
  proof (cases "acc + val_VotingPower v > MaxTotalVotingPower")
    case True
    then have "clamp64 (acc + val_VotingPower v) > MaxTotalVotingPower"
      by (auto simp: clamp64_def int_limits MaxTotalVotingPower_eq)
    with True rest clip show ?thesis by (simp add: Let_def)
  next
    case False
    then have "clamp64 (acc + val_VotingPower v) = acc + val_VotingPower v"
      using Cons.prems by (simp add: clamp64_def int_limits MaxTotalVotingPower_eq)
    with False clip Cons.prems Cons.IH [of "acc + val_VotingPower v"] show ?thesis
      by (simp add: Let_def add.assoc)
  qed
qed simp

lemma TotalVotingPower_wf:
  assumes "vset_wf vals"
  shows "TotalVotingPower vals =
    Inr (power_sum (vs_Validators vals), vals\<lparr>vs_totalVotingPower := power_sum (vs_Validators vals)\<rparr>)"
proof (cases "vs_totalVotingPower vals = 0")
  case True
  have "sum_voting_power 0 (vs_Validators vals) = Inr (power_sum (vs_Validators vals))"
    using sum_voting_power_exact [of "vs_Validators vals" 0] assms power_range
    by (auto simp: vset_wf_def validators_wf_def int64_range_iff less_imp_le MaxTotalVotingPower_eq)
  with True show ?thesis by (simp add: TotalVotingPower_def updateTotalVotingPower_def)
next
  case False
  with assms show ?thesis by (auto simp: TotalVotingPower_def vset_wf_def)
qed

subsection \<open>The validator with the most priority\<close>

text \<open>Higher priority first, ties broken by the smaller address.\<close>

definition priority_key :: "Validator \<Rightarrow> int \<times> bytes" where
  "priority_key v = (- val_ProposerPriority v, val_Address v)"

definition has_most_priority :: "Validator list \<Rightarrow> nat \<Rightarrow> bool" where
  "has_most_priority vs i \<longleftrightarrow>
     i < length vs \<and> (\<forall>j < length vs. j \<noteq> i \<longrightarrow> priority_key (vs ! i) < priority_key (vs ! j))"

lemma CompareProposerPriority_key:
  "CompareProposerPriority (Some v) w =
     (if priority_key (snd v) < priority_key (snd w) then Inr v
      else if priority_key (snd w) < priority_key (snd v) then Inr w
      else Inl (Panic ''Cannot compare identical validators''))"
  by (auto simp: CompareProposerPriority_def priority_key_def)

lemma priority_key_eq_address: "priority_key v = priority_key w \<Longrightarrow> val_Address v = val_Address w"
  by (simp add: priority_key_def)

lemma priority_key_linear:
  "val_Address v \<noteq> val_Address w \<Longrightarrow> priority_key v < priority_key w \<or> priority_key w < priority_key v"
  using priority_key_eq_address by (metis linorder_neqE)

lemma most_priority_from:
  assumes "distinct (map val_Address (ys @ vs))" "has_most_priority ys i"
  shows "\<exists>k. most_priority (Some (i, ys ! i)) (length ys) vs = Inr (Some (k, (ys @ vs) ! k)) \<and>
     has_most_priority (ys @ vs) k"
  using assms
proof (induction vs arbitrary: ys i)
  case Nil
  then show ?case by (auto simp: has_most_priority_def intro!: exI [of _ i])
next
  case (Cons v vs)
  have i: "i < length ys" using Cons.prems(2) by (simp add: has_most_priority_def)
  have "val_Address v \<notin> val_Address ` set ys" using Cons.prems(1) by auto
  then have ne: "val_Address (ys ! i) \<noteq> val_Address v"
    using nth_mem [OF i] by (metis imageI)
  have step: "\<exists>k. CompareProposerPriority (Some (i, ys ! i)) (length ys, v) = Inr (k, (ys @ [v]) ! k) \<and>
      has_most_priority (ys @ [v]) k"
  proof (cases "priority_key (ys ! i) < priority_key v")
    case True
    then show ?thesis
      using Cons.prems(2) i
      by (intro exI [of _ i]) (auto simp: CompareProposerPriority_key has_most_priority_def nth_append less_Suc_eq)
  next
    case False
    then have "priority_key v < priority_key (ys ! i)"
      using priority_key_linear [OF ne] by blast
    then show ?thesis
      using Cons.prems(2) False i
      by (intro exI [of _ "length ys"])
        (auto simp: CompareProposerPriority_key has_most_priority_def nth_append less_Suc_eq
          intro: less_trans dest: less_asym)
  qed
  then obtain k where k: "CompareProposerPriority (Some (i, ys ! i)) (length ys, v) = Inr (k, (ys @ [v]) ! k)"
    "has_most_priority (ys @ [v]) k" by blast
  with Cons.IH [of "ys @ [v]" k] Cons.prems(1) show ?case by simp
qed

lemma getValWithMostPriority_spec:
  assumes "distinct (map val_Address (vs_Validators vals))" "vs_Validators vals \<noteq> []"
  shows "\<exists>i. getValWithMostPriority vals = Inr (Some (i, vs_Validators vals ! i)) \<and>
     has_most_priority (vs_Validators vals) i"
proof -
  obtain v vs where eq: "vs_Validators vals = v # vs"
    using assms(2) by (cases "vs_Validators vals") auto
  have "has_most_priority [v] 0" by (simp add: has_most_priority_def)
  then show ?thesis
    using most_priority_from [of "[v]" vs 0] assms(1)
    by (simp add: eq getValWithMostPriority_def CompareProposerPriority_def)
qed

lemma find_proposer_eq_most_priority:
  assumes "distinct (map val_Address vs)"
    and "case p of None \<Rightarrow> True | Some q \<Rightarrow> val_Address (snd q) \<notin> val_Address ` set vs"
  shows "find_proposer p i vs = most_priority p i vs"
  using assms
proof (induction vs arbitrary: p i)
  case (Cons v vs)
  have "find_proposer (Some q) (Suc i) vs = most_priority (Some q) (Suc i) vs"
    if "CompareProposerPriority p (i, v) = Inr q" for q
  proof (rule Cons.IH)
    show "distinct (map val_Address vs)" using Cons.prems(1) by simp
    show "case Some q of None \<Rightarrow> True | Some q \<Rightarrow> val_Address (snd q) \<notin> val_Address ` set vs"
      using that Cons.prems
      by (auto simp: CompareProposerPriority_def split: option.splits if_splits)
  qed
  with Cons.prems(2) show ?case
    by (cases "CompareProposerPriority p (i, v)") (auto split: option.splits)
qed simp

lemma findProposer_spec:
  assumes "distinct (map val_Address (vs_Validators vals))"
  shows "findProposer vals = and_then (getValWithMostPriority vals) (\<lambda>p. Inr (map_option snd p))"
  using find_proposer_eq_most_priority [OF assms, of None 0]
  by (simp add: findProposer_def getValWithMostPriority_def)

end
