(* ===== verification/Bit_Array.thy ===== *)
theory Bit_Array
  imports Prelude
begin

text \<open>
  The bit arrays of \<^verbatim>\<open>libs/bits/bit_array.go\<close>: a number of bits and the 64-bit words that hold
  them. A nil pointer is \<open>None\<close>, locks are left out, an index out of range is a panic. Well-formed
  arrays are abstracted to a list of booleans, on which every operation is specified.
\<close>

unbundle bit_operations_syntax

section \<open>Operations\<close>

record BitArray =
  ba_Bits :: int
  ba_Elems :: "64 word list"

datatype ba_error = ErrBitArrayFormat

definition num_elems :: "int \<Rightarrow> nat" where
  "num_elems bits = nat ((bits + 63) sdiv 64)"

definition NewBitArray :: "int \<Rightarrow> BitArray option" where
  "NewBitArray bits =
     (if bits \<le> 0 then None
      else Some \<lparr>ba_Bits = bits, ba_Elems = replicate (num_elems bits) 0\<rparr>)"

definition BitArray_Size :: "BitArray option \<Rightarrow> int" where
  "BitArray_Size bA = (case bA of None \<Rightarrow> 0 | Some a \<Rightarrow> ba_Bits a)"

text \<open>The shift \<^verbatim>\<open>uint64(1) << uint(i%64)\<close>; a negative remainder becomes a huge shift and gives 0.\<close>

definition index_mask :: "int \<Rightarrow> 64 word" where
  "index_mask i = (let r = i smod 64 in if r < 0 then 0 else push_bit (nat r) 1)"

definition elem_index :: "BitArray \<Rightarrow> int \<Rightarrow> (ba_error, nat) result" where
  "elem_index a i =
     (let k = i sdiv 64
      in if k < 0 \<or> int (length (ba_Elems a)) \<le> k then Inl (Panic ''index out of range'') else Inr (nat k))"

definition getIndex :: "BitArray \<Rightarrow> int \<Rightarrow> (ba_error, bool) result" where
  "getIndex a i =
     (if i \<ge> ba_Bits a then Inr False
      else and_then (elem_index a i) (\<lambda>k. Inr (ba_Elems a ! k AND index_mask i > 0)))"

definition GetIndex :: "BitArray option \<Rightarrow> int \<Rightarrow> (ba_error, bool) result" where
  "GetIndex bA i = (case bA of None \<Rightarrow> Inr False | Some a \<Rightarrow> getIndex a i)"

definition setIndex :: "BitArray \<Rightarrow> int \<Rightarrow> bool \<Rightarrow> (ba_error, bool \<times> BitArray) result" where
  "setIndex a i v =
     (if i \<ge> ba_Bits a then Inr (False, a)
      else and_then (elem_index a i) (\<lambda>k.
        Inr (True, a\<lparr>ba_Elems := (ba_Elems a)[k :=
          (if v then ba_Elems a ! k OR index_mask i else ba_Elems a ! k AND NOT (index_mask i))]\<rparr>)))"

definition SetIndex :: "BitArray option \<Rightarrow> int \<Rightarrow> bool \<Rightarrow> (ba_error, bool \<times> BitArray option) result" where
  "SetIndex bA i v =
     (case bA of None \<Rightarrow> Inr (False, None)
      | Some a \<Rightarrow> and_then (setIndex a i v) (\<lambda>(r, a). Inr (r, Some a)))"

definition BitArray_Copy :: "BitArray option \<Rightarrow> BitArray option" where
  "BitArray_Copy bA = (case bA of None \<Rightarrow> None | Some a \<Rightarrow> Some \<lparr>ba_Bits = ba_Bits a, ba_Elems = ba_Elems a\<rparr>)"

definition copyBits :: "BitArray \<Rightarrow> int \<Rightarrow> BitArray" where
  "copyBits a bits =
     \<lparr>ba_Bits = bits,
      ba_Elems = take (num_elems bits) (ba_Elems a) @ replicate (num_elems bits - length (ba_Elems a)) 0\<rparr>"

text \<open>A loop that combines the first \<open>n\<close> words of two slices in place.\<close>

definition zip_words :: "(64 word \<Rightarrow> 64 word \<Rightarrow> 64 word) \<Rightarrow> nat \<Rightarrow> 64 word list \<Rightarrow> 64 word list \<Rightarrow> 64 word list" where
  "zip_words f n c oe = map (\<lambda>(x, y). f x y) (zip (take n c) (take n oe)) @ drop n c"

definition BitArray_Or :: "BitArray option \<Rightarrow> BitArray option \<Rightarrow> BitArray option" where
  "BitArray_Or bA ob =
     (case (bA, ob) of
        (None, None) \<Rightarrow> None
      | (None, Some _) \<Rightarrow> BitArray_Copy ob
      | (Some _, None) \<Rightarrow> BitArray_Copy bA
      | (Some a, Some b) \<Rightarrow>
          let c = copyBits a (max (ba_Bits a) (ba_Bits b));
              smaller = min (length (ba_Elems a)) (length (ba_Elems b))
          in Some (c\<lparr>ba_Elems := zip_words (OR) smaller (ba_Elems c) (ba_Elems b)\<rparr>))"

definition BitArray_And :: "BitArray option \<Rightarrow> BitArray option \<Rightarrow> (ba_error, BitArray option) result" where
  "BitArray_And bA ob =
     (case (bA, ob) of
        (Some a, Some b) \<Rightarrow>
          let c = copyBits a (min (ba_Bits a) (ba_Bits b))
          in if length (ba_Elems b) < length (ba_Elems c) then Inl (Panic ''index out of range'')
             else Inr (Some (c\<lparr>ba_Elems := zip_words (AND) (length (ba_Elems c)) (ba_Elems c) (ba_Elems b)\<rparr>))
      | _ \<Rightarrow> Inr None)"

definition BitArray_Not :: "BitArray option \<Rightarrow> BitArray option" where
  "BitArray_Not bA =
     (case bA of None \<Rightarrow> None | Some a \<Rightarrow> Some (a\<lparr>ba_Elems := map NOT (ba_Elems a)\<rparr>))"

definition BitArray_Sub :: "BitArray option \<Rightarrow> BitArray option \<Rightarrow> BitArray option" where
  "BitArray_Sub bA ob =
     (case (bA, ob) of
        (Some a, Some b) \<Rightarrow>
          let c = copyBits a (ba_Bits a);
              smaller = min (length (ba_Elems a)) (length (ba_Elems b))
          in Some (c\<lparr>ba_Elems := zip_words (\<lambda>x y. x AND NOT y) smaller (ba_Elems c) (ba_Elems b)\<rparr>)
      | _ \<Rightarrow> None)"

definition BitArray_IsEmpty :: "BitArray option \<Rightarrow> bool" where
  "BitArray_IsEmpty bA =
     (case bA of None \<Rightarrow> True | Some a \<Rightarrow> list_all (\<lambda>e. \<not> e > 0) (ba_Elems a))"

definition BitArray_IsFull :: "BitArray option \<Rightarrow> (ba_error, bool) result" where
  "BitArray_IsFull bA =
     (case bA of
        None \<Rightarrow> Inr True
      | Some a \<Rightarrow>
          if ba_Elems a = [] then Inl (Panic ''slice bounds out of range'')
          else if list_ex (\<lambda>elem. NOT elem \<noteq> 0) (butlast (ba_Elems a)) then Inr False
          else let lastElemBits = (ba_Bits a + 63) smod 64 + 1; lastElem = last (ba_Elems a)
               in Inr ((lastElem + 1) AND (push_bit (nat lastElemBits) 1 - 1) = 0))"

fun true_indices :: "int \<Rightarrow> int \<Rightarrow> 64 word list \<Rightarrow> (ba_error, int list) result" where
  "true_indices bits curBit [] = Inl (Panic ''index out of range'')"
| "true_indices bits curBit [lastElem] =
     Inr (map (\<lambda>i. curBit + int i)
       (filter (\<lambda>i. lastElem AND push_bit i 1 > 0) [0..<nat (bits - curBit)]))"
| "true_indices bits curBit (elem # e # rest) =
     and_then (true_indices bits (curBit + 64) (e # rest)) (\<lambda>later.
       Inr ((if elem = 0 then []
             else map (\<lambda>j. curBit + int j) (filter (\<lambda>j. elem AND push_bit j 1 > 0) [0..<64])) @ later))"

definition getTrueIndices :: "BitArray \<Rightarrow> (ba_error, int list) result" where
  "getTrueIndices a = true_indices (ba_Bits a) 0 (ba_Elems a)"

text \<open>The random number generator is the argument \<open>intn\<close>.\<close>

definition PickRandom :: "(nat \<Rightarrow> nat) \<Rightarrow> BitArray option \<Rightarrow> (ba_error, int \<times> bool) result" where
  "PickRandom intn bA =
     (case bA of
        None \<Rightarrow> Inr (0, False)
      | Some a \<Rightarrow>
          and_then (getTrueIndices a) (\<lambda>trueIndices.
            if length trueIndices = 0 then Inr (0, False)
            else Inr (trueIndices ! intn (length trueIndices), True)))"

text \<open>\<^verbatim>\<open>copy(bytes[off:], src)\<close>, and the eight bytes of a word, lowest first.\<close>

definition copy_at :: "nat \<Rightarrow> 'a list \<Rightarrow> 'a list \<Rightarrow> 'a list" where
  "copy_at off src dst = take off dst @ take (length dst - off) src @ drop (off + length src) dst"

definition PutUint64 :: "64 word \<Rightarrow> bytes" where
  "PutUint64 w = map (\<lambda>k. ucast (drop_bit (8 * k) w)) [0..<8]"

fun put_elems :: "nat \<Rightarrow> 64 word list \<Rightarrow> bytes \<Rightarrow> (ba_error, bytes) result" where
  "put_elems i [] bz = Inr bz"
| "put_elems i (e # es) bz =
     (if length bz < i * 8 then Inl (Panic ''slice bounds out of range'')
      else put_elems (Suc i) es (copy_at (i * 8) (PutUint64 e) bz))"

definition BitArray_Bytes :: "BitArray \<Rightarrow> (ba_error, bytes) result" where
  "BitArray_Bytes a = put_elems 0 (ba_Elems a) (replicate (nat ((ba_Bits a + 7) sdiv 8)) 0)"

definition BitArray_Update :: "BitArray option \<Rightarrow> BitArray option \<Rightarrow> BitArray option" where
  "BitArray_Update bA ob =
     (case (bA, ob) of
        (Some a, Some b) \<Rightarrow> Some (a\<lparr>ba_Elems := zip_words (\<lambda>x y. y) (min (length (ba_Elems a)) (length (ba_Elems b))) (ba_Elems a) (ba_Elems b)\<rparr>)
      | _ \<Rightarrow> bA)"

fun json_bits :: "BitArray \<Rightarrow> int list \<Rightarrow> (ba_error, string) result" where
  "json_bits a [] = Inr []"
| "json_bits a (i # is) =
     and_then (getIndex a i) (\<lambda>b. and_then (json_bits a is) (\<lambda>rest.
       Inr ((if b then CHR ''x'' else CHR ''_'') # rest)))"

definition BitArray_MarshalJSON :: "BitArray option \<Rightarrow> (ba_error, string) result" where
  "BitArray_MarshalJSON bA =
     (case bA of
        None \<Rightarrow> Inr ''null''
      | Some a \<Rightarrow> and_then (json_bits a (map int [0..<nat (ba_Bits a)])) (\<lambda>bits.
          Inr ([CHR 0x22] @ bits @ [CHR 0x22])))"

text \<open>The submatch of the regular expression: a quoted string of \<open>_\<close> and \<open>x\<close>.\<close>

definition match_bits :: "string \<Rightarrow> string option" where
  "match_bits b =
     (if length b \<ge> 2 \<and> hd b = CHR 0x22 \<and> last b = CHR 0x22 \<and>
         list_all (\<lambda>c. c = CHR ''_'' \<or> c = CHR ''x'') (butlast (tl b))
      then Some (butlast (tl b)) else None)"

fun set_bits :: "BitArray option \<Rightarrow> int \<Rightarrow> string \<Rightarrow> (ba_error, BitArray option) result" where
  "set_bits bA i [] = Inr bA"
| "set_bits bA i (c # cs) =
     (if c = CHR ''x'' then and_then (SetIndex bA i True) (\<lambda>(_, bA). set_bits bA (i + 1) cs)
      else set_bits bA (i + 1) cs)"

definition BitArray_UnmarshalJSON :: "string \<Rightarrow> (ba_error, BitArray) result" where
  "BitArray_UnmarshalJSON b =
     (if b = ''null'' then Inr \<lparr>ba_Bits = 0, ba_Elems = []\<rparr>
      else case match_bits b of
        None \<Rightarrow> Inl (Err ErrBitArrayFormat)
      | Some bits \<Rightarrow>
          and_then (set_bits (NewBitArray (int (length bits))) 0 bits) (\<lambda>bA2.
            case bA2 of None \<Rightarrow> Inl (Panic ''nil pointer dereference'') | Some a \<Rightarrow> Inr a))"

definition BitArray_ToProto :: "BitArray option \<Rightarrow> BitArray option" where
  "BitArray_ToProto bA =
     (case bA of None \<Rightarrow> None
      | Some a \<Rightarrow> if length (ba_Elems a) = 0 then None else Some \<lparr>ba_Bits = ba_Bits a, ba_Elems = ba_Elems a\<rparr>)"

text \<open>
  The receiver is the first argument; the assignment of nil to it in the code is not seen by the caller.
\<close>

definition BitArray_FromProto :: "BitArray \<Rightarrow> BitArray option \<Rightarrow> BitArray" where
  "BitArray_FromProto a proto =
     (case proto of None \<Rightarrow> a
      | Some p \<Rightarrow> (let a1 = a\<lparr>ba_Bits := ba_Bits p\<rparr>
          in if length (ba_Elems p) > 0 then a1\<lparr>ba_Elems := ba_Elems p\<rparr> else a1))"

section \<open>The abstraction to a list of booleans\<close>

definition ba_wf :: "BitArray \<Rightarrow> bool" where
  "ba_wf a \<longleftrightarrow> 0 < ba_Bits a \<and> length (ba_Elems a) = num_elems (ba_Bits a)"

definition ba_bit :: "BitArray \<Rightarrow> nat \<Rightarrow> bool" where
  "ba_bit a i = bit (ba_Elems a ! (i div 64)) (i mod 64)"

definition bits_of :: "BitArray \<Rightarrow> bool list" where
  "bits_of a = map (ba_bit a) [0..<nat (ba_Bits a)]"

lemma length_bits_of [simp]: "length (bits_of a) = nat (ba_Bits a)"
  by (simp add: bits_of_def)

lemma bits_of_nth [simp]: "i < nat (ba_Bits a) \<Longrightarrow> bits_of a ! i = ba_bit a i"
  by (simp add: bits_of_def)

lemma num_elems_eq: "0 \<le> b \<Longrightarrow> num_elems b = (nat b + 63) div 64"
  by (simp add: num_elems_def signed_divide_int_def nat_div_distrib nat_add_distrib)

lemma index_in_elems: "ba_wf a \<Longrightarrow> i < nat (ba_Bits a) \<Longrightarrow> i div 64 < length (ba_Elems a)"
  by (simp add: ba_wf_def num_elems_eq)

lemma elem_index_int:
  "ba_wf a \<Longrightarrow> i < nat (ba_Bits a) \<Longrightarrow> elem_index a (int i) = Inr (i div 64)"
  using index_in_elems [of a i]
  by (simp add: elem_index_def sdiv_nonneg Let_def nat_div_distrib not_le zdiv_int [of i 64, simplified, symmetric])

lemma index_mask_int: "index_mask (int i) = push_bit (i mod 64) 1"
proof -
  have "int i smod 64 = int (i mod 64)" by (simp add: signed_modulo_int_def sgn_if zmod_int)
  then show ?thesis by (simp add: index_mask_def Let_def)
qed

lemma and_mask_iff: "(w :: 64 word) AND push_bit k 1 > 0 \<longleftrightarrow> k < 64 \<and> bit w k"
proof -
  have "(w AND push_bit k 1 > 0) \<longleftrightarrow> w AND push_bit k 1 \<noteq> 0" by (simp add: word_neq_0_conv)
  also have "\<dots> \<longleftrightarrow> (\<exists>n. bit (w AND push_bit k 1) n)"
    using bit_eq_iff [of "w AND push_bit k 1" 0] by auto
  also have "\<dots> \<longleftrightarrow> k < 64 \<and> bit w k"
    by (auto simp: bit_simps dest: bit_imp_le_length)
  finally show ?thesis .
qed

lemmas and_power_iff = and_mask_iff [unfolded push_bit_of_1]

lemma getIndex_spec:
  assumes "ba_wf a"
  shows "getIndex a (int i) = Inr (i < nat (ba_Bits a) \<and> ba_bit a i)"
proof (cases "i < nat (ba_Bits a)")
  case True
  then show ?thesis
    using elem_index_int [OF assms True] by (auto simp: getIndex_def index_mask_int and_power_iff ba_bit_def)
qed (simp add: getIndex_def not_less nat_le_iff)

lemma setIndex_spec:
  assumes "ba_wf a"
  shows "\<exists>a'. setIndex a (int i) v = Inr (i < nat (ba_Bits a), a') \<and> ba_wf a' \<and>
     bits_of a' = (bits_of a)[i := v]"
proof (cases "i < nat (ba_Bits a)")
  case True
  let ?k = "i div 64"
  define e where "e = (if v then ba_Elems a ! ?k OR index_mask (int i) else ba_Elems a ! ?k AND NOT (index_mask (int i)))"
  let ?a = "a\<lparr>ba_Elems := (ba_Elems a)[?k := e]\<rparr>"
  have k: "?k < length (ba_Elems a)" using index_in_elems [OF assms True] .
  have e: "bit e n \<longleftrightarrow> (if n = i mod 64 then v else bit (ba_Elems a ! ?k) n)" if "n < 64" for n
    using that
    by (auto simp: e_def index_mask_int bit_or_iff bit_and_iff bit_not_iff bit_push_bit_iff bit_exp_iff)
  have bit: "ba_bit ?a j = (if j = i then v else ba_bit a j)" for j
  proof -
    have "ba_bit ?a j = (if j div 64 = ?k then bit e (j mod 64) else ba_bit a j)"
      using k by (simp add: ba_bit_def nth_list_update)
    moreover have "j = i" if "j div 64 = ?k" "j mod 64 = i mod 64"
      using arg_cong2 [OF that, of "\<lambda>q r. q * 64 + r"] by (simp only: div_mult_mod_eq)
    ultimately show ?thesis using e [of "j mod 64"] by (cases "j div 64 = ?k") (auto simp: ba_bit_def)
  qed
  have "bits_of ?a = (bits_of a)[i := v]"
    by (rule nth_equalityI) (simp_all add: bit nth_list_update)
  moreover have "setIndex a (int i) v = Inr (True, ?a)"
    using elem_index_int [OF assms True] True by (simp add: setIndex_def e_def)
  ultimately show ?thesis using True assms by (intro exI [of _ ?a]) (simp add: ba_wf_def)
next
  case False
  then show ?thesis using assms by (simp add: setIndex_def not_less nat_le_iff list_update_beyond)
qed

lemma NewBitArray_spec:
  "0 < n \<Longrightarrow> \<exists>a. NewBitArray n = Some a \<and> ba_wf a \<and> ba_Bits a = n \<and> bits_of a = replicate (nat n) False"
  by (auto simp: NewBitArray_def ba_wf_def bits_of_def ba_bit_def num_elems_eq
      intro!: nth_equalityI)

lemma copyBits_elem:
  assumes "i div 64 < num_elems bits"
  shows "ba_Elems (copyBits a bits) ! (i div 64) =
    (if i div 64 < length (ba_Elems a) then ba_Elems a ! (i div 64) else 0)"
  using assms by (simp add: copyBits_def nth_append)

lemma copyBits_wf: "0 < bits \<Longrightarrow> ba_wf (copyBits a bits)"
  by (simp add: ba_wf_def copyBits_def)

lemma zip_words_nth:
  assumes "i < length c" "n \<le> length oe"
  shows "zip_words f n c oe ! i = (if i < n then f (c ! i) (oe ! i) else c ! i)"
  using assms by (auto simp: zip_words_def nth_append)

lemma zip_words_length: "n \<le> length oe \<Longrightarrow> length (zip_words f n c oe) = length c"
  by (simp add: zip_words_def)

text \<open>Intersection and difference: on the common prefix the bits combine, the size is that of the code.\<close>

lemma BitArray_And_spec:
  assumes "ba_wf a" "ba_wf b"
  shows "\<exists>c. BitArray_And (Some a) (Some b) = Inr (Some c) \<and> ba_wf c \<and>
     bits_of c = map2 (\<and>) (bits_of a) (bits_of b)"
proof -
  let ?n = "min (ba_Bits a) (ba_Bits b)"
  let ?c = "copyBits a ?n"
  let ?r = "?c\<lparr>ba_Elems := zip_words (AND) (length (ba_Elems ?c)) (ba_Elems ?c) (ba_Elems b)\<rparr>"
  have n: "0 < ?n" using assms by (simp add: ba_wf_def)
  have wf: "ba_wf ?c" "ba_Bits ?c = ?n" using copyBits_wf [OF n] by (simp_all add: copyBits_def)
  have le: "length (ba_Elems ?c) \<le> length (ba_Elems b)"
    using wf n assms by (simp add: ba_wf_def num_elems_eq div_le_mono nat_mono)
  have "bits_of ?r = map2 (\<and>) (bits_of a) (bits_of b)"
  proof (rule nth_equalityI)
    show "length (bits_of ?r) = length (map2 (\<and>) (bits_of a) (bits_of b))" using wf(2) by simp
    fix i assume "i < length (bits_of ?r)"
    then have i: "i < nat ?n" using wf(2) by simp
    have k: "i div 64 < length (ba_Elems ?c)" using index_in_elems [OF wf(1)] i wf(2) by simp
    have ka: "i div 64 < length (ba_Elems a)" using index_in_elems [OF assms(1)] i by simp
    have "ba_bit ?r i \<longleftrightarrow> ba_bit a i \<and> ba_bit b i"
      using k ka le wf copyBits_elem [of i ?n a]
      by (simp add: ba_bit_def zip_words_nth bit_and_iff ba_wf_def)
    then show "bits_of ?r ! i = map2 (\<and>) (bits_of a) (bits_of b) ! i"
      using i wf(2) by (simp add: min_less_iff_conj zless_nat_eq_int_zless)
  qed
  moreover have "ba_wf ?r" using wf le by (simp add: ba_wf_def zip_words_length)
  ultimately show ?thesis using le by (auto simp: BitArray_And_def Let_def)
qed

lemma BitArray_Sub_spec:
  assumes "ba_wf a" "ba_wf b"
  shows "\<exists>c. BitArray_Sub (Some a) (Some b) = Some c \<and> ba_wf c \<and> ba_Bits c = ba_Bits a \<and>
     (\<forall>i < nat (ba_Bits a). ba_bit c i \<longleftrightarrow> ba_bit a i \<and> \<not> (i div 64 < length (ba_Elems b) \<and> ba_bit b i))"
proof -
  let ?n = "min (length (ba_Elems a)) (length (ba_Elems b))"
  let ?c = "copyBits a (ba_Bits a)"
  let ?r = "?c\<lparr>ba_Elems := zip_words (\<lambda>x y. x AND NOT y) ?n (ba_Elems ?c) (ba_Elems b)\<rparr>"
  have n: "0 < ba_Bits a" using assms by (simp add: ba_wf_def)
  have wf: "ba_wf ?c" "ba_Bits ?c = ba_Bits a" using copyBits_wf [OF n] by (simp_all add: copyBits_def)
  have "ba_bit ?r i \<longleftrightarrow> ba_bit a i \<and> \<not> (i div 64 < length (ba_Elems b) \<and> ba_bit b i)" if i: "i < nat (ba_Bits a)" for i
  proof -
    have k: "i div 64 < length (ba_Elems ?c)" using index_in_elems [OF wf(1)] i wf(2) by simp
    have ka: "i div 64 < length (ba_Elems a)" using index_in_elems [OF assms(1) i] .
    show ?thesis
      using k ka wf copyBits_elem [of i "ba_Bits a" a]
      by (auto simp: ba_bit_def zip_words_nth bit_and_iff bit_not_iff ba_wf_def)
  qed
  moreover have "ba_wf ?r" using wf by (simp add: ba_wf_def zip_words_length)
  ultimately show ?thesis using wf(2) by (auto simp: BitArray_Sub_def Let_def)
qed

text \<open>Fullness looks at whole words and at the low bits of the last one.\<close>

lemma low_bits_full:
  assumes "k \<le> 64"
  shows "((w :: 64 word) + 1) AND (push_bit k 1 - 1) = 0 \<longleftrightarrow> (\<forall>i < k. bit w i)"
proof -
  have m: "push_bit k 1 - 1 = (mask k :: 64 word)" by (simp add: mask_eq_decr_exp)
  have "(w + 1) AND mask k = take_bit k (w + 1)" by (simp add: take_bit_eq_mask)
  moreover have "take_bit k (w + 1) = 0 \<longleftrightarrow> take_bit k (uint w + 1) = 0"
  proof -
    have "take_bit k (w + 1) = 0 \<longleftrightarrow> take_bit k (uint (w + 1)) = 0"
      by (metis uint_0_iff unsigned_take_bit_eq)
    also have "uint (w + 1) = take_bit 64 (uint w + 1)" by (simp add: uint_word_ariths take_bit_eq_mod)
    also have "take_bit k (take_bit 64 (uint w + 1)) = take_bit k (uint w + 1)" using assms by (simp add: min_absorb1)
    finally show ?thesis .
  qed
  moreover have "take_bit k (uint w + 1) = 0 \<longleftrightarrow> take_bit k (uint w) = mask k"
    by (simp add: take_bit_eq_mask_iff)
  moreover have "take_bit k (uint w) = mask k \<longleftrightarrow> (\<forall>i < k. bit w i)"
    using assms by (auto simp: bit_eq_iff bit_take_bit_iff bit_mask_iff bit_uint_iff)
  ultimately show ?thesis unfolding m by simp
qed

lemma all_bits_words:
  assumes "ba_wf a"
  shows "(\<forall>i < nat (ba_Bits a). ba_bit a i) \<longleftrightarrow>
    (\<forall>w \<in> set (butlast (ba_Elems a)). NOT w = 0) \<and>
    (\<forall>i < (nat (ba_Bits a) + 63) mod 64 + 1. bit (last (ba_Elems a)) i)"
proof -
  let ?n = "nat (ba_Bits a)" and ?es = "ba_Elems a"
  define m where "m = (?n + 63) div 64 - 1"
  have n: "0 < ?n" and len: "length ?es = Suc m" using assms by (auto simp: ba_wf_def num_elems_eq m_def)
  have nm: "?n = 64 * m + ((?n + 63) mod 64 + 1)" 
  proof -
    have "1 \<le> (?n + 63) div 64" using n by simp
    then have "64 * m + 64 = 64 * ((?n + 63) div 64)" by (simp add: m_def diff_mult_distrib2)
    then show ?thesis using mult_div_mod_eq [of 64 "?n + 63"] by linarith
  qed
  have lst: "last ?es = ?es ! m" using len by (metis diff_Suc_1 last_conv_nth length_0_conv nat.distinct(1))
  have word: "NOT w = 0 \<longleftrightarrow> (\<forall>i < 64. bit w i)" for w :: "64 word"
    by (auto simp: bit_eq_iff bit_not_iff)
  have but: "(\<forall>w \<in> set (butlast ?es). NOT w = 0) \<longleftrightarrow> (\<forall>k < m. \<forall>i < 64. bit (?es ! k) i)"
    using len by (auto simp: word all_set_conv_all_nth nth_butlast)
  show ?thesis
    unfolding but lst
  proof safe
    fix k i :: nat assume all: "\<forall>i<?n. ba_bit a i" and "k < m" "i < 64"
    then have "64 * k + i < ?n" using nm by linarith
    with all \<open>i < 64\<close> show "bit (?es ! k) i" by (auto simp: ba_bit_def dest!: spec [of _ "64 * k + i"])
  next
    fix i assume all: "\<forall>i<?n. ba_bit a i" and i: "i < (?n + 63) mod 64 + 1"
    then have "64 * m + i < ?n" "i < 64" using nm by linarith+
    with all show "bit (?es ! m) i" by (auto simp: ba_bit_def dest!: spec [of _ "64 * m + i"])
  next
    fix i assume a: "\<forall>k<m. \<forall>i<64. bit (?es ! k) i" "\<forall>i<(?n + 63) mod 64 + 1. bit (?es ! m) i" and i: "i < ?n"
    show "ba_bit a i"
    proof (cases "i div 64 < m")
      case True
      then show ?thesis using a(1) by (simp add: ba_bit_def)
    next
      case False
      moreover have "i = 64 * (i div 64) + i mod 64" by simp
      moreover have "i div 64 \<le> m" using index_in_elems [OF assms i] len by simp
      ultimately have "i div 64 = m" "i = 64 * m + i mod 64" by auto
      then show ?thesis using a(2) i nm by (auto simp: ba_bit_def)
    qed
  qed
qed

lemma BitArray_IsFull_spec:
  assumes "ba_wf a"
  shows "BitArray_IsFull (Some a) = Inr (list_all id (bits_of a))"
proof -
  have ne: "ba_Elems a \<noteq> []" using index_in_elems [OF assms, of 0] assms by (auto simp: ba_wf_def)
  have smod: "nat ((ba_Bits a + 63) smod 64 + 1) = (nat (ba_Bits a) + 63) mod 64 + 1"
    using assms
    by (simp add: ba_wf_def signed_modulo_int_def sgn_if nat_add_distrib nat_mod_distrib)
  have "(\<forall>i < (nat (ba_Bits a) + 63) mod 64 + 1. bit (last (ba_Elems a)) i) \<longleftrightarrow>
     (last (ba_Elems a) + 1) AND (push_bit ((nat (ba_Bits a) + 63) mod 64 + 1) 1 - 1) = 0"
    using low_bits_full [of "(nat (ba_Bits a) + 63) mod 64 + 1" "last (ba_Elems a)"]
    by (simp add: Suc_leI)
  moreover have "list_all id (bits_of a) \<longleftrightarrow> (\<forall>i < nat (ba_Bits a). ba_bit a i)"
    by (auto simp: bits_of_def list_all_iff)
  ultimately show ?thesis
    using all_bits_words [OF assms] ne
    by (auto simp: BitArray_IsFull_def list_ex_iff smod Let_def)
qed

text \<open>The indices of the set bits, in order.\<close>

lemma upt_64_split: "64 \<le> n \<Longrightarrow> [0..<n] = [0..<64] @ map (\<lambda>i. i + 64) [0..<n - 64]"
  using upt_add_eq_append [of 0 64 "n - 64"] map_add_upt [of 64 "n - 64"] by (simp del: upt_rec_numeral)

lemma true_indices_spec:
  assumes "64 * (length es - 1) < n" "n \<le> 64 * length es"
  shows "true_indices (c + int n) c es =
    Inr (map (\<lambda>i. c + int i) (filter (\<lambda>i. bit (es ! (i div 64)) (i mod 64)) [0..<n]))"
  using assms
proof (induction "c + int n" c es arbitrary: n rule: true_indices.induct)
  case (2 c w)
  have "filter (\<lambda>i. 0 < w AND push_bit i 1) [0..<n] = filter (\<lambda>i. bit ([w] ! (i div 64)) (i mod 64)) [0..<n]"
    using "2.prems" by (intro filter_cong) (auto simp: and_mask_iff simp del: push_bit_of_1)
  then show ?case by (simp del: push_bit_of_1)
next
  case (3 c w e rest)
  let ?es = "e # rest" and ?n = "n - 64"
  let ?P = "\<lambda>i. bit ((w # ?es) ! (i div 64)) (i mod 64)"
  have n: "64 \<le> n" using "3.prems"(1) by simp
  have IH: "true_indices (c + int n) (c + 64) ?es =
      Inr (map (\<lambda>i. c + 64 + int i) (filter (\<lambda>i. bit (?es ! (i div 64)) (i mod 64)) [0..<?n]))"
    using "3.hyps" [of ?n] "3.prems" n by simp
  have "filter ?P [0..<64] = filter (\<lambda>j. 0 < w AND push_bit j 1) [0..<64]"
    by (intro filter_cong) (auto simp: and_mask_iff simp del: push_bit_of_1)
  moreover have "filter (\<lambda>j. 0 < w AND push_bit j 1) [0..<64] = []" if "w = 0"
    using that by simp
  moreover have "filter ?P (map (\<lambda>i. i + 64) [0..<?n]) =
      map (\<lambda>i. i + 64) (filter (\<lambda>i. bit (?es ! (i div 64)) (i mod 64)) [0..<?n])"
    by (simp add: filter_map comp_def div_add_self2)
  ultimately have "map (\<lambda>i. c + int i) (filter ?P [0..<n]) =
      (if w = 0 then [] else map (\<lambda>j. c + int j) (filter (\<lambda>j. 0 < w AND push_bit j 1) [0..<64])) @
      map (\<lambda>i. c + 64 + int i) (filter (\<lambda>i. bit (?es ! (i div 64)) (i mod 64)) [0..<?n])"
    unfolding upt_64_split [OF n] by (simp add: comp_def ac_simps)
  then show ?case using IH by simp
qed simp

lemma getTrueIndices_spec:
  assumes "ba_wf a"
  shows "getTrueIndices a = Inr (map int (filter (ba_bit a) [0..<nat (ba_Bits a)]))"
proof -
  have "64 * (length (ba_Elems a) - 1) < nat (ba_Bits a)" "nat (ba_Bits a) \<le> 64 * length (ba_Elems a)"
    using assms by (auto simp: ba_wf_def num_elems_eq)
  from true_indices_spec [OF this, of 0] show ?thesis
    using assms by (simp add: getTrueIndices_def ba_bit_def [abs_def] ba_wf_def comp_def)
qed

text \<open>The JSON form.\<close>

lemma json_bits_spec:
  assumes "ba_wf a"
  shows "json_bits a (map int is) =
    Inr (map (\<lambda>i. if i < nat (ba_Bits a) \<and> ba_bit a i then CHR ''x'' else CHR ''_'') is)"
  by (induction "is") (simp_all add: getIndex_spec [OF assms])

lemma set_bits_spec:
  assumes "ba_wf a" "i + length cs \<le> nat (ba_Bits a)"
  shows "\<exists>a'. set_bits (Some a) (int i) cs = Inr (Some a') \<and> ba_wf a' \<and> ba_Bits a' = ba_Bits a \<and>
     (\<forall>j < nat (ba_Bits a). bits_of a' ! j = (bits_of a ! j \<or> i \<le> j \<and> j < i + length cs \<and> cs ! (j - i) = CHR ''x''))"
  using assms
proof (induction cs arbitrary: a i)
  case (Cons c cs)
  show ?case
  proof (cases "c = CHR ''x''")
    case True
    obtain a1 where a1: "setIndex a (int i) True = Inr (i < nat (ba_Bits a), a1)" "ba_wf a1"
      "bits_of a1 = (bits_of a)[i := True]"
      using setIndex_spec [OF Cons.prems(1)] by blast
    have b1: "ba_Bits a1 = ba_Bits a"
      using arg_cong [OF a1(3), of length] a1(2) Cons.prems(1) unfolding ba_wf_def by simp linarith
    obtain a' where a': "set_bits (Some a1) (int (Suc i)) cs = Inr (Some a')" "ba_wf a'" "ba_Bits a' = ba_Bits a1"
      "\<forall>j < nat (ba_Bits a1). bits_of a' ! j = (bits_of a1 ! j \<or> Suc i \<le> j \<and> j < Suc i + length cs \<and> cs ! (j - Suc i) = CHR ''x'')"
      using Cons.IH [OF a1(2), of "Suc i"] Cons.prems(2) b1 by auto
    have "bits_of a' ! j = (bits_of a ! j \<or> i \<le> j \<and> j < i + length (c # cs) \<and> (c # cs) ! (j - i) = CHR ''x'')"
      if "j < nat (ba_Bits a)" for j
      using that a'(4) b1 Cons.prems(2) True a1(3)
      by (cases "j = i") (auto simp: nth_Cons' nth_list_update simp del: bits_of_nth)
    then show ?thesis using a1(1) a' b1 True Cons.prems by (auto simp: SetIndex_def add.commute)
  next
    case False
    then have "set_bits (Some a) (int i) (c # cs) = set_bits (Some a) (int (Suc i)) cs"
      by (simp add: add.commute)
    then show ?thesis
      using Cons.IH [OF Cons.prems(1), of "Suc i"] Cons.prems(2) False
      by (auto simp: nth_Cons' Suc_le_eq simp del: bits_of_nth)
  qed
qed (auto simp del: bits_of_nth)

section \<open>Properties\<close>

definition demo_bits :: "int \<Rightarrow> 64 word list \<Rightarrow> BitArray" where
  "demo_bits n es = \<lparr>ba_Bits = n, ba_Elems = es\<rparr>"

lemma demo_bits_wf: "ba_wf (demo_bits 70 [5, 3])" "ba_wf (demo_bits 3 [6])"
  by (simp_all add: demo_bits_def ba_wf_def num_elems_def sdiv_nonneg)

text \<open>
  C35: On well-formed arrays the packed representation implements a vector of booleans: reading and
  writing an index are list access and update, intersection is pointwise on the common prefix,
  \<^verbatim>\<open>IsFull\<close> is "all bits set" although it looks at whole words and at a masked last word,
  and \<^verbatim>\<open>getTrueIndices\<close> lists the set positions in increasing order. None of them panics.
\<close>

theorem BitArray_refines:
  assumes "ba_wf a" "ba_wf b"
  shows "GetIndex (Some a) (int i) = Inr (i < length (bits_of a) \<and> bits_of a ! i) \<and>
    (\<exists>a'. SetIndex (Some a) (int i) v = Inr (i < length (bits_of a), Some a') \<and> ba_wf a' \<and> bits_of a' = (bits_of a)[i := v]) \<and>
    (\<exists>c. BitArray_And (Some a) (Some b) = Inr (Some c) \<and> ba_wf c \<and> bits_of c = map2 (\<and>) (bits_of a) (bits_of b)) \<and>
    BitArray_IsFull (Some a) = Inr (list_all id (bits_of a)) \<and>
    getTrueIndices a = Inr (map int (filter (\<lambda>i. bits_of a ! i) [0..<length (bits_of a)]))"
proof -
  have "filter (\<lambda>i. bits_of a ! i) [0..<nat (ba_Bits a)] = filter (ba_bit a) [0..<nat (ba_Bits a)]"
    by (intro filter_cong) auto
  moreover obtain a' where "setIndex a (int i) v = Inr (i < nat (ba_Bits a), a')" "ba_wf a'" "bits_of a' = (bits_of a)[i := v]"
    using setIndex_spec [OF assms(1)] by blast
  moreover have "(i < nat (ba_Bits a) \<and> ba_bit a i) = (i < nat (ba_Bits a) \<and> bits_of a ! i)" by auto
  ultimately show ?thesis
    using getIndex_spec [OF assms(1), of i] BitArray_And_spec [OF assms] BitArray_IsFull_spec [OF assms(1)]
      getTrueIndices_spec [OF assms(1)]
    by (simp add: GetIndex_def SetIndex_def)
qed

theorem BitArray_refines_witness:
  "ba_wf (demo_bits 70 [5, 3]) \<and> ba_wf (demo_bits 3 [6]) \<and>
   GetIndex (Some (demo_bits 70 [5, 3])) 65 = Inr True \<and>
   (\<exists>c. BitArray_And (Some (demo_bits 70 [5, 3])) (Some (demo_bits 3 [6])) = Inr (Some c) \<and> bits_of c = [False, False, True])"
proof -
  have b: "bits_of (demo_bits 3 [6]) = [False, True, True]"
    by (simp add: bits_of_def ba_bit_def demo_bits_def upt_rec bit_iff_odd_drop_bit)
  have "map2 (\<and>) (bits_of (demo_bits 70 [5, 3])) [False, True, True] = [False, False, True]"
    by (simp add: bits_of_def ba_bit_def demo_bits_def upt_conv_Cons bit_iff_odd_drop_bit)
  moreover have "bits_of (demo_bits 70 [5, 3]) ! 65" "65 < length (bits_of (demo_bits 70 [5, 3]))"
    by (simp_all add: ba_bit_def demo_bits_def bit_iff_odd_drop_bit)
  ultimately show ?thesis
    using BitArray_refines [OF demo_bits_wf, of 65 True] demo_bits_wf b by auto
qed

text \<open>
  Marshalling a well-formed bit array to JSON and reading it back gives an array with the same
  bits.
\<close>

theorem BitArray_JSON_roundtrip:
  assumes "ba_wf a"
  shows "\<exists>s a'. BitArray_MarshalJSON (Some a) = Inr s \<and> BitArray_UnmarshalJSON s = Inr a' \<and>
    ba_wf a' \<and> bits_of a' = bits_of a"
proof -
  let ?n = "nat (ba_Bits a)"
  let ?cs = "map (\<lambda>i. if i < ?n \<and> ba_bit a i then CHR ''x'' else CHR ''_'') [0..<?n]"
  let ?s = "[CHR 0x22] @ ?cs @ [CHR 0x22]"
  have m: "BitArray_MarshalJSON (Some a) = Inr ?s"
    using json_bits_spec [OF assms, of "[0..<?n]"] by (simp add: BitArray_MarshalJSON_def)
  have mb: "match_bits ?s = Some ?cs" by (auto simp: match_bits_def list_all_iff)
  have n: "int ?n = ba_Bits a" "0 < ba_Bits a" using assms by (simp_all add: ba_wf_def)
  obtain a0 where a0: "NewBitArray (ba_Bits a) = Some a0" "ba_wf a0" "ba_Bits a0 = ba_Bits a"
    "bits_of a0 = replicate ?n False" using NewBitArray_spec [OF n(2)] by blast
  obtain a' where a': "set_bits (Some a0) (int 0) ?cs = Inr (Some a')" "ba_wf a'" "ba_Bits a' = ba_Bits a0"
    "\<forall>j < nat (ba_Bits a0). bits_of a' ! j = (bits_of a0 ! j \<or> 0 \<le> j \<and> j < 0 + length ?cs \<and> ?cs ! (j - 0) = CHR ''x'')"
    using set_bits_spec [OF a0(2), of 0 ?cs] a0(3) by auto
  have "bits_of a' = bits_of a"
  proof (rule nth_equalityI)
    fix j assume "j < length (bits_of a')"
    then have j: "j < ?n" using a'(3) a0(3) by simp
    then show "bits_of a' ! j = bits_of a ! j" using a'(4) a0(3,4) by (auto simp del: bits_of_nth) simp_all
  qed (use a'(3) a0(3) in simp)
  moreover have "BitArray_UnmarshalJSON ?s = Inr a'"
    using mb a0(1) a'(1) n(1) by (simp add: BitArray_UnmarshalJSON_def)
  ultimately show ?thesis using m a'(2) by blast
qed

theorem BitArray_JSON_roundtrip_witness:
  "ba_wf (demo_bits 3 [6]) \<and> BitArray_MarshalJSON (Some (demo_bits 3 [6])) = Inr [CHR 0x22, CHR ''_'', CHR ''x'', CHR ''x'', CHR 0x22] \<and>
   (\<exists>a'. BitArray_UnmarshalJSON [CHR 0x22, CHR ''_'', CHR ''x'', CHR ''x'', CHR 0x22] = Inr a' \<and> bits_of a' = bits_of (demo_bits 3 [6]))"
proof -
  have "BitArray_MarshalJSON (Some (demo_bits 3 [6])) = Inr [CHR 0x22, CHR ''_'', CHR ''x'', CHR ''x'', CHR 0x22]"
    using json_bits_spec [OF demo_bits_wf(2), of "[0, 1, 2]"]
    by (simp add: BitArray_MarshalJSON_def demo_bits_def ba_bit_def bit_iff_odd_drop_bit upt_rec)
  then show ?thesis using BitArray_JSON_roundtrip [OF demo_bits_wf(2)] demo_bits_wf(2) by auto
qed

text \<open>
  What \<^verbatim>\<open>Or\<close> computes. The size of the result is the larger one, but words of the
  second array beyond the last word of the receiver are not merged: those bits are 0 in the result even
  where they are set in the longer argument.
\<close>

theorem BitArray_Or_exact:
  assumes "ba_wf a" "ba_wf b"
  shows "\<exists>c. BitArray_Or (Some a) (Some b) = Some c \<and> ba_wf c \<and> ba_Bits c = max (ba_Bits a) (ba_Bits b) \<and>
    (\<forall>i < nat (ba_Bits c). ba_bit c i \<longleftrightarrow>
       i div 64 < length (ba_Elems a) \<and> (ba_bit a i \<or> i div 64 < length (ba_Elems b) \<and> ba_bit b i))"
proof -
  let ?m = "max (ba_Bits a) (ba_Bits b)" and ?n = "min (length (ba_Elems a)) (length (ba_Elems b))"
  let ?c = "copyBits a ?m"
  let ?r = "?c\<lparr>ba_Elems := zip_words (OR) ?n (ba_Elems ?c) (ba_Elems b)\<rparr>"
  have m: "0 < ?m" using assms by (auto simp: ba_wf_def)
  have wf: "ba_wf ?c" "ba_Bits ?c = ?m" using copyBits_wf [OF m] by (simp_all add: copyBits_def)
  have "ba_bit ?r i \<longleftrightarrow> i div 64 < length (ba_Elems a) \<and> (ba_bit a i \<or> i div 64 < length (ba_Elems b) \<and> ba_bit b i)"
    if i: "i < nat ?m" for i
  proof -
    have k: "i div 64 < length (ba_Elems ?c)" using index_in_elems [OF wf(1)] i wf(2) by simp
    then show ?thesis
      using wf copyBits_elem [of i ?m a]
      by (auto simp: ba_bit_def zip_words_nth bit_or_iff ba_wf_def)
  qed
  moreover have "ba_wf ?r" using wf by (simp add: ba_wf_def zip_words_length)
  ultimately show ?thesis using wf(2) by (auto simp: BitArray_Or_def Let_def)
qed

theorem BitArray_Or_exact_witness:
  "ba_wf (demo_bits 3 [6]) \<and> ba_wf (demo_bits 70 [5, 3]) \<and>
   (\<exists>c. BitArray_Or (Some (demo_bits 3 [6])) (Some (demo_bits 70 [5, 3])) = Some c \<and> ba_Bits c = 70 \<and>
     ba_bit (demo_bits 70 [5, 3]) 64 \<and> \<not> ba_bit c 64)"
proof -
  have "ba_bit (demo_bits 70 [5, 3]) 64" by (simp add: ba_bit_def demo_bits_def)
  moreover have "ba_Bits (demo_bits 3 [6]) = 3" "ba_Bits (demo_bits 70 [5, 3]) = 70"
    "length (ba_Elems (demo_bits 3 [6])) = 1" by (simp_all add: demo_bits_def)
  ultimately show ?thesis
    using BitArray_Or_exact [OF demo_bits_wf(2,1)] demo_bits_wf by auto
qed

end
