(* ===== verification/Wire_Format.thy ===== *)
theory Wire_Format
  imports Bit_Array
begin

text \<open>
  The bytes that are signed: the canonical vote and proposal messages of
  \<^verbatim>\<open>proto/tendermint/types/canonical.pb.go\<close>, their sizes and their encodings, and the
  length-delimited form of \<^verbatim>\<open>libs/protoio/writer.go\<close>. The code fills a buffer of the computed
  size from its end; the model is the sequence of the fields, and \<open>CanonicalVote_Size\<close> and the other
  size functions are shown to be its length. The encoding of a time is code of another package: it is
  the argument \<open>time_bytes\<close>, \<open>None\<close> where that code returns an error.
\<close>

section \<open>Encodings\<close>

text \<open>\<^verbatim>\<open>uint64(x)\<close> of a signed value.\<close>

definition uint64_of :: "int64 \<Rightarrow> nat" where
  "uint64_of x = nat (x mod 2 ^ 64)"

fun encodeVarint :: "nat \<Rightarrow> bytes" where
  "encodeVarint v = (if v \<ge> 128 then of_nat (v mod 128 + 128) # encodeVarint (v div 128) else [of_nat v])"

declare encodeVarint.simps [simp del]

text \<open>\<^verbatim>\<open>math_bits.Len64\<close> and the size of a varint.\<close>

fun Len64 :: "nat \<Rightarrow> nat" where
  "Len64 x = (if x = 0 then 0 else Suc (Len64 (x div 2)))"

declare Len64.simps [simp del]

definition sovCanonical :: "nat \<Rightarrow> nat" where
  "sovCanonical x = (Len64 (if even x then x + 1 else x) + 6) div 7"

definition len_prefixed :: "bytes \<Rightarrow> bytes" where
  "len_prefixed b = encodeVarint (length b) @ b"

definition varint_field :: "8 word \<Rightarrow> nat \<Rightarrow> bytes" where
  "varint_field t v = (if v \<noteq> 0 then t # encodeVarint v else [])"

definition fixed64_field :: "8 word \<Rightarrow> int64 \<Rightarrow> bytes" where
  "fixed64_field t x = (if x \<noteq> 0 then t # PutUint64 (of_int x) else [])"

definition bytes_field :: "8 word \<Rightarrow> bytes \<Rightarrow> bytes" where
  "bytes_field t b = (if length b > 0 then t # len_prefixed b else [])"

section \<open>Canonical messages\<close>

record CanonicalPartSetHeader =
  cp_Total :: nat
  cp_Hash :: bytes

record CanonicalBlockID =
  cb_Hash :: bytes
  cb_PartSetHeader :: CanonicalPartSetHeader

record CanonicalVote =
  cv_Type :: int32
  cv_Height :: int64
  cv_Round :: int64
  cv_BlockID :: "CanonicalBlockID option"
  cv_Timestamp :: timestamp
  cv_ChainID :: bytes

record CanonicalProposal =
  cpr_Type :: int32
  cpr_Height :: int64
  cpr_Round :: int64
  cpr_POLRound :: int64
  cpr_BlockID :: "CanonicalBlockID option"
  cpr_Timestamp :: timestamp
  cpr_ChainID :: bytes

datatype wire_error =
    ErrTimeRange
  | ErrIntOverflowCanonical
  | ErrUnexpectedEOF
  | ErrInvalidLengthCanonical
  | ErrUnexpectedEndOfGroupCanonical
  | ErrWrongWireType
  | ErrIllegalTag
  | ErrTimeFormat
  | ErrMessageTooLarge

definition CanonicalPartSetHeader_marshal :: "CanonicalPartSetHeader \<Rightarrow> bytes" where
  "CanonicalPartSetHeader_marshal m = varint_field 0x08 (cp_Total m) @ bytes_field 0x12 (cp_Hash m)"

definition CanonicalBlockID_marshal :: "CanonicalBlockID \<Rightarrow> bytes" where
  "CanonicalBlockID_marshal m =
     bytes_field 0x0a (cb_Hash m) @ [0x12] @ len_prefixed (CanonicalPartSetHeader_marshal (cb_PartSetHeader m))"

definition block_id_field :: "8 word \<Rightarrow> CanonicalBlockID option \<Rightarrow> bytes" where
  "block_id_field t b = (case b of None \<Rightarrow> [] | Some m \<Rightarrow> t # len_prefixed (CanonicalBlockID_marshal m))"

definition CanonicalVote_marshal :: "(timestamp \<Rightarrow> bytes option) \<Rightarrow> CanonicalVote \<Rightarrow> (wire_error, bytes) result" where
  "CanonicalVote_marshal time_bytes m =
     (case time_bytes (cv_Timestamp m) of
        None \<Rightarrow> Inl (Err ErrTimeRange)
      | Some tb \<Rightarrow> Inr (
          varint_field 0x08 (uint64_of (cv_Type m)) @ fixed64_field 0x11 (cv_Height m) @
          fixed64_field 0x19 (cv_Round m) @ block_id_field 0x22 (cv_BlockID m) @
          [0x2a] @ len_prefixed tb @ bytes_field 0x32 (cv_ChainID m)))"

definition CanonicalProposal_marshal :: "(timestamp \<Rightarrow> bytes option) \<Rightarrow> CanonicalProposal \<Rightarrow> (wire_error, bytes) result" where
  "CanonicalProposal_marshal time_bytes m =
     (case time_bytes (cpr_Timestamp m) of
        None \<Rightarrow> Inl (Err ErrTimeRange)
      | Some tb \<Rightarrow> Inr (
          varint_field 0x08 (uint64_of (cpr_Type m)) @ fixed64_field 0x11 (cpr_Height m) @
          fixed64_field 0x19 (cpr_Round m) @ varint_field 0x20 (uint64_of (cpr_POLRound m)) @
          block_id_field 0x2a (cpr_BlockID m) @
          [0x32] @ len_prefixed tb @ bytes_field 0x3a (cpr_ChainID m)))"

definition CanonicalPartSetHeader_Size :: "CanonicalPartSetHeader \<Rightarrow> nat" where
  "CanonicalPartSetHeader_Size m =
     (if cp_Total m \<noteq> 0 then 1 + sovCanonical (cp_Total m) else 0) +
     (let l = length (cp_Hash m) in if l > 0 then 1 + l + sovCanonical l else 0)"

definition CanonicalBlockID_Size :: "CanonicalBlockID \<Rightarrow> nat" where
  "CanonicalBlockID_Size m =
     (let l = length (cb_Hash m) in if l > 0 then 1 + l + sovCanonical l else 0) +
     (let l = CanonicalPartSetHeader_Size (cb_PartSetHeader m) in 1 + l + sovCanonical l)"

definition CanonicalVote_Size :: "(timestamp \<Rightarrow> nat) \<Rightarrow> CanonicalVote \<Rightarrow> nat" where
  "CanonicalVote_Size time_size m =
     (if cv_Type m \<noteq> 0 then 1 + sovCanonical (uint64_of (cv_Type m)) else 0) +
     (if cv_Height m \<noteq> 0 then 9 else 0) + (if cv_Round m \<noteq> 0 then 9 else 0) +
     (case cv_BlockID m of None \<Rightarrow> 0 | Some b \<Rightarrow> let l = CanonicalBlockID_Size b in 1 + l + sovCanonical l) +
     (let l = time_size (cv_Timestamp m) in 1 + l + sovCanonical l) +
     (let l = length (cv_ChainID m) in if l > 0 then 1 + l + sovCanonical l else 0)"

definition CanonicalProposal_Size :: "(timestamp \<Rightarrow> nat) \<Rightarrow> CanonicalProposal \<Rightarrow> nat" where
  "CanonicalProposal_Size time_size m =
     (if cpr_Type m \<noteq> 0 then 1 + sovCanonical (uint64_of (cpr_Type m)) else 0) +
     (if cpr_Height m \<noteq> 0 then 9 else 0) + (if cpr_Round m \<noteq> 0 then 9 else 0) +
     (if cpr_POLRound m \<noteq> 0 then 1 + sovCanonical (uint64_of (cpr_POLRound m)) else 0) +
     (case cpr_BlockID m of None \<Rightarrow> 0 | Some b \<Rightarrow> let l = CanonicalBlockID_Size b in 1 + l + sovCanonical l) +
     (let l = time_size (cpr_Timestamp m) in 1 + l + sovCanonical l) +
     (let l = length (cpr_ChainID m) in if l > 0 then 1 + l + sovCanonical l else 0)"

text \<open>\<^verbatim>\<open>MarshalDelimited\<close>: the length as a varint, then the message.\<close>

definition MarshalDelimited :: "(wire_error, bytes) result \<Rightarrow> (wire_error, bytes) result" where
  "MarshalDelimited msg = and_then msg (\<lambda>b. Inr (len_prefixed b))"

section \<open>Self-delimiting values\<close>

text \<open>
  The contract of a value on the wire: whatever follows it, the value and what follows can be read
  back. A field of such a value that is left out when it has its default can be recognised as long as
  what follows does not begin with its tag.
\<close>

definition starts_with :: "8 word \<Rightarrow> bytes \<Rightarrow> bool" where
  "starts_with t r \<longleftrightarrow> r \<noteq> [] \<and> hd r = t"

locale wire_value =
  fixes valid :: "'a \<Rightarrow> bool" and enc :: "'a \<Rightarrow> bytes"
  assumes delimited: "valid x \<Longrightarrow> valid y \<Longrightarrow> enc x @ r = enc y @ r' \<Longrightarrow> x = y \<and> r = r'"
begin

lemma optional_field:
  assumes "valid x" "valid y" "\<not> starts_with t r" "\<not> starts_with t r'"
    and "(if x \<noteq> z then t # enc x else []) @ r = (if y \<noteq> z then t # enc y else []) @ r'"
  shows "x = y \<and> r = r'"
  using assms delimited [OF assms(1,2), of r r']
  by (cases r; cases r'; auto simp: starts_with_def split: if_splits)

lemma enc_inject: "valid x \<Longrightarrow> valid y \<Longrightarrow> enc x = enc y \<Longrightarrow> x = y"
  using delimited [of x y "[]" "[]"] by simp

end

lemma unat_of_nat_byte: "x < 256 \<Longrightarrow> unat (of_nat x :: 8 word) = x"
  by (simp add: unat_of_nat)

lemma encodeVarint_delimited: "encodeVarint v @ r = encodeVarint w @ r' \<Longrightarrow> v = w \<and> r = r'"
proof (induction v arbitrary: w rule: encodeVarint.induct)
  case (1 v)
  have byte: "unat (hd (encodeVarint x @ s)) = (if x \<ge> 128 then x mod 128 + 128 else x)" for x s
    by (subst encodeVarint.simps) (auto simp: unat_of_nat_byte simp del: of_nat_add)
  have h: "(if v \<ge> 128 then v mod 128 + 128 else v) = (if w \<ge> 128 then w mod 128 + 128 else w)"
    using arg_cong [OF "1.prems", of "\<lambda>l. unat (hd l)"] unfolding byte .
  show ?case
  proof (cases "v \<ge> 128")
    case True
    with h have w: "w \<ge> 128" "v mod 128 = w mod 128" by (auto split: if_splits)
    have "encodeVarint (v div 128) @ r = encodeVarint (w div 128) @ r'"
      using "1.prems" True w(1) encodeVarint.simps [of v] encodeVarint.simps [of w] by simp
    from "1.IH" [OF True this] have "v div 128 = w div 128" and r: "r = r'" by auto
    from arg_cong2 [OF this(1) w(2), of "\<lambda>q m. q * 128 + m"] have "v = w" by (simp only: div_mult_mod_eq)
    with r show ?thesis by simp
  next
    case False
    with h have "\<not> w \<ge> 128" "v = w" by (auto split: if_splits)
    then show ?thesis using "1.prems" False encodeVarint.simps [of v] by simp
  qed
qed

lemma length_PutUint64 [simp]: "length (PutUint64 w) = 8"
  by (simp add: PutUint64_def)

lemma PutUint64_inject: "PutUint64 v = PutUint64 w \<Longrightarrow> v = w"
proof (rule bit_word_eqI)
  fix n assume eq: "PutUint64 v = PutUint64 w" and "n < LENGTH(64)"
  then have k: "n div 8 < 8" "n mod 8 < 8" by auto
  have b: "bit (PutUint64 u ! (n div 8)) (n mod 8) = bit u n" for u
    using k \<open>n < LENGTH(64)\<close> by (simp add: PutUint64_def bit_ucast_iff bit_drop_bit_eq)
  show "bit v n = bit w n" using b [of v] b [of w] eq by simp
qed

interpretation varint: wire_value "\<lambda>_. True" encodeVarint
  by unfold_locales (rule encodeVarint_delimited)

interpretation fixed64: wire_value int64_range "\<lambda>x. PutUint64 (of_int x)"
proof unfold_locales
  fix x y :: int and r r'
  assume range: "int64_range x" "int64_range y"
    and eq: "PutUint64 (of_int x) @ r = PutUint64 (of_int y) @ r'"
  then have "PutUint64 (of_int x) = PutUint64 (of_int y)" "r = r'" by auto
  then have "(of_int x :: 64 word) = of_int y" using PutUint64_inject by blast
  then have "sint (of_int x :: 64 word) = sint (of_int y :: 64 word)" by simp
  then show "x = y \<and> r = r'" using range \<open>r = r'\<close> by (simp add: wrap_int_word [symmetric])
qed

interpretation delimited: wire_value "\<lambda>_. True" len_prefixed
proof unfold_locales
  fix x y r r' assume eq: "len_prefixed x @ r = len_prefixed y @ r'"
  then have "length x = length y \<and> x @ r = y @ r'"
    unfolding len_prefixed_def by (intro encodeVarint_delimited) simp
  then show "x = y \<and> r = r'" by auto
qed

text \<open>What a field can begin with.\<close>

lemma starts_with_append:
  "\<not> starts_with t []" "starts_with t (u # r) \<longleftrightarrow> t = u"
  "\<not> starts_with t r \<Longrightarrow> t \<noteq> u \<Longrightarrow> \<not> starts_with t (varint_field u v @ r)"
  "\<not> starts_with t r \<Longrightarrow> t \<noteq> u \<Longrightarrow> \<not> starts_with t (fixed64_field u x @ r)"
  "\<not> starts_with t r \<Longrightarrow> t \<noteq> u \<Longrightarrow> \<not> starts_with t (bytes_field u b @ r)"
  "\<not> starts_with t r \<Longrightarrow> t \<noteq> u \<Longrightarrow> \<not> starts_with t (block_id_field u m @ r)"
  by (auto simp: starts_with_def varint_field_def fixed64_field_def bytes_field_def block_id_field_def split: option.splits)

lemma varint_field_read:
  assumes "varint_field t v @ r = varint_field t w @ r'" "\<not> starts_with t r" "\<not> starts_with t r'"
  shows "v = w \<and> r = r'"
  using assms by (intro varint.optional_field [where z = 0]) (simp_all add: varint_field_def)

lemma fixed64_field_read:
  assumes "fixed64_field t x @ r = fixed64_field t y @ r'" "\<not> starts_with t r" "\<not> starts_with t r'"
    and "int64_range x" "int64_range y"
  shows "x = y \<and> r = r'"
  using assms by (intro fixed64.optional_field [where z = 0]) (simp_all add: fixed64_field_def)

lemma bytes_field_read:
  assumes "bytes_field t b @ r = bytes_field t c @ r'" "\<not> starts_with t r" "\<not> starts_with t r'"
  shows "b = c \<and> r = r'"
  using assms by (intro delimited.optional_field [where z = "[]"]) (simp_all add: bytes_field_def)

lemma CanonicalPartSetHeader_marshal_inject:
  "CanonicalPartSetHeader_marshal m = CanonicalPartSetHeader_marshal n \<Longrightarrow> m = n"
proof -
  assume eq: "CanonicalPartSetHeader_marshal m = CanonicalPartSetHeader_marshal n"
  have st: "\<not> starts_with 0x08 (bytes_field 0x12 b)" for b
    using starts_with_append(5) [of "0x08" "[]" "0x12" b] by (simp add: starts_with_append)
  from varint_field_read [OF eq [unfolded CanonicalPartSetHeader_marshal_def] st st]
  have "cp_Total m = cp_Total n" "bytes_field 0x12 (cp_Hash m) @ [] = bytes_field 0x12 (cp_Hash n) @ []" by auto
  with bytes_field_read [OF this(2)] show "m = n" by (simp add: starts_with_append)
qed

lemma CanonicalBlockID_marshal_inject:
  "CanonicalBlockID_marshal m = CanonicalBlockID_marshal n \<Longrightarrow> m = n"
proof -
  assume eq: "CanonicalBlockID_marshal m = CanonicalBlockID_marshal n"
  have st: "\<not> starts_with 0x0a ([0x12] @ b)" for b by (simp add: starts_with_append)
  from bytes_field_read [OF eq [unfolded CanonicalBlockID_marshal_def] st st]
  have "cb_Hash m = cb_Hash n"
    "len_prefixed (CanonicalPartSetHeader_marshal (cb_PartSetHeader m)) =
      len_prefixed (CanonicalPartSetHeader_marshal (cb_PartSetHeader n))" by auto
  with delimited.enc_inject [OF _ _ this(2)] CanonicalPartSetHeader_marshal_inject show "m = n" by auto
qed

lemma block_id_field_read:
  assumes "block_id_field t m @ r = block_id_field t n @ r'" "\<not> starts_with t r" "\<not> starts_with t r'"
  shows "m = n \<and> r = r'"
proof (cases m)
  case None
  then show ?thesis using assms by (cases n) (auto simp: block_id_field_def starts_with_def)
next
  case (Some m')
  then obtain n' where n: "n = Some n'" using assms by (cases n) (auto simp: block_id_field_def starts_with_def)
  then have "len_prefixed (CanonicalBlockID_marshal m') @ r = len_prefixed (CanonicalBlockID_marshal n') @ r'"
    using assms(1) Some by (simp add: block_id_field_def)
  from delimited.delimited [OF _ _ this] have "CanonicalBlockID_marshal m' = CanonicalBlockID_marshal n'" "r = r'" by auto
  with CanonicalBlockID_marshal_inject Some n show ?thesis by blast
qed

lemma time_chain_read:
  assumes "[t] @ len_prefixed a @ bytes_field u c = [t] @ len_prefixed b @ bytes_field u d"
  shows "a = b \<and> c = d"
proof -
  have "len_prefixed a @ bytes_field u c = len_prefixed b @ bytes_field u d" using assms by simp
  from delimited.delimited [OF _ _ this] have "a = b" and e: "bytes_field u c @ [] = bytes_field u d @ []" by auto
  with bytes_field_read [OF e] show ?thesis by (simp add: starts_with_append)
qed

lemma uint64_of_inject: "int64_range x \<Longrightarrow> int64_range y \<Longrightarrow> uint64_of x = uint64_of y \<Longrightarrow> x = y"
proof -
  assume r: "int64_range x" "int64_range y" and "uint64_of x = uint64_of y"
  then have "x mod 2 ^ 64 = y mod 2 ^ 64" by (simp add: uint64_of_def nat_eq_iff)
  then have "(word_of_int x :: 64 word) = word_of_int y" by (simp add: word_of_int_eq_iff take_bit_eq_mod)
  then have "wrap64 x = wrap64 y" by (simp add: wrap_int_word)
  then show "x = y" using r by simp
qed

definition vote_in_range :: "CanonicalVote \<Rightarrow> bool" where
  "vote_in_range m \<longleftrightarrow> int64_range (cv_Type m) \<and> int64_range (cv_Height m) \<and> int64_range (cv_Round m)"

definition proposal_in_range :: "CanonicalProposal \<Rightarrow> bool" where
  "proposal_in_range m \<longleftrightarrow> int64_range (cpr_Type m) \<and> int64_range (cpr_Height m) \<and> int64_range (cpr_Round m) \<and>
     int64_range (cpr_POLRound m)"

text \<open>The documented behaviour of the encoder of times: different times have different encodings.\<close>

definition time_encoding :: "(timestamp \<Rightarrow> bytes option) \<Rightarrow> bool" where
  "time_encoding time_bytes \<longleftrightarrow> (\<forall>t u b. time_bytes t = Some b \<and> time_bytes u = Some b \<longrightarrow> t = u)"

definition time_sized :: "(timestamp \<Rightarrow> bytes option) \<Rightarrow> (timestamp \<Rightarrow> nat) \<Rightarrow> bool" where
  "time_sized time_bytes time_size \<longleftrightarrow> (\<forall>t b. time_bytes t = Some b \<longrightarrow> time_size t = length b)"

lemma CanonicalVote_marshal_inject:
  assumes time: "time_encoding tb" and range: "vote_in_range m" "vote_in_range n"
    and m: "CanonicalVote_marshal tb m = Inr b" and n: "CanonicalVote_marshal tb n = Inr b"
  shows "m = n"
proof -
  obtain tm tn where t: "tb (cv_Timestamp m) = Some tm" "tb (cv_Timestamp n) = Some tn"
    using m n by (auto simp: CanonicalVote_marshal_def split: option.splits)
  define rest where "rest t c = ([0x2a] @ len_prefixed t @ bytes_field 0x32 c :: bytes)" for t c
  have st: "\<not> starts_with u (rest t c)" if "u \<noteq> 0x2a" for u t c using that by (simp add: rest_def starts_with_append)
  have eq: "varint_field 0x08 (uint64_of (cv_Type m)) @ fixed64_field 0x11 (cv_Height m) @
      fixed64_field 0x19 (cv_Round m) @ block_id_field 0x22 (cv_BlockID m) @ rest tm (cv_ChainID m) =
    varint_field 0x08 (uint64_of (cv_Type n)) @ fixed64_field 0x11 (cv_Height n) @
      fixed64_field 0x19 (cv_Round n) @ block_id_field 0x22 (cv_BlockID n) @ rest tn (cv_ChainID n)"
    using m n t by (simp add: CanonicalVote_marshal_def rest_def)
  note s = starts_with_append(3-) st
  from varint_field_read [OF eq] have ty: "uint64_of (cv_Type m) = uint64_of (cv_Type n)" and
    e1: "fixed64_field 0x11 (cv_Height m) @ fixed64_field 0x19 (cv_Round m) @ block_id_field 0x22 (cv_BlockID m) @ rest tm (cv_ChainID m) =
      fixed64_field 0x11 (cv_Height n) @ fixed64_field 0x19 (cv_Round n) @ block_id_field 0x22 (cv_BlockID n) @ rest tn (cv_ChainID n)"
    by (auto simp: s)
  from fixed64_field_read [OF e1] have h: "cv_Height m = cv_Height n" and
    e2: "fixed64_field 0x19 (cv_Round m) @ block_id_field 0x22 (cv_BlockID m) @ rest tm (cv_ChainID m) =
      fixed64_field 0x19 (cv_Round n) @ block_id_field 0x22 (cv_BlockID n) @ rest tn (cv_ChainID n)"
    using range by (auto simp: s vote_in_range_def)
  from fixed64_field_read [OF e2] have rd: "cv_Round m = cv_Round n" and
    e3: "block_id_field 0x22 (cv_BlockID m) @ rest tm (cv_ChainID m) = block_id_field 0x22 (cv_BlockID n) @ rest tn (cv_ChainID n)"
    using range by (auto simp: s vote_in_range_def)
  from block_id_field_read [OF e3] have bi: "cv_BlockID m = cv_BlockID n" and
    e4: "rest tm (cv_ChainID m) = rest tn (cv_ChainID n)" by (auto simp: s)
  from time_chain_read [OF e4 [unfolded rest_def]]
  have "cv_ChainID m = cv_ChainID n" "cv_Timestamp m = cv_Timestamp n"
    using t time by (auto simp: time_encoding_def)
  moreover have "cv_Type m = cv_Type n" using ty range by (simp add: vote_in_range_def uint64_of_inject)
  ultimately show ?thesis using h rd bi by simp
qed

lemma CanonicalProposal_marshal_inject:
  assumes time: "time_encoding tb" and range: "proposal_in_range m" "proposal_in_range n"
    and m: "CanonicalProposal_marshal tb m = Inr b" and n: "CanonicalProposal_marshal tb n = Inr b"
  shows "m = n"
proof -
  obtain tm tn where t: "tb (cpr_Timestamp m) = Some tm" "tb (cpr_Timestamp n) = Some tn"
    using m n by (auto simp: CanonicalProposal_marshal_def split: option.splits)
  define rest where "rest t c = ([0x32] @ len_prefixed t @ bytes_field 0x3a c :: bytes)" for t c
  have st: "\<not> starts_with u (rest t c)" if "u \<noteq> 0x32" for u t c using that by (simp add: rest_def starts_with_append)
  define r3 where "r3 p t = varint_field 0x20 (uint64_of (cpr_POLRound p)) @ block_id_field 0x2a (cpr_BlockID p) @ rest t (cpr_ChainID p)" for p :: CanonicalProposal and t
  have st3: "\<not> starts_with u (r3 p t)" if "u \<notin> {0x20, 0x2a, 0x32}" for u p t
    using that by (simp add: r3_def starts_with_append st)
  have eq: "varint_field 0x08 (uint64_of (cpr_Type m)) @ fixed64_field 0x11 (cpr_Height m) @ fixed64_field 0x19 (cpr_Round m) @ r3 m tm =
    varint_field 0x08 (uint64_of (cpr_Type n)) @ fixed64_field 0x11 (cpr_Height n) @ fixed64_field 0x19 (cpr_Round n) @ r3 n tn"
    using m n t by (simp add: CanonicalProposal_marshal_def rest_def r3_def)
  note s = starts_with_append(3-) st st3
  from varint_field_read [OF eq] have ty: "uint64_of (cpr_Type m) = uint64_of (cpr_Type n)" and
    e1: "fixed64_field 0x11 (cpr_Height m) @ fixed64_field 0x19 (cpr_Round m) @ r3 m tm =
      fixed64_field 0x11 (cpr_Height n) @ fixed64_field 0x19 (cpr_Round n) @ r3 n tn" by (auto simp: s)
  from fixed64_field_read [OF e1] have h: "cpr_Height m = cpr_Height n" and
    e2: "fixed64_field 0x19 (cpr_Round m) @ r3 m tm = fixed64_field 0x19 (cpr_Round n) @ r3 n tn"
    using range by (auto simp: s proposal_in_range_def)
  from fixed64_field_read [OF e2] have rd: "cpr_Round m = cpr_Round n" and e3: "r3 m tm = r3 n tn"
    using range by (auto simp: s proposal_in_range_def)
  from varint_field_read [OF e3 [unfolded r3_def]] have pol: "uint64_of (cpr_POLRound m) = uint64_of (cpr_POLRound n)" and
    e4: "block_id_field 0x2a (cpr_BlockID m) @ rest tm (cpr_ChainID m) = block_id_field 0x2a (cpr_BlockID n) @ rest tn (cpr_ChainID n)"
    by (auto simp: s)
  from block_id_field_read [OF e4] have bi: "cpr_BlockID m = cpr_BlockID n" and
    e5: "rest tm (cpr_ChainID m) = rest tn (cpr_ChainID n)" by (auto simp: s)
  from time_chain_read [OF e5 [unfolded rest_def]]
  have "cpr_ChainID m = cpr_ChainID n" "cpr_Timestamp m = cpr_Timestamp n"
    using t time by (auto simp: time_encoding_def)
  moreover have "cpr_Type m = cpr_Type n" "cpr_POLRound m = cpr_POLRound n"
    using ty pol range by (simp_all add: proposal_in_range_def uint64_of_inject)
  ultimately show ?thesis using h rd bi by simp
qed

text \<open>The size functions.\<close>

lemma Len64_pos: "0 < x \<Longrightarrow> 0 < Len64 x"
  by (subst Len64.simps) simp

lemma Len64_bound: "x < 2 ^ k \<longleftrightarrow> Len64 x \<le> k"
proof (induction k arbitrary: x)
  case 0
  show ?case using Len64_pos [of x] Len64.simps [of x] by auto
next
  case (Suc k)
  show ?case
  proof (cases "x = 0")
    case False
    then have "Len64 x = Suc (Len64 (x div 2))" by (subst Len64.simps) simp
    moreover have "x < 2 ^ Suc k \<longleftrightarrow> x div 2 < 2 ^ k" by auto
    ultimately show ?thesis using Suc.IH [of "x div 2"] by simp
  qed (simp add: Len64.simps)
qed

lemma Len64_shift: "2 ^ k \<le> x \<Longrightarrow> Len64 x = Len64 (x div 2 ^ k) + k"
proof (induction k arbitrary: x)
  case (Suc k)
  then have x: "0 < x" "2 ^ k \<le> x div 2" using less_le_trans [OF _ Suc.prems, of 0] by auto
  have "Len64 x = Suc (Len64 (x div 2))" using x(1) by (subst Len64.simps) simp
  then show ?case using Suc.IH [OF x(2)] by (simp add: div_mult2_eq)
qed simp

lemma Len64_odd: "0 < x \<Longrightarrow> Len64 (if even x then x + 1 else x) = Len64 x"
  using Len64.simps [of x] Len64.simps [of "x + 1"] by auto

lemma sovCanonical_length: "length (encodeVarint v) = sovCanonical v"
proof (induction v rule: encodeVarint.induct)
  case (1 v)
  let ?odd = "\<lambda>x. if even x then x + 1 else x"
  show ?case
  proof (cases "v \<ge> 128")
    case True
    have "Len64 (?odd v) = Len64 (?odd (v div 128)) + 7"
      using Len64_odd [of v] Len64_odd [of "v div 128"] Len64_shift [of 7 v] True by (simp add: div_greater_zero_iff)
    moreover have "(n + 7 + 6) div 7 = Suc ((n + 6) div 7)" for n :: nat by simp
    ultimately have "sovCanonical v = Suc (sovCanonical (v div 128))" unfolding sovCanonical_def by metis
    then show ?thesis using "1.IH" [OF True] True by (subst encodeVarint.simps) simp
  next
    case False
    have "?odd v < 2 ^ 7"
    proof (cases "v = 127")
      case neq: False
      then show ?thesis using False by simp
    qed simp
    then have "Len64 (?odd v) \<le> 7" unfolding Len64_bound .
    moreover have "0 < Len64 (?odd v)" by (rule Len64_pos) (auto simp: odd_pos)
    ultimately have "(Len64 (?odd v) + 6) div 7 = 1" by simp
    then show ?thesis using False by (subst encodeVarint.simps) (simp add: sovCanonical_def)
  qed
qed

lemma field_sizes:
  "length (len_prefixed b) = length b + sovCanonical (length b)"
  "length (varint_field t v) = (if v \<noteq> 0 then 1 + sovCanonical v else 0)"
  "length (fixed64_field t x) = (if x \<noteq> 0 then 9 else 0)"
  "length (bytes_field t b) = (if length b > 0 then 1 + length b + sovCanonical (length b) else 0)"
  by (simp_all add: len_prefixed_def varint_field_def fixed64_field_def bytes_field_def sovCanonical_length)

lemma uint64_of_eq_0: "int64_range x \<Longrightarrow> uint64_of x = 0 \<longleftrightarrow> x = 0"
  using uint64_of_inject [of x 0] by (auto simp: uint64_of_def int64_range_iff int_limits)

lemma CanonicalBlockID_Size_length: "length (CanonicalBlockID_marshal m) = CanonicalBlockID_Size m"
  by (simp add: CanonicalBlockID_marshal_def CanonicalBlockID_Size_def CanonicalPartSetHeader_marshal_def
      CanonicalPartSetHeader_Size_def field_sizes Let_def)

section \<open>Properties\<close>

definition demo_time :: "timestamp \<Rightarrow> bytes option" where
  "demo_time t = (if int64_range t then Some (PutUint64 (of_int t)) else None)"

definition demo_vote :: CanonicalVote where
  "demo_vote = \<lparr>cv_Type = 2, cv_Height = 7, cv_Round = 0,
     cv_BlockID = Some \<lparr>cb_Hash = [1, 2], cb_PartSetHeader = \<lparr>cp_Total = 300, cp_Hash = [9]\<rparr>\<rparr>,
     cv_Timestamp = 5, cv_ChainID = [116]\<rparr>"

lemma demo_time_encoding: "time_encoding demo_time"
  using fixed64.enc_inject by (auto simp: time_encoding_def demo_time_def split: if_splits)

lemma vote_not_proposal:
  assumes "CanonicalVote_marshal tb v = Inr c" "cv_Type v \<in> {1, 2}" "cpr_Type p = 32"
  shows "CanonicalProposal_marshal tb p \<noteq> Inr c"
  using assms
  by (auto simp: CanonicalProposal_marshal_def CanonicalVote_marshal_def varint_field_def uint64_of_def
      encodeVarint.simps [of 32] encodeVarint.simps [of "Suc 0"] encodeVarint.simps [of 2] split: option.splits)

text \<open>
  C24: The signed bytes of a vote determine the vote. Two canonical votes with the same
  length-delimited encoding agree in type, height, round, block, time and chain, and no canonical
  vote of type prevote or precommit has the encoding of a canonical proposal. So a signature cannot be
  reused for another vote or for a proposal.
\<close>

theorem sign_bytes_unambiguous:
  assumes "time_encoding tb" "vote_in_range v"
    and "MarshalDelimited (CanonicalVote_marshal tb v) = Inr b"
  shows "(\<forall>w. vote_in_range w \<and> MarshalDelimited (CanonicalVote_marshal tb w) = Inr b \<longrightarrow> w = v) \<and>
    (\<forall>p. cv_Type v \<in> {1, 2} \<and> cpr_Type p = 32 \<longrightarrow> MarshalDelimited (CanonicalProposal_marshal tb p) \<noteq> Inr b)"
proof -
  obtain c where c: "CanonicalVote_marshal tb v = Inr c" "b = len_prefixed c"
    using assms(3) by (auto simp: MarshalDelimited_def and_then_Inr_iff)
  have same: "CanonicalVote_marshal tb w = Inr c" if "MarshalDelimited (CanonicalVote_marshal tb w) = Inr b" for w
    using that c delimited.enc_inject by (auto simp: MarshalDelimited_def and_then_Inr_iff)
  have "w = v" if "vote_in_range w" "MarshalDelimited (CanonicalVote_marshal tb w) = Inr b" for w
    using CanonicalVote_marshal_inject [OF assms(1) that(1) assms(2) same [OF that(2)] c(1)] .
  moreover have "MarshalDelimited (CanonicalProposal_marshal tb p) \<noteq> Inr b" if "cv_Type v \<in> {1, 2}" "cpr_Type p = 32" for p
    using vote_not_proposal [OF c(1) that] c delimited.enc_inject by (auto simp: MarshalDelimited_def and_then_Inr_iff)
  ultimately show ?thesis by blast
qed

theorem sign_bytes_unambiguous_witness:
  "time_encoding demo_time \<and> vote_in_range demo_vote \<and>
   (\<exists>b. MarshalDelimited (CanonicalVote_marshal demo_time demo_vote) = Inr b \<and>
     MarshalDelimited (CanonicalVote_marshal demo_time (demo_vote\<lparr>cv_Round := 1\<rparr>)) \<noteq> Inr b)"
proof -
  have t: "demo_time 5 = Some (PutUint64 5)" by (simp add: demo_time_def int64_range_iff int_limits)
  then obtain b where b: "MarshalDelimited (CanonicalVote_marshal demo_time demo_vote) = Inr b"
    by (simp add: MarshalDelimited_def CanonicalVote_marshal_def demo_vote_def)
  have r: "vote_in_range demo_vote" "vote_in_range (demo_vote\<lparr>cv_Round := 1\<rparr>)"
    by (simp_all add: vote_in_range_def demo_vote_def int64_range_iff int_limits)
  have "demo_vote\<lparr>cv_Round := 1\<rparr> \<noteq> demo_vote" by (simp add: demo_vote_def)
  with sign_bytes_unambiguous [OF demo_time_encoding r(1) b] r b demo_time_encoding show ?thesis by blast
qed

text \<open>
  The computed size of a message is the number of bytes that are written, so the buffer, filled
  from its end, is filled exactly and the length prefix is right.
\<close>

theorem Size_is_length:
  assumes "time_sized time_bytes time_size"
  shows "(\<forall>v b. vote_in_range v \<and> CanonicalVote_marshal time_bytes v = Inr b \<longrightarrow> length b = CanonicalVote_Size time_size v) \<and>
    (\<forall>p b. proposal_in_range p \<and> CanonicalProposal_marshal time_bytes p = Inr b \<longrightarrow> length b = CanonicalProposal_Size time_size p)"
proof -
  have bf: "length (block_id_field t m) = (case m of None \<Rightarrow> 0 | Some b \<Rightarrow> let l = CanonicalBlockID_Size b in 1 + l + sovCanonical l)" for t m
    by (auto simp: block_id_field_def field_sizes CanonicalBlockID_Size_length Let_def split: option.splits)
  show ?thesis
    using assms
    by (auto simp: CanonicalVote_marshal_def CanonicalVote_Size_def CanonicalProposal_marshal_def CanonicalProposal_Size_def
        field_sizes bf uint64_of_eq_0 vote_in_range_def proposal_in_range_def time_sized_def Let_def split: option.splits)
qed

theorem Size_is_length_witness:
  "time_sized demo_time (\<lambda>_. 8) \<and> vote_in_range demo_vote \<and>
   (\<exists>b. CanonicalVote_marshal demo_time demo_vote = Inr b \<and> length b = CanonicalVote_Size (\<lambda>_. 8) demo_vote)"
proof -
  have s: "time_sized demo_time (\<lambda>_. 8)" by (auto simp: time_sized_def demo_time_def split: if_splits)
  have t: "demo_time 5 = Some (PutUint64 5)" by (simp add: demo_time_def int64_range_iff int_limits)
  then obtain b where b: "CanonicalVote_marshal demo_time demo_vote = Inr b"
    by (simp add: CanonicalVote_marshal_def demo_vote_def)
  have r: "vote_in_range demo_vote" by (simp add: vote_in_range_def demo_vote_def int64_range_iff int_limits)
  from Size_is_length [OF s] s r b show ?thesis by blast
qed

end
