(* ===== verification/Merkle.thy ===== *)
theory Merkle
  imports Wire_Format
begin

text \<open>
  The Merkle trees of \<^verbatim>\<open>crypto/merkle\<close>: the recursive root hash, its iterative variant, proof
  construction and proof verification. The hash function \<^verbatim>\<open>tmhash.Sum\<close> is the argument \<open>H\<close>. The chain
  of parents of a \<^verbatim>\<open>ProofNode\<close> is represented by the sibling hashes along it, which is all that
  \<^verbatim>\<open>FlattenAunts\<close> reads from it. A nil hash is \<open>None\<close> where the code tests for it and the empty string
  elsewhere.
\<close>

section \<open>Operations\<close>

definition tmhash_Size :: nat where
  "tmhash_Size = 32"

definition leafHash :: "(bytes \<Rightarrow> bytes) \<Rightarrow> bytes \<Rightarrow> bytes" where
  "leafHash H leaf = H ([0] @ leaf)"

definition innerHash :: "(bytes \<Rightarrow> bytes) \<Rightarrow> bytes \<Rightarrow> bytes \<Rightarrow> bytes" where
  "innerHash H left right = H ([1] @ left @ right)"

datatype merkle_error =
    ErrNegativeTotal
  | ErrNegativeProofIndex
  | ErrInvalidLeafHash
  | ErrInvalidRootHash
  | ErrLeafHashSize
  | ErrTooManyAunts
  | ErrAuntSize nat

definition split_point :: "nat \<Rightarrow> nat" where
  "split_point n = (let k = 2 ^ (Len64 n - 1) in if k = n then k div 2 else k)"

definition getSplitPoint :: "int64 \<Rightarrow> (merkle_error, int64) result" where
  "getSplitPoint n =
     (if n < 1 then Inl (Panic ''Trying to split a tree with size < 1'') else Inr (int (split_point (nat n))))"

lemma split_point_pow:
  assumes "2 \<le> n"
  shows "\<exists>j. split_point n = 2 ^ j \<and> 2 ^ j < n \<and> n \<le> 2 ^ Suc j"
proof -
  define l where "l = Len64 n - 1"
  have pos: "0 < Len64 n" using assms Len64_pos by simp
  have up: "n < 2 ^ Suc l" using Len64_bound [of n "Len64 n"] pos by (simp add: l_def)
  have lo: "2 ^ l \<le> n" using Len64_bound [of n l] pos by (simp add: l_def not_less [symmetric])
  have sp: "split_point n = (if 2 ^ l = n then 2 ^ l div 2 else 2 ^ l)"
    by (simp add: split_point_def l_def Let_def)
  show ?thesis
  proof (cases "2 ^ l = n")
    case True
    then obtain j where "l = Suc j" using assms by (cases l) auto
    then show ?thesis using True sp by (intro exI [of _ j]) auto
  next
    case False
    then show ?thesis using lo up sp by (intro exI [of _ l]) (auto simp: less_imp_le)
  qed
qed

lemma split_point_bounds: "2 \<le> n \<Longrightarrow> 0 < split_point n \<and> split_point n < n"
  using split_point_pow by force

text \<open>The split point is the only power of two that is at least half of the size and less than it.\<close>

lemma split_point_unique:
  assumes "2 ^ j < n" "n \<le> 2 ^ Suc j"
  shows "split_point n = 2 ^ j"
proof -
  have "2 \<le> n" using assms(1) le_less_trans [of 1 "2 ^ j" n] by (cases j) auto
  then obtain i where i: "split_point n = 2 ^ i" "2 ^ i < n" "n \<le> 2 ^ Suc i" using split_point_pow by blast
  have "(2::nat) ^ i < 2 ^ Suc j" "(2::nat) ^ j < 2 ^ Suc i" using i assms by linarith+
  then have "i < Suc j \<and> j < Suc i"
    by (intro conjI) (rule power_less_imp_less_exp [of "2::nat"]; simp)+
  then have "i = j" by simp
  with i show ?thesis by simp
qed

lemma split_lengths:
  "n \<noteq> 0 \<Longrightarrow> n \<noteq> 1 \<Longrightarrow> 0 < split_point n" "n \<noteq> 0 \<Longrightarrow> n \<noteq> 1 \<Longrightarrow> split_point n < n"
  using split_point_bounds [of n] by auto

function HashFromByteSlices :: "(bytes \<Rightarrow> bytes) \<Rightarrow> bytes list \<Rightarrow> bytes" where
  "HashFromByteSlices H items =
     (if length items = 0 then []
      else if length items = 1 then leafHash H (items ! 0)
      else let k = split_point (length items)
           in innerHash H (HashFromByteSlices H (take k items)) (HashFromByteSlices H (drop k items)))"
  by pat_completeness auto
termination
  by (relation "measure (length \<circ> snd)") (simp_all add: split_lengths min_less_iff_disj)

declare HashFromByteSlices.simps [simp del]

text \<open>One pass of the iterative variant, and its loop over the current hashes.\<close>

fun pair_up :: "(bytes \<Rightarrow> bytes) \<Rightarrow> bytes list \<Rightarrow> bytes list" where
  "pair_up H (x # y # rest) = innerHash H x y # pair_up H rest"
| "pair_up H [x] = [x]"
| "pair_up H [] = []"

lemma length_pair_up: "length (pair_up H xs) = (length xs + 1) div 2"
  by (induction H xs rule: pair_up.induct) auto

lemma half_less: "n \<noteq> 0 \<Longrightarrow> n \<noteq> 1 \<Longrightarrow> Suc n div 2 < n"
  by presburger

function iterate_pairs :: "(bytes \<Rightarrow> bytes) \<Rightarrow> bytes list \<Rightarrow> bytes" where
  "iterate_pairs H items =
     (if length items = 0 then [] else if length items = 1 then items ! 0
      else iterate_pairs H (pair_up H items))"
  by pat_completeness auto
termination
  by (relation "measure (length \<circ> snd)") (simp_all add: length_pair_up half_less)

declare iterate_pairs.simps [simp del]

definition HashFromByteSlicesIterative :: "(bytes \<Rightarrow> bytes) \<Rightarrow> bytes list \<Rightarrow> bytes" where
  "HashFromByteSlicesIterative H input = iterate_pairs H (map (leafHash H) input)"

record Proof =
  pf_Total :: int64
  pf_Index :: int64
  pf_LeafHash :: bytes
  pf_Aunts :: "bytes list"

definition MaxAunts :: nat where
  "MaxAunts = 100"

fun check_aunts :: "nat \<Rightarrow> bytes list \<Rightarrow> (merkle_error, unit) result" where
  "check_aunts i [] = Inr ()"
| "check_aunts i (a # as) = (if length a \<noteq> tmhash_Size then Inl (Err (ErrAuntSize i)) else check_aunts (Suc i) as)"

definition Proof_ValidateBasic :: "Proof \<Rightarrow> (merkle_error, unit) result" where
  "Proof_ValidateBasic sp =
     (if pf_Total sp < 0 then Inl (Err ErrNegativeTotal)
      else if pf_Index sp < 0 then Inl (Err ErrNegativeProofIndex)
      else if length (pf_LeafHash sp) \<noteq> tmhash_Size then Inl (Err ErrLeafHashSize)
      else if length (pf_Aunts sp) > MaxAunts then Inl (Err ErrTooManyAunts)
      else check_aunts 0 (pf_Aunts sp))"

function computeHashFromAunts :: "(bytes \<Rightarrow> bytes) \<Rightarrow> int64 \<Rightarrow> int64 \<Rightarrow> bytes \<Rightarrow> bytes list \<Rightarrow> bytes option" where
  "computeHashFromAunts H index tot leaf innerHashes =
     (if index \<ge> tot \<or> index < 0 \<or> tot \<le> 0 then None
      else if tot = 1 then (if length innerHashes \<noteq> 0 then None else Some leaf)
      else if length innerHashes = 0 then None
      else let numLeft = int (split_point (nat tot))
           in if index < numLeft
              then (case computeHashFromAunts H index numLeft leaf (butlast innerHashes) of
                      None \<Rightarrow> None
                    | Some leftHash \<Rightarrow> Some (innerHash H leftHash (last innerHashes)))
              else (case computeHashFromAunts H (index - numLeft) (tot - numLeft) leaf (butlast innerHashes) of
                      None \<Rightarrow> None
                    | Some rightHash \<Rightarrow> Some (innerHash H (last innerHashes) rightHash)))"
  by pat_completeness auto
termination
  by (relation "measure (\<lambda>(_, _, _, _, as). length as)") auto

declare computeHashFromAunts.simps [simp del]

definition ComputeRootHash :: "(bytes \<Rightarrow> bytes) \<Rightarrow> Proof \<Rightarrow> bytes option" where
  "ComputeRootHash H sp = computeHashFromAunts H (pf_Index sp) (pf_Total sp) (pf_LeafHash sp) (pf_Aunts sp)"

text \<open>\<^verbatim>\<open>bytes.Equal\<close> does not distinguish a nil root from an empty one.\<close>

definition Proof_Verify :: "(bytes \<Rightarrow> bytes) \<Rightarrow> Proof \<Rightarrow> bytes \<Rightarrow> bytes \<Rightarrow> (merkle_error, unit) result" where
  "Proof_Verify H sp rootHash leaf =
     (if pf_Total sp < 0 then Inl (Err ErrNegativeTotal)
      else if pf_Index sp < 0 then Inl (Err ErrNegativeProofIndex)
      else if pf_LeafHash sp \<noteq> leafHash H leaf then Inl (Err ErrInvalidLeafHash)
      else if (case ComputeRootHash H sp of None \<Rightarrow> [] | Some h \<Rightarrow> h) \<noteq> rootHash then Inl (Err ErrInvalidRootHash)
      else Inr ())"

text \<open>A trail: the hash of a leaf and the sibling hashes on its way to the root.\<close>

function trailsFromByteSlices :: "(bytes \<Rightarrow> bytes) \<Rightarrow> bytes list \<Rightarrow> (bytes \<times> bytes list) list \<times> bytes option" where
  "trailsFromByteSlices H items =
     (if length items = 0 then ([], None)
      else if length items = 1 then ([(leafHash H (items ! 0), [])], Some (leafHash H (items ! 0)))
      else let k = split_point (length items);
               (lefts, leftRoot) = trailsFromByteSlices H (take k items);
               (rights, rightRoot) = trailsFromByteSlices H (drop k items)
           in (map (\<lambda>(h, as). (h, as @ [the rightRoot])) lefts @ map (\<lambda>(h, as). (h, as @ [the leftRoot])) rights,
               Some (innerHash H (the leftRoot) (the rightRoot))))"
  by pat_completeness auto
termination
  by (relation "measure (length \<circ> snd)") (simp_all add: split_lengths min_less_iff_disj)

declare trailsFromByteSlices.simps [simp del]

definition ProofsFromByteSlices :: "(bytes \<Rightarrow> bytes) \<Rightarrow> bytes list \<Rightarrow> (merkle_error, bytes \<times> Proof list) result" where
  "ProofsFromByteSlices H items =
     (case trailsFromByteSlices H items of
        (_, None) \<Rightarrow> Inl (Panic ''nil pointer dereference'')
      | (trails, Some root) \<Rightarrow>
          Inr (root, map (\<lambda>(i, h, as). \<lparr>pf_Total = int (length items), pf_Index = int i, pf_LeafHash = h, pf_Aunts = as\<rparr>)
            (zip [0..<length trails] trails)))"

section \<open>The iterative variant\<close>

text \<open>The recursive tree over hashes that are already computed.\<close>

function tree_hash :: "(bytes \<Rightarrow> bytes) \<Rightarrow> bytes list \<Rightarrow> bytes" where
  "tree_hash H hs =
     (if length hs = 0 then []
      else if length hs = 1 then hs ! 0
      else let k = split_point (length hs) in innerHash H (tree_hash H (take k hs)) (tree_hash H (drop k hs)))"
  by pat_completeness auto
termination
  by (relation "measure (length \<circ> snd)") (simp_all add: split_lengths min_less_iff_disj)

declare tree_hash.simps [simp del]

lemma HashFromByteSlices_tree: "HashFromByteSlices H items = tree_hash H (map (leafHash H) items)"
  by (induction H items rule: HashFromByteSlices.induct)
    (subst HashFromByteSlices.simps, subst tree_hash.simps, auto simp: Let_def take_map drop_map)

lemma pair_up_append: "even (length xs) \<Longrightarrow> pair_up H (xs @ ys) = pair_up H xs @ pair_up H ys"
  by (induction H xs rule: pair_up.induct) auto

lemma split_point_half:
  assumes "3 \<le> n"
  shows "split_point n = 2 * split_point ((n + 1) div 2)"
proof -
  obtain j where j: "split_point n = 2 ^ j" "2 ^ j < n" "n \<le> 2 ^ Suc j"
    using split_point_pow [of n] assms by auto
  then obtain i where i: "j = Suc i" using assms by (cases j) auto
  have "split_point ((n + 1) div 2) = 2 ^ i"
    using j(2,3) unfolding i by (intro split_point_unique) auto
  then show ?thesis using j(1) i by simp
qed

lemma tree_hash_pair_up: "2 \<le> length hs \<Longrightarrow> tree_hash H hs = tree_hash H (pair_up H hs)"
proof (induction "length hs" arbitrary: hs rule: less_induct)
  case less
  show ?case
  proof (cases "length hs = 2")
    case True
    then obtain x y where "hs = [x, y]" by (auto simp: numeral_2_eq_2 length_Suc_conv)
    moreover have "split_point (Suc (Suc 0)) = Suc 0" using split_point_unique [of 0 "Suc (Suc 0)"] by simp
    moreover have "tree_hash H [z] = z" for z by (simp add: tree_hash.simps)
    ultimately show ?thesis by (simp add: tree_hash.simps [of _ "[x, y]"] Let_def)
  next
    case False
    with less.prems have n: "3 \<le> length hs" by simp
    let ?m = "split_point ((length hs + 1) div 2)"
    let ?k = "split_point (length hs)"
    have k: "?k = 2 * ?m" using split_point_half [OF n] .
    have b: "0 < ?k" "?k < length hs" "2 \<le> ?k" using split_point_bounds [of "length hs"] n k by auto
    have lt: "length (pair_up H (take ?k hs)) = ?m" using b k by (simp add: length_pair_up)
    have split: "pair_up H hs = pair_up H (take ?k hs) @ pair_up H (drop ?k hs)"
      using pair_up_append [of "take ?k hs" H "drop ?k hs"] b(2) k by simp
    have left: "tree_hash H (take ?k hs) = tree_hash H (pair_up H (take ?k hs))"
      using b by (intro less.hyps) auto
    have right: "tree_hash H (drop ?k hs) = tree_hash H (pair_up H (drop ?k hs))"
    proof (cases "length (drop ?k hs) = 1")
      case True
      then obtain x where "drop ?k hs = [x]" by (cases "drop ?k hs") (simp_all del: length_drop)
      then show ?thesis by simp
    next
      case False
      then have "2 \<le> length (drop ?k hs)" using b(2) by simp
      then show ?thesis using b by (intro less.hyps) auto
    qed
    have "tree_hash H hs = innerHash H (tree_hash H (take ?k hs)) (tree_hash H (drop ?k hs))"
      using n by (subst tree_hash.simps) (auto simp: Let_def)
    also have "\<dots> = innerHash H (tree_hash H (take ?m (pair_up H hs))) (tree_hash H (drop ?m (pair_up H hs)))"
      unfolding left right split using lt by simp
    also have "\<dots> = tree_hash H (pair_up H hs)"
      using n by (subst (3) tree_hash.simps) (auto simp: Let_def length_pair_up)
    finally show ?thesis .
  qed
qed

text \<open>
  C33: The iterative Merkle root, which halves the list of hashes in place until one is left, is the
  root of the recursive definition for every list of items and every hash function.
\<close>

theorem HashFromByteSlicesIterative_correct:
  "HashFromByteSlicesIterative H items = HashFromByteSlices H items"
proof -
  have "iterate_pairs H hs = tree_hash H hs" for hs
  proof (induction H hs rule: iterate_pairs.induct)
    case (1 H hs)
    consider "length hs = 0" | "length hs = 1" | "2 \<le> length hs" by linarith
    then show ?case
    proof cases
      case 3
      then have "iterate_pairs H hs = iterate_pairs H (pair_up H hs)" by (subst iterate_pairs.simps) auto
      moreover have "hs \<noteq> []" "length hs \<noteq> 1" using 3 by auto
      ultimately show ?thesis using "1.IH" tree_hash_pair_up [OF 3] by simp
    qed (simp_all add: iterate_pairs.simps tree_hash.simps)
  qed
  then show ?thesis by (simp add: HashFromByteSlicesIterative_def HashFromByteSlices_tree)
qed

section \<open>Proofs\<close>

lemma compute_one: "computeHashFromAunts H 0 1 l as = (if as = [] then Some l else None)"
  by (subst computeHashFromAunts.simps) simp

lemma compute_no_aunts: "2 \<le> n \<Longrightarrow> computeHashFromAunts H i (int n) l [] = None"
  by (subst computeHashFromAunts.simps) simp

lemma HashFromByteSlices_single: "HashFromByteSlices H [x] = leafHash H x"
  by (simp add: HashFromByteSlices.simps)

lemma compute_left:
  assumes "2 \<le> n" "i < split_point n"
  shows "computeHashFromAunts H (int i) (int n) l (as @ [a]) =
    map_option (\<lambda>h. innerHash H h a) (computeHashFromAunts H (int i) (int (split_point n)) l as)"
  using assms split_point_bounds [OF assms(1)]
  by (subst computeHashFromAunts.simps) (simp add: Let_def split: option.split)

lemma compute_right:
  assumes "2 \<le> n" "split_point n \<le> i" "i < n"
  shows "computeHashFromAunts H (int i) (int n) l (as @ [a]) =
    map_option (\<lambda>h. innerHash H a h) (computeHashFromAunts H (int (i - split_point n)) (int (n - split_point n)) l as)"
  using assms split_point_bounds [OF assms(1)]
  by (subst computeHashFromAunts.simps) (simp add: Let_def of_nat_diff split: option.split)

lemma trails_spec:
  assumes "items \<noteq> []"
  shows "length (fst (trailsFromByteSlices H items)) = length items \<and>
    snd (trailsFromByteSlices H items) = Some (HashFromByteSlices H items) \<and>
    (\<forall>i < length items. fst (fst (trailsFromByteSlices H items) ! i) = leafHash H (items ! i) \<and>
       computeHashFromAunts H (int i) (int (length items)) (leafHash H (items ! i)) (snd (fst (trailsFromByteSlices H items) ! i)) =
         Some (HashFromByteSlices H items))"
  using assms
proof (induction "length items" arbitrary: items rule: less_induct)
  case less
  show ?case
  proof (cases "length items = 1")
    case True
    then obtain x where "items = [x]" by (cases items) auto
    then show ?thesis
      by (simp add: trailsFromByteSlices.simps HashFromByteSlices_single compute_one)
  next
    case False
    let ?n = "length items" and ?k = "split_point (length items)"
    have n: "2 \<le> ?n" using False less.prems by (cases items) (auto simp: Suc_le_eq)
    have b: "0 < ?k" "?k < ?n" using split_point_bounds [OF n] by auto
    let ?l = "take ?k items" and ?r = "drop ?k items"
    let ?L = "HashFromByteSlices H ?l" and ?R = "HashFromByteSlices H ?r"
    have ne: "?l \<noteq> []" "?r \<noteq> []" using b less.prems by auto
    have IHl: "length (fst (trailsFromByteSlices H ?l)) = ?k" "snd (trailsFromByteSlices H ?l) = Some ?L"
      "\<And>i. i < ?k \<Longrightarrow> fst (fst (trailsFromByteSlices H ?l) ! i) = leafHash H (items ! i)"
      "\<And>i. i < ?k \<Longrightarrow> computeHashFromAunts H (int i) (int ?k) (leafHash H (items ! i)) (snd (fst (trailsFromByteSlices H ?l) ! i)) = Some ?L"
      using less.hyps [OF _ ne(1)] b by (simp_all add: min_absorb2 less_imp_le)
    have IHr: "length (fst (trailsFromByteSlices H ?r)) = ?n - ?k" "snd (trailsFromByteSlices H ?r) = Some ?R"
      "\<And>i. i < ?n - ?k \<Longrightarrow> fst (fst (trailsFromByteSlices H ?r) ! i) = leafHash H (items ! (?k + i))"
      "\<And>i. i < ?n - ?k \<Longrightarrow> computeHashFromAunts H (int i) (int (?n - ?k)) (leafHash H (items ! (?k + i))) (snd (fst (trailsFromByteSlices H ?r) ! i)) = Some ?R"
      using less.hyps [OF _ ne(2)] b by simp_all
    obtain ls rs where t: "trailsFromByteSlices H ?l = (ls, Some ?L)" "trailsFromByteSlices H ?r = (rs, Some ?R)"
      using IHl(2) IHr(2) by (metis prod.collapse)
    have len: "length ls = ?k" "length rs = ?n - ?k" using IHl(1) IHr(1) t by simp_all
    have root: "HashFromByteSlices H items = innerHash H ?L ?R"
      using n by (subst HashFromByteSlices.simps) (auto simp: Let_def)
    have tr: "trailsFromByteSlices H items =
        (map (\<lambda>(h, as). (h, as @ [?R])) ls @ map (\<lambda>(h, as). (h, as @ [?L])) rs, Some (innerHash H ?L ?R))"
      using n t by (subst trailsFromByteSlices.simps) (auto simp: Let_def)
    have step: "fst (fst (trailsFromByteSlices H items) ! i) = leafHash H (items ! i) \<and>
       computeHashFromAunts H (int i) (int ?n) (leafHash H (items ! i)) (snd (fst (trailsFromByteSlices H items) ! i)) =
         Some (innerHash H ?L ?R)" if i: "i < ?n" for i
    proof (cases "i < ?k")
      case True
      then have ti: "fst (trailsFromByteSlices H items) ! i = (fst (ls ! i), snd (ls ! i) @ [?R])"
        using len by (simp add: tr nth_append case_prod_beta)
      show ?thesis
        unfolding ti using IHl(3,4) [OF True] by (simp add: t(1) compute_left [OF n True])
    next
      case False
      then have j: "i - ?k < ?n - ?k" "?k + (i - ?k) = i" using i b by auto
      have ti: "fst (trailsFromByteSlices H items) ! i = (fst (rs ! (i - ?k)), snd (rs ! (i - ?k)) @ [?L])"
        using len False j(1) by (simp add: tr nth_append case_prod_beta)
      show ?thesis
        unfolding ti using IHr(3,4) [OF j(1)] False i
        by (simp add: t(2) j(2) compute_right [OF n])
    qed
    show ?thesis using step root tr len b by simp
  qed
qed

lemma proofs_verify:
  assumes "items \<noteq> []"
  shows "\<exists>proofs. ProofsFromByteSlices H items = Inr (HashFromByteSlices H items, proofs) \<and> length proofs = length items \<and>
    (\<forall>i < length items. pf_Index (proofs ! i) = int i \<and> pf_Total (proofs ! i) = int (length items) \<and>
       Proof_Verify H (proofs ! i) (HashFromByteSlices H items) (items ! i) = Inr ())"
proof -
  obtain ts where ts: "trailsFromByteSlices H items = (ts, Some (HashFromByteSlices H items))" "length ts = length items"
    "\<forall>i < length items. fst (ts ! i) = leafHash H (items ! i) \<and>
       computeHashFromAunts H (int i) (int (length items)) (leafHash H (items ! i)) (snd (ts ! i)) = Some (HashFromByteSlices H items)"
    using trails_spec [OF assms, of H] by (cases "trailsFromByteSlices H items") auto
  then show ?thesis
    by (auto simp: ProofsFromByteSlices_def Proof_Verify_def ComputeRootHash_def case_prod_beta)
qed

text \<open>
  C32: Completeness of proofs. For a non-empty list the proof construction returns the Merkle root and
  one proof per item, and the proof of every item verifies against that root.
\<close>

theorem Proofs_complete:
  assumes "items \<noteq> []"
  shows "\<exists>proofs. ProofsFromByteSlices H items = Inr (HashFromByteSlices H items, proofs) \<and> length proofs = length items \<and>
    (\<forall>i < length items. pf_Index (proofs ! i) = int i \<and> pf_Total (proofs ! i) = int (length items) \<and>
       Proof_Verify H (proofs ! i) (HashFromByteSlices H items) (items ! i) = Inr ())"
  using proofs_verify [OF assms] .

theorem Proofs_complete_witness:
  "[[1], [2], [3 :: 8 word]] \<noteq> [] \<and>
   (\<exists>proofs. ProofsFromByteSlices id [[1], [2], [3]] = Inr (HashFromByteSlices id [[1], [2], [3]], proofs) \<and>
      Proof_Verify id (proofs ! 2) (HashFromByteSlices id [[1], [2], [3]]) [3] = Inr ())"
proof -
  let ?items = "[[1], [2], [3 :: 8 word]]"
  have ne: "?items \<noteq> []" by simp
  obtain proofs where p: "ProofsFromByteSlices id ?items = Inr (HashFromByteSlices id ?items, proofs)"
    and v: "\<forall>i < length ?items. pf_Index (proofs ! i) = int i \<and> pf_Total (proofs ! i) = int (length ?items) \<and>
       Proof_Verify id (proofs ! i) (HashFromByteSlices id ?items) (?items ! i) = Inr ()"
    using Proofs_complete [OF ne, of id] by (elim exE conjE)
  have "Proof_Verify id (proofs ! 2) (HashFromByteSlices id ?items) [3] = Inr ()"
    using v [rule_format, of 2] by simp
  with p ne show ?thesis by blast
qed

text \<open>The strings that are hashed for a root and in the verification of a proof.\<close>

function tree_inputs :: "(bytes \<Rightarrow> bytes) \<Rightarrow> bytes list \<Rightarrow> bytes list" where
  "tree_inputs H items =
     (if length items = 0 then []
      else if length items = 1 then [[0] @ items ! 0]
      else let k = split_point (length items)
           in ([1] @ HashFromByteSlices H (take k items) @ HashFromByteSlices H (drop k items)) #
              tree_inputs H (take k items) @ tree_inputs H (drop k items))"
  by pat_completeness auto
termination
  by (relation "measure (length \<circ> snd)") (simp_all add: split_lengths min_less_iff_disj)

declare tree_inputs.simps [simp del]

function aunt_inputs :: "(bytes \<Rightarrow> bytes) \<Rightarrow> nat \<Rightarrow> nat \<Rightarrow> bytes \<Rightarrow> bytes list \<Rightarrow> bytes list" where
  "aunt_inputs H i n leaf as =
     (if as = [] \<or> n < 2 then []
      else let k = split_point n
           in if i < k
              then (case computeHashFromAunts H (int i) (int k) leaf (butlast as) of None \<Rightarrow> []
                    | Some h \<Rightarrow> ([1] @ h @ last as) # aunt_inputs H i k leaf (butlast as))
              else (case computeHashFromAunts H (int (i - k)) (int (n - k)) leaf (butlast as) of None \<Rightarrow> []
                    | Some h \<Rightarrow> ([1] @ last as @ h) # aunt_inputs H (i - k) (n - k) leaf (butlast as)))"
  by pat_completeness auto
termination
  by (relation "measure (\<lambda>(_, _, _, _, as). length as)") auto

declare aunt_inputs.simps [simp del]

definition proof_inputs :: "(bytes \<Rightarrow> bytes) \<Rightarrow> Proof \<Rightarrow> bytes \<Rightarrow> bytes list" where
  "proof_inputs H sp leaf = ([0] @ leaf) # aunt_inputs H (nat (pf_Index sp)) (nat (pf_Total sp)) (leafHash H leaf) (pf_Aunts sp)"

lemma tree_inputs_single: "tree_inputs H [x] = [[0] @ x]"
  by (subst tree_inputs.simps) simp

lemma hash_lengths:
  assumes H: "\<And>x. length (H x) = tmhash_Size"
  shows "items \<noteq> [] \<Longrightarrow> length (HashFromByteSlices H items) = tmhash_Size"
    and "computeHashFromAunts H i n leaf as = Some h \<Longrightarrow> length leaf = tmhash_Size \<Longrightarrow> length h = tmhash_Size"
proof -
  show "items \<noteq> [] \<Longrightarrow> length (HashFromByteSlices H items) = tmhash_Size"
    by (subst HashFromByteSlices.simps) (simp add: Let_def leafHash_def innerHash_def H)
  show "computeHashFromAunts H i n leaf as = Some h \<Longrightarrow> length leaf = tmhash_Size \<Longrightarrow> length h = tmhash_Size"
    unfolding computeHashFromAunts.simps [of H i n leaf as]
    by (auto simp: Let_def innerHash_def H split: if_splits option.splits)
qed

text \<open>A root determines the list of items, its length included: leaves and inner nodes hash different strings.\<close>

lemma tree_inputs_split:
  assumes "2 \<le> length items"
  shows "tree_inputs H items =
    ([1] @ HashFromByteSlices H (take (split_point (length items)) items) @ HashFromByteSlices H (drop (split_point (length items)) items)) #
    tree_inputs H (take (split_point (length items)) items) @ tree_inputs H (drop (split_point (length items)) items)"
  using assms by (subst tree_inputs.simps) (auto simp: Let_def)

lemma root_input:
  assumes "items \<noteq> []"
  shows "HashFromByteSlices H items = H (hd (tree_inputs H items))" "hd (tree_inputs H items) \<in> set (tree_inputs H items)"
    "hd (hd (tree_inputs H items)) = (if length items = 1 then 0 else 1)"
proof -
  consider x where "items = [x]" | "2 \<le> length items" using assms by (cases items rule: remdups_adj.cases) auto
  then have "HashFromByteSlices H items = H (hd (tree_inputs H items)) \<and> hd (tree_inputs H items) \<in> set (tree_inputs H items) \<and>
    hd (hd (tree_inputs H items)) = (if length items = 1 then 0 else 1)"
  proof cases
    case 1
    then show ?thesis by (simp add: tree_inputs_single HashFromByteSlices_single leafHash_def)
  next
    case 2
    then show ?thesis unfolding tree_inputs_split [OF 2]
      by (subst HashFromByteSlices.simps) (auto simp: Let_def innerHash_def)
  qed
  then show "HashFromByteSlices H items = H (hd (tree_inputs H items))" "hd (tree_inputs H items) \<in> set (tree_inputs H items)"
    "hd (hd (tree_inputs H items)) = (if length items = 1 then 0 else 1)" by blast+
qed

lemma HashFromByteSlices_inject:
  assumes H: "\<And>x. length (H x) = tmhash_Size" and "HashFromByteSlices H xs = HashFromByteSlices H ys"
    and "inj_on H (set (tree_inputs H xs) \<union> set (tree_inputs H ys))"
  shows "xs = ys"
  using assms(2-)
proof (induction "length xs" arbitrary: xs ys rule: less_induct)
  case less
  show ?case
  proof (cases "xs = [] \<or> ys = []")
    case True
    have e: "HashFromByteSlices H zs = [] \<longleftrightarrow> zs = []" for zs
    proof (cases "zs = []")
      case False
      then have "length (HashFromByteSlices H zs) = tmhash_Size" using hash_lengths(1) [of H zs] H by blast
      with False show ?thesis by (auto simp: tmhash_Size_def)
    qed (simp add: HashFromByteSlices.simps [of H "[]"])
    show ?thesis
    proof (cases "xs = []")
      case True
      then show ?thesis using e [of xs] e [of ys] unfolding less.prems(1) by simp
    next
      case False
      then show ?thesis using e [of xs] e [of ys] True unfolding less.prems(1) by simp
    qed
  next
    case False
    then have "H (hd (tree_inputs H xs)) = H (hd (tree_inputs H ys))"
      using less.prems(1) root_input(1) [of xs H] root_input(1) [of ys H] by simp
    then have hd: "hd (tree_inputs H xs) = hd (tree_inputs H ys)"
      by (rule inj_onD [OF less.prems(2)]) (use False root_input(2) [of xs H] root_input(2) [of ys H] in simp_all)
    show ?thesis
    proof (cases "length xs = 1")
      case True
      then have "length ys = 1" using False hd root_input(3) [of xs H] root_input(3) [of ys H] by (auto split: if_splits)
      with True obtain x y where "xs = [x]" "ys = [y]" by (auto simp: length_Suc_conv)
      then show ?thesis using hd by (simp add: tree_inputs_single)
    next
      case n: False
      then have "length ys \<noteq> 1" using False hd root_input(3) [of xs H] root_input(3) [of ys H] by (auto split: if_splits)
      moreover have "length xs \<noteq> 0" "length ys \<noteq> 0" using False by auto
      ultimately have n: "2 \<le> length xs" "2 \<le> length ys" using n by linarith+
      let ?k = "split_point (length xs)" and ?l = "split_point (length ys)"
      note b = split_point_bounds [OF n(1)] split_point_bounds [OF n(2)]
      note ti = tree_inputs_split [OF n(1), of H] tree_inputs_split [OF n(2), of H]
      have "take ?k xs \<noteq> []" "take ?l ys \<noteq> []" using b n by auto
      then have "length (HashFromByteSlices H (take ?k xs)) = length (HashFromByteSlices H (take ?l ys))"
        using hash_lengths(1) [OF H] by simp
      then have eq: "HashFromByteSlices H (take ?k xs) = HashFromByteSlices H (take ?l ys)"
          "HashFromByteSlices H (drop ?k xs) = HashFromByteSlices H (drop ?l ys)"
        using hd unfolding ti by simp_all
      have inj: "inj_on H (set (tree_inputs H (take ?k xs)) \<union> set (tree_inputs H (take ?l ys)))"
          "inj_on H (set (tree_inputs H (drop ?k xs)) \<union> set (tree_inputs H (drop ?l ys)))"
        by (rule inj_on_subset [OF less.prems(2)], unfold ti, auto)+
      have "take ?k xs = take ?l ys" by (rule less.hyps [OF _ eq(1) inj(1)]) (use b in simp)
      moreover have "drop ?k xs = drop ?l ys" by (rule less.hyps [OF _ eq(2) inj(2)]) (use b in \<open>simp; linarith\<close>)
      ultimately show ?thesis by (metis append_take_drop_id)
    qed
  qed
qed

lemma compute_sound:
  assumes H: "\<And>x. length (H x) = tmhash_Size" and "items \<noteq> []" "i < length items"
    and "inj_on H (set (tree_inputs H items) \<union> set (([0] @ leaf) # aunt_inputs H i (length items) (leafHash H leaf) as))"
    and "computeHashFromAunts H (int i) (int (length items)) (leafHash H leaf) as = Some (HashFromByteSlices H items)"
  shows "items ! i = leaf"
  using assms(2-)
proof (induction "length items" arbitrary: items i as rule: less_induct)
  case less
  let ?n = "length items" and ?k = "split_point (length items)"
  show ?case
  proof (cases "?n = 1")
    case True
    then obtain x where x: "items = [x]" by (cases items) auto
    then have "H ([0] @ leaf) = H ([0] @ x)"
      using less.prems(2,4) by (simp add: HashFromByteSlices_single compute_one leafHash_def split: if_splits)
    then have "[0] @ leaf = [0] @ x"
      by (rule inj_onD [OF less.prems(3)]) (simp_all add: x tree_inputs_single)
    then show ?thesis using x less.prems(2) by simp
  next
    case False
    then have n: "2 \<le> ?n" using less.prems(2) by linarith
    note b = split_point_bounds [OF n]
    obtain bs a where as: "as = bs @ [a]"
      using less.prems(4) compute_no_aunts [OF n] by (cases as rule: rev_cases) auto
    let ?l = "take ?k items" and ?r = "drop ?k items"
    let ?L = "HashFromByteSlices H ?l" and ?R = "HashFromByteSlices H ?r"
    have ne: "?l \<noteq> []" "?r \<noteq> []" and len: "length ?l = ?k" "length ?r = ?n - ?k" using b by auto
    have root: "HashFromByteSlices H items = H ([1] @ ?L @ ?R)"
      using n by (subst HashFromByteSlices.simps) (auto simp: Let_def innerHash_def)
    have ti: "tree_inputs H items = ([1] @ ?L @ ?R) # tree_inputs H ?l @ tree_inputs H ?r"
      using n by (subst tree_inputs.simps) (auto simp: Let_def)
    have lh: "length (leafHash H leaf) = tmhash_Size" by (simp add: leafHash_def H)
    show ?thesis
    proof (cases "i < ?k")
      case True
      obtain h where h: "computeHashFromAunts H (int i) (int ?k) (leafHash H leaf) bs = Some h"
        "H ([1] @ h @ a) = H ([1] @ ?L @ ?R)"
        using less.prems(4) unfolding as compute_left [OF n True] root by (auto simp: innerHash_def)
      have ai: "aunt_inputs H i ?n (leafHash H leaf) as = ([1] @ h @ a) # aunt_inputs H i ?k (leafHash H leaf) bs"
        using n True h(1) as by (subst aunt_inputs.simps) (simp add: Let_def)
      have "[1] @ h @ a = [1] @ ?L @ ?R"
        using inj_onD [OF less.prems(3) h(2)] unfolding ai ti by simp
      moreover have "length h = length ?L" using hash_lengths [OF H] h(1) lh ne(1) by simp
      ultimately have "h = ?L" by simp
      moreover have "inj_on H (set (tree_inputs H ?l) \<union> set (([0] @ leaf) # aunt_inputs H i (length ?l) (leafHash H leaf) bs))"
        using less.prems(3) unfolding ai ti len by (rule inj_on_subset) auto
      ultimately have "?l ! i = leaf" using less.hyps [of ?l i bs] b ne(1) len(1) True h(1) by simp
      then show ?thesis using True by simp
    next
      case ge: False
      let ?i = "i - ?k"
      have c: "computeHashFromAunts H (int i) (int ?n) (leafHash H leaf) as =
          map_option (\<lambda>h. innerHash H a h) (computeHashFromAunts H (int ?i) (int (?n - ?k)) (leafHash H leaf) bs)"
        unfolding as using compute_right [OF n] ge less.prems(2) by simp
      obtain h where h: "computeHashFromAunts H (int ?i) (int (?n - ?k)) (leafHash H leaf) bs = Some h"
        "H ([1] @ a @ h) = H ([1] @ ?L @ ?R)"
        using less.prems(4) unfolding c root by (auto simp: innerHash_def)
      have ai: "aunt_inputs H i ?n (leafHash H leaf) as = ([1] @ a @ h) # aunt_inputs H ?i (?n - ?k) (leafHash H leaf) bs"
        using n ge h(1) as by (subst aunt_inputs.simps) (simp add: Let_def)
      have "[1] @ a @ h = [1] @ ?L @ ?R"
        using inj_onD [OF less.prems(3) h(2)] unfolding ai ti by simp
      moreover have "length h = length ?R" using hash_lengths [OF H] h(1) lh ne(2) by simp
      ultimately have "h = ?R" by simp
      moreover have "inj_on H (set (tree_inputs H ?r) \<union> set (([0] @ leaf) # aunt_inputs H ?i (length ?r) (leafHash H leaf) bs))"
        using less.prems(3) unfolding ai ti len by (rule inj_on_subset) auto
      ultimately have "?r ! ?i = leaf"
        using less.hyps [of ?r ?i bs] b ne(2) len(2) ge less.prems(2) h(1) by simp
      then show ?thesis using ge less.prems(2) by simp
    qed
  qed
qed

text \<open>
  C31: Soundness of proofs. If a proof for the right number of items verifies against the root of a
  list, then the leaf is the item at the index the proof names, unless the hash function has a
  collision among the strings that were hashed for this root and this proof.
\<close>

theorem Proof_Verify_sound:
  assumes "\<forall>x. length (H x) = tmhash_Size" "items \<noteq> []"
    and "inj_on H (set (tree_inputs H items) \<union> set (proof_inputs H sp leaf))"
    and "pf_Total sp = int (length items)"
    and "Proof_Verify H sp (HashFromByteSlices H items) leaf = Inr ()"
  shows "0 \<le> pf_Index sp \<and> pf_Index sp < int (length items) \<and> items ! nat (pf_Index sp) = leaf"
proof -
  have root: "length (HashFromByteSlices H items) = tmhash_Size" using hash_lengths(1) [of H] assms(1,2) by blast
  have v: "0 \<le> pf_Index sp" "pf_LeafHash sp = leafHash H leaf" "ComputeRootHash H sp = Some (HashFromByteSlices H items)"
    using assms(5) root by (auto simp: Proof_Verify_def tmhash_Size_def split: if_splits option.splits)
  then have i: "int (nat (pf_Index sp)) = pf_Index sp" by simp
  have lt: "pf_Index sp < pf_Total sp"
    using v(3) by (auto simp: ComputeRootHash_def computeHashFromAunts.simps [of H "pf_Index sp"] split: if_splits)
  have "items ! nat (pf_Index sp) = leaf"
    using compute_sound [of H items "nat (pf_Index sp)" leaf "pf_Aunts sp"] assms lt v i
    by (simp add: ComputeRootHash_def proof_inputs_def)
  then show ?thesis using v(1) lt assms(4) by simp
qed

definition demo_hash :: "bytes \<Rightarrow> bytes" where
  "demo_hash x = take 32 (x @ replicate 32 0)"

definition demo_proof :: Proof where
  "demo_proof = \<lparr>pf_Total = 2, pf_Index = 1, pf_LeafHash = leafHash demo_hash [2], pf_Aunts = [leafHash demo_hash [1]]\<rparr>"

lemma split_point_two: "split_point (Suc (Suc 0)) = Suc 0"
  using split_point_unique [of 0 "Suc (Suc 0)"] by simp

lemma HashFromByteSlices_two: "HashFromByteSlices H [x, y] = innerHash H (leafHash H x) (leafHash H y)"
  by (subst HashFromByteSlices.simps) (simp add: Let_def split_point_two HashFromByteSlices_single)

lemma demo_proof_verifies: "Proof_Verify demo_hash demo_proof (HashFromByteSlices demo_hash [[1], [2]]) [2] = Inr ()"
proof -
  have "computeHashFromAunts demo_hash 1 2 (leafHash demo_hash [2]) [leafHash demo_hash [1]] =
      Some (innerHash demo_hash (leafHash demo_hash [1]) (leafHash demo_hash [2]))"
    using compute_right [of 2 1 demo_hash "leafHash demo_hash [2]" "[]" "leafHash demo_hash [1]"] split_point_two
    by (simp add: numeral_2_eq_2 compute_one [unfolded One_nat_def])
  then show ?thesis
    by (simp add: Proof_Verify_def demo_proof_def ComputeRootHash_def HashFromByteSlices_two)
qed

theorem Proof_Verify_sound_witness:
  "(\<forall>x. length (demo_hash x) = tmhash_Size) \<and>
   Proof_Verify demo_hash demo_proof (HashFromByteSlices demo_hash [[1], [2]]) [2] = Inr () \<and>
   0 \<le> pf_Index demo_proof \<and> pf_Index demo_proof < 2 \<and> [[1], [2 :: 8 word]] ! nat (pf_Index demo_proof) = [2]"
proof -
  have H: "\<forall>x. length (demo_hash x) = tmhash_Size" by (auto simp: demo_hash_def tmhash_Size_def min_def)
  note v = demo_proof_verifies
  have ti: "tree_inputs demo_hash [[1], [2]] = [[1] @ leafHash demo_hash [1] @ leafHash demo_hash [2], [0, 1], [0, 2]]"
    by (subst tree_inputs.simps) (simp add: Let_def split_point_two tree_inputs_single HashFromByteSlices_single)
  have ai: "aunt_inputs demo_hash 1 2 (leafHash demo_hash [2]) [leafHash demo_hash [1]] =
      [[1] @ leafHash demo_hash [1] @ leafHash demo_hash [2]]"
    using split_point_two
    by (simp add: aunt_inputs.simps [of _ _ "Suc (Suc 0)"] aunt_inputs.simps [of _ _ "Suc 0"] numeral_2_eq_2 Let_def
        compute_one [unfolded One_nat_def])
  have "inj_on demo_hash (set (tree_inputs demo_hash [[1], [2]]) \<union> set (proof_inputs demo_hash demo_proof [2]))"
  proof -
    define a where "a = [1] @ leafHash demo_hash [1] @ leafHash demo_hash [2]"
    have "demo_hash a \<noteq> demo_hash [0, 1]" "demo_hash a \<noteq> demo_hash [0, 2]" "demo_hash [0, 1] \<noteq> demo_hash [0, 2]"
      by (simp_all add: a_def demo_hash_def)
    then have "inj_on demo_hash {a, [0, 1], [0, 2]}" by (auto simp: inj_on_def)
    moreover have "set (tree_inputs demo_hash [[1], [2]]) \<union> set (proof_inputs demo_hash demo_proof [2]) = {a, [0, 1], [0, 2]}"
      using ai by (auto simp: ti proof_inputs_def demo_proof_def a_def)
    ultimately show ?thesis by simp
  qed
  with Proof_Verify_sound [OF H _ _ _ v] H v show ?thesis by (simp add: demo_proof_def)
qed

end
