(* ===== verification/Part_Set.thy ===== *)
theory Part_Set
  imports Merkle
begin

text \<open>
  Part sets of \<^verbatim>\<open>types/part_set.go\<close>: a block is cut into parts of bounded size, each with a Merkle
  proof, and put together again from parts that arrive in any order. Sizes and counters are
  \<^verbatim>\<open>uint32\<close>: natural numbers with the reduction modulo \<open>2 ^ 32\<close> written out.
\<close>

section \<open>Operations\<close>

record PartSetHeader =
  psh_Total :: nat
  psh_Hash :: bytes

record Part =
  pt_Index :: nat
  pt_Bytes :: bytes
  pt_Proof :: Proof

datatype part_error =
    ErrPartSetUnexpectedIndex
  | ErrPartSetInvalidProof
  | ErrPartTooBig
  | ErrPartWrongProof merkle_error
  | ErrWrongPartSetHash

record PartSet =
  ps_total :: nat
  ps_hash :: bytes
  ps_parts :: "Part option list"
  ps_partsBitArray :: "BitArray option"
  ps_count :: nat

definition BlockPartSizeBytes :: nat where
  "BlockPartSizeBytes = 65536"

definition u32 :: "nat \<Rightarrow> nat" where
  "u32 x = x mod 2 ^ 32"

definition ValidateHash :: "bytes \<Rightarrow> bool" where
  "ValidateHash h \<longleftrightarrow> \<not> (length h > 0 \<and> length h \<noteq> tmhash_Size)"

definition PartSetHeader_IsZero :: "PartSetHeader \<Rightarrow> bool" where
  "PartSetHeader_IsZero psh \<longleftrightarrow> psh_Total psh = 0 \<and> length (psh_Hash psh) = 0"

definition PartSetHeader_Equals :: "PartSetHeader \<Rightarrow> PartSetHeader \<Rightarrow> bool" where
  "PartSetHeader_Equals psh other \<longleftrightarrow> psh_Total psh = psh_Total other \<and> psh_Hash psh = psh_Hash other"

definition PartSetHeader_ValidateBasic :: "PartSetHeader \<Rightarrow> (part_error, unit) result" where
  "PartSetHeader_ValidateBasic psh =
     (if \<not> ValidateHash (psh_Hash psh) then Inl (Err ErrWrongPartSetHash) else Inr ())"

definition Part_ValidateBasic :: "Part \<Rightarrow> (part_error, unit) result" where
  "Part_ValidateBasic part =
     (if length (pt_Bytes part) > BlockPartSizeBytes then Inl (Err ErrPartTooBig)
      else lift_fault ErrPartWrongProof (Proof_ValidateBasic (pt_Proof part)))"

text \<open>The slice \<^verbatim>\<open>data[lo:hi]\<close>.\<close>

definition slice :: "nat \<Rightarrow> nat \<Rightarrow> bytes \<Rightarrow> (part_error, bytes) result" where
  "slice lo hi data =
     (if lo > hi \<or> hi > length data then Inl (Panic ''slice bounds out of range'')
      else Inr (take (hi - lo) (drop lo data)))"

fun cut_parts :: "bytes \<Rightarrow> nat \<Rightarrow> nat list \<Rightarrow> (part_error, bytes list) result" where
  "cut_parts data partSize [] = Inr []"
| "cut_parts data partSize (i # is) =
     and_then (slice (u32 (i * partSize)) (min (length data) (u32 (u32 (i + 1) * partSize))) data) (\<lambda>b.
     and_then (cut_parts data partSize is) (\<lambda>bs. Inr (b # bs)))"

definition NewPartSetFromData :: "(bytes \<Rightarrow> bytes) \<Rightarrow> bytes \<Rightarrow> nat \<Rightarrow> (part_error, PartSet) result" where
  "NewPartSetFromData H data partSize =
     (if partSize = 0 then Inl (Panic ''integer divide by zero'')
      else
        let n = u32 (u32 (u32 (length data) + partSize) + (2 ^ 32 - 1)) div partSize in
        and_then (cut_parts data partSize [0..<n]) (\<lambda>partsBytes.
        and_then (lift_fault ErrPartWrongProof (ProofsFromByteSlices H partsBytes)) (\<lambda>(root, proofs).
          Inr \<lparr>ps_total = n, ps_hash = root,
               ps_parts = map (\<lambda>i. Some \<lparr>pt_Index = i, pt_Bytes = partsBytes ! i, pt_Proof = proofs ! i\<rparr>) [0..<n],
               ps_partsBitArray = map_option (\<lambda>a. fold (\<lambda>i a. case setIndex a (int i) True of Inr (_, a') \<Rightarrow> a' | Inl _ \<Rightarrow> a) [0..<n] a)
                 (NewBitArray (int n)),
               ps_count = n\<rparr>)))"

definition NewPartSetFromHeader :: "PartSetHeader \<Rightarrow> PartSet" where
  "NewPartSetFromHeader header =
     \<lparr>ps_total = psh_Total header, ps_hash = psh_Hash header,
      ps_parts = replicate (psh_Total header) None,
      ps_partsBitArray = NewBitArray (int (psh_Total header)), ps_count = 0\<rparr>"

definition PartSet_Header :: "PartSet option \<Rightarrow> PartSetHeader" where
  "PartSet_Header ps =
     (case ps of None \<Rightarrow> \<lparr>psh_Total = 0, psh_Hash = []\<rparr>
      | Some p \<Rightarrow> \<lparr>psh_Total = ps_total p, psh_Hash = ps_hash p\<rparr>)"

definition PartSet_HasHeader :: "PartSet option \<Rightarrow> PartSetHeader \<Rightarrow> bool" where
  "PartSet_HasHeader ps header =
     (case ps of None \<Rightarrow> False | Some _ \<Rightarrow> PartSetHeader_Equals (PartSet_Header ps) header)"

definition PartSet_HashesTo :: "PartSet option \<Rightarrow> bytes \<Rightarrow> bool" where
  "PartSet_HashesTo ps hash = (case ps of None \<Rightarrow> False | Some p \<Rightarrow> ps_hash p = hash)"

definition AddPart :: "(bytes \<Rightarrow> bytes) \<Rightarrow> Part \<Rightarrow> PartSet \<Rightarrow> (part_error, bool \<times> PartSet) result" where
  "AddPart H part ps =
     (if pt_Index part \<ge> ps_total ps then Inl (Err ErrPartSetUnexpectedIndex)
      else if pt_Index part \<ge> length (ps_parts ps) then Inl (Panic ''index out of range'')
      else if ps_parts ps ! pt_Index part \<noteq> None then Inr (False, ps)
      else case Proof_Verify H (pt_Proof part) (ps_hash ps) (pt_Bytes part) of
        Inl _ \<Rightarrow> Inl (Err ErrPartSetInvalidProof)
      | Inr _ \<Rightarrow>
          and_then (lift_fault (\<lambda>_. ErrPartSetInvalidProof) (SetIndex (ps_partsBitArray ps) (int (pt_Index part)) True)) (\<lambda>(_, bits).
            Inr (True, ps\<lparr>ps_parts := (ps_parts ps)[pt_Index part := Some part],
              ps_partsBitArray := bits, ps_count := u32 (ps_count ps + 1)\<rparr>)))"

definition GetPart :: "int \<Rightarrow> PartSet \<Rightarrow> (part_error, Part option) result" where
  "GetPart index ps =
     (if index < 0 \<or> int (length (ps_parts ps)) \<le> index then Inl (Panic ''index out of range'')
      else Inr (ps_parts ps ! nat index))"

definition PartSet_IsComplete :: "PartSet \<Rightarrow> bool" where
  "PartSet_IsComplete ps \<longleftrightarrow> ps_count ps = ps_total ps"

text \<open>
  The reader over a complete set: the unread bytes of the current part and the parts after it. A read
  returns the bytes and whether the end was hit.
\<close>

function PartSetReader_Read :: "bytes \<Rightarrow> bytes list \<Rightarrow> nat \<Rightarrow> bytes \<times> bool \<times> bytes \<times> bytes list" where
  "PartSetReader_Read cur rest n =
     (if length cur \<ge> n then (if cur = [] then ([], True, cur, rest) else (take n cur, False, drop n cur, rest))
      else if length cur > 0 then
        (case PartSetReader_Read [] rest (n - length cur) of (b, eof, cur', rest') \<Rightarrow> (cur @ b, eof, cur', rest'))
      else case rest of [] \<Rightarrow> ([], True, [], []) | p # ps \<Rightarrow> PartSetReader_Read p ps n)"
  by pat_completeness auto
termination
  by (relation "measures [\<lambda>(_, rest, _). length rest, \<lambda>(cur, _, _). length cur]") auto

declare PartSetReader_Read.simps [simp del]

definition GetReader :: "PartSet \<Rightarrow> (part_error, bytes \<times> bytes list) result" where
  "GetReader ps =
     (if \<not> PartSet_IsComplete ps then Inl (Panic ''Cannot GetReader() on incomplete PartSet'')
      else case ps_parts ps of
        Some p # ps \<Rightarrow> Inr (pt_Bytes p, map (\<lambda>q. case q of Some q \<Rightarrow> pt_Bytes q | None \<Rightarrow> []) ps)
      | _ \<Rightarrow> Inl (Panic ''index out of range''))"

section \<open>Cutting data into parts\<close>

definition chunk :: "nat \<Rightarrow> bytes \<Rightarrow> nat \<Rightarrow> bytes" where
  "chunk k data i = take k (drop (i * k) data)"

lemma concat_chunks: "concat (map (chunk k data) [0..<n]) = take (n * k) data"
  by (induction n) (simp_all add: chunk_def take_add [symmetric] add.commute)

definition part_count :: "nat \<Rightarrow> bytes \<Rightarrow> nat" where
  "part_count k data = (length data + k - 1) div k"

lemma part_count_bounds:
  assumes "0 < k"
  shows "i < part_count k data \<longleftrightarrow> i * k < length data" "length data \<le> part_count k data * k"
proof -
  have "i < part_count k data \<longleftrightarrow> Suc i \<le> (length data + k - 1) div k" by (auto simp: part_count_def)
  also have "\<dots> \<longleftrightarrow> Suc i * k \<le> length data + k - 1" using assms by (simp add: less_eq_div_iff_mult_less_eq)
  also have "\<dots> \<longleftrightarrow> i * k < length data" using assms by auto
  finally show "i < part_count k data \<longleftrightarrow> i * k < length data" .
next
  have "\<not> Suc (part_count k data) \<le> (length data + k - 1) div k" by (simp add: part_count_def)
  then have "length data + k - 1 < Suc (part_count k data) * k" using assms by (simp only: less_eq_div_iff_mult_less_eq not_le)
  then show "length data \<le> part_count k data * k" using assms by simp
qed

lemma cut_parts_spec:
  assumes k: "0 < k" and small: "length data + k < 2 ^ 32" and "\<forall>i \<in> set is. i < part_count k data"
  shows "cut_parts data k is = Inr (map (chunk k data) is)"
  using assms(3)
proof (induction "is")
  case (Cons i "is")
  then have lo: "i * k < length data" using part_count_bounds(1) [OF k] by simp
  then have "Suc i * k < 2 ^ 32" using small by simp
  moreover have "Suc i \<le> Suc i * k" using k by (cases k) auto
  ultimately have u: "u32 (i * k) = i * k" "u32 (u32 (i + 1) * k) = Suc i * k"
    using lo small by (simp_all add: u32_def)
  have "slice (i * k) (min (length data) (Suc i * k)) data = Inr (chunk k data i)"
    using lo by (auto simp: slice_def chunk_def min_def)
  with Cons u show ?case by simp
qed simp

lemma part_count_code:
  assumes "0 < k" "length data + k < 2 ^ 32"
  shows "u32 (u32 (u32 (length data) + k) + (2 ^ 32 - 1)) div k = part_count k data"
proof -
  have "u32 (length data + k) = length data + k" "u32 (length data) = length data" using assms(2) by (simp_all add: u32_def)
  moreover have "(length data + k + (2 ^ 32 - 1)) mod 2 ^ 32 = length data + k - 1"
  proof -
    have "length data + k + (2 ^ 32 - 1) = (length data + k - 1) + 2 ^ 32" using assms(1) by simp
    then show ?thesis using assms(2) by (simp only: mod_add_self2) simp
  qed
  ultimately show ?thesis by (simp add: u32_def part_count_def)
qed

section \<open>The invariant of a part set\<close>

definition part_set_inv :: "PartSet \<Rightarrow> bool" where
  "part_set_inv ps \<longleftrightarrow> length (ps_parts ps) = ps_total ps \<and> ps_total ps < 2 ^ 32 \<and>
     ps_count ps = length (filter (\<lambda>p. p \<noteq> None) (ps_parts ps)) \<and>
     (0 < ps_total ps \<longrightarrow> (\<exists>a. ps_partsBitArray ps = Some a \<and> ba_wf a \<and> bits_of a = map (\<lambda>p. p \<noteq> None) (ps_parts ps)))"

lemma NewPartSetFromHeader_inv: "psh_Total h < 2 ^ 32 \<Longrightarrow> part_set_inv (NewPartSetFromHeader h)"
  using NewBitArray_spec [of "int (psh_Total h)"]
  by (auto simp: part_set_inv_def NewPartSetFromHeader_def)

lemma length_filter_update:
  assumes "i < length xs" "xs ! i = None"
  shows "length (filter (\<lambda>p. p \<noteq> None) (xs[i := Some x])) = Suc (length (filter (\<lambda>p. p \<noteq> None) xs))"
proof -
  let ?P = "\<lambda>p. p \<noteq> None"
  have e: "xs = take i xs @ None # drop (Suc i) xs" using id_take_nth_drop [OF assms(1)] assms(2) by simp
  have "length (filter ?P xs) = length (filter ?P (take i xs)) + length (filter ?P (drop (Suc i) xs))"
    by (subst e) simp
  then show ?thesis using assms(1) by (simp add: upd_conv_take_nth_drop)
qed

lemma AddPart_accepts:
  assumes inv: "part_set_inv ps" and i: "pt_Index part < ps_total ps" and free: "ps_parts ps ! pt_Index part = None"
    and v: "Proof_Verify H (pt_Proof part) (ps_hash ps) (pt_Bytes part) = Inr ()"
  shows "\<exists>ps'. AddPart H part ps = Inr (True, ps') \<and> part_set_inv ps' \<and> ps_total ps' = ps_total ps \<and> ps_hash ps' = ps_hash ps \<and>
     ps_parts ps' = (ps_parts ps)[pt_Index part := Some part]"
proof -
  let ?i = "pt_Index part"
  have len: "?i < length (ps_parts ps)" using inv i by (simp add: part_set_inv_def)
  obtain a where a: "ps_partsBitArray ps = Some a" "ba_wf a" "bits_of a = map (\<lambda>p. p \<noteq> None) (ps_parts ps)"
    using inv i by (auto simp: part_set_inv_def)
  obtain a' where a': "setIndex a (int ?i) True = Inr (?i < nat (ba_Bits a), a')" "ba_wf a'" "bits_of a' = (bits_of a)[?i := True]"
    using setIndex_spec [OF a(2)] by blast
  have cnt: "length (filter (\<lambda>p. p \<noteq> None) (ps_parts ps)) < length (ps_parts ps)"
    using length_filter_less [of None "ps_parts ps" "\<lambda>p. p \<noteq> None"] free len by (metis nth_mem)
  then have "u32 (ps_count ps + 1) = Suc (ps_count ps)"
    using inv by (simp add: part_set_inv_def u32_def)
  moreover have "bits_of a' = map (\<lambda>p. p \<noteq> None) ((ps_parts ps)[?i := Some part])"
    using a(3) a'(3) by (simp add: map_update)
  moreover define ps' where "ps' = ps\<lparr>ps_parts := (ps_parts ps)[?i := Some part], ps_partsBitArray := Some a',
    ps_count := u32 (ps_count ps + 1)\<rparr>"
  ultimately have "part_set_inv ps'"
    using inv a'(2) length_filter_update [OF len free, of part] by (simp add: part_set_inv_def)
  moreover have "AddPart H part ps = Inr (True, ps')"
    using i free v len a(1) a'(1) by (simp add: AddPart_def SetIndex_def ps'_def lift_fault_def)
  ultimately show ?thesis by (auto simp: ps'_def)
qed

lemma AddPart_keeps_inv:
  assumes "part_set_inv ps" "AddPart H part ps = Inr (added, ps')"
  shows "part_set_inv ps' \<and> ps_total ps' = ps_total ps \<and> ps_hash ps' = ps_hash ps \<and>
    (added \<longrightarrow> ps_parts ps' = (ps_parts ps)[pt_Index part := Some part]) \<and> (\<not> added \<longrightarrow> ps' = ps)"
proof (cases "ps_parts ps ! pt_Index part = None \<and> pt_Index part < ps_total ps")
  case True
  then have "Proof_Verify H (pt_Proof part) (ps_hash ps) (pt_Bytes part) = Inr ()"
    using assms by (auto simp: AddPart_def part_set_inv_def split: sum.splits if_splits)
  with AddPart_accepts [OF assms(1), of part H] True assms(2) show ?thesis by auto
next
  case False
  then show ?thesis using assms by (auto simp: AddPart_def split: if_splits sum.splits)
qed

lemma IsComplete_iff:
  assumes "part_set_inv ps"
  shows "PartSet_IsComplete ps \<longleftrightarrow> (\<forall>p \<in> set (ps_parts ps). p \<noteq> None)"
proof -
  let ?P = "\<lambda>p. p \<noteq> None"
  have "length (filter ?P (ps_parts ps)) = length (ps_parts ps) \<longleftrightarrow> (\<forall>p \<in> set (ps_parts ps). p \<noteq> None)"
  proof
    assume eq: "length (filter ?P (ps_parts ps)) = length (ps_parts ps)"
    show "\<forall>p \<in> set (ps_parts ps). p \<noteq> None"
      using length_filter_less [of _ "ps_parts ps" ?P] unfolding eq by blast
  next
    assume "\<forall>p \<in> set (ps_parts ps). p \<noteq> None"
    then show "length (filter ?P (ps_parts ps)) = length (ps_parts ps)" by (simp only: filter_True)
  qed
  then show ?thesis using assms unfolding PartSet_IsComplete_def part_set_inv_def by metis
qed

lemma PartSetReader_Read_spec:
  "n \<le> length (cur @ concat rest) \<Longrightarrow> fst (PartSetReader_Read cur rest n) = take n (cur @ concat rest)"
proof (induction cur rest n rule: PartSetReader_Read.induct)
  case (1 cur rest n)
  consider "n \<le> length cur" | "\<not> n \<le> length cur" "cur \<noteq> []" | "0 < n" "cur = []" by fastforce
  then show ?case
  proof cases
    case 1
    then show ?thesis by (subst PartSetReader_Read.simps) auto
  next
    case 2
    have "fst (PartSetReader_Read cur rest n) = cur @ fst (PartSetReader_Read [] rest (n - length cur))"
      using 2 by (subst PartSetReader_Read.simps) (simp add: case_prod_beta)
    with "1.IH"(1) 2 "1.prems" show ?thesis by simp
  next
    case 3
    then obtain p ps where r: "rest = p # ps" using "1.prems" by (cases rest) auto
    then have "fst (PartSetReader_Read cur rest n) = fst (PartSetReader_Read p ps n)"
      using 3 by (subst PartSetReader_Read.simps) simp
    with "1.IH"(2) 3 r "1.prems" show ?thesis by simp
  qed
qed

section \<open>Transfer of a block\<close>

lemma NewPartSetFromData_spec:
  assumes k: "0 < k" and ne: "data \<noteq> []" and small: "length data + k < 2 ^ 32"
  shows "\<exists>full part. NewPartSetFromData H data k = Inr full \<and> ps_total full = part_count k data \<and>
    ps_hash full = HashFromByteSlices H (map (chunk k data) [0..<part_count k data]) \<and>
    ps_parts full = map (\<lambda>i. Some (part i)) [0..<part_count k data] \<and>
    (\<forall>i < part_count k data. pt_Index (part i) = i \<and> pt_Bytes (part i) = chunk k data i \<and>
       Proof_Verify H (pt_Proof (part i)) (ps_hash full) (chunk k data i) = Inr ())"
proof -
  let ?n = "part_count k data"
  let ?items = "map (chunk k data) [0..<?n]"
  have n: "0 < ?n" using part_count_bounds(1) [OF k, of 0] ne by simp
  then have ne_items: "?items \<noteq> []" by simp
  obtain proofs where p: "ProofsFromByteSlices H ?items = Inr (HashFromByteSlices H ?items, proofs)"
    "\<forall>i < length ?items. pf_Index (proofs ! i) = int i \<and> pf_Total (proofs ! i) = int (length ?items) \<and>
       Proof_Verify H (proofs ! i) (HashFromByteSlices H ?items) (?items ! i) = Inr ()"
    using proofs_verify [OF ne_items, of H] by (elim exE conjE)
  have v: "Proof_Verify H (proofs ! i) (HashFromByteSlices H ?items) (chunk k data i) = Inr ()" if "i < ?n" for i
    using p(2) that by simp
  have c: "cut_parts data k [0..<?n] = Inr ?items" using cut_parts_spec [OF k small] by simp
  define part where "part i = \<lparr>pt_Index = i, pt_Bytes = ?items ! i, pt_Proof = proofs ! i\<rparr>" for i
  show ?thesis
    unfolding NewPartSetFromData_def part_count_code [OF k small] Let_def c
    using k p(1) v by (simp add: lift_fault_def) (intro exI [of _ part], simp add: part_def)
qed

fun AddParts :: "(bytes \<Rightarrow> bytes) \<Rightarrow> Part list \<Rightarrow> PartSet \<Rightarrow> (part_error, PartSet) result" where
  "AddParts H [] ps = Inr ps"
| "AddParts H (p # rest) ps = and_then (AddPart H p ps) (\<lambda>(_, ps). AddParts H rest ps)"

lemma AddParts_spec:
  assumes "part_set_inv ps" "ps_parts ps = map (\<lambda>i. if i \<in> d then Some (part i) else None) [0..<n]"
    and "distinct order" "set order \<subseteq> {0..<n}" "set order \<inter> d = {}"
    and "\<And>i. i < n \<Longrightarrow> pt_Index (part i) = i \<and> Proof_Verify H (pt_Proof (part i)) (ps_hash ps) (pt_Bytes (part i)) = Inr ()"
  shows "\<exists>ps'. AddParts H (map part order) ps = Inr ps' \<and> part_set_inv ps' \<and>
    ps_parts ps' = map (\<lambda>i. if i \<in> d \<union> set order then Some (part i) else None) [0..<n]"
  using assms
proof (induction order arbitrary: ps d)
  case (Cons i order)
  have i: "i < n" "i \<notin> d" using Cons.prems by auto
  have len: "ps_total ps = n" using Cons.prems(1,2) by (simp add: part_set_inv_def)
  have free: "ps_parts ps ! i = None" using i Cons.prems(2) by simp
  obtain ps1 where ps1: "AddPart H (part i) ps = Inr (True, ps1)" "part_set_inv ps1" "ps_hash ps1 = ps_hash ps"
    "ps_parts ps1 = (ps_parts ps)[i := Some (part i)]"
    using AddPart_accepts [OF Cons.prems(1), of "part i" H] Cons.prems(6) [OF i(1)] i len free by auto
  have upd: "ps_parts ps1 = map (\<lambda>j. if j \<in> insert i d then Some (part j) else None) [0..<n]"
    unfolding ps1(4) Cons.prems(2) by (rule nth_equalityI) (use i in \<open>auto simp: nth_list_update\<close>)
  have "\<exists>ps'. AddParts H (map part order) ps1 = Inr ps' \<and> part_set_inv ps' \<and>
    ps_parts ps' = map (\<lambda>j. if j \<in> insert i d \<union> set order then Some (part j) else None) [0..<n]"
    using Cons.prems ps1(3) by (intro Cons.IH [OF ps1(2) upd]) auto
  with ps1(1) show ?case by simp
qed simp

text \<open>
  C34: Block transfer. Cut any data into parts, send the header and then the parts in any order to an
  empty part set: every part is accepted, the set becomes complete, and reading it returns exactly the
  original data.
\<close>

theorem PartSet_roundtrip:
  assumes "0 < partSize" "data \<noteq> []" "length data + partSize < 2 ^ 32"
  shows "\<exists>full. NewPartSetFromData H data partSize = Inr full \<and>
    (\<forall>order. distinct order \<and> set order = {0..<ps_total full} \<longrightarrow>
       (\<exists>ps cur rest. AddParts H (map (\<lambda>i. the (ps_parts full ! i)) order) (NewPartSetFromHeader (PartSet_Header (Some full))) = Inr ps \<and>
          PartSet_IsComplete ps \<and> GetReader ps = Inr (cur, rest) \<and>
          fst (PartSetReader_Read cur rest (length data)) = data))"
proof -
  let ?n = "part_count partSize data"
  obtain full part where full: "NewPartSetFromData H data partSize = Inr full" "ps_total full = ?n"
    "ps_parts full = map (\<lambda>i. Some (part i)) [0..<?n]"
    and part: "\<And>i. i < ?n \<Longrightarrow> pt_Index (part i) = i \<and> pt_Bytes (part i) = chunk partSize data i \<and>
       Proof_Verify H (pt_Proof (part i)) (ps_hash full) (chunk partSize data i) = Inr ()"
    using NewPartSetFromData_spec [OF assms] by blast
  have n: "0 < ?n" using part_count_bounds(1) [OF assms(1), of 0] assms(2) by simp
  have "?n \<le> length data + partSize - 1" by (simp add: part_count_def)
  then have n32: "?n < 2 ^ 32" using assms(3) by simp
  let ?ps0 = "NewPartSetFromHeader (PartSet_Header (Some full))"
  have ps0: "part_set_inv ?ps0" "ps_hash ?ps0 = ps_hash full"
    "ps_parts ?ps0 = map (\<lambda>i. if i \<in> {} then Some (part i) else None) [0..<?n]"
    using NewPartSetFromHeader_inv [of "PartSet_Header (Some full)"] n32 full(2)
    by (simp_all add: PartSet_Header_def NewPartSetFromHeader_def map_replicate_const)
  have "\<exists>ps cur rest. AddParts H (map (\<lambda>i. the (ps_parts full ! i)) order) ?ps0 = Inr ps \<and>
          PartSet_IsComplete ps \<and> GetReader ps = Inr (cur, rest) \<and>
          fst (PartSetReader_Read cur rest (length data)) = data"
    if order: "distinct order" "set order = {0..<ps_total full}" for order
  proof -
    have same: "map (\<lambda>i. the (ps_parts full ! i)) order = map part order"
      using order(2) full(2,3) by simp
    obtain ps where ps: "AddParts H (map part order) ?ps0 = Inr ps" "part_set_inv ps"
      "ps_parts ps = map (\<lambda>i. if i \<in> {} \<union> set order then Some (part i) else None) [0..<?n]"
      using AddParts_spec [OF ps0(1,3) order(1), of H] part ps0(2) order(2) full(2) by auto
    have parts: "ps_parts ps = map (\<lambda>i. Some (part i)) [0..<?n]"
      unfolding ps(3) using order(2) full(2) by simp
    then have complete: "PartSet_IsComplete ps" unfolding IsComplete_iff [OF ps(2)] by auto
    define bs where "bs = map (\<lambda>q. case q of Some q \<Rightarrow> pt_Bytes q | None \<Rightarrow> []) (ps_parts ps)"
    have bs: "bs = map (chunk partSize data) [0..<?n]" unfolding bs_def parts using part by simp
    then obtain cur rest where cr: "bs = cur # rest" using n by (cases bs) auto
    then have reader: "GetReader ps = Inr (cur, rest)"
      using complete n parts unfolding bs_def by (auto simp: GetReader_def upt_conv_Cons)
    have "cur @ concat rest = data"
      using concat_chunks [of partSize data ?n] part_count_bounds(2) [OF assms(1), of data] cr bs by simp
    then have "fst (PartSetReader_Read cur rest (length data)) = data"
      using PartSetReader_Read_spec [of "length data" cur rest] by simp
    with ps(1) complete reader show ?thesis unfolding same by blast
  qed
  with full(1) show ?thesis by blast
qed

theorem PartSet_roundtrip_witness:
  "\<exists>full ps cur rest. NewPartSetFromData demo_hash [7, 8, 9] 2 = Inr full \<and>
     AddParts demo_hash (map (\<lambda>i. the (ps_parts full ! i)) (rev [0..<ps_total full])) (NewPartSetFromHeader (PartSet_Header (Some full))) = Inr ps \<and>
     GetReader ps = Inr (cur, rest) \<and> fst (PartSetReader_Read cur rest 3) = [7, 8, 9]"
proof -
  have "0 < (2 :: nat)" "[7, 8, 9 :: 8 word] \<noteq> []" "length [7, 8, 9 :: 8 word] + 2 < 2 ^ 32" by simp_all
  from PartSet_roundtrip [OF this, of demo_hash] obtain full where f: "NewPartSetFromData demo_hash [7, 8, 9] 2 = Inr full" and
    o: "\<forall>order. distinct order \<and> set order = {0..<ps_total full} \<longrightarrow>
       (\<exists>ps cur rest. AddParts demo_hash (map (\<lambda>i. the (ps_parts full ! i)) order) (NewPartSetFromHeader (PartSet_Header (Some full))) = Inr ps \<and>
          PartSet_IsComplete ps \<and> GetReader ps = Inr (cur, rest) \<and>
          fst (PartSetReader_Read cur rest (length [7, 8, 9 :: 8 word])) = [7, 8, 9])" by blast
  have "distinct (rev [0..<ps_total full]) \<and> set (rev [0..<ps_total full]) = {0..<ps_total full}" by simp
  from o [rule_format, OF this] f show ?thesis by (elim exE conjE) (intro exI conjI, assumption+, simp add: numeral_3_eq_3)
qed

text \<open>
  What \<^verbatim>\<open>AddPart\<close> does not check. Acceptance of a part depends on its index only through
  the range and the free slot: if one part of a set verifies, the same bytes and proof are accepted at
  every other free index, so a peer can fill a slot with the bytes of another part, after which the
  genuine part for the slot is ignored.
\<close>

theorem AddPart_position_unchecked:
  assumes "part_set_inv ps" "Proof_Verify H (pt_Proof part) (ps_hash ps) (pt_Bytes part) = Inr ()"
    and "j < ps_total ps" "ps_parts ps ! j = None"
  shows "\<exists>ps'. AddPart H (part\<lparr>pt_Index := j\<rparr>) ps = Inr (True, ps') \<and> part_set_inv ps' \<and>
    ps_parts ps' ! j = Some (part\<lparr>pt_Index := j\<rparr>) \<and>
    (\<forall>genuine. pt_Index genuine = j \<longrightarrow> AddPart H genuine ps' = Inr (False, ps'))"
proof -
  obtain ps' where ps': "AddPart H (part\<lparr>pt_Index := j\<rparr>) ps = Inr (True, ps')" "part_set_inv ps'" "ps_total ps' = ps_total ps"
    "ps_parts ps' = (ps_parts ps)[j := Some (part\<lparr>pt_Index := j\<rparr>)]"
    using AddPart_accepts [OF assms(1), of "part\<lparr>pt_Index := j\<rparr>" H] assms by auto
  have "j < length (ps_parts ps')" "j < length (ps_parts ps)" using assms(1,3) ps'(2,3) by (simp_all add: part_set_inv_def)
  then show ?thesis using ps' assms(3) by (auto simp: AddPart_def)
qed

theorem AddPart_position_unchecked_witness:
  "Proof_Verify demo_hash demo_proof (HashFromByteSlices demo_hash [[1], [2]]) [2] = Inr () \<and> pf_Index demo_proof = 1 \<and>
   (\<exists>ps'. AddPart demo_hash \<lparr>pt_Index = 0, pt_Bytes = [2], pt_Proof = demo_proof\<rparr>
      (NewPartSetFromHeader \<lparr>psh_Total = 2, psh_Hash = HashFromByteSlices demo_hash [[1], [2]]\<rparr>) = Inr (True, ps') \<and>
      ps_parts ps' ! 0 = Some \<lparr>pt_Index = 0, pt_Bytes = [2], pt_Proof = demo_proof\<rparr>)"
proof -
  let ?ps = "NewPartSetFromHeader \<lparr>psh_Total = 2, psh_Hash = HashFromByteSlices demo_hash [[1], [2]]\<rparr>"
  let ?part = "\<lparr>pt_Index = 1, pt_Bytes = [2], pt_Proof = demo_proof\<rparr>"
  have v: "Proof_Verify demo_hash demo_proof (HashFromByteSlices demo_hash [[1], [2]]) [2] = Inr ()"
    by (rule demo_proof_verifies)
  have inv: "part_set_inv ?ps" by (rule NewPartSetFromHeader_inv) simp
  have p: "Proof_Verify demo_hash (pt_Proof ?part) (ps_hash ?ps) (pt_Bytes ?part) = Inr ()" "0 < ps_total ?ps" "ps_parts ?ps ! 0 = None"
    using v by (simp_all add: NewPartSetFromHeader_def)
  have u: "?part\<lparr>pt_Index := 0\<rparr> = \<lparr>pt_Index = 0, pt_Bytes = [2], pt_Proof = demo_proof\<rparr>" by simp
  from AddPart_position_unchecked [OF inv p, unfolded u] v show ?thesis by (auto simp: demo_proof_def)
qed

end
