(* ===== verification/Block_Types.thy ===== *)
theory Block_Types
  imports Validators Part_Set
begin

text \<open>
  Block identifiers, votes, proposals and commits of \<^verbatim>\<open>types/block.go\<close>, \<^verbatim>\<open>types/vote.go\<close>,
  \<^verbatim>\<open>types/proposal.go\<close> and \<^verbatim>\<open>types/canonical.go\<close>. The protobuf twin of a message has the same
  fields, so the conversion to it is the identity here and the conversion from it is the
  validation it performs. Public keys, signatures and the encoding of times come from other packages:
  they are the fields of one argument of type \<open>crypto\<close>. A chain identifier is its bytes.
\<close>

section \<open>The cryptography the code calls\<close>

record crypto =
  cr_Address :: "bytes \<Rightarrow> bytes"
  cr_VerifyBytes :: "bytes \<Rightarrow> bytes \<Rightarrow> bytes \<Rightarrow> bool"
  cr_TimeBytes :: "timestamp \<Rightarrow> bytes option"

section \<open>Block identifiers\<close>

record BlockID =
  bid_Hash :: bytes
  bid_PartSetHeader :: PartSetHeader

datatype basic_error =
    ErrWrongHash
  | ErrWrongPartSetHeader part_error
  | ErrInvalidType
  | ErrNegativeHeight
  | ErrNegativeRound
  | ErrNegativePOLRound
  | ErrWrongBlockID basic_error
  | ErrBlockIDNotEmptyOrComplete
  | ErrBlockIDNotComplete
  | ErrAddressSize
  | ErrNegativeIndex
  | ErrSignatureMissing
  | ErrSignatureTooBig
  | ErrUnknownBlockIDFlag
  | ErrAddressPresent
  | ErrTimePresent
  | ErrSignaturePresent
  | ErrCommitForNilBlock
  | ErrNoSignatures
  | ErrWrongCommitSig nat basic_error
  | ErrNilMessage

definition PartSetHeader_marshal :: "PartSetHeader \<Rightarrow> bytes" where
  "PartSetHeader_marshal m = varint_field 0x08 (psh_Total m) @ bytes_field 0x12 (psh_Hash m)"

definition BlockID_Equals :: "BlockID \<Rightarrow> BlockID \<Rightarrow> bool" where
  "BlockID_Equals b other \<longleftrightarrow> bid_Hash b = bid_Hash other \<and>
     PartSetHeader_Equals (bid_PartSetHeader b) (bid_PartSetHeader other)"

definition BlockID_Key :: "BlockID \<Rightarrow> bytes" where
  "BlockID_Key b = bid_Hash b @ PartSetHeader_marshal (bid_PartSetHeader b)"

definition BlockID_ValidateBasic :: "BlockID \<Rightarrow> (basic_error, unit) result" where
  "BlockID_ValidateBasic b =
     (if \<not> ValidateHash (bid_Hash b) then Inl (Err ErrWrongHash)
      else lift_fault ErrWrongPartSetHeader (PartSetHeader_ValidateBasic (bid_PartSetHeader b)))"

definition BlockID_IsZero :: "BlockID \<Rightarrow> bool" where
  "BlockID_IsZero b \<longleftrightarrow> length (bid_Hash b) = 0 \<and> PartSetHeader_IsZero (bid_PartSetHeader b)"

definition BlockID_IsComplete :: "BlockID \<Rightarrow> bool" where
  "BlockID_IsComplete b \<longleftrightarrow> length (bid_Hash b) = tmhash_Size \<and>
     psh_Total (bid_PartSetHeader b) > 0 \<and> length (psh_Hash (bid_PartSetHeader b)) = tmhash_Size"

definition nil_BlockID :: BlockID where
  "nil_BlockID = \<lparr>bid_Hash = [], bid_PartSetHeader = \<lparr>psh_Total = 0, psh_Hash = []\<rparr>\<rparr>"

text \<open>Reading a block identifier from a message: the header first, then the whole.\<close>

definition BlockIDFromProto :: "BlockID option \<Rightarrow> (basic_error, BlockID) result" where
  "BlockIDFromProto bID =
     (case bID of None \<Rightarrow> Inl (Err ErrNilMessage)
      | Some b \<Rightarrow>
          and_then (lift_fault ErrWrongPartSetHeader (PartSetHeader_ValidateBasic (bid_PartSetHeader b))) (\<lambda>_.
          and_then (BlockID_ValidateBasic b) (\<lambda>_. Inr b)))"

section \<open>Votes and proposals\<close>

type_synonym SignedMsgType = int32

definition PrevoteType :: SignedMsgType where "PrevoteType = 1"
definition PrecommitType :: SignedMsgType where "PrecommitType = 2"
definition ProposalType :: SignedMsgType where "ProposalType = 32"

definition IsVoteTypeValid :: "SignedMsgType \<Rightarrow> bool" where
  "IsVoteTypeValid t \<longleftrightarrow> t = PrevoteType \<or> t = PrecommitType"

record Vote =
  v_Type :: SignedMsgType
  v_Height :: int64
  v_Round :: int32
  v_BlockID :: BlockID
  v_Timestamp :: timestamp
  v_ValidatorAddress :: bytes
  v_ValidatorIndex :: int32
  v_Signature :: bytes

record Proposal =
  p_Type :: SignedMsgType
  p_Height :: int64
  p_Round :: int32
  p_POLRound :: int32
  p_BlockID :: BlockID
  p_Timestamp :: timestamp
  p_Signature :: bytes

definition MaxSignatureSize :: nat where
  "MaxSignatureSize = 64"

text \<open>A block identifier that does not validate makes the code panic here.\<close>

definition CanonicalizeBlockID :: "BlockID \<Rightarrow> (basic_error, CanonicalBlockID option) result" where
  "CanonicalizeBlockID bid =
     (case BlockIDFromProto (Some bid) of
        Inl _ \<Rightarrow> Inl (Panic ''invalid BlockID'')
      | Inr rbid \<Rightarrow>
          Inr (if BlockID_IsZero rbid then None
               else Some \<lparr>cb_Hash = bid_Hash bid,
                 cb_PartSetHeader = \<lparr>cp_Total = psh_Total (bid_PartSetHeader bid), cp_Hash = psh_Hash (bid_PartSetHeader bid)\<rparr>\<rparr>))"

definition CanonicalizeVote :: "bytes \<Rightarrow> Vote \<Rightarrow> (basic_error, CanonicalVote) result" where
  "CanonicalizeVote chainID vote =
     and_then (CanonicalizeBlockID (v_BlockID vote)) (\<lambda>cbid.
       Inr \<lparr>cv_Type = v_Type vote, cv_Height = v_Height vote, cv_Round = v_Round vote,
            cv_BlockID = cbid, cv_Timestamp = v_Timestamp vote, cv_ChainID = chainID\<rparr>)"

definition CanonicalizeProposal :: "bytes \<Rightarrow> Proposal \<Rightarrow> (basic_error, CanonicalProposal) result" where
  "CanonicalizeProposal chainID p =
     and_then (CanonicalizeBlockID (p_BlockID p)) (\<lambda>cbid.
       Inr \<lparr>cpr_Type = ProposalType, cpr_Height = p_Height p, cpr_Round = p_Round p, cpr_POLRound = p_POLRound p,
            cpr_BlockID = cbid, cpr_Timestamp = p_Timestamp p, cpr_ChainID = chainID\<rparr>)"

definition or_panic :: "(wire_error, 'a) result \<Rightarrow> (basic_error, 'a) result" where
  "or_panic r = (case r of Inl _ \<Rightarrow> Inl (Panic ''marshal error'') | Inr x \<Rightarrow> Inr x)"

definition VoteSignBytes :: "crypto \<Rightarrow> bytes \<Rightarrow> Vote \<Rightarrow> (basic_error, bytes) result" where
  "VoteSignBytes cr chainID vote =
     and_then (CanonicalizeVote chainID vote) (\<lambda>pb.
       or_panic (MarshalDelimited (CanonicalVote_marshal (cr_TimeBytes cr) pb)))"

definition ProposalSignBytes :: "crypto \<Rightarrow> bytes \<Rightarrow> Proposal \<Rightarrow> (basic_error, bytes) result" where
  "ProposalSignBytes cr chainID p =
     and_then (CanonicalizeProposal chainID p) (\<lambda>pb.
       or_panic (MarshalDelimited (CanonicalProposal_marshal (cr_TimeBytes cr) pb)))"

datatype vote_error =
    ErrVoteUnexpectedStep
  | ErrVoteInvalidValidatorIndex
  | ErrVoteInvalidValidatorAddress
  | ErrVoteInvalidSignature
  | ErrVoteInvalidBlockHash
  | ErrVoteNonDeterministicSignature
  | ErrVoteNil
  | ErrVoteConflictingVotes Vote Vote
  | ErrPeerConflict

text \<open>Panics of the canonical encoding pass through; it returns no errors.\<close>

definition Vote_Verify :: "crypto \<Rightarrow> bytes \<Rightarrow> bytes \<Rightarrow> Vote \<Rightarrow> (vote_error, unit) result" where
  "Vote_Verify cr chainID pubKey vote =
     (if cr_Address cr pubKey \<noteq> v_ValidatorAddress vote then Inl (Err ErrVoteInvalidValidatorAddress)
      else and_then (lift_fault (\<lambda>_. ErrVoteInvalidSignature) (VoteSignBytes cr chainID vote)) (\<lambda>bz.
        if \<not> cr_VerifyBytes cr pubKey bz (v_Signature vote) then Inl (Err ErrVoteInvalidSignature) else Inr ()))"

definition Vote_ValidateBasic :: "Vote \<Rightarrow> (basic_error, unit) result" where
  "Vote_ValidateBasic vote =
     (if \<not> IsVoteTypeValid (v_Type vote) then Inl (Err ErrInvalidType)
      else if v_Height vote < 0 then Inl (Err ErrNegativeHeight)
      else if v_Round vote < 0 then Inl (Err ErrNegativeRound)
      else case BlockID_ValidateBasic (v_BlockID vote) of
        Inl (Err e) \<Rightarrow> Inl (Err (ErrWrongBlockID e))
      | Inl (Panic s) \<Rightarrow> Inl (Panic s)
      | Inr _ \<Rightarrow>
          if \<not> BlockID_IsZero (v_BlockID vote) \<and> \<not> BlockID_IsComplete (v_BlockID vote)
          then Inl (Err ErrBlockIDNotEmptyOrComplete)
          else if length (v_ValidatorAddress vote) \<noteq> AddressSize then Inl (Err ErrAddressSize)
          else if v_ValidatorIndex vote < 0 then Inl (Err ErrNegativeIndex)
          else if length (v_Signature vote) = 0 then Inl (Err ErrSignatureMissing)
          else if length (v_Signature vote) > MaxSignatureSize then Inl (Err ErrSignatureTooBig)
          else Inr ())"

definition Proposal_ValidateBasic :: "Proposal \<Rightarrow> (basic_error, unit) result" where
  "Proposal_ValidateBasic p =
     (if p_Type p \<noteq> ProposalType then Inl (Err ErrInvalidType)
      else if p_Height p < 0 then Inl (Err ErrNegativeHeight)
      else if p_Round p < 0 then Inl (Err ErrNegativeRound)
      else if p_POLRound p < -1 then Inl (Err ErrNegativePOLRound)
      else case BlockID_ValidateBasic (p_BlockID p) of
        Inl (Err e) \<Rightarrow> Inl (Err (ErrWrongBlockID e))
      | Inl (Panic s) \<Rightarrow> Inl (Panic s)
      | Inr _ \<Rightarrow>
          if \<not> BlockID_IsComplete (p_BlockID p) then Inl (Err ErrBlockIDNotComplete)
          else if length (p_Signature p) = 0 then Inl (Err ErrSignatureMissing)
          else if length (p_Signature p) > MaxSignatureSize then Inl (Err ErrSignatureTooBig)
          else Inr ())"

section \<open>Commits\<close>

type_synonym BlockIDFlag = "8 word"

definition BlockIDFlagAbsent :: BlockIDFlag where "BlockIDFlagAbsent = 1"
definition BlockIDFlagCommit :: BlockIDFlag where "BlockIDFlagCommit = 2"
definition BlockIDFlagNil :: BlockIDFlag where "BlockIDFlagNil = 3"

lemmas block_id_flags = BlockIDFlagAbsent_def BlockIDFlagCommit_def BlockIDFlagNil_def

record CommitSig =
  cs_BlockIDFlag :: BlockIDFlag
  cs_ValidatorAddress :: bytes
  cs_Timestamp :: timestamp
  cs_Signature :: bytes

definition NewCommitSigForBlock :: "bytes \<Rightarrow> bytes \<Rightarrow> timestamp \<Rightarrow> CommitSig" where
  "NewCommitSigForBlock signature valAddr ts =
     \<lparr>cs_BlockIDFlag = BlockIDFlagCommit, cs_ValidatorAddress = valAddr, cs_Timestamp = ts, cs_Signature = signature\<rparr>"

definition ForBlock :: "CommitSig \<Rightarrow> bool" where
  "ForBlock cs \<longleftrightarrow> cs_BlockIDFlag cs = BlockIDFlagCommit"

definition NewCommitSigAbsent :: CommitSig where
  "NewCommitSigAbsent = \<lparr>cs_BlockIDFlag = BlockIDFlagAbsent, cs_ValidatorAddress = [], cs_Timestamp = 0, cs_Signature = []\<rparr>"

definition Absent :: "CommitSig \<Rightarrow> bool" where
  "Absent cs \<longleftrightarrow> cs_BlockIDFlag cs = BlockIDFlagAbsent"

definition CommitSig_BlockID :: "CommitSig \<Rightarrow> BlockID \<Rightarrow> (basic_error, BlockID) result" where
  "CommitSig_BlockID cs commitBlockID =
     (if cs_BlockIDFlag cs = BlockIDFlagAbsent then Inr nil_BlockID
      else if cs_BlockIDFlag cs = BlockIDFlagCommit then Inr commitBlockID
      else if cs_BlockIDFlag cs = BlockIDFlagNil then Inr nil_BlockID
      else Inl (Panic ''Unknown BlockIDFlag''))"

definition CommitSig_ValidateBasic :: "CommitSig \<Rightarrow> (basic_error, unit) result" where
  "CommitSig_ValidateBasic cs =
     (if cs_BlockIDFlag cs \<notin> {BlockIDFlagAbsent, BlockIDFlagCommit, BlockIDFlagNil} then Inl (Err ErrUnknownBlockIDFlag)
      else if cs_BlockIDFlag cs = BlockIDFlagAbsent then
        (if length (cs_ValidatorAddress cs) \<noteq> 0 then Inl (Err ErrAddressPresent)
         else if cs_Timestamp cs \<noteq> 0 then Inl (Err ErrTimePresent)
         else if length (cs_Signature cs) \<noteq> 0 then Inl (Err ErrSignaturePresent)
         else Inr ())
      else if length (cs_ValidatorAddress cs) \<noteq> AddressSize then Inl (Err ErrAddressSize)
      else if length (cs_Signature cs) = 0 then Inl (Err ErrSignatureMissing)
      else if length (cs_Signature cs) > MaxSignatureSize then Inl (Err ErrSignatureTooBig)
      else Inr ())"

text \<open>The commit of a vote, and the vote of a commit.\<close>

definition Vote_CommitSig :: "Vote option \<Rightarrow> (basic_error, CommitSig) result" where
  "Vote_CommitSig vote =
     (case vote of
        None \<Rightarrow> Inr NewCommitSigAbsent
      | Some v \<Rightarrow>
          if BlockID_IsComplete (v_BlockID v) then
            Inr \<lparr>cs_BlockIDFlag = BlockIDFlagCommit, cs_ValidatorAddress = v_ValidatorAddress v,
                 cs_Timestamp = v_Timestamp v, cs_Signature = v_Signature v\<rparr>
          else if BlockID_IsZero (v_BlockID v) then
            Inr \<lparr>cs_BlockIDFlag = BlockIDFlagNil, cs_ValidatorAddress = v_ValidatorAddress v,
                 cs_Timestamp = v_Timestamp v, cs_Signature = v_Signature v\<rparr>
          else Inl (Panic ''Invalid vote - expected BlockID to be either empty or complete''))"

record Commit =
  c_Height :: int64
  c_Round :: int32
  c_BlockID :: BlockID
  c_Signatures :: "CommitSig list"
  c_hash :: "bytes option"
  c_bitArray :: "BitArray option"

definition NewCommit :: "int64 \<Rightarrow> int32 \<Rightarrow> BlockID \<Rightarrow> CommitSig list \<Rightarrow> Commit" where
  "NewCommit height round blockID commitSigs =
     \<lparr>c_Height = height, c_Round = round, c_BlockID = blockID, c_Signatures = commitSigs, c_hash = None, c_bitArray = None\<rparr>"

definition GetVote :: "Commit \<Rightarrow> int32 \<Rightarrow> (basic_error, Vote) result" where
  "GetVote commit valIdx =
     (if valIdx < 0 \<or> int (length (c_Signatures commit)) \<le> valIdx then Inl (Panic ''index out of range'')
      else let commitSig = c_Signatures commit ! nat valIdx
           in and_then (CommitSig_BlockID commitSig (c_BlockID commit)) (\<lambda>bid.
             Inr \<lparr>v_Type = PrecommitType, v_Height = c_Height commit, v_Round = c_Round commit, v_BlockID = bid,
                  v_Timestamp = cs_Timestamp commitSig, v_ValidatorAddress = cs_ValidatorAddress commitSig,
                  v_ValidatorIndex = valIdx, v_Signature = cs_Signature commitSig\<rparr>))"

definition Commit_VoteSignBytes :: "crypto \<Rightarrow> Commit \<Rightarrow> bytes \<Rightarrow> int32 \<Rightarrow> (basic_error, bytes) result" where
  "Commit_VoteSignBytes cr commit chainID valIdx = and_then (GetVote commit valIdx) (VoteSignBytes cr chainID)"

definition Commit_Size :: "Commit option \<Rightarrow> nat" where
  "Commit_Size commit = (case commit of None \<Rightarrow> 0 | Some c \<Rightarrow> length (c_Signatures c))"

definition Commit_IsCommit :: "Commit \<Rightarrow> bool" where
  "Commit_IsCommit commit \<longleftrightarrow> length (c_Signatures commit) \<noteq> 0"

fun set_present :: "nat \<Rightarrow> CommitSig list \<Rightarrow> BitArray option \<Rightarrow> (ba_error, BitArray option) result" where
  "set_present i [] bA = Inr bA"
| "set_present i (cs # rest) bA = and_then (SetIndex bA (int i) (\<not> Absent cs)) (\<lambda>(_, bA). set_present (Suc i) rest bA)"

definition Commit_BitArray :: "Commit \<Rightarrow> (ba_error, BitArray option \<times> Commit) result" where
  "Commit_BitArray commit =
     (case c_bitArray commit of
        Some a \<Rightarrow> Inr (Some a, commit)
      | None \<Rightarrow> and_then (set_present 0 (c_Signatures commit) (NewBitArray (int (length (c_Signatures commit))))) (\<lambda>bA.
          Inr (bA, commit\<lparr>c_bitArray := bA\<rparr>)))"

fun validate_sigs :: "nat \<Rightarrow> CommitSig list \<Rightarrow> (basic_error, unit) result" where
  "validate_sigs i [] = Inr ()"
| "validate_sigs i (cs # rest) =
     (case CommitSig_ValidateBasic cs of
        Inl (Err e) \<Rightarrow> Inl (Err (ErrWrongCommitSig i e))
      | Inl (Panic s) \<Rightarrow> Inl (Panic s)
      | Inr _ \<Rightarrow> validate_sigs (Suc i) rest)"

definition Commit_ValidateBasic :: "Commit \<Rightarrow> (basic_error, unit) result" where
  "Commit_ValidateBasic commit =
     (if c_Height commit < 0 then Inl (Err ErrNegativeHeight)
      else if c_Round commit < 0 then Inl (Err ErrNegativeRound)
      else if c_Height commit \<ge> 1 then
        (if BlockID_IsZero (c_BlockID commit) then Inl (Err ErrCommitForNilBlock)
         else if length (c_Signatures commit) = 0 then Inl (Err ErrNoSignatures)
         else validate_sigs 0 (c_Signatures commit))
      else Inr ())"

section \<open>Messages from peers\<close>

record tmproto_CommitSig =
  pcs_BlockIdFlag :: int32
  pcs_ValidatorAddress :: bytes
  pcs_Timestamp :: timestamp
  pcs_Signature :: bytes

record tmproto_Commit =
  pc_Height :: int64
  pc_Round :: int32
  pc_BlockID :: BlockID
  pc_Signatures :: "tmproto_CommitSig list"
  pc_Hash :: "bytes option"
  pc_BitArray :: "BitArray option"

definition VoteFromProto :: "Vote option \<Rightarrow> (basic_error, Vote) result" where
  "VoteFromProto pv =
     (case pv of None \<Rightarrow> Inl (Err ErrNilMessage)
      | Some v \<Rightarrow> and_then (BlockIDFromProto (Some (v_BlockID v))) (\<lambda>_. and_then (Vote_ValidateBasic v) (\<lambda>_. Inr v)))"

definition ProposalFromProto :: "Proposal option \<Rightarrow> (basic_error, Proposal) result" where
  "ProposalFromProto pp =
     (case pp of None \<Rightarrow> Inl (Err ErrNilMessage)
      | Some p \<Rightarrow> and_then (BlockIDFromProto (Some (p_BlockID p))) (\<lambda>_. and_then (Proposal_ValidateBasic p) (\<lambda>_. Inr p)))"

text \<open>The flag of a signature is an \<^verbatim>\<open>int32\<close> in the message and is cut to a byte.\<close>

definition CommitSig_ToProto :: "CommitSig \<Rightarrow> tmproto_CommitSig" where
  "CommitSig_ToProto cs =
     \<lparr>pcs_BlockIdFlag = int (unat (cs_BlockIDFlag cs)), pcs_ValidatorAddress = cs_ValidatorAddress cs,
      pcs_Timestamp = cs_Timestamp cs, pcs_Signature = cs_Signature cs\<rparr>"

definition CommitSig_FromProto :: "tmproto_CommitSig \<Rightarrow> (basic_error, CommitSig) result" where
  "CommitSig_FromProto csp =
     (let cs = \<lparr>cs_BlockIDFlag = word_of_int (pcs_BlockIdFlag csp), cs_ValidatorAddress = pcs_ValidatorAddress csp,
                cs_Timestamp = pcs_Timestamp csp, cs_Signature = pcs_Signature csp\<rparr>
      in and_then (CommitSig_ValidateBasic cs) (\<lambda>_. Inr cs))"

fun sigs_from_proto :: "tmproto_CommitSig list \<Rightarrow> (basic_error, CommitSig list) result" where
  "sigs_from_proto [] = Inr []"
| "sigs_from_proto (p # ps) =
     and_then (CommitSig_FromProto p) (\<lambda>cs. and_then (sigs_from_proto ps) (\<lambda>rest. Inr (cs # rest)))"

definition Commit_ToProto :: "Commit \<Rightarrow> tmproto_Commit" where
  "Commit_ToProto c =
     \<lparr>pc_Height = c_Height c, pc_Round = c_Round c, pc_BlockID = c_BlockID c,
      pc_Signatures = map CommitSig_ToProto (c_Signatures c), pc_Hash = c_hash c,
      pc_BitArray = BitArray_ToProto (c_bitArray c)\<rparr>"

text \<open>
  \<^verbatim>\<open>bitArray\<close> is a nil pointer when \<^verbatim>\<open>FromProto\<close> is called on it: a bit array in the message is
  written through that pointer, and the commit's own field stays nil in every other case.
\<close>

definition CommitFromProto :: "tmproto_Commit option \<Rightarrow> (basic_error, Commit) result" where
  "CommitFromProto cp =
     (case cp of
        None \<Rightarrow> Inl (Err ErrNilMessage)
      | Some p \<Rightarrow>
          and_then (BlockIDFromProto (Some (pc_BlockID p))) (\<lambda>bi.
          if pc_BitArray p \<noteq> None then Inl (Panic ''nil pointer dereference'')
          else and_then (sigs_from_proto (pc_Signatures p)) (\<lambda>sigs.
            let commit = \<lparr>c_Height = pc_Height p, c_Round = pc_Round p, c_BlockID = bi, c_Signatures = sigs,
                          c_hash = pc_Hash p, c_bitArray = None\<rparr>
            in and_then (Commit_ValidateBasic commit) (\<lambda>_. Inr commit))))"

text \<open>The encoding of a signature under the Merkle root, and the memoised hash of a commit.\<close>

definition CommitSig_marshal :: "crypto \<Rightarrow> tmproto_CommitSig \<Rightarrow> (wire_error, bytes) result" where
  "CommitSig_marshal cr m =
     (case cr_TimeBytes cr (pcs_Timestamp m) of
        None \<Rightarrow> Inl (Err ErrTimeRange)
      | Some tb \<Rightarrow> Inr (varint_field 0x08 (uint64_of (pcs_BlockIdFlag m)) @ bytes_field 0x12 (pcs_ValidatorAddress m) @
          [0x1a] @ len_prefixed tb @ bytes_field 0x22 (pcs_Signature m)))"

fun marshal_sigs :: "crypto \<Rightarrow> CommitSig list \<Rightarrow> (basic_error, bytes list) result" where
  "marshal_sigs cr [] = Inr []"
| "marshal_sigs cr (cs # rest) =
     and_then (or_panic (CommitSig_marshal cr (CommitSig_ToProto cs))) (\<lambda>bz.
     and_then (marshal_sigs cr rest) (\<lambda>bs. Inr (bz # bs)))"

definition Commit_Hash :: "crypto \<Rightarrow> (bytes \<Rightarrow> bytes) \<Rightarrow> Commit \<Rightarrow> (basic_error, bytes \<times> Commit) result" where
  "Commit_Hash cr H commit =
     (case c_hash commit of
        Some h \<Rightarrow> Inr (h, commit)
      | None \<Rightarrow> and_then (marshal_sigs cr (c_Signatures commit)) (\<lambda>bs.
          let h = HashFromByteSlices H bs in Inr (h, commit\<lparr>c_hash := if bs = [] then None else Some h\<rparr>)))"

section \<open>Properties\<close>

lemma BlockID_eqI: "bid_Hash a = bid_Hash b \<Longrightarrow> bid_PartSetHeader a = bid_PartSetHeader b \<Longrightarrow> a = (b :: BlockID)"
  by (cases a, cases b) simp

lemma PartSetHeader_eqI: "psh_Total a = psh_Total b \<Longrightarrow> psh_Hash a = psh_Hash b \<Longrightarrow> a = (b :: PartSetHeader)"
  by (cases a, cases b) simp

lemma BlockID_Equals_iff [simp]: "BlockID_Equals a b \<longleftrightarrow> a = b"
  by (auto simp: BlockID_Equals_def PartSetHeader_Equals_def intro: BlockID_eqI PartSetHeader_eqI)

lemma BlockID_IsZero_iff: "BlockID_IsZero b \<longleftrightarrow> b = nil_BlockID"
  by (auto simp: BlockID_IsZero_def PartSetHeader_IsZero_def nil_BlockID_def intro!: BlockID_eqI PartSetHeader_eqI)

lemma IsComplete_not_zero: "BlockID_IsComplete b \<Longrightarrow> \<not> BlockID_IsZero b"
  by (auto simp: BlockID_IsComplete_def BlockID_IsZero_def tmhash_Size_def)

lemma IsComplete_valid: "BlockID_IsComplete b \<or> BlockID_IsZero b \<Longrightarrow> BlockID_ValidateBasic b = Inr ()"
  by (auto simp: BlockID_IsComplete_def BlockID_IsZero_def PartSetHeader_IsZero_def BlockID_ValidateBasic_def
      PartSetHeader_ValidateBasic_def ValidateHash_def lift_fault_def)

lemma PartSetHeader_marshal_inject: "PartSetHeader_marshal a = PartSetHeader_marshal b \<Longrightarrow> a = b"
  using CanonicalPartSetHeader_marshal_inject
    [of "\<lparr>cp_Total = psh_Total a, cp_Hash = psh_Hash a\<rparr>" "\<lparr>cp_Total = psh_Total b, cp_Hash = psh_Hash b\<rparr>"]
  by (simp add: PartSetHeader_marshal_def CanonicalPartSetHeader_marshal_def PartSetHeader_eqI)

definition proper_BlockID :: "BlockID \<Rightarrow> bool" where
  "proper_BlockID b \<longleftrightarrow> BlockID_IsZero b \<or> BlockID_IsComplete b"

lemma BlockID_Key_inject:
  assumes "proper_BlockID a" "proper_BlockID b" "BlockID_Key a = BlockID_Key b"
  shows "a = b"
proof -
  have nil: "BlockID_Key x = [] \<longleftrightarrow> BlockID_IsZero x" if "proper_BlockID x" for x
    using that by (auto simp: proper_BlockID_def BlockID_Key_def BlockID_IsZero_def PartSetHeader_IsZero_def
        BlockID_IsComplete_def PartSetHeader_marshal_def varint_field_def bytes_field_def tmhash_Size_def)
  show ?thesis
  proof (cases "BlockID_IsZero a")
    case True
    then show ?thesis using nil assms by (metis BlockID_IsZero_iff)
  next
    case False
    then have "BlockID_IsComplete a" "BlockID_IsComplete b"
      using nil [OF assms(1)] nil [OF assms(2)] assms by (auto simp: proper_BlockID_def)
    then have "length (bid_Hash a) = length (bid_Hash b)" by (simp add: BlockID_IsComplete_def)
    then have "bid_Hash a = bid_Hash b" "PartSetHeader_marshal (bid_PartSetHeader a) = PartSetHeader_marshal (bid_PartSetHeader b)"
      using assms(3) by (simp_all add: BlockID_Key_def)
    then show ?thesis by (intro BlockID_eqI PartSetHeader_marshal_inject)
  qed
qed

text \<open>
  The key under which votes for a block are collected is injective on the block identifiers a valid
  vote can carry (empty or complete), so votes for different blocks are never counted together. On
  other identifiers it is not: an empty hash with a part set header shares its key with a hash that
  spells the header.
\<close>

theorem BlockID_Key_injective:
  "inj_on BlockID_Key {b. BlockID_IsZero b \<or> BlockID_IsComplete b} \<and>
   (\<exists>a b. a \<noteq> b \<and> BlockID_Key a = BlockID_Key b)"
proof
  show "inj_on BlockID_Key {b. BlockID_IsZero b \<or> BlockID_IsComplete b}"
    using BlockID_Key_inject by (auto simp: inj_on_def proper_BlockID_def)
  show "\<exists>a b. a \<noteq> b \<and> BlockID_Key a = BlockID_Key b"
    by (intro exI [of _ "\<lparr>bid_Hash = [], bid_PartSetHeader = \<lparr>psh_Total = 1, psh_Hash = []\<rparr>\<rparr>"]
        exI [of _ "\<lparr>bid_Hash = [8, 1], bid_PartSetHeader = \<lparr>psh_Total = 0, psh_Hash = []\<rparr>\<rparr>"])
      (simp add: BlockID_Key_def PartSetHeader_marshal_def varint_field_def bytes_field_def encodeVarint.simps)
qed

lemma CommitSig_proto_roundtrip:
  "CommitSig_FromProto (CommitSig_ToProto cs) = and_then (CommitSig_ValidateBasic cs) (\<lambda>_. Inr cs)"
  by (cases cs) (simp add: CommitSig_FromProto_def CommitSig_ToProto_def Let_def)

lemma validate_sigs_all: "validate_sigs i sigs = Inr () \<longleftrightarrow> (\<forall>cs \<in> set sigs. CommitSig_ValidateBasic cs = Inr ())"
  by (induction i sigs rule: validate_sigs.induct) (auto split: sum.splits fault.splits)

lemma sigs_from_proto_valid:
  "(\<forall>cs \<in> set sigs. CommitSig_ValidateBasic cs = Inr ()) \<Longrightarrow> sigs_from_proto (map CommitSig_ToProto sigs) = Inr sigs"
  by (induction sigs) (auto simp: CommitSig_proto_roundtrip)

lemma BlockIDFromProto_valid: "BlockID_ValidateBasic b = Inr () \<Longrightarrow> BlockIDFromProto (Some b) = Inr b"
  by (auto simp: BlockIDFromProto_def BlockID_ValidateBasic_def lift_fault_def split: if_splits sum.splits fault.splits)

text \<open>
  C36: Decoding a commit. A valid commit of a positive height survives the trip through its message
  as long as its bit array has not been computed, and the decoded commit reports whatever hash the
  message carried as its own hash, however the signatures look. Once the bit array has been
  computed, the message carries it, and decoding it panics.
\<close>

theorem CommitFromProto_decodes:
  assumes "Commit_ValidateBasic c = Inr ()" "BlockID_ValidateBasic (c_BlockID c) = Inr ()" "1 \<le> c_Height c"
  shows "(c_bitArray c = None \<longrightarrow> CommitFromProto (Some (Commit_ToProto c)) = Inr c) \<and>
    (c_bitArray c = None \<longrightarrow> (\<forall>h. \<exists>c'. CommitFromProto (Some ((Commit_ToProto c)\<lparr>pc_Hash := Some h\<rparr>)) = Inr c' \<and>
       Commit_Hash cr H c' = Inr (h, c'))) \<and>
    (\<forall>bA c'. Commit_BitArray (c\<lparr>c_bitArray := None\<rparr>) = Inr (bA, c') \<longrightarrow>
       (\<exists>s. CommitFromProto (Some (Commit_ToProto c')) = Inl (Panic s)))"
proof -
  have sigs: "\<forall>cs \<in> set (c_Signatures c). CommitSig_ValidateBasic cs = Inr ()" "c_Signatures c \<noteq> []"
    using assms(1,3) validate_sigs_all [of 0 "c_Signatures c"] by (auto simp: Commit_ValidateBasic_def split: if_splits)
  have v: "Commit_ValidateBasic (c\<lparr>c_hash := h, c_bitArray := b\<rparr>) = Inr ()" for h b
    using assms(1) by (auto simp: Commit_ValidateBasic_def split: if_splits)
  have dec: "CommitFromProto (Some ((Commit_ToProto c)\<lparr>pc_Hash := h\<rparr>)) = Inr (c\<lparr>c_hash := h\<rparr>)" if "c_bitArray c = None" for h
    using that sigs_from_proto_valid [OF sigs(1)] BlockIDFromProto_valid [OF assms(2)] v [where h = h and b = None]
    by (cases c) (simp add: CommitFromProto_def Commit_ToProto_def BitArray_ToProto_def Let_def)
  have "\<exists>s. CommitFromProto (Some (Commit_ToProto c')) = Inl (Panic s)"
    if b: "Commit_BitArray (c\<lparr>c_bitArray := None\<rparr>) = Inr (bA, c')" for bA c'
  proof -
    have keep: "set_present i cs (Some a) = Inr bA \<Longrightarrow> ba_Elems a \<noteq> [] \<Longrightarrow> \<exists>a'. bA = Some a' \<and> ba_Elems a' \<noteq> []" for i cs a bA
      by (induction i cs "Some a" arbitrary: a rule: set_present.induct)
        (fastforce simp: SetIndex_def setIndex_def and_then_Inr_iff split: if_splits)+
    obtain a where "NewBitArray (int (length (c_Signatures c))) = Some a" "ba_wf a"
      using NewBitArray_spec [of "int (length (c_Signatures c))"] sigs(2) by auto
    moreover from this have "ba_Elems a \<noteq> []" using index_in_elems [of a 0] by (auto simp: ba_wf_def)
    moreover have "set_present 0 (c_Signatures c) (NewBitArray (int (length (c_Signatures c)))) = Inr bA" "c' = c\<lparr>c_bitArray := bA\<rparr>"
      using b by (auto simp: Commit_BitArray_def and_then_Inr_iff)
    ultimately obtain a' where "c' = c\<lparr>c_bitArray := Some a'\<rparr>" "ba_Elems a' \<noteq> []" using keep by metis
    then show ?thesis
      using BlockIDFromProto_valid [OF assms(2)] by (simp add: CommitFromProto_def Commit_ToProto_def BitArray_ToProto_def)
  qed
  moreover have "CommitFromProto (Some (Commit_ToProto c)) = Inr c" if "c_bitArray c = None"
    using dec [OF that, of "c_hash c"] by (simp add: Commit_ToProto_def)
  moreover have "\<exists>c'. CommitFromProto (Some ((Commit_ToProto c)\<lparr>pc_Hash := Some h\<rparr>)) = Inr c' \<and> Commit_Hash cr H c' = Inr (h, c')"
    if "c_bitArray c = None" for h
    using dec [OF that, of "Some h"] by (auto simp: Commit_Hash_def)
  ultimately show ?thesis by blast
qed

definition demo_BlockID :: "8 word \<Rightarrow> BlockID" where
  "demo_BlockID x = \<lparr>bid_Hash = replicate 32 x, bid_PartSetHeader = \<lparr>psh_Total = 1, psh_Hash = replicate 32 x\<rparr>\<rparr>"

lemma demo_BlockID_complete: "BlockID_IsComplete (demo_BlockID x)"
  by (simp add: BlockID_IsComplete_def demo_BlockID_def tmhash_Size_def)

definition demo_commit :: Commit where
  "demo_commit = NewCommit 5 0 (demo_BlockID 1)
     [\<lparr>cs_BlockIDFlag = 2, cs_ValidatorAddress = replicate 20 3, cs_Timestamp = 9, cs_Signature = [1]\<rparr>, NewCommitSigAbsent]"

definition demo_crypto :: crypto where
  "demo_crypto = \<lparr>cr_Address = (\<lambda>pk. pk), cr_VerifyBytes = (\<lambda>pk msg sig. sig = pk), cr_TimeBytes = demo_time\<rparr>"

theorem CommitFromProto_decodes_witness:
  "Commit_ValidateBasic demo_commit = Inr () \<and> BlockID_ValidateBasic (c_BlockID demo_commit) = Inr () \<and>
   CommitFromProto (Some (Commit_ToProto demo_commit)) = Inr demo_commit"
proof -
  have v: "Commit_ValidateBasic demo_commit = Inr ()" "1 \<le> c_Height demo_commit" "c_bitArray demo_commit = None"
    using IsComplete_not_zero [OF demo_BlockID_complete]
    by (simp_all add: demo_commit_def NewCommit_def Commit_ValidateBasic_def CommitSig_ValidateBasic_def block_id_flags
        NewCommitSigAbsent_def AddressSize_def MaxSignatureSize_def)
  have b: "BlockID_ValidateBasic (c_BlockID demo_commit) = Inr ()"
    using IsComplete_valid demo_BlockID_complete by (simp add: demo_commit_def NewCommit_def)
  show ?thesis using CommitFromProto_decodes [OF v(1) b v(2)] v b by blast
qed

lemma VoteSignBytes_canonical:
  assumes "VoteSignBytes cr chainID x = Inr b"
  shows "\<exists>cv c. CanonicalVote_marshal (cr_TimeBytes cr) cv = Inr c \<and> b = len_prefixed c \<and>
      cv_Type cv = v_Type x \<and> cv_Height cv = v_Height x \<and> cv_Round cv = v_Round x \<and> cv_Timestamp cv = v_Timestamp x \<and>
      cv_BlockID cv = (if BlockID_IsZero (v_BlockID x) then None else Some \<lparr>cb_Hash = bid_Hash (v_BlockID x),
         cb_PartSetHeader = \<lparr>cp_Total = psh_Total (bid_PartSetHeader (v_BlockID x)), cp_Hash = psh_Hash (bid_PartSetHeader (v_BlockID x))\<rparr>\<rparr>)"
proof -
  have "BlockIDFromProto (Some y) = Inr z \<Longrightarrow> z = y" for y z by (auto simp: BlockIDFromProto_def and_then_Inr_iff)
  then show ?thesis
    using assms
    by (fastforce simp: VoteSignBytes_def CanonicalizeVote_def CanonicalizeBlockID_def and_then_Inr_iff or_panic_def MarshalDelimited_def
        split: sum.splits)
qed

lemma VoteSignBytes_inject:
  assumes "time_encoding (cr_TimeBytes cr)"
    and "int64_range (v_Type v)" "int64_range (v_Type w)"
    and "int64_range (v_Height v)" "int64_range (v_Height w)" "int64_range (v_Round v)" "int64_range (v_Round w)"
    and "VoteSignBytes cr chainID v = Inr b" "VoteSignBytes cr chainID w = Inr b"
  shows "v_Type v = v_Type w \<and> v_Height v = v_Height w \<and> v_Round v = v_Round w \<and>
    v_BlockID v = v_BlockID w \<and> v_Timestamp v = v_Timestamp w"
proof -
  obtain cv c where cv: "CanonicalVote_marshal (cr_TimeBytes cr) cv = Inr c" "b = len_prefixed c"
      "cv_Type cv = v_Type v" "cv_Height cv = v_Height v" "cv_Round cv = v_Round v" "cv_Timestamp cv = v_Timestamp v"
      "cv_BlockID cv = (if BlockID_IsZero (v_BlockID v) then None else Some \<lparr>cb_Hash = bid_Hash (v_BlockID v),
         cb_PartSetHeader = \<lparr>cp_Total = psh_Total (bid_PartSetHeader (v_BlockID v)), cp_Hash = psh_Hash (bid_PartSetHeader (v_BlockID v))\<rparr>\<rparr>)"
    using VoteSignBytes_canonical [OF assms(8)] by blast
  obtain cw d where cw: "CanonicalVote_marshal (cr_TimeBytes cr) cw = Inr d" "b = len_prefixed d"
      "cv_Type cw = v_Type w" "cv_Height cw = v_Height w" "cv_Round cw = v_Round w" "cv_Timestamp cw = v_Timestamp w"
      "cv_BlockID cw = (if BlockID_IsZero (v_BlockID w) then None else Some \<lparr>cb_Hash = bid_Hash (v_BlockID w),
         cb_PartSetHeader = \<lparr>cp_Total = psh_Total (bid_PartSetHeader (v_BlockID w)), cp_Hash = psh_Hash (bid_PartSetHeader (v_BlockID w))\<rparr>\<rparr>)"
    using VoteSignBytes_canonical [OF assms(9)] by blast
  have "c = d" using cv(2) cw(2) delimited.enc_inject by auto
  moreover have "vote_in_range cv" "vote_in_range cw" using assms(2-7) cv(3-5) cw(3-5) by (simp_all add: vote_in_range_def)
  ultimately have "cv = cw" using CanonicalVote_marshal_inject [OF assms(1)] cv(1) cw(1) by blast
  then show ?thesis using cv(3-7) cw(3-7)
    by (auto simp: BlockID_IsZero_iff intro!: BlockID_eqI PartSetHeader_eqI split: if_splits)
qed

lemma Vote_ValidateBasic_type: "Vote_ValidateBasic v = Inr () \<Longrightarrow> v_Type v = 1 \<or> v_Type v = 2"
  by (auto simp: Vote_ValidateBasic_def IsVoteTypeValid_def PrevoteType_def PrecommitType_def split: if_splits)

text \<open>
  C25: Votes that pass \<^verbatim>\<open>ValidateBasic\<close> and sign the same bytes agree in everything that is
  signed: type, height, round, block identifier and time. Only the address, the index and the signature
  itself are not covered.
\<close>

theorem VoteSignBytes_determines:
  assumes "time_encoding (cr_TimeBytes cr)"
    and "Vote_ValidateBasic v = Inr ()" "Vote_ValidateBasic w = Inr ()"
    and "int64_range (v_Height v)" "int64_range (v_Height w)" "int64_range (v_Round v)" "int64_range (v_Round w)"
    and "VoteSignBytes cr chainID v = Inr b" "VoteSignBytes cr chainID w = Inr b"
  shows "v_Type v = v_Type w \<and> v_Height v = v_Height w \<and> v_Round v = v_Round w \<and>
    v_BlockID v = v_BlockID w \<and> v_Timestamp v = v_Timestamp w"
proof -
  have "int64_range (v_Type v)" "int64_range (v_Type w)"
    using Vote_ValidateBasic_type assms(2,3) by (fastforce simp: int64_range_iff int_limits)+
  from VoteSignBytes_inject [OF assms(1) this assms(4-9)] show ?thesis .
qed

definition demo_precommit :: "8 word \<Rightarrow> 8 word \<Rightarrow> int \<Rightarrow> Vote" where
  "demo_precommit x a i = \<lparr>v_Type = PrecommitType, v_Height = 5, v_Round = 0, v_BlockID = demo_BlockID x, v_Timestamp = 9,
     v_ValidatorAddress = replicate 20 a, v_ValidatorIndex = i, v_Signature = replicate 20 a\<rparr>"

lemma demo_precommit_valid: "0 \<le> i \<Longrightarrow> Vote_ValidateBasic (demo_precommit x a i) = Inr ()"
  using IsComplete_valid [of "demo_BlockID x"] demo_BlockID_complete
  by (simp add: demo_precommit_def Vote_ValidateBasic_def IsVoteTypeValid_def AddressSize_def MaxSignatureSize_def)

lemma demo_sign_bytes: "\<exists>b. VoteSignBytes demo_crypto [116] (demo_precommit x a i) = Inr b"
  using BlockIDFromProto_valid [OF IsComplete_valid, of "demo_BlockID x"] demo_BlockID_complete
  by (simp add: VoteSignBytes_def CanonicalizeVote_def CanonicalizeBlockID_def demo_precommit_def or_panic_def MarshalDelimited_def
      CanonicalVote_marshal_def demo_crypto_def demo_time_def int64_range_iff int_limits)

theorem VoteSignBytes_determines_witness:
  "time_encoding (cr_TimeBytes demo_crypto) \<and> Vote_ValidateBasic (demo_precommit 1 7 0) = Inr () \<and>
   (\<exists>b. VoteSignBytes demo_crypto [116] (demo_precommit 1 7 0) = Inr b \<and> VoteSignBytes demo_crypto [116] (demo_precommit 2 7 0) \<noteq> Inr b)"
proof -
  have t: "time_encoding (cr_TimeBytes demo_crypto)" using demo_time_encoding by (simp add: demo_crypto_def)
  have r: "int64_range (v_Height (demo_precommit x 7 0))" "int64_range (v_Round (demo_precommit x 7 0))" for x
    by (simp_all add: demo_precommit_def int64_range_iff int_limits)
  obtain b where b: "VoteSignBytes demo_crypto [116] (demo_precommit 1 7 0) = Inr b" using demo_sign_bytes by blast
  have "v_BlockID (demo_precommit 1 7 0) \<noteq> v_BlockID (demo_precommit 2 7 0)"
    by (simp add: demo_precommit_def demo_BlockID_def)
  then have "VoteSignBytes demo_crypto [116] (demo_precommit 2 7 0) \<noteq> Inr b"
    using VoteSignBytes_determines [OF t demo_precommit_valid demo_precommit_valid r(1) r(1) r(2) r(2) b, of 2] by auto
  with t b demo_precommit_valid show ?thesis by auto
qed

end
