(* ===== verification/Proposer_Rotation.thy ===== *)
theory Proposer_Rotation
  imports Validators Complex_Main
begin

text \<open>
  What proposer selection guarantees: re-scaling brings the priorities into a window of twice the
  total power, centring makes their sum a number between 0 and the size of the set, and from there
  every increment adds exactly the voting power and takes the total power from the validator with
  the most priority, with no clipping. From that exact account follow the bounds on the priorities
  and the fairness of the rotation. That no addition is clipped rests on a bound that is logarithmic in
  the size of the set: the validator that pays is always the leading one, so the leaders' priorities
  together cannot run away from the others'.
\<close>

subsection \<open>Re-scaling\<close>

definition priorities_bounded :: "ValidatorSet \<Rightarrow> bool" where
  "priorities_bounded vals \<longleftrightarrow>
     (\<forall>v \<in> set (vs_Validators vals). \<bar>val_ProposerPriority v\<bar> \<le> 3 * MaxTotalVotingPower)"

definition within_window :: "int \<Rightarrow> Validator list \<Rightarrow> bool" where
  "within_window d vs \<longleftrightarrow>
     (\<forall>v \<in> set vs. \<forall>w \<in> set vs. val_ProposerPriority v - val_ProposerPriority w \<le> d)"

lemma max_min_priority_spec:
  assumes "max_min_priority mx mn vs = (mx', mn')"
  shows "mx \<le> mx' \<and> mn' \<le> mn \<and>
    (\<forall>v \<in> set vs. val_ProposerPriority v \<le> mx' \<and> mn' \<le> val_ProposerPriority v) \<and>
    mx' \<in> insert mx (val_ProposerPriority ` set vs) \<and> mn' \<in> insert mn (val_ProposerPriority ` set vs)"
  using assms
proof (induction vs arbitrary: mx mn)
  case (Cons v vs)
  note IH = Cons.IH [of "if val_ProposerPriority v > mx then val_ProposerPriority v else mx"
      "if val_ProposerPriority v < mn then val_ProposerPriority v else mn"]
  show ?case using IH Cons.prems by (auto split: if_splits)
qed simp

lemma computeMaxMinPriorityDiff_spec:
  assumes "vs_Validators vals \<noteq> []" "priorities_bounded vals"
  shows "\<exists>diff. computeMaxMinPriorityDiff vals = Inr diff \<and> 0 \<le> diff \<and>
     diff \<le> 6 * MaxTotalVotingPower \<and> within_window diff (vs_Validators vals)"
proof -
  obtain mx mn where mm: "max_min_priority MinInt64 MaxInt64 (vs_Validators vals) = (mx, mn)"
    by fastforce
  note spec = max_min_priority_spec [OF mm]
  obtain v where v: "v \<in> set (vs_Validators vals)"
    using assms(1) by (cases "vs_Validators vals") auto
  have bnd: "\<bar>val_ProposerPriority w\<bar> \<le> 3 * MaxTotalVotingPower" if "w \<in> set (vs_Validators vals)" for w
    using assms(2) that by (auto simp: priorities_bounded_def)
  have "\<exists>w \<in> set (vs_Validators vals). mx = val_ProposerPriority w"
    using spec v bnd [OF v] by (auto simp: int_limits MaxTotalVotingPower_eq)
  then have mx: "\<bar>mx\<bar> \<le> 3 * MaxTotalVotingPower" using bnd by auto
  have "\<exists>w \<in> set (vs_Validators vals). mn = val_ProposerPriority w"
    using spec v bnd [OF v] by (auto simp: int_limits MaxTotalVotingPower_eq)
  then have mn: "\<bar>mn\<bar> \<le> 3 * MaxTotalVotingPower" using bnd by auto
  have "mn \<le> mx" using spec v by fastforce
  moreover from this have "wrap64 (mx - mn) = mx - mn"
    using mx mn by (intro wrap64_idI) (auto simp: int_limits MaxTotalVotingPower_eq)
  moreover have "within_window (mx - mn) (vs_Validators vals)"
    using spec by (auto simp: within_window_def intro!: diff_mono)
  ultimately show ?thesis
    using mx mn assms(1) mm
    by (auto simp: computeMaxMinPriorityDiff_def IsNilOrEmpty_def abs_le_iff)
qed

lemma RescalePriorities_spec:
  assumes "vs_Validators vals \<noteq> []" "priorities_bounded vals"
    and "0 < diffMax" "diffMax \<le> 2 * MaxTotalVotingPower"
  shows "\<exists>vals'. RescalePriorities diffMax vals = Inr vals' \<and>
     members (vs_Validators vals') = members (vs_Validators vals) \<and>
     vs_totalVotingPower vals' = vs_totalVotingPower vals \<and>
     priorities_bounded vals' \<and> within_window diffMax (vs_Validators vals')"
proof -
  obtain diff where diff: "computeMaxMinPriorityDiff vals = Inr diff" "0 \<le> diff"
    "diff \<le> 6 * MaxTotalVotingPower" "within_window diff (vs_Validators vals)"
    using computeMaxMinPriorityDiff_spec [OF assms(1,2)] by blast
  define ratio where "ratio = (diff + diffMax - 1) div diffMax"
  have "wrap64 (diff + diffMax) = diff + diffMax" "wrap64 (diff + diffMax - 1) = diff + diffMax - 1"
    using diff assms(3,4) by (auto intro!: wrap64_idI simp: int_limits MaxTotalVotingPower_eq)
  moreover have ratio_le: "0 \<le> ratio" "ratio \<le> diff + diffMax - 1"
    unfolding ratio_def using diff(2) assms(3)
    by (simp add: pos_imp_zdiv_nonneg_iff) (rule div_le_dividend_int, use diff(2) assms(3) in simp)
  moreover from this have "wrap64 ratio = ratio"
    using diff(3) assms(4) by (intro wrap64_idI) (auto simp: int_limits MaxTotalVotingPower_eq)
  moreover have "(diff + diffMax - 1) sdiv diffMax = ratio"
    using diff(2) assms(3) by (simp add: ratio_def sdiv_nonneg)
  ultimately have ratio: "wrap64 (wrap64 (wrap64 (diff + diffMax) - 1) sdiv diffMax) = ratio"
    by simp
  show ?thesis
  proof (cases "diff > diffMax")
    case False
    then have "within_window diffMax (vs_Validators vals)"
      using diff(4) by (force simp: within_window_def)
    with False assms diff(1) show ?thesis
      by (simp add: RescalePriorities_def IsNilOrEmpty_def Let_def)
  next
    case True
    have "diff + diffMax - 1 < (ratio + 1) * diffMax"
      using div_less_iff_int [OF assms(3), of "diff + diffMax - 1" "ratio + 1"] by (simp add: ratio_def)
    then have mul: "diff \<le> ratio * diffMax" by (simp add: algebra_simps)
    have pos: "0 < ratio"
      using ratio_le(1) mul True assms(3) by (cases "ratio = 0") auto
    have wrap: "wrap64 (val_ProposerPriority v sdiv ratio) = val_ProposerPriority v sdiv ratio \<and>
        \<bar>val_ProposerPriority v sdiv ratio\<bar> \<le> 3 * MaxTotalVotingPower"
      if "v \<in> set (vs_Validators vals)" for v
    proof -
      have "\<bar>val_ProposerPriority v sdiv ratio\<bar> \<le> 3 * MaxTotalVotingPower"
        using sdiv_abs_le [OF pos, of "val_ProposerPriority v"] assms(2) that
        by (force simp: priorities_bounded_def)
      then show ?thesis
        by (auto intro!: wrap64_idI simp: int_limits MaxTotalVotingPower_eq)
    qed
    let ?vals' = "map_priorities (\<lambda>val. wrap64 (val_ProposerPriority val sdiv ratio)) vals"
    have "RescalePriorities diffMax vals = Inr ?vals'"
      using True assms diff(1) ratio pos by (simp add: RescalePriorities_def IsNilOrEmpty_def Let_def)
    moreover have "priorities_bounded ?vals'"
      using wrap by (auto simp: priorities_bounded_def)
    moreover have "val_ProposerPriority v sdiv ratio - val_ProposerPriority w sdiv ratio \<le> diffMax"
      if "v \<in> set (vs_Validators vals)" "w \<in> set (vs_Validators vals)" for v w
    proof (cases "val_ProposerPriority w \<le> val_ProposerPriority v")
      case True
      have "val_ProposerPriority v - val_ProposerPriority w \<le> ratio * diffMax"
        using diff(4) that mul by (force simp: within_window_def)
      with True pos show ?thesis by (intro sdiv_diff_le)
    next
      case False
      with sdiv_mono [OF pos, of "val_ProposerPriority v" "val_ProposerPriority w"] assms(3)
      show ?thesis by simp
    qed
    ultimately show ?thesis
      using wrap by (auto simp: within_window_def)
  qed
qed

subsection \<open>Centring\<close>

text \<open>Priorities centred for a rotation with total power \<open>p\<close>.\<close>

definition centred :: "Validator list \<Rightarrow> bool" where
  "centred vs \<longleftrightarrow>
     0 \<le> priority_sum vs \<and> priority_sum vs < int (length vs) \<and>
     (\<forall>v \<in> set vs. \<bar>val_ProposerPriority v\<bar> \<le> 2 * power_sum vs)"

lemma average_in_window:
  assumes "within_window d vs" "v \<in> set vs"
  shows "\<bar>val_ProposerPriority v - priority_sum vs div int (length vs)\<bar> \<le> d"
proof -
  let ?n = "int (length vs)"
  have n: "0 < ?n" using assms(2) by (cases vs) auto
  have "?n * (val_ProposerPriority v - d) \<le> priority_sum vs"
    using assms by (intro sum_list_lower) (force simp: within_window_def)
  then have lo: "val_ProposerPriority v - d \<le> priority_sum vs div ?n"
    using n by (simp add: le_div_iff_int mult.commute)
  have "priority_sum vs \<le> ?n * (val_ProposerPriority v + d)"
    using assms by (intro sum_list_upper) (force simp: within_window_def)
  then have "priority_sum vs < ?n * (val_ProposerPriority v + d) + ?n"
    using n by linarith
  also have "\<dots> = (val_ProposerPriority v + d + 1) * ?n"
    by (simp add: algebra_simps)
  finally have "priority_sum vs < (val_ProposerPriority v + d + 1) * ?n" .
  then have "priority_sum vs div ?n < val_ProposerPriority v + d + 1"
    using div_less_iff_int [OF n] by blast
  with lo show ?thesis by simp
qed

lemma priority_sum_shift:
  "(\<Sum>v\<leftarrow>vs. val_ProposerPriority v - a) = priority_sum vs - int (length vs) * a"
  by (induction vs) (simp_all add: algebra_simps)

lemma shiftByAvgProposerPriority_spec:
  assumes "vs_Validators vals \<noteq> []" "priorities_bounded vals"
    and "within_window (2 * power_sum (vs_Validators vals)) (vs_Validators vals)"
    and "power_sum (vs_Validators vals) \<le> MaxTotalVotingPower"
  shows "\<exists>vals'. shiftByAvgProposerPriority vals = Inr vals' \<and>
     members (vs_Validators vals') = members (vs_Validators vals) \<and>
     vs_totalVotingPower vals' = vs_totalVotingPower vals \<and> centred (vs_Validators vals')"
proof -
  let ?vs = "vs_Validators vals" and ?n = "int (length (vs_Validators vals))"
  define avg where "avg = priority_sum ?vs div ?n"
  have n: "0 < ?n" using assms(1) by simp
  have near: "\<bar>val_ProposerPriority v - avg\<bar> \<le> 2 * power_sum ?vs" if "v \<in> set ?vs" for v
    unfolding avg_def using average_in_window [OF assms(3) that] .
  have bnd: "\<bar>val_ProposerPriority v\<bar> \<le> 3 * MaxTotalVotingPower" if "v \<in> set ?vs" for v
    using assms(2) that by (auto simp: priorities_bounded_def)
  obtain u where u: "u \<in> set ?vs" using assms(1) by (cases ?vs) auto
  have avg: "int64_range avg"
    using near [OF u] bnd [OF u] assms(4) by (auto simp: int64_range_iff int_limits MaxTotalVotingPower_eq)
  have sub: "safeSubClip (val_ProposerPriority v) avg = val_ProposerPriority v - avg" if "v \<in> set ?vs" for v
  proof -
    have "int64_range (val_ProposerPriority v)" "int64_range (val_ProposerPriority v - avg)"
      using near [OF that] bnd [OF that] assms(4)
      by (auto simp: int64_range_iff int_limits MaxTotalVotingPower_eq)
    with avg show ?thesis by (simp add: safeSubClip_clamp)
  qed
  let ?vals' = "map_priorities (\<lambda>val. safeSubClip (val_ProposerPriority val) avg) vals"
  have "priority_sum (vs_Validators ?vals') = (\<Sum>v\<leftarrow>?vs. val_ProposerPriority v - avg)"
    using sub by (intro arg_cong [where f = sum_list]) simp
  also have "\<dots> = priority_sum ?vs mod ?n"
    by (simp add: priority_sum_shift avg_def minus_mult_div_eq_mod)
  finally have sum: "priority_sum (vs_Validators ?vals') = priority_sum ?vs mod ?n" .
  have "centred (vs_Validators ?vals')"
    using near sub n sum members_power_sum [of "vs_Validators ?vals'" ?vs]
    by (auto simp: centred_def)
  moreover have "shiftByAvgProposerPriority vals = Inr ?vals'"
    using assms(1) avg
    by (simp add: shiftByAvgProposerPriority_def IsNilOrEmpty_def computeAvgProposerPriority_def avg_def Let_def)
  ultimately show ?thesis by auto
qed

text \<open>The part of \<^verbatim>\<open>IncrementProposerPriority\<close> before its loop.\<close>

definition centre_priorities :: "ValidatorSet \<Rightarrow> (vs_error, ValidatorSet) result" where
  "centre_priorities vals =
     and_then (TotalVotingPower vals) (\<lambda>(tvp, vals).
     and_then (RescalePriorities (wrap64 (PriorityWindowSizeFactor * tvp)) vals)
       shiftByAvgProposerPriority)"

lemma IncrementProposerPriority_centre:
  "IncrementProposerPriority ntimes vals =
     (if IsNilOrEmpty vals then Inl (Panic ''empty validator set'')
      else if ntimes \<le> 0
      then Inl (Panic ''Cannot call IncrementProposerPriority with non-positive times'')
      else and_then (centre_priorities vals) (\<lambda>vals.
        and_then (increment_times (nat ntimes) None vals) (\<lambda>(proposer, vals).
          Inr (vals\<lparr>vs_Proposer := proposer\<rparr>))))"
  by (cases "TotalVotingPower vals")
    (auto simp: IncrementProposerPriority_def centre_priorities_def and_then_def split: sum.splits)

lemma centre_priorities_spec:
  assumes "vset_wf vals" "vs_Validators vals \<noteq> []" "priorities_bounded vals"
  shows "\<exists>vals'. centre_priorities vals = Inr vals' \<and>
     members (vs_Validators vals') = members (vs_Validators vals) \<and>
     vs_totalVotingPower vals' = power_sum (vs_Validators vals) \<and> centred (vs_Validators vals')"
proof -
  let ?p = "power_sum (vs_Validators vals)"
  let ?v0 = "vals\<lparr>vs_totalVotingPower := ?p\<rparr>"
  have wf: "validators_wf (vs_Validators vals)" using assms(1) by (simp add: vset_wf_def)
  then have p: "0 < ?p" "?p \<le> MaxTotalVotingPower"
    using power_sum_pos [OF wf assms(2)] by (simp_all add: validators_wf_def)
  have "wrap64 (PriorityWindowSizeFactor * ?p) = 2 * ?p"
    using p by (subst wrap64_idI) (auto simp: PriorityWindowSizeFactor_def int_limits MaxTotalVotingPower_eq)
  moreover obtain v1 where v1: "RescalePriorities (2 * ?p) ?v0 = Inr v1"
    "members (vs_Validators v1) = members (vs_Validators vals)"
    "vs_totalVotingPower v1 = ?p" "priorities_bounded v1" "within_window (2 * ?p) (vs_Validators v1)"
    using RescalePriorities_spec [of ?v0 "2 * ?p"] assms p by (auto simp: priorities_bounded_def)
  moreover have "vs_Validators v1 \<noteq> []" "power_sum (vs_Validators v1) = ?p"
    using members_length [OF v1(2)] members_power_sum [OF v1(2)] assms(2) by auto
  ultimately show ?thesis
    using shiftByAvgProposerPriority_spec [of v1] p
    by (auto simp: centre_priorities_def TotalVotingPower_wf [OF assms(1)])
qed

subsection \<open>Increments: an exact account\<close>

lemma priority_sum_increment:
  "(\<Sum>v\<leftarrow>vs. val_ProposerPriority v + val_VotingPower v) = priority_sum vs + power_sum vs"
  by (rule sum_list_addf)

text \<open>
  One increment, when no addition exceeds \<^verbatim>\<open>math.MaxInt64\<close>: every validator gains its voting power,
  the one with the most priority then pays the total power. The lower bound is self-sustaining,
  because the validator that pays has at least the average, which is positive.
\<close>

definition pays :: "Validator list \<Rightarrow> nat \<Rightarrow> Validator list \<Rightarrow> bool" where
  "pays vs i vs' \<longleftrightarrow>
     i < length vs \<and> members vs' = members vs \<and>
     (\<forall>j < length vs. val_ProposerPriority (vs' ! j) =
        val_ProposerPriority (vs ! j) + val_VotingPower (vs ! j) - (if j = i then power_sum vs else 0))"

text \<open>The payer is a validator that no other one exceeds after the powers are added.\<close>

definition leads :: "Validator list \<Rightarrow> nat \<Rightarrow> bool" where
  "leads vs i \<longleftrightarrow> (\<forall>j < length vs. val_ProposerPriority (vs ! j) + val_VotingPower (vs ! j) \<le>
     val_ProposerPriority (vs ! i) + val_VotingPower (vs ! i))"

lemma priority_sum_nth: "priority_sum vs = (\<Sum>j<length vs. val_ProposerPriority (vs ! j))"
  by (subst sum_list_sum_nth) (simp add: atLeast0LessThan)

lemma power_sum_nth: "power_sum vs = (\<Sum>j<length vs. val_VotingPower (vs ! j))"
  by (subst sum_list_sum_nth) (simp add: atLeast0LessThan)

lemma pays_priority_sum:
  assumes "pays vs i vs'"
  shows "priority_sum vs' = priority_sum vs"
proof -
  have len: "length vs' = length vs" and i: "i < length vs"
    using assms members_length [of vs' vs] by (auto simp: pays_def)
  have "priority_sum vs' = (\<Sum>j<length vs. val_ProposerPriority (vs ! j) + val_VotingPower (vs ! j)
      - (if j = i then power_sum vs else 0))"
    unfolding priority_sum_nth len using assms by (intro sum.cong) (auto simp: pays_def)
  also have "\<dots> = (\<Sum>j<length vs. val_ProposerPriority (vs ! j)) + (\<Sum>j<length vs. val_VotingPower (vs ! j))
      - power_sum vs"
    unfolding sum_subtractf sum.distrib using i by simp
  also have "\<dots> = priority_sum vs"
    unfolding priority_sum_nth power_sum_nth by simp
  finally show ?thesis .
qed

lemma most_priority_max:
  assumes "has_most_priority ys i" "j < length ys"
  shows "val_ProposerPriority (ys ! j) \<le> val_ProposerPriority (ys ! i)"
proof -
  have "j = i \<or> priority_key (ys ! i) < priority_key (ys ! j)"
    using assms by (auto simp: has_most_priority_def)
  then show ?thesis by (auto simp: priority_key_def)
qed

lemma most_priority_positive:
  assumes "has_most_priority ys i" "0 < priority_sum ys"
  shows "0 < val_ProposerPriority (ys ! i)"
proof (rule ccontr)
  assume neg: "\<not> 0 < val_ProposerPriority (ys ! i)"
  have "val_ProposerPriority y \<le> 0" if y: "y \<in> set ys" for y
    using y neg most_priority_max [OF assms(1)] by (fastforce simp: in_set_conv_nth)
  then have "priority_sum ys \<le> 0" using sum_list_upper [of ys val_ProposerPriority 0] by simp
  with assms(2) show False by simp
qed

definition rotation_inv :: "ValidatorSet \<Rightarrow> bool" where
  "rotation_inv vals \<longleftrightarrow>
     vset_wf vals \<and> vs_Validators vals \<noteq> [] \<and>
     0 \<le> priority_sum (vs_Validators vals) \<and>
     priority_sum (vs_Validators vals) < int (length (vs_Validators vals)) \<and>
     (\<forall>v \<in> set (vs_Validators vals). - (2 * power_sum (vs_Validators vals)) \<le> val_ProposerPriority v)"

lemma incrementProposerPriority_exact:
  assumes inv: "rotation_inv vals"
    and room: "\<forall>v \<in> set (vs_Validators vals). val_ProposerPriority v + val_VotingPower v \<le> MaxInt64"
  shows "\<exists>i vals'. incrementProposerPriority vals = Inr (vs_Validators vals' ! i, vals') \<and>
     pays (vs_Validators vals) i (vs_Validators vals') \<and> leads (vs_Validators vals) i \<and> rotation_inv vals'"
proof -
  let ?vs = "vs_Validators vals" and ?p = "power_sum (vs_Validators vals)"
  have wf: "validators_wf ?vs" and ne: "?vs \<noteq> []" and vwf: "vset_wf vals"
    using inv by (auto simp: rotation_inv_def vset_wf_def)
  have p: "0 < ?p" "?p \<le> MaxTotalVotingPower"
    using power_sum_pos [OF wf ne] wf by (simp_all add: validators_wf_def)
  have lo: "- (2 * ?p) \<le> val_ProposerPriority v" if "v \<in> set ?vs" for v
    using inv that by (auto simp: rotation_inv_def)
  have add: "safeAddClip (val_ProposerPriority v) (val_VotingPower v) = val_ProposerPriority v + val_VotingPower v"
    if "v \<in> set ?vs" for v
  proof -
    have "0 < val_VotingPower v" using wf that by (simp add: validators_wf_def)
    then have "int64_range (val_ProposerPriority v)"
      "int64_range (val_ProposerPriority v + val_VotingPower v)"
      using lo [OF that] room that p
      by (auto simp: int64_range_iff int_limits MaxTotalVotingPower_eq)
    then show ?thesis using power_range [OF wf that] by (simp add: safeAddClip_clamp)
  qed
  define vals1 where
    "vals1 = map_priorities (\<lambda>v. safeAddClip (val_ProposerPriority v) (val_VotingPower v)) vals"
  let ?ys = "vs_Validators vals1"
  have ys: "?ys = map (\<lambda>v. v\<lparr>val_ProposerPriority := val_ProposerPriority v + val_VotingPower v\<rparr>) ?vs"
    using add by (simp add: vals1_def)
  have mem: "members ?ys = members ?vs" by (simp add: ys)
  have wf1: "vset_wf vals1"
    using vwf members_wf [OF mem] members_power_sum [OF mem] by (simp add: vset_wf_def vals1_def)
  obtain i where i: "getValWithMostPriority vals1 = Inr (Some (i, ?ys ! i))" "has_most_priority ?ys i"
    using getValWithMostPriority_spec [of vals1] wf1 ne
    by (auto simp: vset_wf_def validators_wf_def ys)
  have il: "i < length ?vs" using i(2) by (simp add: has_most_priority_def ys)
  have "priority_sum ?ys = priority_sum ?vs + ?p"
    using priority_sum_increment [of ?vs] by (simp add: ys comp_def)
  then have pos: "0 < val_ProposerPriority (?ys ! i)"
    using most_priority_positive [OF i(2)] p(1) inv by (simp add: rotation_inv_def)
  have up: "val_ProposerPriority (?ys ! i) \<le> MaxInt64"
    using room il nth_mem [OF il] by (simp add: ys)
  have sub: "safeSubClip (val_ProposerPriority (?ys ! i)) ?p = val_ProposerPriority (?ys ! i) - ?p"
    using pos up p by (subst safeSubClip_clamp) (auto simp: int64_range_iff int_limits MaxTotalVotingPower_eq)
  define w where "w = (?ys ! i)\<lparr>val_ProposerPriority := val_ProposerPriority (?ys ! i) - ?p\<rparr>"
  define vals2 where "vals2 = vals1\<lparr>vs_totalVotingPower := ?p, vs_Validators := ?ys[i := w]\<rparr>"
  have step: "incrementProposerPriority vals = Inr (vs_Validators vals2 ! i, vals2)"
    using i(1) il sub TotalVotingPower_wf [OF wf1] members_power_sum [OF mem] ys
    by (simp add: incrementProposerPriority_def vals1_def [symmetric] Let_def vals2_def w_def)
  have mem2: "members (vs_Validators vals2) = members ?vs"
    using members_update_priority [of i ?ys] mem i(2)
    by (simp add: vals2_def w_def has_most_priority_def)
  have prio: "val_ProposerPriority (vs_Validators vals2 ! j) =
      val_ProposerPriority (?vs ! j) + val_VotingPower (?vs ! j) - (if j = i then ?p else 0)"
    if "j < length ?vs" for j
    using that il by (auto simp: vals2_def w_def ys nth_list_update)
  then have pays: "pays ?vs i (vs_Validators vals2)"
    using il mem2 by (auto simp: pays_def)
  have "- (2 * ?p) \<le> val_ProposerPriority v" if v: "v \<in> set (vs_Validators vals2)" for v
  proof -
    obtain j where j: "j < length ?vs" "v = vs_Validators vals2 ! j"
      using v members_length [OF mem2] by (auto simp: in_set_conv_nth)
    have "0 < val_VotingPower (?vs ! j)" using wf nth_mem [OF j(1)] by (simp add: validators_wf_def)
    then show ?thesis
      using lo [OF nth_mem [OF j(1)]] prio [OF j(1)] pos p(1) j il by (auto simp: ys)
  qed
  then have "rotation_inv vals2"
    using inv pays_priority_sum [OF pays] members_length [OF mem2] members_power_sum [OF mem2]
      members_wf [OF mem2] wf ne
    by (auto simp: rotation_inv_def vset_wf_def vals2_def)
  moreover have "leads ?vs i" using most_priority_max [OF i(2)] il by (simp add: leads_def ys)
  ultimately show ?thesis using step pays by blast
qed

subsection \<open>A logarithmic bound\<close>

text \<open>
  For every group of validators, the sum of the priorities is at most its size times
  \<open>2 * P + P * (1/(k+1) + \<dots> + 1/n)\<close>, where \<open>k\<close> is the size of the group and \<open>n\<close> that of the set: if the
  payer is in the group, the sum does not grow; otherwise the group together with the payer obeys the
  bound for \<open>k + 1\<close>, and the payer has at least the average of it.
\<close>

definition harmonic :: "nat \<Rightarrow> real" where
  "harmonic n = (\<Sum>i = 1..n. 1 / real i)"

lemma harmonic_Suc: "harmonic (Suc n) = harmonic n + 1 / real (Suc n)"
  by (simp add: harmonic_def)

lemma harmonic_mono: "k \<le> n \<Longrightarrow> harmonic k \<le> harmonic n"
  by (rule lift_Suc_mono_le [of harmonic]) (simp_all add: harmonic_Suc)

lemma harmonic_block: "0 < k \<Longrightarrow> harmonic (k + d) \<le> harmonic k + real d / real k"
proof (induction d)
  case (Suc d)
  have "1 / real (Suc (k + d)) \<le> 1 / real k" using Suc.prems by (intro divide_left_mono) auto
  then show ?case using Suc by (simp add: harmonic_Suc add_divide_distrib)
qed simp

lemma harmonic_pow2: "harmonic (2 ^ m) \<le> real m + 1"
proof (induction m)
  case 0
  show ?case by (simp add: harmonic_def)
next
  case (Suc m)
  then show ?case using harmonic_block [of "2 ^ m" "2 ^ m"] by (simp add: mult_2)
qed

definition spread :: "Validator list \<Rightarrow> bool" where
  "spread vs \<longleftrightarrow> (\<forall>S. S \<subseteq> {..<length vs} \<and> S \<noteq> {} \<longrightarrow>
     real_of_int (\<Sum>j \<in> S. val_ProposerPriority (vs ! j)) \<le> real (card S) *
       (2 * real_of_int (power_sum vs) + real_of_int (power_sum vs) * (harmonic (length vs) - harmonic (card S))))"

lemma subset_power_sum:
  assumes "validators_wf vs" "S \<subseteq> {..<length vs}"
  shows "(\<Sum>j \<in> S. val_VotingPower (vs ! j)) \<le> power_sum vs"
  unfolding power_sum_nth using assms by (intro sum_mono2) (auto simp: validators_wf_def intro!: less_imp_le)

lemma centred_spread:
  assumes "centred vs" "0 \<le> power_sum vs"
  shows "spread vs"
  unfolding spread_def
proof (intro allI impI)
  fix S assume S: "S \<subseteq> {..<length vs} \<and> S \<noteq> {}"
  have "card S \<le> length vs" using card_mono [of "{..<length vs}" S] S by simp
  then have h: "0 \<le> real_of_int (power_sum vs) * (harmonic (length vs) - harmonic (card S))"
    using harmonic_mono assms(2) by simp
  have "(\<Sum>j \<in> S. val_ProposerPriority (vs ! j)) \<le> (\<Sum>j \<in> S. 2 * power_sum vs)"
    using S assms(1) by (intro sum_mono) (auto simp: centred_def abs_le_iff)
  then have "real_of_int (\<Sum>j \<in> S. val_ProposerPriority (vs ! j)) \<le> real_of_int (int (card S) * (2 * power_sum vs))"
    unfolding of_int_le_iff by simp
  also have "\<dots> \<le> real (card S) * (2 * real_of_int (power_sum vs) + real_of_int (power_sum vs) * (harmonic (length vs) - harmonic (card S)))"
    using h by (simp add: mult_left_mono)
  finally show "real_of_int (\<Sum>j \<in> S. val_ProposerPriority (vs ! j)) \<le> real (card S) *
    (2 * real_of_int (power_sum vs) + real_of_int (power_sum vs) * (harmonic (length vs) - harmonic (card S)))" .
qed

lemma leader_average:
  assumes "finite S" "i \<notin> S" "\<And>j. j \<in> S \<Longrightarrow> x j \<le> (x i :: int)"
  shows "int (card S + 1) * (\<Sum>j \<in> S. x j) \<le> int (card S) * (\<Sum>j \<in> insert i S. x j)"
proof -
  have "(\<Sum>j \<in> S. x j) \<le> int (card S) * x i" using sum_bounded_above [of S x "x i"] assms(3) by simp
  then show ?thesis using assms(1,2) by (simp add: algebra_simps)
qed

lemma average_step:
  fixes s t p d h h' :: real
  assumes "(k + 1) * s \<le> k * t" "t \<le> (k + 1) * (d + p * (h - h')) + p" "0 \<le> k"
  shows "s \<le> k * (d + p * (h - (h' - 1 / (k + 1))))"
proof -
  have "(k + 1) * s \<le> k * ((k + 1) * (d + p * (h - h')) + p)"
    using assms(1) mult_left_mono [OF assms(2,3)] by linarith
  also have "\<dots> = (k + 1) * (k * (d + p * (h - (h' - 1 / (k + 1)))))"
    using assms(3) by (simp add: field_simps)
  finally show ?thesis using assms(3) by simp
qed

lemma spread_pays:
  assumes "pays vs i vs'" "leads vs i" "spread vs" "validators_wf vs"
  shows "spread vs'"
  unfolding spread_def
proof (intro allI impI)
  let ?x = "\<lambda>j. val_ProposerPriority (vs ! j) + val_VotingPower (vs ! j)" and ?p = "real_of_int (power_sum vs)"
  have mem: "members vs' = members vs" and i: "i < length vs" using assms(1) by (simp_all add: pays_def)
  note len = members_length [OF mem] and psum = members_power_sum [OF mem]
  fix S assume "S \<subseteq> {..<length vs'} \<and> S \<noteq> {}"
  then have S: "S \<subseteq> {..<length vs}" "S \<noteq> {}" and fin: "finite S" by (auto simp: len intro: finite_subset)
  have new: "(\<Sum>j \<in> S. val_ProposerPriority (vs' ! j)) = (\<Sum>j \<in> S. ?x j) - (if i \<in> S then power_sum vs else 0)"
  proof -
    have "(\<Sum>j \<in> S. val_ProposerPriority (vs' ! j)) = (\<Sum>j \<in> S. ?x j - (if j = i then power_sum vs else 0))"
      using S(1) assms(1) by (intro sum.cong) (auto simp: pays_def)
    then show ?thesis using fin by (simp add: sum_subtractf)
  qed
  have x_le: "(\<Sum>j \<in> T. ?x j) \<le> (\<Sum>j \<in> T. val_ProposerPriority (vs ! j)) + power_sum vs" if "T \<subseteq> {..<length vs}" for T
    using subset_power_sum [OF assms(4) that] by (simp add: sum.distrib)
  have old: "real_of_int (\<Sum>j \<in> T. val_ProposerPriority (vs ! j)) \<le> real (card T) * (2 * ?p + ?p * (harmonic (length vs) - harmonic (card T)))"
    if "T \<subseteq> {..<length vs}" "T \<noteq> {}" for T using assms(3) that unfolding spread_def by blast
  have "real_of_int (\<Sum>j \<in> S. val_ProposerPriority (vs' ! j)) \<le> real (card S) * (2 * ?p + ?p * (harmonic (length vs) - harmonic (card S)))"
  proof (cases "i \<in> S")
    case True
    then have "(\<Sum>j \<in> S. val_ProposerPriority (vs' ! j)) \<le> (\<Sum>j \<in> S. val_ProposerPriority (vs ! j))"
      using new x_le [OF S(1)] by simp
    then show ?thesis using old [OF S] by linarith
  next
    case False
    let ?T = "insert i S"
    have T: "?T \<subseteq> {..<length vs}" "card ?T = card S + 1" using S(1) i fin False by auto
    have "int (card S + 1) * (\<Sum>j \<in> S. ?x j) \<le> int (card S) * (\<Sum>j \<in> ?T. ?x j)"
      using leader_average [OF fin False, of ?x] assms(2) S(1) by (auto simp: leads_def)
    then have "real_of_int (int (card S + 1) * (\<Sum>j \<in> S. ?x j)) \<le> real_of_int (int (card S) * (\<Sum>j \<in> ?T. ?x j))"
      by (simp only: of_int_le_iff)
    then have avg: "(real (card S) + 1) * real_of_int (\<Sum>j \<in> S. ?x j) \<le> real (card S) * real_of_int (\<Sum>j \<in> ?T. ?x j)"
      by (simp only: of_int_mult of_int_of_nat_eq of_int_add of_int_1 of_nat_add of_nat_1)
    have "real_of_int (\<Sum>j \<in> ?T. ?x j) \<le> real_of_int ((\<Sum>j \<in> ?T. val_ProposerPriority (vs ! j)) + power_sum vs)"
      using x_le [OF T(1)] by (simp only: of_int_le_iff)
    then have "real_of_int (\<Sum>j \<in> ?T. ?x j) \<le> (real (card S) + 1) * (2 * ?p + ?p * (harmonic (length vs) - harmonic (card S + 1))) + ?p"
      using old [OF T(1) insert_not_empty] unfolding T(2) of_int_add of_nat_add of_nat_1 by linarith
    from average_step [OF avg this] show ?thesis
      using new False by (simp add: harmonic_Suc add.commute)
  qed
  then show "real_of_int (\<Sum>j \<in> S. val_ProposerPriority (vs' ! j)) \<le> real (card S) *
      (2 * real_of_int (power_sum vs') + real_of_int (power_sum vs') * (harmonic (length vs') - harmonic (card S)))"
    by (simp only: psum len)
qed

lemma spread_bound:
  assumes "spread vs" "v \<in> set vs" "length vs \<le> 2 ^ m" "0 \<le> power_sum vs"
  shows "val_ProposerPriority v \<le> (int m + 2) * power_sum vs"
proof -
  obtain j where j: "j < length vs" "v = vs ! j" using assms(2) by (auto simp: in_set_conv_nth)
  have "harmonic (length vs) - 1 \<le> real m" using harmonic_mono [OF assms(3)] harmonic_pow2 [of m] by simp
  then have h: "real_of_int (power_sum vs) * (harmonic (length vs) - 1) \<le> real_of_int (power_sum vs) * real m"
    using assms(4) by (intro mult_left_mono) simp_all
  have "real_of_int (val_ProposerPriority v) \<le> 2 * real_of_int (power_sum vs) + real_of_int (power_sum vs) * (harmonic (length vs) - harmonic 1)"
    using assms(1) j unfolding spread_def by (auto dest!: spec [of _ "{j}"])
  also have "\<dots> \<le> 2 * real_of_int (power_sum vs) + real_of_int (power_sum vs) * real m"
    using h by (simp add: harmonic_def)
  also have "\<dots> = real_of_int ((int m + 2) * power_sum vs)" by (simp add: algebra_simps)
  finally show ?thesis by (simp only: of_int_le_iff)
qed

text \<open>
  The sets for which the bound leaves enough room below \<^verbatim>\<open>math.MaxInt64\<close>: at most 32 validators whatever
  their powers, or any number of validators when the total power is at most \<open>2^57\<close>, an eighth of the
  power that \<^verbatim>\<open>MaxTotalVotingPower\<close> allows.
\<close>

definition rotation_fits :: "Validator list \<Rightarrow> bool" where
  "rotation_fits vs \<longleftrightarrow> length vs \<le> 32 \<or> power_sum vs \<le> 2 ^ 57"

lemma length_le_power_sum: "validators_wf vs \<Longrightarrow> int (length vs) \<le> power_sum vs"
  using sum_list_lower [of vs 1 val_VotingPower] by (force simp: validators_wf_def)

lemma rotation_fits_room:
  assumes "validators_wf vs" "rotation_fits vs" "spread vs" "v \<in> set vs"
  shows "val_ProposerPriority v + val_VotingPower v \<le> MaxInt64"
proof -
  have p: "0 \<le> power_sum vs" "power_sum vs \<le> MaxTotalVotingPower" "val_VotingPower v \<le> power_sum vs"
    using assms(1) power_sum_nonneg [OF assms(1)] power_le_sum [OF assms(1,4)] by (simp_all add: validators_wf_def)
  show ?thesis
  proof (cases "length vs \<le> 32")
    case True
    then show ?thesis
      using spread_bound [OF assms(3,4), of 5] p by (simp add: int_limits MaxTotalVotingPower_eq)
  next
    case False
    then have small: "power_sum vs \<le> 2 ^ 57" using assms(2) by (simp add: rotation_fits_def)
    then have "int (length vs) \<le> int (2 ^ 57)" using length_le_power_sum [OF assms(1)] by simp
    then have "length vs \<le> 2 ^ 57" by (simp only: of_nat_le_iff)
    then show ?thesis using spread_bound [OF assms(3,4), of 57] p small by (simp add: int_limits)
  qed
qed

lemma rotation_fits_product:
  assumes "validators_wf vs" "int (length vs) * (2 * power_sum vs + 1) \<le> MaxInt64"
  shows "rotation_fits vs"
proof (rule ccontr)
  assume "\<not> rotation_fits vs"
  then have "33 \<le> int (length vs)" "2 ^ 57 \<le> power_sum vs" by (simp_all add: rotation_fits_def)
  then have "33 * (2 * 2 ^ 57 + 1) \<le> int (length vs) * (2 * power_sum vs + 1)" by (intro mult_mono) simp_all
  with assms(2) show False by (simp add: int_limits)
qed

subsection \<open>A run of increments\<close>

text \<open>The loop of \<^verbatim>\<open>IncrementProposerPriority\<close>, keeping every proposer and not only the last one.\<close>

fun proposer_trace :: "nat \<Rightarrow> ValidatorSet \<Rightarrow> (vs_error, Validator list \<times> ValidatorSet) result" where
  "proposer_trace 0 vals = Inr ([], vals)"
| "proposer_trace (Suc k) vals =
     and_then (incrementProposerPriority vals) (\<lambda>(p, vals).
     and_then (proposer_trace k vals) (\<lambda>(ps, vals). Inr (p # ps, vals)))"

lemma increment_times_trace:
  "increment_times k p0 vals =
     and_then (proposer_trace k vals) (\<lambda>(ps, vals').
       Inr (if ps = [] then p0 else Some (last ps), vals'))"
proof (induction k arbitrary: p0 vals)
  case (Suc k)
  show ?case
  proof (cases "incrementProposerPriority vals")
    case (Inr r)
    obtain p vals1 where r: "r = (p, vals1)" by (cases r)
    show ?thesis
      by (cases "proposer_trace k vals1") (auto simp: Inr r Suc.IH)
  qed simp
qed simp

abbreviation times_proposed :: "Validator list \<Rightarrow> Validator \<Rightarrow> int" where
  "times_proposed ps v \<equiv> int (length (filter (\<lambda>p. val_Address p = val_Address v) ps))"

lemma rotation_upper_bound:
  assumes "rotation_inv vals" "v \<in> set (vs_Validators vals)"
  shows "val_ProposerPriority v + 2 * power_sum (vs_Validators vals)
     < int (length (vs_Validators vals)) * (2 * power_sum (vs_Validators vals) + 1)"
proof -
  let ?vs = "vs_Validators vals" and ?p = "power_sum (vs_Validators vals)"
  have "val_ProposerPriority v + 2 * ?p \<le> (\<Sum>w\<leftarrow>?vs. val_ProposerPriority w + 2 * ?p)"
    using assms by (intro sum_list_nonneg_mem) (auto simp: rotation_inv_def)
  also have "\<dots> = priority_sum ?vs + int (length ?vs) * (2 * ?p)"
    by (simp add: sum_list_addf sum_list_triv)
  also have "\<dots> < int (length ?vs) + int (length ?vs) * (2 * ?p)"
    using assms(1) by (simp add: rotation_inv_def)
  finally show ?thesis by (simp add: distrib_left add.commute)
qed

text \<open>
  Enough room below \<^verbatim>\<open>math.MaxInt64\<close> for \<open>k\<close> increments: either few increments, or a set to which the
  logarithmic bound applies.
\<close>

definition rotation_room :: "int \<Rightarrow> nat \<Rightarrow> ValidatorSet \<Rightarrow> bool" where
  "rotation_room u k vals \<longleftrightarrow>
     (\<forall>v \<in> set (vs_Validators vals). val_ProposerPriority v \<le> u) \<and>
     u + int k * power_sum (vs_Validators vals) \<le> MaxInt64 \<or>
     rotation_fits (vs_Validators vals) \<and> spread (vs_Validators vals)"

lemma rotation_room_step:
  assumes "rotation_inv vals" "rotation_room u (Suc k) vals"
  shows "\<forall>v \<in> set (vs_Validators vals). val_ProposerPriority v + val_VotingPower v \<le> MaxInt64"
proof
  fix v assume v: "v \<in> set (vs_Validators vals)"
  have wf: "validators_wf (vs_Validators vals)" using assms(1) by (simp add: rotation_inv_def vset_wf_def)
  have le: "val_VotingPower v \<le> power_sum (vs_Validators vals)" using power_le_sum [OF wf v] .
  have nn: "0 \<le> int k * power_sum (vs_Validators vals)" using power_sum_nonneg [OF wf] by simp
  from assms(2) consider
      "val_ProposerPriority v \<le> u" "u + int (Suc k) * power_sum (vs_Validators vals) \<le> MaxInt64"
    | "rotation_fits (vs_Validators vals)" "spread (vs_Validators vals)"
    using v by (auto simp: rotation_room_def)
  then show "val_ProposerPriority v + val_VotingPower v \<le> MaxInt64"
  proof cases
    case 1
    then show ?thesis using le nn by (simp add: distrib_right)
  next
    case 2
    then show ?thesis using rotation_fits_room [OF wf _ _ v] by simp
  qed
qed

lemma pays_room:
  assumes "pays (vs_Validators vals) i (vs_Validators vals')" "leads (vs_Validators vals) i" "rotation_inv vals"
    and "rotation_room u (Suc k) vals"
  shows "rotation_room (u + power_sum (vs_Validators vals)) k vals'"
proof -
  let ?vs = "vs_Validators vals" and ?vs' = "vs_Validators vals'"
  have mem: "members ?vs' = members ?vs" using assms(1) by (simp add: pays_def)
  have wf: "validators_wf ?vs" using assms(3) by (simp add: rotation_inv_def vset_wf_def)
  have "val_ProposerPriority v \<le> u + power_sum ?vs"
    if v: "v \<in> set ?vs'" and u: "\<forall>v \<in> set ?vs. val_ProposerPriority v \<le> u" for v
  proof -
    obtain j where j: "j < length ?vs" "v = ?vs' ! j"
      using v members_length [OF mem] by (auto simp: in_set_conv_nth)
    have "val_ProposerPriority v \<le> val_ProposerPriority (?vs ! j) + val_VotingPower (?vs ! j)"
      using assms(1) j power_sum_nonneg [OF wf] by (auto simp: pays_def)
    then show ?thesis
      using u nth_mem [OF j(1)] power_le_sum [OF wf nth_mem [OF j(1)]] by force
  qed
  then show ?thesis
    using assms(4) spread_pays [OF assms(1,2) _ wf] members_power_sum [OF mem] members_length [OF mem]
    by (auto simp: rotation_room_def rotation_fits_def distrib_right)
qed

lemma proposer_trace_exact:
  assumes "rotation_inv vals" "rotation_room u k vals"
  shows "\<exists>ps vals'. proposer_trace k vals = Inr (ps, vals') \<and> length ps = k \<and> rotation_inv vals' \<and>
     members (vs_Validators vals') = members (vs_Validators vals) \<and>
     (\<forall>j < length (vs_Validators vals). val_ProposerPriority (vs_Validators vals' ! j) =
        val_ProposerPriority (vs_Validators vals ! j) + int k * val_VotingPower (vs_Validators vals ! j) -
        power_sum (vs_Validators vals) * times_proposed ps (vs_Validators vals ! j))"
  using assms
proof (induction k arbitrary: vals u)
  case (Suc k)
  let ?vs = "vs_Validators vals"
  obtain i v1 where s1: "incrementProposerPriority vals = Inr (vs_Validators v1 ! i, v1)"
    "pays ?vs i (vs_Validators v1)" "rotation_inv v1" "leads ?vs i"
    using incrementProposerPriority_exact [OF Suc.prems(1) rotation_room_step [OF Suc.prems]] by blast
  note room = pays_room [OF s1(2,4) Suc.prems]
  obtain ps v2 where s2: "proposer_trace k v1 = Inr (ps, v2)" "length ps = k" "rotation_inv v2"
    "members (vs_Validators v2) = members (vs_Validators v1)"
    "\<And>j. j < length (vs_Validators v1) \<Longrightarrow> val_ProposerPriority (vs_Validators v2 ! j) =
        val_ProposerPriority (vs_Validators v1 ! j) + int k * val_VotingPower (vs_Validators v1 ! j) -
        power_sum (vs_Validators v1) * times_proposed ps (vs_Validators v1 ! j)"
    using Suc.IH [OF s1(3) room] by blast
  have mem: "members (vs_Validators v1) = members ?vs" using s1(2) by (simp add: pays_def)
  have len: "length (vs_Validators v1) = length ?vs" using members_length [OF mem] .
  have i: "i < length ?vs" using s1(2) by (simp add: pays_def)
  have dist: "distinct (map val_Address ?vs)"
    using Suc.prems(1) by (simp add: rotation_inv_def vset_wf_def validators_wf_def)
  have "val_ProposerPriority (vs_Validators v2 ! j) =
        val_ProposerPriority (?vs ! j) + int (Suc k) * val_VotingPower (?vs ! j) -
        power_sum ?vs * times_proposed ((vs_Validators v1 ! i) # ps) (?vs ! j)" if j: "j < length ?vs" for j
  proof -
    have "val_Address (?vs ! i) = val_Address (?vs ! j) \<longleftrightarrow> i = j"
      using nth_eq_iff_index_eq [OF dist, of i j] i j by simp
    then show ?thesis
      using s2(5) [of j] s1(2) j members_power_sum [OF mem] members_nth [OF mem j] members_nth [OF mem i] len
      by (auto simp: pays_def algebra_simps)
  qed
  then show ?case using s1(1) s2(1-4) mem by auto
qed simp

subsection \<open>Properties of the rotation\<close>

lemma centred_rotation:
  assumes "vset_wf vals" "vs_Validators vals \<noteq> []" "priorities_bounded vals"
  shows "\<exists>vals0. centre_priorities vals = Inr vals0 \<and> rotation_inv vals0 \<and>
     centred (vs_Validators vals0) \<and> members (vs_Validators vals0) = members (vs_Validators vals)"
proof -
  obtain vals0 where v0: "centre_priorities vals = Inr vals0"
    "members (vs_Validators vals0) = members (vs_Validators vals)"
    "vs_totalVotingPower vals0 = power_sum (vs_Validators vals)" "centred (vs_Validators vals0)"
    using centre_priorities_spec [OF assms] by blast
  have "rotation_inv vals0"
    using v0 assms members_wf [OF v0(2)] members_power_sum [OF v0(2)] members_length [OF v0(2)]
    by (auto simp: rotation_inv_def vset_wf_def centred_def abs_le_iff)
  with v0 show ?thesis by blast
qed

lemma rotation_run:
  assumes "vset_wf vals" "vs_Validators vals \<noteq> []" "priorities_bounded vals"
    and room: "k \<le> 6 \<or> rotation_fits (vs_Validators vals)"
  shows "\<exists>vals0 ps vals'. centre_priorities vals = Inr vals0 \<and> centred (vs_Validators vals0) \<and>
     proposer_trace k vals0 = Inr (ps, vals') \<and> length ps = k \<and> rotation_inv vals' \<and>
     members (vs_Validators vals0) = members (vs_Validators vals) \<and>
     members (vs_Validators vals') = members (vs_Validators vals) \<and>
     (\<forall>j < length (vs_Validators vals). val_ProposerPriority (vs_Validators vals' ! j) =
        val_ProposerPriority (vs_Validators vals0 ! j) + int k * val_VotingPower (vs_Validators vals ! j) -
        power_sum (vs_Validators vals) * times_proposed ps (vs_Validators vals ! j))"
proof -
  obtain vals0 where v0: "centre_priorities vals = Inr vals0" "rotation_inv vals0"
    "centred (vs_Validators vals0)" "members (vs_Validators vals0) = members (vs_Validators vals)"
    using centred_rotation [OF assms(1-3)] by blast
  have p: "0 \<le> power_sum (vs_Validators vals)" "power_sum (vs_Validators vals) \<le> MaxTotalVotingPower"
    using assms(1) power_sum_nonneg by (simp_all add: vset_wf_def validators_wf_def)
  have "2 * power_sum (vs_Validators vals) + int k * power_sum (vs_Validators vals) \<le> MaxInt64" if "k \<le> 6"
    using mult_right_mono [of "int k" 6, OF _ p(1)] that p(2) by (simp add: int_limits MaxTotalVotingPower_eq)
  then have "rotation_room (2 * power_sum (vs_Validators vals)) k vals0"
    using room v0(3) centred_spread [OF v0(3)] p(1) members_power_sum [OF v0(4)] members_length [OF v0(4)]
    by (auto simp: rotation_room_def rotation_fits_def centred_def abs_le_iff)
  from proposer_trace_exact [OF v0(2) this] obtain ps vals' where
    tr: "proposer_trace k vals0 = Inr (ps, vals')" "length ps = k" "rotation_inv vals'"
      "members (vs_Validators vals') = members (vs_Validators vals0)"
      "\<And>j. j < length (vs_Validators vals0) \<Longrightarrow> val_ProposerPriority (vs_Validators vals' ! j) =
        val_ProposerPriority (vs_Validators vals0 ! j) + int k * val_VotingPower (vs_Validators vals0 ! j) -
        power_sum (vs_Validators vals0) * times_proposed ps (vs_Validators vals0 ! j)"
    by blast
  have "val_ProposerPriority (vs_Validators vals' ! j) =
        val_ProposerPriority (vs_Validators vals0 ! j) + int k * val_VotingPower (vs_Validators vals ! j) -
        power_sum (vs_Validators vals) * times_proposed ps (vs_Validators vals ! j)"
    if "j < length (vs_Validators vals)" for j
    using tr(5) [of j] that members_length [OF v0(4)] members_nth [OF v0(4) that]
      members_power_sum [OF v0(4)] by simp
  with tr(1-4) v0 show ?thesis by auto
qed

text \<open>A small set for the examples: three validators with powers 10, 20 and 30.\<close>

definition demo_val :: "8 word \<Rightarrow> int \<Rightarrow> Validator" where
  "demo_val a p = \<lparr>val_Address = [a], val_PubKey = Some [a], val_VotingPower = p, val_ProposerPriority = 0\<rparr>"

definition demo_vals :: ValidatorSet where
  "demo_vals = \<lparr>vs_Validators = [demo_val 3 30, demo_val 2 20, demo_val 1 10], vs_Proposer = None, vs_totalVotingPower = 60\<rparr>"

lemma demo_vals_ok: "vset_wf demo_vals" "priorities_bounded demo_vals"
  by (auto simp: vset_wf_def validators_wf_def priorities_bounded_def demo_vals_def demo_val_def MaxTotalVotingPower_eq)

lemma demo_vals_facts:
  "vs_Validators demo_vals \<noteq> []" "length (vs_Validators demo_vals) = 3" "power_sum (vs_Validators demo_vals) = 60"
  by (simp_all add: demo_vals_def demo_val_def)

text \<open>
  C17: Take a well-formed, non-empty set (in particular, its total power respects \<^verbatim>\<open>MaxTotalVotingPower\<close>)
  whose priorities are at most three times \<^verbatim>\<open>MaxTotalVotingPower\<close> in absolute value, and let at least one of
  these hold: at most six increments are made, the set has at most 32 validators, or its total power
  is at most \<open>2^57\<close>. Then \<^verbatim>\<open>IncrementProposerPriority\<close> with a positive argument does not panic and none of its additions
  is clipped: the priorities it leaves are exactly the centred ones plus \<open>ntimes\<close> times the voting power,
  minus the total power for every turn as proposer; members and powers are untouched, and the
  proposer is the last validator chosen.
\<close>

theorem IncrementProposerPriority_no_clipping:
  assumes "vset_wf vals" "vs_Validators vals \<noteq> []" "priorities_bounded vals" "0 < ntimes"
    and "ntimes \<le> 6 \<or> length (vs_Validators vals) \<le> 32 \<or> power_sum (vs_Validators vals) \<le> 2 ^ 57"
  shows "\<exists>vals0 ps vals'. centre_priorities vals = Inr vals0 \<and> centred (vs_Validators vals0) \<and>
     proposer_trace (nat ntimes) vals0 = Inr (ps, vals') \<and>
     IncrementProposerPriority ntimes vals = Inr (vals'\<lparr>vs_Proposer := Some (last ps)\<rparr>) \<and>
     vset_wf vals' \<and> members (vs_Validators vals') = members (vs_Validators vals) \<and>
     (\<forall>j < length (vs_Validators vals). val_ProposerPriority (vs_Validators vals' ! j) =
        val_ProposerPriority (vs_Validators vals0 ! j) + ntimes * val_VotingPower (vs_Validators vals ! j) -
        power_sum (vs_Validators vals) * times_proposed ps (vs_Validators vals ! j))"
proof -
  have k: "int (nat ntimes) = ntimes" using assms(4) by simp
  obtain vals0 ps vals' where run: "centre_priorities vals = Inr vals0" "centred (vs_Validators vals0)"
     "proposer_trace (nat ntimes) vals0 = Inr (ps, vals')" "length ps = nat ntimes" "rotation_inv vals'"
     "members (vs_Validators vals') = members (vs_Validators vals)"
     "\<forall>j < length (vs_Validators vals). val_ProposerPriority (vs_Validators vals' ! j) =
        val_ProposerPriority (vs_Validators vals0 ! j) + ntimes * val_VotingPower (vs_Validators vals ! j) -
        power_sum (vs_Validators vals) * times_proposed ps (vs_Validators vals ! j)"
    using rotation_run [OF assms(1-3), of "nat ntimes"] assms(5) unfolding k rotation_fits_def by fastforce
  have "ps \<noteq> []" using run(4) assms(4) by auto
  then have "IncrementProposerPriority ntimes vals = Inr (vals'\<lparr>vs_Proposer := Some (last ps)\<rparr>)"
    using assms(2,4) run(1,3)
    by (simp add: IncrementProposerPriority_centre increment_times_trace IsNilOrEmpty_def)
  with run show ?thesis by (auto simp: rotation_inv_def)
qed

theorem IncrementProposerPriority_no_clipping_witness:
  "vset_wf demo_vals \<and> vs_Validators demo_vals \<noteq> [] \<and> priorities_bounded demo_vals \<and>
   (\<exists>vals' ps. IncrementProposerPriority 1000 demo_vals = Inr (vals'\<lparr>vs_Proposer := Some (last ps)\<rparr>) \<and>
      vset_wf vals' \<and> members (vs_Validators vals') = members (vs_Validators demo_vals))"
proof -
  have "length (vs_Validators demo_vals) \<le> 32" by (simp add: demo_vals_facts)
  then show ?thesis
    using IncrementProposerPriority_no_clipping [OF demo_vals_ok(1) demo_vals_facts(1) demo_vals_ok(2), of 1000]
      demo_vals_ok demo_vals_facts(1) by auto
qed

lemma rotation_account:
  assumes "vset_wf vals" "vs_Validators vals \<noteq> []" "priorities_bounded vals"
    and "int (length (vs_Validators vals)) * (2 * power_sum (vs_Validators vals) + 1) \<le> MaxInt64"
  shows "\<exists>ps vals'. and_then (centre_priorities vals) (proposer_trace k) = Inr (ps, vals') \<and> length ps = k \<and>
     (\<forall>v \<in> set (vs_Validators vals).
        int k * val_VotingPower v - int (length (vs_Validators vals)) * (2 * power_sum (vs_Validators vals) + 1)
          < power_sum (vs_Validators vals) * times_proposed ps v \<and>
        power_sum (vs_Validators vals) * times_proposed ps v
          \<le> int k * val_VotingPower v + 4 * power_sum (vs_Validators vals))"
proof -
  let ?vs = "vs_Validators vals"
  obtain vals0 ps vals' where run: "centre_priorities vals = Inr vals0" "centred (vs_Validators vals0)"
     "proposer_trace k vals0 = Inr (ps, vals')" "length ps = k" "rotation_inv vals'"
     "members (vs_Validators vals0) = members ?vs" "members (vs_Validators vals') = members ?vs"
     "\<And>j. j < length ?vs \<Longrightarrow> val_ProposerPriority (vs_Validators vals' ! j) =
        val_ProposerPriority (vs_Validators vals0 ! j) + int k * val_VotingPower (?vs ! j) -
        power_sum ?vs * times_proposed ps (?vs ! j)"
    using rotation_run [OF assms(1-3), of k] rotation_fits_product [OF _ assms(4)] assms(1) unfolding vset_wf_def by blast
  have "int k * val_VotingPower v - int (length ?vs) * (2 * power_sum ?vs + 1)
          < power_sum ?vs * times_proposed ps v \<and>
        power_sum ?vs * times_proposed ps v \<le> int k * val_VotingPower v + 4 * power_sum ?vs"
    if v: "v \<in> set ?vs" for v
  proof -
    obtain j where j: "j < length ?vs" "v = ?vs ! j" using v by (auto simp: in_set_conv_nth)
    have j0: "vs_Validators vals0 ! j \<in> set (vs_Validators vals0)"
      and j': "vs_Validators vals' ! j \<in> set (vs_Validators vals')"
      using j(1) members_length [OF run(6)] members_length [OF run(7)] by simp_all
    have "\<bar>val_ProposerPriority (vs_Validators vals0 ! j)\<bar> \<le> 2 * power_sum ?vs"
      using run(2) j0 members_power_sum [OF run(6)] by (auto simp: centred_def)
    moreover have "- (2 * power_sum ?vs) \<le> val_ProposerPriority (vs_Validators vals' ! j)"
      using run(5) j' members_power_sum [OF run(7)] by (auto simp: rotation_inv_def)
    moreover have "val_ProposerPriority (vs_Validators vals' ! j) + 2 * power_sum ?vs
        < int (length ?vs) * (2 * power_sum ?vs + 1)"
      using rotation_upper_bound [OF run(5) j'] members_power_sum [OF run(7)] members_length [OF run(7)]
      by simp
    ultimately show ?thesis using run(8) [OF j(1)] j(2) by (auto simp: abs_le_iff)
  qed
  with run(1,3,4) show ?thesis by auto
qed

text \<open>
  C18: Fairness. In a well-formed set of \<open>n\<close> validators with total power \<open>P\<close>, whose priorities are at most three
  times \<^verbatim>\<open>MaxTotalVotingPower\<close> in absolute value and whose size satisfies \<open>n * (2 * P + 1) \<le> MaxInt64\<close>: over any
  number \<open>k\<close> of increments a validator with power \<open>p\<close> proposes \<open>k * p / P\<close> times, up to a constant that
  does not depend on \<open>k\<close>.
\<close>

theorem proposer_fairness:
  assumes "vset_wf vals" "vs_Validators vals \<noteq> []" "priorities_bounded vals"
    and "int (length (vs_Validators vals)) * (2 * power_sum (vs_Validators vals) + 1) \<le> MaxInt64"
  shows "\<exists>ps vals'. and_then (centre_priorities vals) (proposer_trace k) = Inr (ps, vals') \<and> length ps = k \<and>
     (\<forall>v \<in> set (vs_Validators vals).
        int k * val_VotingPower v - int (length (vs_Validators vals)) * (2 * power_sum (vs_Validators vals) + 1)
          < power_sum (vs_Validators vals) * times_proposed ps v \<and>
        power_sum (vs_Validators vals) * times_proposed ps v
          \<le> int k * val_VotingPower v + 4 * power_sum (vs_Validators vals))"
  using rotation_account [OF assms] .

theorem proposer_fairness_witness:
  "vset_wf demo_vals \<and> vs_Validators demo_vals \<noteq> [] \<and> priorities_bounded demo_vals \<and>
   (\<exists>ps vals'. and_then (centre_priorities demo_vals) (proposer_trace 1000) = Inr (ps, vals') \<and> length ps = 1000 \<and>
      (\<forall>v \<in> set (vs_Validators demo_vals). 1000 * val_VotingPower v - 363 < 60 * times_proposed ps v \<and>
         60 * times_proposed ps v \<le> 1000 * val_VotingPower v + 240))"
proof -
  have "int (length (vs_Validators demo_vals)) * (2 * power_sum (vs_Validators demo_vals) + 1) \<le> MaxInt64"
    by (simp add: demo_vals_facts int_limits)
  from proposer_fairness [OF demo_vals_ok(1) demo_vals_facts(1) demo_vals_ok(2) this, of 1000]
  show ?thesis using demo_vals_ok demo_vals_facts(1) by (simp add: demo_vals_facts(2,3))
qed

text \<open>
  C19: No starvation. In a well-formed set of \<open>n\<close> validators with total power \<open>P\<close>, whose priorities are at most
  three times \<^verbatim>\<open>MaxTotalVotingPower\<close> in absolute value and whose size satisfies \<open>n * (2 * P + 1) \<le> MaxInt64\<close>: once
  \<open>k\<close> increments times its power reach the constant \<open>n * (2 * P + 1)\<close>, a validator has been the
  proposer at least once.
\<close>

theorem every_validator_proposes:
  assumes "vset_wf vals" "priorities_bounded vals" "v \<in> set (vs_Validators vals)"
    and "int (length (vs_Validators vals)) * (2 * power_sum (vs_Validators vals) + 1) \<le> MaxInt64"
    and "int (length (vs_Validators vals)) * (2 * power_sum (vs_Validators vals) + 1) \<le> int k * val_VotingPower v"
  shows "\<exists>ps vals'. and_then (centre_priorities vals) (proposer_trace k) = Inr (ps, vals') \<and>
     (\<exists>p \<in> set ps. val_Address p = val_Address v)"
proof -
  have ne: "vs_Validators vals \<noteq> []" using assms(3) by auto
  obtain ps vals' where run: "and_then (centre_priorities vals) (proposer_trace k) = Inr (ps, vals')"
    "int k * val_VotingPower v - int (length (vs_Validators vals)) * (2 * power_sum (vs_Validators vals) + 1)
       < power_sum (vs_Validators vals) * times_proposed ps v"
    using rotation_account [OF assms(1) ne assms(2,4), of k] assms(3) by blast
  then have "0 < power_sum (vs_Validators vals) * times_proposed ps v"
    using assms(5) by linarith
  then have "0 < times_proposed ps v"
    using power_sum_nonneg assms(1) by (auto simp: vset_wf_def zero_less_mult_iff)
  then have "filter (\<lambda>p. val_Address p = val_Address v) ps \<noteq> []" by auto
  then show ?thesis using run(1) by (auto simp: filter_empty_conv)
qed

theorem every_validator_proposes_witness:
  "demo_val 1 10 \<in> set (vs_Validators demo_vals) \<and>
   (\<exists>ps vals'. and_then (centre_priorities demo_vals) (proposer_trace 37) = Inr (ps, vals') \<and>
      (\<exists>p \<in> set ps. val_Address p = [1]))"
proof -
  have v: "demo_val 1 10 \<in> set (vs_Validators demo_vals)" by (simp add: demo_vals_def)
  have "int (length (vs_Validators demo_vals)) * (2 * power_sum (vs_Validators demo_vals) + 1) \<le> MaxInt64"
    "int (length (vs_Validators demo_vals)) * (2 * power_sum (vs_Validators demo_vals) + 1)
       \<le> int 37 * val_VotingPower (demo_val 1 10)"
    by (simp_all add: demo_vals_facts int_limits demo_val_def)
  from every_validator_proposes [OF demo_vals_ok v this] v show ?thesis by (simp add: demo_val_def)
qed

text \<open>
  One increment, as every block performs it, keeps the set well formed and its priorities bounded.
\<close>

lemma IncrementProposerPriority_one:
  assumes "vset_wf vals" "vs_Validators vals \<noteq> []" "priorities_bounded vals"
  shows "\<exists>vals'. IncrementProposerPriority 1 vals = Inr vals' \<and> vset_wf vals' \<and> priorities_bounded vals' \<and>
     members (vs_Validators vals') = members (vs_Validators vals) \<and>
     (\<exists>p \<in> set (vs_Validators vals'). vs_Proposer vals' = Some p)"
proof -
  let ?p = "power_sum (vs_Validators vals)"
  have wf: "validators_wf (vs_Validators vals)" using assms(1) by (simp add: vset_wf_def)
  have p: "0 < ?p" "?p \<le> MaxTotalVotingPower"
    using power_sum_pos [OF wf assms(2)] wf by (simp_all add: validators_wf_def)
  obtain v0 where v0: "centre_priorities vals = Inr v0" "rotation_inv v0" "centred (vs_Validators v0)"
    "members (vs_Validators v0) = members (vs_Validators vals)"
    using centred_rotation [OF assms] by blast
  have wf0: "validators_wf (vs_Validators v0)" and p0: "power_sum (vs_Validators v0) = ?p"
    using members_wf [OF v0(4)] wf members_power_sum [OF v0(4)] by simp_all
  have up: "val_ProposerPriority v + val_VotingPower v \<le> 3 * ?p" if "v \<in> set (vs_Validators v0)" for v
    using v0(3) that power_le_sum [OF wf0 that] p0 by (force simp: centred_def abs_le_iff)
  have "\<forall>v \<in> set (vs_Validators v0). val_ProposerPriority v + val_VotingPower v \<le> MaxInt64"
    using up p by (force simp: int_limits MaxTotalVotingPower_eq)
  from incrementProposerPriority_exact [OF v0(2) this] obtain i v1 where
    v1: "incrementProposerPriority v0 = Inr (vs_Validators v1 ! i, v1)"
      "pays (vs_Validators v0) i (vs_Validators v1)" "rotation_inv v1" by blast
  have mem: "members (vs_Validators v1) = members (vs_Validators v0)" using v1(2) by (simp add: pays_def)
  have "\<bar>val_ProposerPriority v\<bar> \<le> 3 * MaxTotalVotingPower" if v: "v \<in> set (vs_Validators v1)" for v
  proof -
    obtain j where j: "j < length (vs_Validators v0)" "v = vs_Validators v1 ! j"
      using v members_length [OF mem] by (auto simp: in_set_conv_nth)
    have "val_ProposerPriority v \<le> 3 * ?p"
      using up [OF nth_mem [OF j(1)]] v1(2) j p p0 by (auto simp: pays_def split: if_splits)
    moreover have "- (2 * ?p) \<le> val_ProposerPriority v"
      using v1(3) v members_power_sum [OF mem] p0 by (auto simp: rotation_inv_def)
    ultimately show ?thesis using p by (auto simp: abs_le_iff)
  qed
  moreover have "i < length (vs_Validators v1)"
    using v1(2) members_length [OF mem] by (simp add: pays_def)
  ultimately show ?thesis
    using v0(1,4) v1 mem assms(2)
    by (auto simp: IncrementProposerPriority_centre IsNilOrEmpty_def rotation_inv_def vset_wf_def
      priorities_bounded_def intro!: nth_mem)
qed

end
