(* ===== verification/Validator_Updates.thy ===== *)
theory Validator_Updates
  imports Proposer_Rotation
begin

text \<open>
  Changes to the validator set: \<^verbatim>\<open>updateWithChangeSet\<close> of \<^verbatim>\<open>src/types/validator_set.go\<close> with the functions
  it is made of, \<^verbatim>\<open>UpdateWithChangeSet\<close> and \<^verbatim>\<open>NewValidatorSet\<close>. \<^verbatim>\<open>sort.Sort\<close> and \<^verbatim>\<open>sort.Slice\<close> are
  modelled by a stable sort: the address and power orders are injective on the lists the code sorts
  (see \<open>sorted_by_unique\<close>), a list with equal addresses is rejected whatever the order, and the
  order of equal power differences does not change their sums.

  The abstraction of a validator set is the function \<open>power_at\<close> from addresses to voting power, 0
  for an address that is not a member. The refinement theorem says that an accepted change set
  overrides that function with the powers it lists, and that a change set is accepted exactly when
  the declarative condition \<open>change_set_ok\<close> holds; nothing in between panics.
\<close>

subsection \<open>Operations\<close>

definition ValidatorsByAddress_sort :: "Validator list \<Rightarrow> Validator list" where
  "ValidatorsByAddress_sort valz = sort_key val_Address valz"

definition ValidatorsByVotingPower_sort :: "Validator list \<Rightarrow> Validator list" where
  "ValidatorsByVotingPower_sort valz = sort_key (\<lambda>v. (- val_VotingPower v, val_Address v)) valz"

fun scan_changes :: "bytes \<Rightarrow> Validator list \<Rightarrow> Validator list \<Rightarrow> Validator list \<Rightarrow>
    (vs_error, Validator list \<times> Validator list) result" where
  "scan_changes prevAddr updates removals [] = Inr (updates, removals)"
| "scan_changes prevAddr updates removals (valUpdate # rest) =
     (if val_Address valUpdate = prevAddr then Inl (Err ErrDuplicateEntry)
      else if val_VotingPower valUpdate < 0 then Inl (Err ErrNegativePower)
      else if val_VotingPower valUpdate > MaxTotalVotingPower then Inl (Err ErrPowerTooHigh)
      else if val_VotingPower valUpdate = 0
      then scan_changes (val_Address valUpdate) updates (removals @ [valUpdate]) rest
      else scan_changes (val_Address valUpdate) (updates @ [valUpdate]) removals rest)"

definition processChanges :: "Validator list \<Rightarrow> (vs_error, Validator list \<times> Validator list) result" where
  "processChanges origChanges = scan_changes [] [] [] (ValidatorsByAddress_sort origChanges)"

definition power_delta :: "ValidatorSet \<Rightarrow> Validator \<Rightarrow> int64" where
  "power_delta vals update =
     (case snd (GetByAddress (val_Address update) vals) of
        Some val \<Rightarrow> wrap64 (val_VotingPower update - val_VotingPower val)
      | None \<Rightarrow> val_VotingPower update)"

fun add_deltas :: "ValidatorSet \<Rightarrow> int64 \<Rightarrow> Validator list \<Rightarrow> (vs_error, int64) result" where
  "add_deltas vals tvp [] = Inr tvp"
| "add_deltas vals tvp (upd # rest) =
     (let tvp' = wrap64 (tvp + power_delta vals upd)
      in if tvp' > MaxTotalVotingPower then Inl (Err ErrTotalVotingPowerOverflow)
         else add_deltas vals tvp' rest)"

definition verifyUpdates :: "Validator list \<Rightarrow> ValidatorSet \<Rightarrow> int64 \<Rightarrow> (vs_error, int64) result" where
  "verifyUpdates updates vals removedPower =
     (let updatesCopy = sort_key (power_delta vals) updates
      in and_then (TotalVotingPower vals) (\<lambda>(tvp, _).
         and_then (add_deltas vals (wrap64 (tvp - removedPower)) updatesCopy) (\<lambda>tvpAfterRemovals.
           Inr (wrap64 (tvpAfterRemovals + removedPower)))))"

definition numNewValidators :: "Validator list \<Rightarrow> ValidatorSet \<Rightarrow> nat" where
  "numNewValidators updates vals =
     length (filter (\<lambda>valUpdate. \<not> HasAddress (val_Address valUpdate) vals) updates)"

definition computeNewPriorities :: "Validator list \<Rightarrow> ValidatorSet \<Rightarrow> int64 \<Rightarrow> Validator list" where
  "computeNewPriorities updates vals updatedTotalVotingPower =
     map (\<lambda>valUpdate.
       case snd (GetByAddress (val_Address valUpdate) vals) of
         None \<Rightarrow> valUpdate\<lparr>val_ProposerPriority :=
           wrap64 (- wrap64 (updatedTotalVotingPower + drop_bit 3 updatedTotalVotingPower))\<rparr>
       | Some val \<Rightarrow> valUpdate\<lparr>val_ProposerPriority := val_ProposerPriority val\<rparr>) updates"

fun merge_updates :: "Validator list \<Rightarrow> Validator list \<Rightarrow> Validator list" where
  "merge_updates [] updates = updates"
| "merge_updates existing [] = existing"
| "merge_updates (e # existing) (u # updates) =
     (if val_Address e < val_Address u then e # merge_updates existing (u # updates)
      else if val_Address e = val_Address u then u # merge_updates existing updates
      else u # merge_updates (e # existing) updates)"

definition applyUpdates :: "Validator list \<Rightarrow> ValidatorSet \<Rightarrow> ValidatorSet" where
  "applyUpdates updates vals =
     vals\<lparr>vs_Validators := merge_updates (ValidatorsByAddress_sort (vs_Validators vals)) updates\<rparr>"

fun removed_power :: "ValidatorSet \<Rightarrow> int64 \<Rightarrow> Validator list \<Rightarrow> (vs_error, int64) result" where
  "removed_power vals acc [] = Inr acc"
| "removed_power vals acc (valUpdate # rest) =
     (case snd (GetByAddress (val_Address valUpdate) vals) of
        None \<Rightarrow> Inl (Err (ErrRemoveUnknown (val_Address valUpdate)))
      | Some val \<Rightarrow> removed_power vals (wrap64 (acc + val_VotingPower val)) rest)"

definition verifyRemovals :: "Validator list \<Rightarrow> ValidatorSet \<Rightarrow> (vs_error, int64) result" where
  "verifyRemovals deletes vals =
     and_then (removed_power vals 0 deletes) (\<lambda>removedVotingPower.
       if length deletes > length (vs_Validators vals)
       then Inl (Panic ''more deletes than validators'')
       else Inr removedVotingPower)"

fun remove_deletes :: "Validator list \<Rightarrow> Validator list \<Rightarrow> (vs_error, Validator list) result" where
  "remove_deletes existing [] = Inr existing"
| "remove_deletes [] (d # deletes) = Inl (Panic ''index out of range'')"
| "remove_deletes (e # existing) (d # deletes) =
     (if val_Address e = val_Address d then remove_deletes existing deletes
      else and_then (remove_deletes existing (d # deletes)) (\<lambda>merged. Inr (e # merged)))"

definition applyRemovals :: "Validator list \<Rightarrow> ValidatorSet \<Rightarrow> (vs_error, ValidatorSet) result" where
  "applyRemovals deletes vals =
     (if length (vs_Validators vals) < length deletes then Inl (Panic ''makeslice: len out of range'')
      else and_then (remove_deletes (vs_Validators vals) deletes) (\<lambda>merged.
        Inr (vals\<lparr>vs_Validators := merged\<rparr>)))"

definition updateWithChangeSet :: "Validator list \<Rightarrow> bool \<Rightarrow> ValidatorSet \<Rightarrow> (vs_error, ValidatorSet) result" where
  "updateWithChangeSet changes allowDeletes vals =
     (if length changes = 0 then Inr vals
      else
        and_then (processChanges changes) (\<lambda>(updates, deletes).
        if \<not> allowDeletes \<and> length deletes \<noteq> 0 then Inl (Err ErrDeletesNotAllowed)
        else if numNewValidators updates vals = 0 \<and> length (vs_Validators vals) = length deletes
        then Inl (Err ErrEmptyResult)
        else
          and_then (verifyRemovals deletes vals) (\<lambda>removedVotingPower.
          and_then (verifyUpdates updates vals removedVotingPower) (\<lambda>tvpAfterUpdatesBeforeRemovals.
          let updates = computeNewPriorities updates vals tvpAfterUpdatesBeforeRemovals in
          and_then (applyRemovals deletes (applyUpdates updates vals)) (\<lambda>vals.
          and_then (updateTotalVotingPower vals) (\<lambda>vals.
          and_then (TotalVotingPower vals) (\<lambda>(tvp, vals).
          and_then (RescalePriorities (wrap64 (PriorityWindowSizeFactor * tvp)) vals) (\<lambda>vals.
          and_then (shiftByAvgProposerPriority vals) (\<lambda>vals.
            Inr (vals\<lparr>vs_Validators := ValidatorsByVotingPower_sort (vs_Validators vals)\<rparr>)))))))))) "

definition UpdateWithChangeSet :: "Validator list \<Rightarrow> ValidatorSet \<Rightarrow> (vs_error, ValidatorSet) result" where
  "UpdateWithChangeSet changes vals = updateWithChangeSet changes True vals"

definition NewValidatorSet :: "Validator list \<Rightarrow> (vs_error, ValidatorSet) result" where
  "NewValidatorSet valz =
     (case updateWithChangeSet valz False
             \<lparr>vs_Validators = [], vs_Proposer = None, vs_totalVotingPower = 0\<rparr> of
        Inl _ \<Rightarrow> Inl (Panic ''Cannot create validator set'')
      | Inr vals \<Rightarrow> if length valz > 0 then IncrementProposerPriority 1 vals else Inr vals)"

subsection \<open>The abstraction: voting power by address\<close>

definition power_at :: "Validator list \<Rightarrow> bytes \<Rightarrow> int" where
  "power_at vs a = (case find (\<lambda>v. val_Address v = a) vs of None \<Rightarrow> 0 | Some v \<Rightarrow> val_VotingPower v)"

abbreviation addrs :: "Validator list \<Rightarrow> bytes set" where
  "addrs vs \<equiv> val_Address ` set vs"

lemma power_at_outside [simp]: "a \<notin> addrs vs \<Longrightarrow> power_at vs a = 0"
  by (auto simp: power_at_def find_Some_iff split: option.splits)

lemma power_at_member:
  assumes "distinct (map val_Address vs)" "v \<in> set vs"
  shows "power_at vs (val_Address v) = val_VotingPower v"
  using assms by (induction vs) (auto simp: power_at_def rev_image_eqI)

lemma find_address_eq:
  assumes "distinct (map val_Address vs)" "v \<in> set vs"
  shows "find (\<lambda>w. val_Address w = val_Address v) vs = Some v"
  using assms by (induction vs) (auto simp: rev_image_eqI)

lemma power_sum_power_at:
  assumes "distinct (map val_Address vs)" "finite b" "addrs vs \<subseteq> b"
  shows "power_sum vs = (\<Sum>a\<in>b. power_at vs a)"
proof -
  have "power_sum vs = (\<Sum>v\<in>set vs. val_VotingPower v)"
    using assms(1) by (simp add: sum_list_distinct_conv_sum_set distinct_map)
  also have "\<dots> = (\<Sum>v\<in>set vs. power_at vs (val_Address v))"
    using assms(1) by (simp add: power_at_member)
  also have "\<dots> = (\<Sum>a\<in>addrs vs. power_at vs a)"
    using assms(1) by (simp add: sum.reindex distinct_map)
  also have "\<dots> = (\<Sum>a\<in>b. power_at vs a)"
    using assms(2,3) by (intro sum.mono_neutral_left) auto
  finally show ?thesis .
qed

lemma get_by_address_find: "snd (get_by_address_from i a vs) = find (\<lambda>v. val_Address v = a) vs"
  by (induction vs arbitrary: i) auto

lemma GetByAddress_find [simp]: "snd (GetByAddress a vals) = find (\<lambda>v. val_Address v = a) (vs_Validators vals)"
  by (simp add: GetByAddress_def get_by_address_find)

lemma HasAddress_iff [simp]: "HasAddress a vals \<longleftrightarrow> a \<in> addrs (vs_Validators vals)"
  by (auto simp: HasAddress_def list_ex_iff)

subsection \<open>Splitting and checking the changes\<close>

abbreviation by_address :: "Validator list \<Rightarrow> bool" where
  "by_address vs \<equiv> sorted_wrt (<) (map val_Address vs)"

lemma by_address_distinct: "by_address vs \<Longrightarrow> distinct (map val_Address vs)"
  by (simp add: strict_sorted_iff)

lemma ValidatorsByAddress_sort_facts [simp]:
  "set (ValidatorsByAddress_sort vs) = set vs"
  "length (ValidatorsByAddress_sort vs) = length vs"
  "mset (ValidatorsByAddress_sort vs) = mset vs"
  "sorted (map val_Address (ValidatorsByAddress_sort vs))"
  by (simp_all add: ValidatorsByAddress_sort_def)

lemma distinct_ValidatorsByAddress_sort:
  "distinct (map val_Address (ValidatorsByAddress_sort vs)) \<longleftrightarrow> distinct (map val_Address vs)"
  by (rule mset_eq_imp_distinct_iff) simp

lemma by_address_sort:
  "distinct (map val_Address vs) \<Longrightarrow> by_address (ValidatorsByAddress_sort vs)"
  by (simp add: strict_sorted_iff distinct_ValidatorsByAddress_sort)

definition power_ok :: "Validator \<Rightarrow> bool" where
  "power_ok v \<longleftrightarrow> 0 \<le> val_VotingPower v \<and> val_VotingPower v \<le> MaxTotalVotingPower"

lemma scan_changes_spec:
  assumes "sorted (prev # map val_Address vs)"
  shows "if distinct (prev # map val_Address vs) \<and> list_all power_ok vs
    then scan_changes prev us rs vs =
      Inr (us @ filter (\<lambda>v. val_VotingPower v \<noteq> 0) vs, rs @ filter (\<lambda>v. val_VotingPower v = 0) vs)
    else \<exists>e. scan_changes prev us rs vs = Inl (Err e)"
  using assms
proof (induction vs arbitrary: prev us rs)
  case (Cons v vs)
  have sorted: "sorted (val_Address v # map val_Address vs)" using Cons.prems by simp
  have mem: "prev \<in> addrs vs \<Longrightarrow> prev = val_Address v"
    using Cons.prems by (auto dest: antisym)
  note IH = Cons.IH [OF sorted]
  show ?case
  proof (cases "val_Address v \<noteq> prev \<and> power_ok v")
    case True
    then show ?thesis
      using IH [of "us @ [v]" rs] IH [of us "rs @ [v]"] mem
      by (auto simp: power_ok_def split: if_splits)
  next
    case False
    then show ?thesis by (auto simp: power_ok_def)
  qed
qed simp

lemma sorted_Nil_least: "sorted xs \<Longrightarrow> sorted (([] :: bytes) # xs)"
  by simp

lemma processChanges_spec:
  "if distinct (map val_Address changes) \<and> [] \<notin> addrs changes \<and> list_all power_ok changes
   then processChanges changes =
     Inr (filter (\<lambda>v. val_VotingPower v \<noteq> 0) (ValidatorsByAddress_sort changes),
          filter (\<lambda>v. val_VotingPower v = 0) (ValidatorsByAddress_sort changes))
   else \<exists>e. processChanges changes = Inl (Err e)"
  using scan_changes_spec [OF sorted_Nil_least [OF ValidatorsByAddress_sort_facts(4)], of changes "[]" "[]"]
  by (simp add: processChanges_def distinct_ValidatorsByAddress_sort list_all_iff)

subsection \<open>Powers after the changes\<close>

lemma find_filter_address:
  "find (\<lambda>v. val_Address v = a) (filter (\<lambda>v. val_Address v \<notin> d) vs) =
     (if a \<in> d then None else find (\<lambda>v. val_Address v = a) vs)"
  by (induction vs) auto

lemma merge_updates_spec:
  assumes "by_address es" "by_address us"
  shows "by_address (merge_updates es us) \<and>
     set (merge_updates es us) = set us \<union> {e \<in> set es. val_Address e \<notin> addrs us}"
  using assms
proof (induction es us rule: merge_updates.induct)
  case (3 e es u us)
  have es: "val_Address e < val_Address x" if "x \<in> set es" for x using that "3.prems"(1) by simp
  have us: "val_Address u < val_Address x" if "x \<in> set us" for x using that "3.prems"(2) by simp
  consider (less) "val_Address e < val_Address u" | (same) "val_Address e = val_Address u"
    | (greater) "val_Address u < val_Address e"
    by (meson linorder_less_linear)
  then show ?case
  proof cases
    case less
    then have ih: "by_address (merge_updates es (u # us))"
      "set (merge_updates es (u # us)) = set (u # us) \<union> {e' \<in> set es. val_Address e' \<notin> addrs (u # us)}"
      using 3 by simp_all
    have all: "val_Address e < val_Address x" if "x \<in> set (u # us)" for x
      using that less less_trans [OF less us] by auto
    moreover have "val_Address e \<notin> addrs (u # us)"
      using all by (metis (no_types, lifting) imageE less_irrefl)
    ultimately have set: "{e' \<in> set (e # es). val_Address e' \<notin> addrs (u # us)} =
        insert e {e' \<in> set es. val_Address e' \<notin> addrs (u # us)}" by auto
    have eq: "merge_updates (e # es) (u # us) = e # merge_updates es (u # us)" using less by simp
    have "\<forall>x \<in> set (merge_updates es (u # us)). val_Address e < val_Address x"
      unfolding ih(2) using all es by blast
    then have "by_address (merge_updates (e # es) (u # us))" using ih(1) unfolding eq by simp
    moreover have "set (merge_updates (e # es) (u # us)) =
        set (u # us) \<union> {e' \<in> set (e # es). val_Address e' \<notin> addrs (u # us)}"
      unfolding set eq using ih(2) by simp
    ultimately show ?thesis ..
  next
    case same
    then have ih: "by_address (merge_updates es us)"
      "set (merge_updates es us) = set us \<union> {e' \<in> set es. val_Address e' \<notin> addrs us}"
      using 3 by simp_all
    have "val_Address u \<notin> addrs es"
      using es same by (metis (no_types, lifting) imageE less_irrefl)
    then have set: "{e' \<in> set (e # es). val_Address e' \<notin> addrs (u # us)} =
        {e' \<in> set es. val_Address e' \<notin> addrs us}"
      using same by (auto intro: rev_image_eqI)
    have eq: "merge_updates (e # es) (u # us) = u # merge_updates es us" using same by simp
    have "\<forall>x \<in> set (merge_updates es us). val_Address u < val_Address x"
      unfolding ih(2) using same es us by auto
    then have "by_address (merge_updates (e # es) (u # us))" using ih(1) unfolding eq by simp
    moreover have "set (merge_updates (e # es) (u # us)) =
        set (u # us) \<union> {e' \<in> set (e # es). val_Address e' \<notin> addrs (u # us)}"
      unfolding set eq using ih(2) by simp
    ultimately show ?thesis ..
  next
    case greater
    then have ih: "by_address (merge_updates (e # es) us)"
      "set (merge_updates (e # es) us) = set us \<union> {e' \<in> set (e # es). val_Address e' \<notin> addrs us}"
      using 3 by simp_all
    have all: "val_Address u < val_Address x" if "x \<in> set (e # es)" for x
      using that greater less_trans [OF greater es] by auto
    then have "val_Address u \<notin> addrs (e # es)"
      by (metis (no_types, lifting) imageE less_irrefl)
    then have set: "{e' \<in> set (e # es). val_Address e' \<notin> addrs (u # us)} =
        {e' \<in> set (e # es). val_Address e' \<notin> addrs us}"
      by (auto intro: rev_image_eqI)
    have "\<not> val_Address e < val_Address u" "val_Address e \<noteq> val_Address u" using greater by auto
    then have eq: "merge_updates (e # es) (u # us) = u # merge_updates (e # es) us" by simp
    have "\<forall>x \<in> set (merge_updates (e # es) us). val_Address u < val_Address x"
      unfolding ih(2) using all us by blast
    then have "by_address (merge_updates (e # es) (u # us))" using ih(1) unfolding eq by simp
    moreover have "set (merge_updates (e # es) (u # us)) =
        set (u # us) \<union> {e' \<in> set (e # es). val_Address e' \<notin> addrs (u # us)}"
      unfolding set eq using ih(2) by simp
    ultimately show ?thesis ..
  qed
qed auto

lemma remove_deletes_spec:
  assumes "by_address es" "by_address ds" "addrs ds \<subseteq> addrs es"
  shows "remove_deletes es ds = Inr (filter (\<lambda>e. val_Address e \<notin> addrs ds) es)"
  using assms
proof (induction es ds rule: remove_deletes.induct)
  case (3 e es d ds)
  have es: "val_Address e < val_Address x" if "x \<in> set es" for x using that "3.prems"(1) by simp
  have ds: "val_Address d < val_Address x" if "x \<in> set ds" for x using that "3.prems"(2) by simp
  have sub: "addrs (d # ds) \<subseteq> insert (val_Address e) (addrs es)" using "3.prems"(3) by simp
  show ?case
  proof (cases "val_Address e = val_Address d")
    case True
    have "val_Address d \<notin> addrs es" using es True by (metis (no_types, lifting) imageE less_irrefl)
    then have f: "filter (\<lambda>x. val_Address x \<notin> addrs (d # ds)) es = filter (\<lambda>x. val_Address x \<notin> addrs ds) es"
      by (intro filter_cong) (auto intro: rev_image_eqI)
    have "val_Address e \<notin> addrs ds" using ds True by (metis (no_types, lifting) imageE less_irrefl)
    then have "addrs ds \<subseteq> addrs es" using sub by (simp add: subset_insert)
    then have "remove_deletes es ds = Inr (filter (\<lambda>e. val_Address e \<notin> addrs ds) es)"
      using 3 True by simp
    with f True show ?thesis by simp
  next
    case False
    have "val_Address d \<in> addrs es" using sub False by simp
    then have ed: "val_Address e < val_Address d" using es by auto
    have "val_Address e < val_Address x" if "x \<in> set (d # ds)" for x
      using that ed less_trans [OF ed ds] by auto
    then have e: "val_Address e \<notin> addrs (d # ds)"
      by (metis (no_types, lifting) imageE less_irrefl)
    then have "addrs (d # ds) \<subseteq> addrs es" using sub by (metis subset_insert)
    then have "remove_deletes es (d # ds) = Inr (filter (\<lambda>e. val_Address e \<notin> addrs (d # ds)) es)"
      using 3 False by simp
    with e False show ?thesis by simp
  qed
qed auto

subsection \<open>Checking removals and updates\<close>

lemma find_address_None: "find (\<lambda>v. val_Address v = a) vs = None \<longleftrightarrow> a \<notin> addrs vs"
  by (auto simp: find_None_iff)

lemma find_address_Some:
  assumes "a \<in> addrs vs"
  shows "\<exists>v \<in> set vs. find (\<lambda>v. val_Address v = a) vs = Some v \<and> val_VotingPower v = power_at vs a"
proof -
  obtain v where "find (\<lambda>v. val_Address v = a) vs = Some v"
    using assms find_address_None [of a vs] by auto
  moreover from this have "v \<in> set vs" by (auto simp: find_Some_iff)
  ultimately show ?thesis by (auto simp: power_at_def)
qed

lemma power_at_bounds:
  assumes "validators_wf vs"
  shows "0 \<le> power_at vs a" "power_at vs a \<le> MaxTotalVotingPower" "a \<in> addrs vs \<Longrightarrow> 0 < power_at vs a"
proof -
  have "0 < power_at vs a \<and> power_at vs a \<le> MaxTotalVotingPower" if "a \<in> addrs vs"
    using find_address_Some [OF that] assms power_le_sum [OF assms]
    by (fastforce simp: validators_wf_def)
  then show "0 \<le> power_at vs a" "power_at vs a \<le> MaxTotalVotingPower" "a \<in> addrs vs \<Longrightarrow> 0 < power_at vs a"
    by (cases "a \<in> addrs vs"; simp add: MaxTotalVotingPower_eq)+
qed

lemma removed_power_spec:
  assumes "validators_wf (vs_Validators vals)" "0 \<le> acc"
    and "addrs ds \<subseteq> addrs (vs_Validators vals)"
    and "acc + (\<Sum>d\<leftarrow>ds. power_at (vs_Validators vals) (val_Address d)) \<le> MaxInt64"
  shows "removed_power vals acc ds = Inr (acc + (\<Sum>d\<leftarrow>ds. power_at (vs_Validators vals) (val_Address d)))"
  using assms(2-)
proof (induction ds arbitrary: acc)
  case (Cons d ds)
  let ?p = "power_at (vs_Validators vals) (val_Address d)"
  have nn: "0 \<le> ?p" "0 \<le> (\<Sum>d\<leftarrow>ds. power_at (vs_Validators vals) (val_Address d))"
    by (rule power_at_bounds(1) [OF assms(1)])
      (use power_at_bounds(1) [OF assms(1)] in \<open>intro sum_list_nonneg; auto\<close>)
  obtain v where v: "find (\<lambda>v. val_Address v = val_Address d) (vs_Validators vals) = Some v"
    "val_VotingPower v = ?p"
    using find_address_Some [of "val_Address d" "vs_Validators vals"] Cons.prems(2) by auto
  have "wrap64 (acc + ?p) = acc + ?p"
    using Cons.prems nn by (intro wrap64_idI) (auto simp: int_limits)
  with v Cons nn show ?case by simp
qed simp

lemma removed_power_unknown:
  "\<not> addrs ds \<subseteq> addrs (vs_Validators vals) \<Longrightarrow> \<exists>e. removed_power vals acc ds = Inl (Err e)"
proof (induction ds arbitrary: acc)
  case (Cons d ds)
  then show ?case
    using find_address_None [of "val_Address d" "vs_Validators vals"]
    by (cases "find (\<lambda>v. val_Address v = val_Address d) (vs_Validators vals)") auto
qed simp

lemma power_delta_exact:
  assumes "validators_wf (vs_Validators vals)" "power_ok u"
  shows "power_delta vals u = val_VotingPower u - power_at (vs_Validators vals) (val_Address u)"
proof (cases "val_Address u \<in> addrs (vs_Validators vals)")
  case True
  obtain v where v: "find (\<lambda>v. val_Address v = val_Address u) (vs_Validators vals) = Some v"
    "val_VotingPower v = power_at (vs_Validators vals) (val_Address u)"
    using find_address_Some [OF True] by auto
  have "wrap64 (val_VotingPower u - val_VotingPower v) = val_VotingPower u - val_VotingPower v"
    using assms(2) v(2) power_at_bounds(1,2) [OF assms(1), of "val_Address u"]
    by (intro wrap64_idI) (auto simp: power_ok_def int_limits MaxTotalVotingPower_eq)
  with v show ?thesis by (simp add: power_delta_def)
next
  case False
  then show ?thesis using find_address_None [of "val_Address u" "vs_Validators vals"]
    by (simp add: power_delta_def)
qed

text \<open>
  The overflow check walks the updates in the order of their power differences, so that the partial
  sums first fall and then rise: the check fails exactly when the final sum is too high.
\<close>

lemma add_deltas_spec:
  assumes "sorted (map (power_delta vals) us)" "\<forall>u \<in> set us. power_delta vals u \<le> MaxTotalVotingPower"
    and "0 \<le> tvp + (\<Sum>u\<leftarrow>us. min 0 (power_delta vals u))" "tvp \<le> MaxTotalVotingPower"
  shows "add_deltas vals tvp us =
    (if tvp + (\<Sum>u\<leftarrow>us. power_delta vals u) \<le> MaxTotalVotingPower
     then Inr (tvp + (\<Sum>u\<leftarrow>us. power_delta vals u)) else Inl (Err ErrTotalVotingPowerOverflow))"
  using assms
proof (induction us arbitrary: tvp)
  case (Cons u us)
  let ?d = "power_delta vals u"
  have neg: "(\<Sum>u\<leftarrow>us. min 0 (power_delta vals u)) \<le> 0"
    using sum_list_upper [of us "\<lambda>u. min 0 (power_delta vals u)" 0] by simp
  have "wrap64 (tvp + ?d) = tvp + ?d"
    using Cons.prems neg by (intro wrap64_idI) (auto simp: int_limits MaxTotalVotingPower_eq)
  show ?case
  proof (cases "tvp + ?d > MaxTotalVotingPower")
    case True
    then have "0 \<le> power_delta vals x" if "x \<in> set us" for x
      using that Cons.prems(1,4) by force
    then have "0 \<le> (\<Sum>u\<leftarrow>us. power_delta vals u)" by (intro sum_list_nonneg) auto
    with True \<open>wrap64 (tvp + ?d) = tvp + ?d\<close> show ?thesis by simp
  next
    case False
    then have "add_deltas vals (tvp + ?d) us =
        (if (tvp + ?d) + (\<Sum>u\<leftarrow>us. power_delta vals u) \<le> MaxTotalVotingPower
         then Inr ((tvp + ?d) + (\<Sum>u\<leftarrow>us. power_delta vals u)) else Inl (Err ErrTotalVotingPowerOverflow))"
      using Cons.prems by (intro Cons.IH) auto
    with False \<open>wrap64 (tvp + ?d) = tvp + ?d\<close> show ?thesis by (simp add: add.assoc)
  qed
qed simp

subsection \<open>The specification of a change set\<close>

definition new_power :: "Validator list \<Rightarrow> Validator list \<Rightarrow> bytes \<Rightarrow> int" where
  "new_power vs changes a = (if a \<in> addrs changes then power_at changes a else power_at vs a)"

definition new_total :: "Validator list \<Rightarrow> Validator list \<Rightarrow> int" where
  "new_total vs changes = (\<Sum>a \<in> addrs vs \<union> addrs changes. new_power vs changes a)"

definition change_set_ok :: "Validator list \<Rightarrow> bool \<Rightarrow> Validator list \<Rightarrow> bool" where
  "change_set_ok changes allowDeletes vs \<longleftrightarrow>
     distinct (map val_Address changes) \<and> [] \<notin> addrs changes \<and> list_all power_ok changes \<and>
     (\<forall>c \<in> set changes. val_VotingPower c = 0 \<longrightarrow> allowDeletes \<and> val_Address c \<in> addrs vs) \<and>
     0 < new_total vs changes \<and> new_total vs changes \<le> MaxTotalVotingPower"

abbreviation upds :: "Validator list \<Rightarrow> Validator list" where
  "upds changes \<equiv> filter (\<lambda>v. val_VotingPower v \<noteq> 0) (ValidatorsByAddress_sort changes)"

abbreviation dels :: "Validator list \<Rightarrow> Validator list" where
  "dels changes \<equiv> filter (\<lambda>v. val_VotingPower v = 0) (ValidatorsByAddress_sort changes)"

lemma by_address_filter: "by_address vs \<Longrightarrow> by_address (filter P vs)"
  unfolding sorted_wrt_map by (rule sorted_wrt_filter)

lemma same_address:
  "distinct (map val_Address vs) \<Longrightarrow> v \<in> set vs \<Longrightarrow> w \<in> set vs \<Longrightarrow> val_Address v = val_Address w \<Longrightarrow> v = w"
  by (auto simp: distinct_map dest: inj_onD)

lemma upds_dels:
  assumes "distinct (map val_Address changes)"
  shows "by_address (upds changes)" "by_address (dels changes)"
    and "addrs (upds changes) \<inter> addrs (dels changes) = {}"
    and "addrs (upds changes) \<union> addrs (dels changes) = addrs changes"
  using by_address_filter [OF by_address_sort [OF assms]] same_address [OF assms]
  by auto

lemma sum_list_addrs:
  fixes f :: "bytes \<Rightarrow> int"
  assumes "distinct (map val_Address ds)" "finite b" "addrs ds \<subseteq> b"
  shows "(\<Sum>d\<leftarrow>ds. f (val_Address d)) = (\<Sum>a\<in>b. if a \<in> addrs ds then f a else 0)"
proof -
  have "(\<Sum>d\<leftarrow>ds. f (val_Address d)) = (\<Sum>a\<in>addrs ds. f a)"
    using assms(1) by (simp add: sum_list_distinct_conv_sum_set distinct_map sum.reindex)
  also have "\<dots> = (\<Sum>a\<in>b. if a \<in> addrs ds then f a else 0)"
    using assms(2,3) by (simp add: sum.inter_restrict [symmetric] Int_absorb1)
  finally show ?thesis .
qed

lemma power_at_upds:
  "distinct (map val_Address changes) \<Longrightarrow> u \<in> set (upds changes) \<Longrightarrow>
     val_VotingPower u = power_at changes (val_Address u)"
  by (simp add: power_at_member)

lemma power_at_dels:
  assumes "distinct (map val_Address changes)" "a \<in> addrs (dels changes)"
  shows "power_at changes a = 0"
  using assms power_at_member [OF assms(1)] by auto

lemma new_total_eq:
  assumes "distinct (map val_Address vs)" "distinct (map val_Address changes)"
  shows "new_total vs changes = power_sum vs - (\<Sum>d\<leftarrow>dels changes. power_at vs (val_Address d)) +
     (\<Sum>u\<leftarrow>upds changes. val_VotingPower u - power_at vs (val_Address u))"
proof -
  let ?b = "addrs vs \<union> addrs changes"
  note ud = upds_dels [OF assms(2)]
  have d: "(\<Sum>d\<leftarrow>dels changes. power_at vs (val_Address d)) =
      (\<Sum>a\<in>?b. if a \<in> addrs (dels changes) then power_at vs a else 0)"
    using ud by (intro sum_list_addrs by_address_distinct) auto
  have "(\<Sum>u\<leftarrow>upds changes. val_VotingPower u - power_at vs (val_Address u)) =
      (\<Sum>u\<leftarrow>upds changes. power_at changes (val_Address u) - power_at vs (val_Address u))"
    using power_at_upds [OF assms(2)] by (intro arg_cong [where f = sum_list] map_cong) auto
  also have "\<dots> = (\<Sum>a\<in>?b. if a \<in> addrs (upds changes) then power_at changes a - power_at vs a else 0)"
    using ud by (intro sum_list_addrs by_address_distinct) auto
  finally have "power_sum vs - (\<Sum>d\<leftarrow>dels changes. power_at vs (val_Address d)) +
     (\<Sum>u\<leftarrow>upds changes. val_VotingPower u - power_at vs (val_Address u)) =
     (\<Sum>a\<in>?b. power_at vs a - (if a \<in> addrs (dels changes) then power_at vs a else 0) +
       (if a \<in> addrs (upds changes) then power_at changes a - power_at vs a else 0))"
    unfolding d using power_sum_power_at [OF assms(1), of ?b] by (simp add: sum.distrib sum_subtractf)
  also have "\<dots> = new_total vs changes"
    unfolding new_total_def
  proof (intro sum.cong refl)
    fix a
    show "power_at vs a - (if a \<in> addrs (dels changes) then power_at vs a else 0) +
       (if a \<in> addrs (upds changes) then power_at changes a - power_at vs a else 0) = new_power vs changes a"
    proof (cases "a \<in> addrs changes")
      case True
      then consider "a \<in> addrs (upds changes)" "a \<notin> addrs (dels changes)"
        | "a \<in> addrs (dels changes)" "a \<notin> addrs (upds changes)"
        using ud(3,4) by blast
      then show ?thesis
        using True power_at_dels [OF assms(2), of a] by cases (auto simp: new_power_def)
    next
      case False
      then have "a \<notin> addrs (upds changes)" "a \<notin> addrs (dels changes)" using ud(4) by blast+
      with False show ?thesis by (simp add: new_power_def)
    qed
  qed
  finally show ?thesis by simp
qed

lemma remaining_power_nonneg:
  assumes "validators_wf vs" "distinct (map val_Address changes)"
  shows "0 \<le> power_sum vs - (\<Sum>d\<leftarrow>dels changes. power_at vs (val_Address d))
     - (\<Sum>u\<leftarrow>upds changes. power_at vs (val_Address u))"
proof -
  let ?b = "addrs vs \<union> addrs changes"
  note ud = upds_dels [OF assms(2)]
  have dist: "distinct (map val_Address vs)" using assms(1) by (simp add: validators_wf_def)
  have d: "(\<Sum>d\<leftarrow>dels changes. power_at vs (val_Address d)) =
      (\<Sum>a\<in>?b. if a \<in> addrs (dels changes) then power_at vs a else 0)"
    using ud by (intro sum_list_addrs by_address_distinct) auto
  have u: "(\<Sum>u\<leftarrow>upds changes. power_at vs (val_Address u)) =
      (\<Sum>a\<in>?b. if a \<in> addrs (upds changes) then power_at vs a else 0)"
    using ud by (intro sum_list_addrs by_address_distinct) auto
  have "power_sum vs - (\<Sum>d\<leftarrow>dels changes. power_at vs (val_Address d))
     - (\<Sum>u\<leftarrow>upds changes. power_at vs (val_Address u)) =
     (\<Sum>a\<in>?b. power_at vs a - (if a \<in> addrs (dels changes) then power_at vs a else 0)
        - (if a \<in> addrs (upds changes) then power_at vs a else 0))"
    unfolding d u using power_sum_power_at [OF dist, of ?b] by (simp add: sum_subtractf)
  also have "\<dots> \<ge> 0"
    using ud(3) power_at_bounds(1) [OF assms(1)] by (intro sum_nonneg) auto
  finally show ?thesis .
qed

subsection \<open>The stages of an update\<close>

lemma length_addrs: "distinct (map val_Address vs) \<Longrightarrow> length vs = card (addrs vs)"
  by (metis distinct_card length_map set_map)

lemma addrs_sub_length:
  assumes "distinct (map val_Address ds)" "addrs ds \<subseteq> addrs vs"
  shows "length ds \<le> length vs"
proof -
  have "length ds = card (addrs ds)" using length_addrs [OF assms(1)] .
  also have "\<dots> \<le> card (addrs vs)" using assms(2) by (intro card_mono) auto
  also have "\<dots> \<le> length vs" by (metis card_length length_map set_map)
  finally show ?thesis .
qed

lemma removed_le_total:
  assumes "validators_wf vs" "distinct (map val_Address changes)"
  shows "0 \<le> (\<Sum>d\<leftarrow>dels changes. power_at vs (val_Address d))"
    and "(\<Sum>d\<leftarrow>dels changes. power_at vs (val_Address d)) \<le> MaxTotalVotingPower"
proof -
  have nn: "0 \<le> (\<Sum>d\<leftarrow>xs. power_at vs (val_Address d))" for xs
    using power_at_bounds(1) [OF assms(1)] by (intro sum_list_nonneg) auto
  show "0 \<le> (\<Sum>d\<leftarrow>dels changes. power_at vs (val_Address d))" by (rule nn)
  show "(\<Sum>d\<leftarrow>dels changes. power_at vs (val_Address d)) \<le> MaxTotalVotingPower"
    using remaining_power_nonneg [OF assms] nn [of "upds changes"] assms(1)
    by (simp add: validators_wf_def)
qed

lemma verifyRemovals_spec:
  assumes "validators_wf (vs_Validators vals)" "distinct (map val_Address changes)"
    and "addrs (dels changes) \<subseteq> addrs (vs_Validators vals)"
  shows "verifyRemovals (dels changes) vals =
    Inr (\<Sum>d\<leftarrow>dels changes. power_at (vs_Validators vals) (val_Address d))"
  using removed_power_spec [OF assms(1) _ assms(3), of 0] removed_le_total [OF assms(1,2)]
    addrs_sub_length [OF by_address_distinct [OF upds_dels(2) [OF assms(2)]] assms(3)]
  by (simp add: verifyRemovals_def int_limits MaxTotalVotingPower_eq)

lemma sum_list_sort_key: "(\<Sum>x\<leftarrow>sort_key k xs. (f x :: int)) = (\<Sum>x\<leftarrow>xs. f x)"
  by (metis mset_map mset_sort sum_mset_sum_list)

lemma new_power_nonneg:
  assumes "validators_wf vs" "list_all power_ok changes"
  shows "0 \<le> new_power vs changes a"
proof (cases "a \<in> addrs changes")
  case True
  obtain v where "v \<in> set changes" "val_VotingPower v = power_at changes a"
    using find_address_Some [OF True] by auto
  then show ?thesis using True assms(2) by (auto simp: new_power_def list_all_iff power_ok_def)
qed (use power_at_bounds(1) [OF assms(1)] in \<open>simp add: new_power_def\<close>)

lemma verifyUpdates_spec:
  assumes wf: "vset_wf vals" and dist: "distinct (map val_Address changes)"
    and ok: "list_all power_ok changes"
  defines "removed \<equiv> (\<Sum>d\<leftarrow>dels changes. power_at (vs_Validators vals) (val_Address d))"
  shows "verifyUpdates (upds changes) vals removed =
    (if new_total (vs_Validators vals) changes \<le> MaxTotalVotingPower
     then Inr (new_total (vs_Validators vals) changes + removed)
     else Inl (Err ErrTotalVotingPowerOverflow))"
proof -
  let ?vs = "vs_Validators vals" and ?us = "sort_key (power_delta vals) (upds changes)"
  have vwf: "validators_wf ?vs" and vdist: "distinct (map val_Address ?vs)"
    using wf by (simp_all add: vset_wf_def validators_wf_def)
  have delta: "power_delta vals u = val_VotingPower u - power_at ?vs (val_Address u)" if "u \<in> set (upds changes)" for u
    using that ok by (intro power_delta_exact vwf) (auto simp: list_all_iff)
  have total: "new_total ?vs changes = power_sum ?vs - removed + (\<Sum>u\<leftarrow>?us. power_delta vals u)"
    unfolding new_total_eq [OF vdist dist] removed_def sum_list_sort_key
    using delta by (intro arg_cong [where f = "\<lambda>x. _ + x"] arg_cong [where f = sum_list] map_cong) auto
  note rem = removed_le_total [OF vwf dist, folded removed_def]
  have start: "wrap64 (power_sum ?vs - removed) = power_sum ?vs - removed" "power_sum ?vs - removed \<le> MaxTotalVotingPower"
    using rem vwf power_sum_nonneg [OF vwf]
    by (auto intro!: wrap64_idI simp: validators_wf_def int_limits MaxTotalVotingPower_eq)
  have "(\<Sum>u\<leftarrow>upds changes. - power_at ?vs (val_Address u)) \<le> (\<Sum>u\<leftarrow>upds changes. min 0 (power_delta vals u))"
    using delta ok power_at_bounds(1) [OF vwf]
    by (intro sum_list_mono) (auto simp: list_all_iff power_ok_def)
  then have low: "0 \<le> (power_sum ?vs - removed) + (\<Sum>u\<leftarrow>?us. min 0 (power_delta vals u))"
    using remaining_power_nonneg [OF vwf dist, folded removed_def]
    by (simp add: sum_list_sort_key uminus_sum_list_map [symmetric, unfolded comp_def])
  have "\<forall>u \<in> set ?us. power_delta vals u \<le> MaxTotalVotingPower"
  proof
    fix u assume "u \<in> set ?us"
    then have u: "u \<in> set (upds changes)" by simp
    then show "power_delta vals u \<le> MaxTotalVotingPower"
      unfolding delta [OF u] using ok power_at_bounds(1) [OF vwf, of "val_Address u"]
      by (auto simp: list_all_iff power_ok_def)
  qed
  then have add: "add_deltas vals (power_sum ?vs - removed) ?us =
      (if new_total ?vs changes \<le> MaxTotalVotingPower then Inr (new_total ?vs changes)
       else Inl (Err ErrTotalVotingPowerOverflow))"
    unfolding total using low start(2) by (intro add_deltas_spec) auto
  have "0 \<le> new_total ?vs changes"
    unfolding new_total_def using new_power_nonneg [OF vwf ok] by (intro sum_nonneg) auto
  then have "wrap64 (new_total ?vs changes + removed) = new_total ?vs changes + removed"
    if "new_total ?vs changes \<le> MaxTotalVotingPower"
    using that rem by (intro wrap64_idI) (auto simp: int_limits MaxTotalVotingPower_eq)
  with add start(1) show ?thesis
    by (simp add: verifyUpdates_def TotalVotingPower_wf [OF wf])
qed

lemma computeNewPriorities_facts:
  shows "map val_Address (computeNewPriorities us vals t) = map val_Address us"
    and "map val_VotingPower (computeNewPriorities us vals t) = map val_VotingPower us"
  by (auto simp: computeNewPriorities_def split: option.splits)

lemma computeNewPriorities_bounded:
  assumes "priorities_bounded vals" "0 \<le> t" "t \<le> 2 * MaxTotalVotingPower"
    and "u \<in> set (computeNewPriorities us vals t)"
  shows "\<bar>val_ProposerPriority u\<bar> \<le> 3 * MaxTotalVotingPower"
proof -
  have d: "drop_bit 3 t = t div 8" by (simp add: drop_bit_eq_div)
  have "0 \<le> t div 8" "t div 8 \<le> t" using assms(2) by auto
  moreover have "t + t div 8 \<le> 3 * MaxTotalVotingPower"
    using assms(3) zdiv_mono1 [OF assms(3), of 8] by (simp add: MaxTotalVotingPower_eq)
  ultimately have "wrap64 (t + drop_bit 3 t) = t + t div 8" "wrap64 (- (t + t div 8)) = - (t + t div 8)"
    using assms(2) by (auto simp: d intro!: wrap64_idI simp: int_limits MaxTotalVotingPower_eq)
  with \<open>t + t div 8 \<le> 3 * MaxTotalVotingPower\<close> \<open>0 \<le> t div 8\<close> assms(1,2,4) show ?thesis
    by (auto simp: computeNewPriorities_def priorities_bounded_def find_Some_iff split: option.splits)
qed

text \<open>The emptiness check of the code: no new validator, and as many removals as members.\<close>

lemma new_total_zero_iff:
  assumes wf: "validators_wf (vs_Validators vals)" and dist: "distinct (map val_Address changes)"
    and ok: "list_all power_ok changes" and sub: "addrs (dels changes) \<subseteq> addrs (vs_Validators vals)"
  shows "numNewValidators (upds changes) vals = 0 \<and> length (vs_Validators vals) = length (dels changes)
    \<longleftrightarrow> new_total (vs_Validators vals) changes = 0"
proof -
  let ?vs = "vs_Validators vals"
  note ud = upds_dels [OF dist]
  have vdist: "distinct (map val_Address ?vs)" using wf by (simp add: validators_wf_def)
  have zero: "new_total ?vs changes = 0 \<longleftrightarrow> (\<forall>a \<in> addrs ?vs \<union> addrs changes. new_power ?vs changes a = 0)"
    unfolding new_total_def using new_power_nonneg [OF wf ok] by (intro sum_nonneg_eq_0_iff) auto
  have lens: "length ?vs = length (dels changes) \<longleftrightarrow> addrs ?vs = addrs (dels changes)"
    using length_addrs [OF vdist] length_addrs [OF by_address_distinct [OF ud(2)]] sub
    by (metis List.finite_set card_subset_eq finite_imageI)
  have new: "numNewValidators (upds changes) vals = 0 \<longleftrightarrow> addrs (upds changes) \<subseteq> addrs ?vs"
    by (auto simp: numNewValidators_def filter_empty_conv)
  show ?thesis
  proof
    assume "numNewValidators (upds changes) vals = 0 \<and> length ?vs = length (dels changes)"
    then have eq: "addrs ?vs = addrs (dels changes)" and us: "addrs (upds changes) \<subseteq> addrs ?vs"
      unfolding lens new by (rule conjunct2, rule conjunct1)
    have ch: "addrs changes = addrs (dels changes)" using ud(3,4) us unfolding eq by blast
    show "new_total ?vs changes = 0"
      unfolding zero
    proof
      fix a assume "a \<in> addrs ?vs \<union> addrs changes"
      then have "a \<in> addrs (dels changes)" "a \<in> addrs changes" unfolding eq ch by simp_all
      then show "new_power ?vs changes a = 0"
        using power_at_dels [OF dist, of a] unfolding new_power_def by presburger
    qed
  next
    assume "new_total ?vs changes = 0"
    then have all: "\<forall>a \<in> addrs ?vs \<union> addrs changes. new_power ?vs changes a = 0"
      unfolding zero .
    have "upds changes = []"
    proof (rule ccontr)
      assume "upds changes \<noteq> []"
      then obtain u where u: "u \<in> set (upds changes)" by (meson last_in_set)
      then have "val_Address u \<in> addrs changes" "val_VotingPower u \<noteq> 0" by auto
      then have "power_at changes (val_Address u) = 0"
        using bspec [OF all, of "val_Address u"] by (simp add: new_power_def)
      then show False using power_at_upds [OF dist u] \<open>val_VotingPower u \<noteq> 0\<close> by simp
    qed
    then have ch: "addrs changes = addrs (dels changes)" using ud(4) by simp
    have "a \<in> addrs changes" if a: "a \<in> addrs ?vs" for a
    proof (rule ccontr)
      assume "a \<notin> addrs changes"
      then have "power_at ?vs a = 0" using bspec [OF all, of a] a by (simp add: new_power_def)
      then show False using power_at_bounds(3) [OF wf a] by simp
    qed
    then have "addrs ?vs = addrs (dels changes)" using ch sub by auto
    then show "numNewValidators (upds changes) vals = 0 \<and> length ?vs = length (dels changes)"
      unfolding lens new using \<open>upds changes = []\<close> by simp
  qed
qed

text \<open>Merging the updates into the members and dropping the removed ones.\<close>

lemma addrs_map_eq: "map val_Address vs = map val_Address ws \<Longrightarrow> addrs vs = addrs ws"
  by (metis set_map)

lemma apply_changes_spec:
  assumes wf: "validators_wf (vs_Validators vals)" and dist: "distinct (map val_Address changes)"
    and sub: "addrs (dels changes) \<subseteq> addrs (vs_Validators vals)"
    and us: "map val_Address us = map val_Address (upds changes)"
  shows "\<exists>r. applyRemovals (dels changes) (applyUpdates us vals) = Inr (vals\<lparr>vs_Validators := r\<rparr>) \<and>
     by_address r \<and> set r = set us \<union> {e \<in> set (vs_Validators vals). val_Address e \<notin> addrs changes}"
proof -
  let ?vs = "vs_Validators vals"
  note ud = upds_dels [OF dist]
  have vdist: "distinct (map val_Address ?vs)" using wf by (simp add: validators_wf_def)
  have by_us: "by_address us" using ud(1) us by simp
  have a_us: "addrs us = addrs (upds changes)" using addrs_map_eq [OF us] .
  let ?m = "merge_updates (ValidatorsByAddress_sort ?vs) us"
  have m: "by_address ?m" "set ?m = set us \<union> {e \<in> set ?vs. val_Address e \<notin> addrs us}"
    using merge_updates_spec [OF by_address_sort [OF vdist] by_us] by simp_all
  have sub_m: "addrs (dels changes) \<subseteq> addrs ?m"
  proof
    fix a assume a: "a \<in> addrs (dels changes)"
    then obtain e where "e \<in> set ?vs" "a = val_Address e" using sub by blast
    moreover have "a \<notin> addrs us" unfolding a_us using a ud(3) by blast
    ultimately show "a \<in> addrs ?m" unfolding m(2) by blast
  qed
  let ?r = "filter (\<lambda>e. val_Address e \<notin> addrs (dels changes)) ?m"
  have rd: "remove_deletes ?m (dels changes) = Inr ?r"
    using remove_deletes_spec [OF m(1) ud(2) sub_m] .
  have "length (dels changes) \<le> length ?m"
    using addrs_sub_length [OF by_address_distinct [OF ud(2)] sub_m] .
  with rd have "applyRemovals (dels changes) (applyUpdates us vals) = Inr (vals\<lparr>vs_Validators := ?r\<rparr>)"
    by (simp add: applyRemovals_def applyUpdates_def)
  moreover have "by_address ?r" using by_address_filter [OF m(1)] .
  moreover have "set ?r = set us \<union> {e \<in> set ?vs. val_Address e \<notin> addrs changes}"
  proof -
    have "val_Address u \<notin> addrs (dels changes)" if "u \<in> set us" for u
      using that a_us ud(3) by (metis disjoint_iff imageI)
    then have "set ?r = set us \<union> {e \<in> set ?vs. val_Address e \<notin> addrs us \<and> val_Address e \<notin> addrs (dels changes)}"
      using m(2) by auto
    then show ?thesis unfolding a_us ud(4) [symmetric] by auto
  qed
  ultimately show ?thesis by blast
qed

lemma changed_list_spec:
  assumes wf: "validators_wf vs" and dist: "distinct (map val_Address changes)"
    and ok: "list_all power_ok changes" and le: "new_total vs changes \<le> MaxTotalVotingPower"
    and us: "map val_Address us = map val_Address (upds changes)" "map val_VotingPower us = map val_VotingPower (upds changes)"
    and r: "by_address r" "set r = set us \<union> {e \<in> set vs. val_Address e \<notin> addrs changes}"
  shows "power_at r = new_power vs changes" "power_sum r = new_total vs changes" "validators_wf r"
proof -
  note ud = upds_dels [OF dist]
  have vdist: "distinct (map val_Address vs)" using wf by (simp add: validators_wf_def)
  have rdist: "distinct (map val_Address r)" using by_address_distinct [OF r(1)] .
  have a_us: "addrs us = addrs (upds changes)" using addrs_map_eq [OF us(1)] .
  have pair: "\<exists>u \<in> set (upds changes). val_Address u = val_Address w \<and> val_VotingPower u = val_VotingPower w"
    if "w \<in> set us" for w
  proof -
    obtain i where "i < length us" "us ! i = w" using \<open>w \<in> set us\<close> by (meson in_set_conv_nth)
    moreover have "length us = length (upds changes)" using us(1) by (rule map_eq_imp_length_eq)
    ultimately show ?thesis
      using nth_map [of i us val_Address] nth_map [of i us val_VotingPower]
      by (metis nth_map nth_mem us)
  qed
  have us_power: "val_VotingPower w = power_at changes (val_Address w)" "0 < val_VotingPower w"
    "val_Address w \<in> addrs changes" if w: "w \<in> set us" for w
  proof -
    obtain u where u: "u \<in> set (upds changes)" "val_Address u = val_Address w" "val_VotingPower u = val_VotingPower w"
      using pair [OF w] by blast
    then show "val_VotingPower w = power_at changes (val_Address w)"
      using power_at_upds [OF dist u(1)] by simp
    show "0 < val_VotingPower w" using u ok by (auto simp: list_all_iff power_ok_def)
    show "val_Address w \<in> addrs changes" using u(1) unfolding u(2) [symmetric] by auto
  qed
  show pw: "power_at r = new_power vs changes"
  proof
    fix a
    show "power_at r a = new_power vs changes a"
    proof (cases "a \<in> addrs r")
      case True
      then obtain w where w: "w \<in> set r" "a = val_Address w" by blast
      then have "power_at r a = val_VotingPower w" using power_at_member [OF rdist w(1)] by simp
      also have "\<dots> = new_power vs changes a"
      proof (cases "w \<in> set us")
        case True
        then show ?thesis using us_power(1,3) [OF True] w(2) by (simp add: new_power_def)
      next
        case False
        then have "w \<in> set vs" "a \<notin> addrs changes" using w r(2) by auto
        then show ?thesis using power_at_member [OF vdist] w(2) by (simp add: new_power_def)
      qed
      finally show ?thesis .
    next
      case False
      then have "a \<notin> addrs us" unfolding r(2) by blast
      then have a: "a \<in> addrs (dels changes) \<or> a \<notin> addrs changes" unfolding a_us ud(4) [symmetric] by blast
      have "a \<in> addrs changes \<or> a \<notin> addrs vs" using False unfolding r(2) by blast
      with a have "new_power vs changes a = 0"
        using power_at_dels [OF dist, of a] power_at_outside [of a vs] unfolding new_power_def by metis
      then show ?thesis using False by simp
    qed
  qed
  have "addrs r \<subseteq> addrs vs \<union> addrs changes" using us_power(3) unfolding r(2) by auto
  then show total: "power_sum r = new_total vs changes"
    using power_sum_power_at [OF rdist, of "addrs vs \<union> addrs changes"] by (simp add: pw new_total_def)
  have "0 < val_VotingPower v" if "v \<in> set r" for v
    using that us_power(2) wf unfolding r(2) validators_wf_def by auto
  then show "validators_wf r" using rdist le total by (simp add: validators_wf_def)
qed

text \<open>The list is finally ordered by decreasing power; none of the facts above depend on the order.\<close>

lemma power_at_set_eq:
  assumes "distinct (map val_Address vs)" "distinct (map val_Address ws)" "set vs = set ws"
  shows "power_at vs = power_at ws"
proof
  fix a
  show "power_at vs a = power_at ws a"
  proof (cases "a \<in> addrs vs")
    case True
    then obtain v where "v \<in> set vs" "val_Address v = a" by blast
    then show ?thesis using power_at_member [OF assms(1)] power_at_member [OF assms(2)] assms(3) by metis
  next
    case False
    then show ?thesis using assms(3) by simp
  qed
qed

lemma power_at_members: "members vs = members ws \<Longrightarrow> power_at vs = power_at ws"
proof -
  have "power_at vs a = (case find (\<lambda>m. fst m = a) (members vs) of Some m \<Rightarrow> snd (snd m) | None \<Rightarrow> 0)" for vs a
    by (induction vs) (auto simp: power_at_def members_def)
  then show "members vs = members ws \<Longrightarrow> power_at vs = power_at ws" by auto
qed

lemma ValidatorsByVotingPower_sort_facts:
  shows "set (ValidatorsByVotingPower_sort vs) = set vs"
    and "length (ValidatorsByVotingPower_sort vs) = length vs"
    and "(\<Sum>v\<leftarrow>ValidatorsByVotingPower_sort vs. (f v :: int)) = (\<Sum>v\<leftarrow>vs. f v)"
    and "distinct (map val_Address (ValidatorsByVotingPower_sort vs)) \<longleftrightarrow> distinct (map val_Address vs)"
proof -
  show "set (ValidatorsByVotingPower_sort vs) = set vs"
    and "length (ValidatorsByVotingPower_sort vs) = length vs"
    and "(\<Sum>v\<leftarrow>ValidatorsByVotingPower_sort vs. (f v :: int)) = (\<Sum>v\<leftarrow>vs. f v)"
    by (simp_all add: ValidatorsByVotingPower_sort_def sum_list_sort_key)
  show "distinct (map val_Address (ValidatorsByVotingPower_sort vs)) \<longleftrightarrow> distinct (map val_Address vs)"
    by (rule mset_eq_imp_distinct_iff) (simp add: ValidatorsByVotingPower_sort_def)
qed

lemma ValidatorsByVotingPower_sort_spec:
  assumes "validators_wf vs"
  shows "power_at (ValidatorsByVotingPower_sort vs) = power_at vs"
    and "validators_wf (ValidatorsByVotingPower_sort vs)"
    and "centred (ValidatorsByVotingPower_sort vs) \<longleftrightarrow> centred vs"
proof -
  note facts = ValidatorsByVotingPower_sort_facts [where vs = vs]
  show "power_at (ValidatorsByVotingPower_sort vs) = power_at vs"
    using assms facts(1,4) by (intro power_at_set_eq) (simp_all add: validators_wf_def)
  show "validators_wf (ValidatorsByVotingPower_sort vs)" "centred (ValidatorsByVotingPower_sort vs) \<longleftrightarrow> centred vs"
    using assms unfolding validators_wf_def centred_def facts by simp_all
qed

subsection \<open>A small set for the examples\<close>

definition demo_changes :: "Validator list" where
  "demo_changes = [demo_val 4 7, demo_val 2 0, demo_val 1 5]"

lemma demo_changes_ne: "demo_changes \<noteq> []" by (simp add: demo_changes_def)

subsection \<open>The whole update\<close>

lemma centred_bounded:
  assumes "validators_wf (vs_Validators vals)" "centred (vs_Validators vals)"
  shows "priorities_bounded vals"
  using assms by (force simp: priorities_bounded_def centred_def validators_wf_def MaxTotalVotingPower_eq)

definition by_power :: "Validator list \<Rightarrow> bool" where
  "by_power vs \<longleftrightarrow> sorted (map (\<lambda>v. (- val_VotingPower v, val_Address v)) vs)"

lemma finish_update:
  assumes wf: "validators_wf (vs_Validators vals)" and ne: "vs_Validators vals \<noteq> []"
    and pb: "priorities_bounded vals"
  shows "\<exists>vals'. and_then (updateTotalVotingPower vals) (\<lambda>vals.
        and_then (TotalVotingPower vals) (\<lambda>(tvp, vals).
        and_then (RescalePriorities (wrap64 (PriorityWindowSizeFactor * tvp)) vals) (\<lambda>vals.
        and_then (shiftByAvgProposerPriority vals) (\<lambda>vals.
          Inr (vals\<lparr>vs_Validators := ValidatorsByVotingPower_sort (vs_Validators vals)\<rparr>))))) = Inr vals' \<and>
     power_at (vs_Validators vals') = power_at (vs_Validators vals) \<and>
     vset_wf vals' \<and> vs_totalVotingPower vals' = power_sum (vs_Validators vals) \<and>
     centred (vs_Validators vals') \<and> by_power (vs_Validators vals')"
proof -
  let ?p = "power_sum (vs_Validators vals)"
  let ?v0 = "vals\<lparr>vs_totalVotingPower := 0\<rparr>" and ?v1 = "vals\<lparr>vs_totalVotingPower := ?p\<rparr>"
  have "vset_wf ?v0" using wf by (simp add: vset_wf_def)
  from TotalVotingPower_wf [OF this] have "updateTotalVotingPower vals = Inr ?v1"
    by (auto simp: TotalVotingPower_def updateTotalVotingPower_def and_then_def split: sum.splits)
  moreover have wf1: "vset_wf ?v1" using wf by (simp add: vset_wf_def)
  then obtain v2 where v2: "centre_priorities ?v1 = Inr v2" "members (vs_Validators v2) = members (vs_Validators vals)"
    "vs_totalVotingPower v2 = ?p" "centred (vs_Validators v2)"
    using centre_priorities_spec [of ?v1] ne pb by (auto simp: priorities_bounded_def)
  let ?v3 = "v2\<lparr>vs_Validators := ValidatorsByVotingPower_sort (vs_Validators v2)\<rparr>"
  have wf2: "validators_wf (vs_Validators v2)" using members_wf [OF v2(2)] wf by simp
  note srt = ValidatorsByVotingPower_sort_spec [OF wf2]
  have "power_sum (ValidatorsByVotingPower_sort (vs_Validators v2)) = ?p"
    using members_power_sum [OF v2(2)] by (simp add: ValidatorsByVotingPower_sort_facts(3))
  then have "vset_wf ?v3" using srt(2) v2(3) by (simp add: vset_wf_def)
  moreover have "by_power (vs_Validators ?v3)"
    by (simp add: by_power_def ValidatorsByVotingPower_sort_def)
  moreover have "and_then (TotalVotingPower ?v1) (\<lambda>(tvp, vals).
        and_then (RescalePriorities (wrap64 (PriorityWindowSizeFactor * tvp)) vals) (\<lambda>vals.
        and_then (shiftByAvgProposerPriority vals) (\<lambda>vals.
          Inr (vals\<lparr>vs_Validators := ValidatorsByVotingPower_sort (vs_Validators vals)\<rparr>)))) = Inr ?v3"
    using v2(1) by (auto simp: centre_priorities_def and_then_def split: sum.splits prod.splits)
  ultimately show ?thesis
    using power_at_members [OF v2(2)] srt(1,3) v2(3,4) by (intro exI [of _ ?v3]) simp
qed

lemma updateWithChangeSet_ok:
  assumes wf: "vset_wf vals" and pb: "priorities_bounded vals" and ne: "changes \<noteq> []"
    and cs: "change_set_ok changes allowDeletes (vs_Validators vals)"
  shows "\<exists>vals'. updateWithChangeSet changes allowDeletes vals = Inr vals' \<and>
     power_at (vs_Validators vals') = new_power (vs_Validators vals) changes \<and>
     vset_wf vals' \<and> vs_totalVotingPower vals' = new_total (vs_Validators vals) changes \<and>
     centred (vs_Validators vals') \<and> by_power (vs_Validators vals')"
proof -
  let ?vs = "vs_Validators vals" and ?t = "new_total (vs_Validators vals) changes"
  let ?rem = "\<Sum>d\<leftarrow>dels changes. power_at ?vs (val_Address d)"
  have vwf: "validators_wf ?vs" using wf by (simp add: vset_wf_def)
  have dist: "distinct (map val_Address changes)" and nil: "[] \<notin> addrs changes" and ok: "list_all power_ok changes"
    and sub: "addrs (dels changes) \<subseteq> addrs ?vs" and tot: "0 < ?t" "?t \<le> MaxTotalVotingPower"
    using cs by (auto simp: change_set_ok_def)
  have del: "allowDeletes \<or> length (dels changes) = 0"
    using cs by (auto simp: change_set_ok_def filter_empty_conv)
  have pc: "processChanges changes = Inr (upds changes, dels changes)"
    using processChanges_spec [of changes] dist nil ok by simp
  have nz: "\<not> (numNewValidators (upds changes) vals = 0 \<and> length ?vs = length (dels changes))"
    unfolding new_total_zero_iff [OF vwf dist ok sub] using tot by simp
  note rem = removed_le_total [OF vwf dist]
  let ?us = "computeNewPriorities (upds changes) vals (?t + ?rem)"
  note us = computeNewPriorities_facts [of "upds changes" vals "?t + ?rem"]
  obtain r where r: "applyRemovals (dels changes) (applyUpdates ?us vals) = Inr (vals\<lparr>vs_Validators := r\<rparr>)"
    "by_address r" "set r = set ?us \<union> {e \<in> set ?vs. val_Address e \<notin> addrs changes}"
    using apply_changes_spec [OF vwf dist sub us(1)] by blast
  note cl = changed_list_spec [OF vwf dist ok tot(2) us r(2,3)]
  have "priorities_bounded (vals\<lparr>vs_Validators := r\<rparr>)"
    using computeNewPriorities_bounded [OF pb, of "?t + ?rem" _ "upds changes"] tot rem pb
    unfolding priorities_bounded_def r(3) by (auto simp: r(3))
  moreover have "r \<noteq> []" using cl(2) tot by auto
  ultimately obtain vals' where fin: "and_then (updateTotalVotingPower (vals\<lparr>vs_Validators := r\<rparr>)) (\<lambda>vals.
        and_then (TotalVotingPower vals) (\<lambda>(tvp, vals).
        and_then (RescalePriorities (wrap64 (PriorityWindowSizeFactor * tvp)) vals) (\<lambda>vals.
        and_then (shiftByAvgProposerPriority vals) (\<lambda>vals.
          Inr (vals\<lparr>vs_Validators := ValidatorsByVotingPower_sort (vs_Validators vals)\<rparr>))))) = Inr vals'"
    "power_at (vs_Validators vals') = power_at r" "vset_wf vals'" "vs_totalVotingPower vals' = power_sum r"
     "centred (vs_Validators vals')" "by_power (vs_Validators vals')"
    using finish_update [of "vals\<lparr>vs_Validators := r\<rparr>"] cl(3) by auto
  have "updateWithChangeSet changes allowDeletes vals = Inr vals'"
    unfolding updateWithChangeSet_def
    using ne del nz pc verifyRemovals_spec [OF vwf dist sub] verifyUpdates_spec [OF wf dist ok] tot r(1) fin(1)
    by (simp add: Let_def)
  then show ?thesis using fin cl by simp
qed

lemma updateWithChangeSet_rejects:
  assumes wf: "vset_wf vals" and ne: "changes \<noteq> []"
    and cs: "\<not> change_set_ok changes allowDeletes (vs_Validators vals)"
  shows "\<exists>e. updateWithChangeSet changes allowDeletes vals = Inl (Err e)"
proof (cases "distinct (map val_Address changes) \<and> [] \<notin> addrs changes \<and> list_all power_ok changes")
  case False
  then show ?thesis using processChanges_spec [of changes] ne by (auto simp: updateWithChangeSet_def)
next
  case True
  let ?vs = "vs_Validators vals"
  have vwf: "validators_wf ?vs" using wf by (simp add: vset_wf_def)
  have dist: "distinct (map val_Address changes)" and ok: "list_all power_ok changes"
    and pc: "processChanges changes = Inr (upds changes, dels changes)"
    using processChanges_spec [of changes] True by simp_all
  show ?thesis
  proof (cases "\<not> allowDeletes \<and> length (dels changes) \<noteq> 0 \<or>
      numNewValidators (upds changes) vals = 0 \<and> length ?vs = length (dels changes)")
    case True
    then show ?thesis using ne pc by (auto simp: updateWithChangeSet_def)
  next
    case cont: False
    show ?thesis
    proof (cases "addrs (dels changes) \<subseteq> addrs ?vs")
      case False
      then show ?thesis
        using ne pc cont removed_power_unknown [OF False, of 0]
        by (auto simp: updateWithChangeSet_def verifyRemovals_def)
    next
      case sub: True
      have "0 \<le> new_total ?vs changes"
        unfolding new_total_def using new_power_nonneg [OF vwf ok] by (intro sum_nonneg) auto
      then have pos: "0 < new_total ?vs changes"
        using cont new_total_zero_iff [OF vwf dist ok sub] by linarith
      have "allowDeletes \<and> val_Address c \<in> addrs ?vs" if "c \<in> set changes" "val_VotingPower c = 0" for c
        using that cont sub by (auto simp: filter_empty_conv)
      then have "\<not> new_total ?vs changes \<le> MaxTotalVotingPower"
        using cs True pos by (auto simp: change_set_ok_def)
      then show ?thesis
        using ne pc cont verifyRemovals_spec [OF vwf dist sub] verifyUpdates_spec [OF wf dist ok]
        by (simp add: updateWithChangeSet_def)
    qed
  qed
qed

text \<open>
  C15: An update refines the power map. \<^verbatim>\<open>updateWithChangeSet\<close> on a well-formed set accepts
  a non-empty change set exactly when addresses are distinct and non-empty, powers are in range,
  removals are allowed and name members, and the resulting total power is positive and at most
  \<^verbatim>\<open>MaxTotalVotingPower\<close>. An accepted change set overrides the power map by the changes
  (power 0 removes); the cached total is the new total, priorities are centred and the list is
  ordered by decreasing power and address. A rejected one is an error value and never a panic.
\<close>

theorem updateWithChangeSet_refines:
  assumes "vset_wf vals" "priorities_bounded vals" "changes \<noteq> []"
  shows "case updateWithChangeSet changes allowDeletes vals of
     Inr vals' \<Rightarrow> change_set_ok changes allowDeletes (vs_Validators vals) \<and>
       power_at (vs_Validators vals') = new_power (vs_Validators vals) changes \<and>
       vset_wf vals' \<and> vs_totalVotingPower vals' = new_total (vs_Validators vals) changes \<and>
       centred (vs_Validators vals') \<and> by_power (vs_Validators vals')
   | Inl f \<Rightarrow> \<not> change_set_ok changes allowDeletes (vs_Validators vals) \<and> (\<exists>e. f = Err e)"
proof (cases "change_set_ok changes allowDeletes (vs_Validators vals)")
  case True
  then show ?thesis using updateWithChangeSet_ok [OF assms True] by auto
next
  case False
  then show ?thesis using updateWithChangeSet_rejects [OF assms(1,3) False] by auto
qed

theorem updateWithChangeSet_refines_witness:
  "vset_wf demo_vals \<and> priorities_bounded demo_vals \<and> demo_changes \<noteq> [] \<and>
   (\<exists>vals'. updateWithChangeSet demo_changes True demo_vals = Inr vals' \<and>
      map (power_at (vs_Validators vals')) [[1], [2], [3], [4]] = [5, 0, 30, 7] \<and>
      vs_totalVotingPower vals' = 42) \<and>
   (\<exists>e. updateWithChangeSet demo_changes False demo_vals = Inl (Err e))"
proof -
  note t = updateWithChangeSet_refines [OF demo_vals_ok demo_changes_ne]
  have "change_set_ok demo_changes True (vs_Validators demo_vals)"
    "\<not> change_set_ok demo_changes False (vs_Validators demo_vals)"
    by (auto simp: change_set_ok_def demo_changes_def demo_vals_def demo_val_def power_ok_def
        MaxTotalVotingPower_eq new_total_def new_power_def power_at_def insert_commute)
  moreover have "map (new_power (vs_Validators demo_vals) demo_changes) [[1], [2], [3], [4]] = [5, 0, 30, 7]"
    "new_total (vs_Validators demo_vals) demo_changes = 42"
    by (simp_all add: demo_changes_def demo_vals_def demo_val_def new_total_def new_power_def power_at_def
        insert_commute)
  ultimately show ?thesis
    using t [of True] t [of False] demo_vals_ok demo_changes_ne by (auto split: sum.splits)
qed

text \<open>A fresh set: the change set is applied to the empty set, with no removals.\<close>

abbreviation no_validators :: ValidatorSet where
  "no_validators \<equiv> \<lparr>vs_Validators = [], vs_Proposer = None, vs_totalVotingPower = 0\<rparr>"

lemma no_validators_ok: "vset_wf no_validators" "priorities_bounded no_validators"
  by (simp_all add: vset_wf_def validators_wf_def priorities_bounded_def MaxTotalVotingPower_eq)

lemma new_power_fresh: "new_power [] changes = power_at changes"
  by (auto simp: new_power_def fun_eq_iff)

definition increment_outcome :: "ValidatorSet \<Rightarrow> ValidatorSet \<Rightarrow> bool" where
  "increment_outcome vals vals' \<longleftrightarrow> vset_wf vals' \<and> priorities_bounded vals' \<and>
     members (vs_Validators vals') = members (vs_Validators vals) \<and>
     (\<exists>p \<in> set (vs_Validators vals'). vs_Proposer vals' = Some p)"

lemma NewValidatorSet_outcome:
  "if valz = [] then NewValidatorSet valz = Inr no_validators
   else if change_set_ok valz False []
   then \<exists>vals. NewValidatorSet valz = Inr vals \<and> vset_wf vals \<and> priorities_bounded vals \<and>
     power_at (vs_Validators vals) = power_at valz \<and> by_power (vs_Validators vals) \<and>
     (\<exists>p \<in> set (vs_Validators vals). vs_Proposer vals = Some p)
   else \<exists>s. NewValidatorSet valz = Inl (Panic s)"
proof (cases "valz = []")
  case True
  then show ?thesis by (simp add: NewValidatorSet_def updateWithChangeSet_def)
next
  case ne: False
  show ?thesis
  proof (cases "change_set_ok valz False []")
    case True
    obtain v1 where v1: "updateWithChangeSet valz False no_validators = Inr v1"
      "power_at (vs_Validators v1) = power_at valz" "vset_wf v1"
      "vs_totalVotingPower v1 = new_total [] valz" "centred (vs_Validators v1)" "by_power (vs_Validators v1)"
      using updateWithChangeSet_ok [OF no_validators_ok ne, of False] True by (auto simp: new_power_fresh)
    have wf1: "validators_wf (vs_Validators v1)" using v1(3) by (simp add: vset_wf_def)
    have "power_sum (vs_Validators v1) \<noteq> 0"
      using v1(3,4) True by (auto simp: vset_wf_def change_set_ok_def)
    then have "vs_Validators v1 \<noteq> []" by auto
    then obtain v2 where v2: "IncrementProposerPriority 1 v1 = Inr v2" "vset_wf v2" "priorities_bounded v2"
      "members (vs_Validators v2) = members (vs_Validators v1)" "\<exists>p \<in> set (vs_Validators v2). vs_Proposer v2 = Some p"
      using IncrementProposerPriority_one [OF v1(3) _ centred_bounded [OF wf1 v1(5)]] by blast
    have key: "map (\<lambda>v. (- val_VotingPower v, val_Address v)) vs = map (\<lambda>m. (- snd (snd m), fst m)) (members vs)" for vs
      by (simp add: members_def comp_def)
    have "by_power (vs_Validators v2)" using v1(6) unfolding by_power_def key v2(4) .
    moreover have "power_at (vs_Validators v2) = power_at valz" using power_at_members [OF v2(4)] v1(2) by simp
    moreover have "NewValidatorSet valz = Inr v2" using v1(1) v2(1) ne by (simp add: NewValidatorSet_def)
    ultimately show ?thesis using v2 ne True by auto
  next
    case False
    then obtain e where "updateWithChangeSet valz False no_validators = Inl (Err e)"
      using updateWithChangeSet_rejects [OF no_validators_ok(1) ne, of False] by auto
    then show ?thesis using False ne by (simp add: NewValidatorSet_def)
  qed
qed

text \<open>
  C20: \<^verbatim>\<open>NewValidatorSet\<close> panics exactly on an invalid non-empty list; otherwise the set it
  returns is well formed, holds exactly the given powers in the order of decreasing power, has
  bounded priorities and already has one of its members as proposer.
\<close>

theorem NewValidatorSet_spec:
  "if valz = [] then NewValidatorSet valz = Inr no_validators
   else if change_set_ok valz False []
   then \<exists>vals. NewValidatorSet valz = Inr vals \<and> vset_wf vals \<and> priorities_bounded vals \<and>
     power_at (vs_Validators vals) = power_at valz \<and> by_power (vs_Validators vals) \<and>
     (\<exists>p \<in> set (vs_Validators vals). vs_Proposer vals = Some p)
   else \<exists>s. NewValidatorSet valz = Inl (Panic s)"
  by (rule NewValidatorSet_outcome)

subsection \<open>Histories of a validator set\<close>

inductive vset_reachable :: "ValidatorSet \<Rightarrow> bool" where
  fresh: "NewValidatorSet valz = Inr vals \<Longrightarrow> vset_reachable vals"
| update: "vset_reachable vals \<Longrightarrow> UpdateWithChangeSet changes vals = Inr vals' \<Longrightarrow> vset_reachable vals'"
| rotate: "vset_reachable vals \<Longrightarrow> IncrementProposerPriority 1 vals = Inr vals' \<Longrightarrow> vset_reachable vals'"

lemma update_keeps_invariant:
  assumes "vset_wf vals" "priorities_bounded vals" "UpdateWithChangeSet changes vals = Inr vals'"
  shows "vset_wf vals' \<and> priorities_bounded vals'"
proof (cases "changes = []")
  case True
  then show ?thesis using assms by (simp add: UpdateWithChangeSet_def updateWithChangeSet_def)
next
  case ne: False
  then have "change_set_ok changes True (vs_Validators vals)"
    using updateWithChangeSet_rejects [OF assms(1) ne, of True] assms(3) by (auto simp: UpdateWithChangeSet_def)
  then show ?thesis
    using updateWithChangeSet_ok [OF assms(1,2) ne, of True] assms(3) centred_bounded [of vals']
    by (auto simp: UpdateWithChangeSet_def vset_wf_def)
qed

lemma vset_reachable_inv: "vset_reachable vals \<Longrightarrow> vset_wf vals \<and> priorities_bounded vals"
proof (induction rule: vset_reachable.induct)
  case (fresh valz vals)
  then show ?case using NewValidatorSet_outcome [of valz] no_validators_ok by (auto split: if_splits)
next
  case (update vals changes vals')
  then show ?case using update_keeps_invariant by blast
next
  case (rotate vals vals')
  then have "vs_Validators vals \<noteq> []" by (auto simp: IncrementProposerPriority_def IsNilOrEmpty_def)
  then show ?case using IncrementProposerPriority_one [of vals] rotate by auto
qed

text \<open>
  C16: Every validator set that the program can build from \<^verbatim>\<open>NewValidatorSet\<close> by updates and
  single increments is well formed with bounded priorities. On such a set no change set
  makes \<^verbatim>\<open>UpdateWithChangeSet\<close> panic, and, unless it is empty, the next increment succeeds
  and chooses one of its members.
\<close>

theorem vset_reachable_safe:
  assumes "vset_reachable vals"
  shows "vset_wf vals \<and> priorities_bounded vals \<and>
    (\<forall>changes s. UpdateWithChangeSet changes vals \<noteq> Inl (Panic s)) \<and>
    (vs_Validators vals \<noteq> [] \<longrightarrow> (\<exists>vals'. IncrementProposerPriority 1 vals = Inr vals' \<and> increment_outcome vals vals'))"
proof -
  have inv: "vset_wf vals" "priorities_bounded vals" using vset_reachable_inv [OF assms] by auto
  have "UpdateWithChangeSet changes vals \<noteq> Inl (Panic s)" for changes s
    using updateWithChangeSet_ok [OF inv, of changes True] updateWithChangeSet_rejects [OF inv(1), of changes True]
    by (cases "changes = []"; cases "change_set_ok changes True (vs_Validators vals)")
      (auto simp: UpdateWithChangeSet_def updateWithChangeSet_def)
  then show ?thesis using inv IncrementProposerPriority_one [OF inv(1) _ inv(2)] by (auto simp: increment_outcome_def)
qed

theorem vset_reachable_safe_witness:
  "\<exists>vals. NewValidatorSet (vs_Validators demo_vals) = Inr vals \<and> vset_reachable vals \<and>
     vset_wf vals \<and> power_at (vs_Validators vals) [3] = 30 \<and>
     (\<exists>vals'. IncrementProposerPriority 1 vals = Inr vals' \<and> increment_outcome vals vals')"
proof -
  have "change_set_ok (vs_Validators demo_vals) False []" "vs_Validators demo_vals \<noteq> []"
    "power_at (vs_Validators demo_vals) [3] = 30"
    by (auto simp: change_set_ok_def demo_vals_def demo_val_def power_ok_def
        MaxTotalVotingPower_eq new_total_def new_power_def power_at_def)
  then obtain vals where vals: "NewValidatorSet (vs_Validators demo_vals) = Inr vals"
    "power_at (vs_Validators vals) [3] = 30"
    using NewValidatorSet_outcome [of "vs_Validators demo_vals"] by auto
  then have r: "vset_reachable vals" by (auto intro: vset_reachable.fresh)
  have "vs_Validators vals \<noteq> []" using vals(2) by (auto simp: power_at_def)
  with vset_reachable_safe [OF r] vals r show ?thesis by blast
qed

end
