(* ===== verification/Commit_Verify.thy ===== *)
theory Commit_Verify
  imports Block_Types Validator_Updates
begin

text \<open>
  Verification of commits against a validator set: \<^verbatim>\<open>VerifyCommit\<close>, \<^verbatim>\<open>VerifyCommitLight\<close> and
  \<^verbatim>\<open>VerifyCommitLightTrusting\<close> of \<^verbatim>\<open>types/validator_set.go\<close>. The total power that these functions may
  cache in the set is not returned: by \<open>TotalVotingPower_wf\<close> the cache never changes an answer. The
  main results are the exact acceptance condition, that the light verification accepts whatever the full
  one accepts, and that two commits for different blocks at one height convict more than a third of the
  voting power.
\<close>

section \<open>Operations\<close>

datatype commit_error =
    ErrInvalidCommitSignatures nat nat
  | ErrInvalidCommitHeight int64 int64
  | ErrWrongCommitBlockID
  | ErrWrongSignature nat
  | ErrNotEnoughVotingPowerSigned int64 int64
  | ErrZeroDenominator
  | ErrTrustLevelOverflow
  | ErrDoubleVote nat nat

text \<open>
  The check of one signature: a nil key panics, and so do sign bytes that cannot be built.
\<close>

definition verify_sig :: "crypto \<Rightarrow> bytes \<Rightarrow> Commit \<Rightarrow> Validator \<Rightarrow> nat \<Rightarrow> CommitSig \<Rightarrow> (commit_error, unit) result" where
  "verify_sig cr chainID commit val idx commitSig =
     and_then (lift_fault (\<lambda>_. ErrWrongSignature idx) (Commit_VoteSignBytes cr commit chainID (wrap32 (int idx)))) (\<lambda>voteSignBytes.
       case val_PubKey val of
         None \<Rightarrow> Inl (Panic ''nil pointer dereference'')
       | Some pk \<Rightarrow>
           if \<not> cr_VerifyBytes cr pk voteSignBytes (cs_Signature commitSig) then Inl (Err (ErrWrongSignature idx)) else Inr ())"

fun tally_all :: "crypto \<Rightarrow> bytes \<Rightarrow> Commit \<Rightarrow> ValidatorSet \<Rightarrow> nat \<Rightarrow> int64 \<Rightarrow> CommitSig list \<Rightarrow> (commit_error, int64) result" where
  "tally_all cr chainID commit vals idx tallied [] = Inr tallied"
| "tally_all cr chainID commit vals idx tallied (commitSig # rest) =
     (if Absent commitSig then tally_all cr chainID commit vals (Suc idx) tallied rest
      else if length (vs_Validators vals) \<le> idx then Inl (Panic ''index out of range'')
      else let val = vs_Validators vals ! idx in
        and_then (verify_sig cr chainID commit val idx commitSig) (\<lambda>_.
          tally_all cr chainID commit vals (Suc idx)
            (if ForBlock commitSig then wrap64 (tallied + val_VotingPower val) else tallied) rest))"

definition check_commit :: "ValidatorSet \<Rightarrow> BlockID \<Rightarrow> int64 \<Rightarrow> Commit \<Rightarrow> (commit_error, unit) result" where
  "check_commit vals blockID height commit =
     (if ValidatorSet_Size vals \<noteq> length (c_Signatures commit)
      then Inl (Err (ErrInvalidCommitSignatures (ValidatorSet_Size vals) (length (c_Signatures commit))))
      else if height \<noteq> c_Height commit then Inl (Err (ErrInvalidCommitHeight height (c_Height commit)))
      else if \<not> BlockID_Equals blockID (c_BlockID commit) then Inl (Err ErrWrongCommitBlockID)
      else Inr ())"

definition total_power :: "ValidatorSet \<Rightarrow> (commit_error, int64) result" where
  "total_power vals = (case TotalVotingPower vals of Inl _ \<Rightarrow> Inl (Panic ''Total voting power'') | Inr (p, _) \<Rightarrow> Inr p)"

definition VerifyCommit :: "crypto \<Rightarrow> bytes \<Rightarrow> BlockID \<Rightarrow> int64 \<Rightarrow> Commit \<Rightarrow> ValidatorSet \<Rightarrow> (commit_error, unit) result" where
  "VerifyCommit cr chainID blockID height commit vals =
     and_then (check_commit vals blockID height commit) (\<lambda>_.
     and_then (total_power vals) (\<lambda>tvp.
       let votingPowerNeeded = wrap64 (tvp * 2) sdiv 3 in
       and_then (tally_all cr chainID commit vals 0 0 (c_Signatures commit)) (\<lambda>got.
         if got \<le> votingPowerNeeded then Inl (Err (ErrNotEnoughVotingPowerSigned got votingPowerNeeded)) else Inr ())))"

fun tally_light :: "crypto \<Rightarrow> bytes \<Rightarrow> Commit \<Rightarrow> ValidatorSet \<Rightarrow> int64 \<Rightarrow> nat \<Rightarrow> int64 \<Rightarrow> CommitSig list \<Rightarrow> (commit_error, unit) result" where
  "tally_light cr chainID commit vals needed idx tallied [] = Inl (Err (ErrNotEnoughVotingPowerSigned tallied needed))"
| "tally_light cr chainID commit vals needed idx tallied (commitSig # rest) =
     (if \<not> ForBlock commitSig then tally_light cr chainID commit vals needed (Suc idx) tallied rest
      else if length (vs_Validators vals) \<le> idx then Inl (Panic ''index out of range'')
      else let val = vs_Validators vals ! idx in
        and_then (verify_sig cr chainID commit val idx commitSig) (\<lambda>_.
          let tallied' = wrap64 (tallied + val_VotingPower val)
          in if tallied' > needed then Inr ()
             else tally_light cr chainID commit vals needed (Suc idx) tallied' rest))"

definition VerifyCommitLight :: "crypto \<Rightarrow> bytes \<Rightarrow> BlockID \<Rightarrow> int64 \<Rightarrow> Commit \<Rightarrow> ValidatorSet \<Rightarrow> (commit_error, unit) result" where
  "VerifyCommitLight cr chainID blockID height commit vals =
     and_then (check_commit vals blockID height commit) (\<lambda>_.
     and_then (total_power vals) (\<lambda>tvp.
       tally_light cr chainID commit vals (wrap64 (tvp * 2) sdiv 3) 0 0 (c_Signatures commit)))"

text \<open>\<open>seenVals\<close> maps the index of a validator to the index of its signature in the commit.\<close>

fun tally_trusting :: "crypto \<Rightarrow> bytes \<Rightarrow> Commit \<Rightarrow> ValidatorSet \<Rightarrow> int64 \<Rightarrow> (int32 \<rightharpoonup> nat) \<Rightarrow> nat \<Rightarrow> int64 \<Rightarrow> CommitSig list \<Rightarrow>
    (commit_error, unit) result" where
  "tally_trusting cr chainID commit vals needed seenVals idx tallied [] = Inl (Err (ErrNotEnoughVotingPowerSigned tallied needed))"
| "tally_trusting cr chainID commit vals needed seenVals idx tallied (commitSig # rest) =
     (if \<not> ForBlock commitSig then tally_trusting cr chainID commit vals needed seenVals (Suc idx) tallied rest
      else case GetByAddress (cs_ValidatorAddress commitSig) vals of
        (_, None) \<Rightarrow> tally_trusting cr chainID commit vals needed seenVals (Suc idx) tallied rest
      | (valIdx, Some val) \<Rightarrow>
          (case seenVals valIdx of
             Some firstIndex \<Rightarrow> Inl (Err (ErrDoubleVote firstIndex idx))
           | None \<Rightarrow>
               and_then (verify_sig cr chainID commit val idx commitSig) (\<lambda>_.
                 let tallied' = wrap64 (tallied + val_VotingPower val)
                 in if tallied' > needed then Inr ()
                    else tally_trusting cr chainID commit vals needed (seenVals(valIdx \<mapsto> idx)) (Suc idx) tallied' rest)))"

definition VerifyCommitLightTrusting :: "crypto \<Rightarrow> bytes \<Rightarrow> Commit \<Rightarrow> Fraction \<Rightarrow> ValidatorSet \<Rightarrow> (commit_error, unit) result" where
  "VerifyCommitLightTrusting cr chainID commit trustLevel vals =
     (if fr_Denominator trustLevel = 0 then Inl (Err ErrZeroDenominator)
      else and_then (total_power vals) (\<lambda>tvp.
        let (mul, overflow) = safeMul tvp (fr_Numerator trustLevel) in
        if overflow then Inl (Err ErrTrustLevelOverflow)
        else tally_trusting cr chainID commit vals (wrap64 (mul sdiv fr_Denominator trustLevel)) Map.empty 0 0 (c_Signatures commit)))"

section \<open>Weighted quorums\<close>

text \<open>
  What quorum arguments need of a set of voters: finitely many, each with a positive weight. The
  well-formed validator sets are such voters.
\<close>

locale weighted_voters =
  fixes wf :: "'s \<Rightarrow> bool" and voters :: "'s \<Rightarrow> nat" and weight :: "'s \<Rightarrow> nat \<Rightarrow> int"
  assumes weight_pos: "wf s \<Longrightarrow> i < voters s \<Longrightarrow> 0 < weight s i"
begin

lemma weight_mono:
  assumes "wf s" "b \<subseteq> {..<voters s}" "a \<subseteq> b"
  shows "(\<Sum>i\<in>a. weight s i) \<le> (\<Sum>i\<in>b. weight s i)"
  using assms finite_subset [OF assms(2)] by (intro sum_mono2) (auto dest!: weight_pos subsetD intro: less_imp_le)

lemma weight_nonneg: "wf s \<Longrightarrow> a \<subseteq> {..<voters s} \<Longrightarrow> 0 \<le> (\<Sum>i\<in>a. weight s i)"
  using weight_mono [of s a "{}"] by simp

lemma quorum_overlap:
  assumes "wf s" "a \<subseteq> {..<voters s}" "b \<subseteq> {..<voters s}"
    and "2 * (\<Sum>i<voters s. weight s i) < 3 * (\<Sum>i\<in>a. weight s i)"
    and "2 * (\<Sum>i<voters s. weight s i) < 3 * (\<Sum>i\<in>b. weight s i)"
  shows "(\<Sum>i<voters s. weight s i) < 3 * (\<Sum>i\<in>a \<inter> b. weight s i)"
proof -
  have fin: "finite a" "finite b" using assms(2,3) finite_subset by blast+
  have "(\<Sum>i\<in>a \<union> b. weight s i) + (\<Sum>i\<in>a \<inter> b. weight s i) = (\<Sum>i\<in>a. weight s i) + (\<Sum>i\<in>b. weight s i)"
    using sum.union_inter [OF fin] .
  moreover have "(\<Sum>i\<in>a \<union> b. weight s i) \<le> (\<Sum>i<voters s. weight s i)"
    using assms(1-3) by (intro weight_mono) auto
  ultimately show ?thesis using assms(4,5) by linarith
qed

end

definition power_of :: "ValidatorSet \<Rightarrow> nat \<Rightarrow> int" where
  "power_of vals i = val_VotingPower (vs_Validators vals ! i)"

interpretation voters: weighted_voters vset_wf ValidatorSet_Size power_of
  by unfold_locales (auto simp: vset_wf_def validators_wf_def ValidatorSet_Size_def power_of_def)

section \<open>What the tallies compute\<close>

text \<open>The key of \<open>val\<close> verifies the signature at position \<open>idx\<close> of the commit.\<close>

definition signed_by :: "crypto \<Rightarrow> bytes \<Rightarrow> Commit \<Rightarrow> Validator \<Rightarrow> nat \<Rightarrow> bool" where
  "signed_by cr chainID commit val idx \<longleftrightarrow>
     (\<exists>pk b. val_PubKey val = Some pk \<and> Commit_VoteSignBytes cr commit chainID (wrap32 (int idx)) = Inr b \<and>
        cr_VerifyBytes cr pk b (cs_Signature (c_Signatures commit ! idx)))"

lemma verify_sig_ok:
  "verify_sig cr chainID commit val idx (c_Signatures commit ! idx) = Inr () \<longleftrightarrow> signed_by cr chainID commit val idx"
  by (auto simp: verify_sig_def signed_by_def and_then_Inr_iff split: option.splits)

text \<open>The positions of a commit whose signature is for the block, from \<open>a\<close> up to \<open>b\<close>.\<close>

definition for_block :: "Commit \<Rightarrow> nat \<Rightarrow> nat \<Rightarrow> nat set" where
  "for_block commit a b = {i \<in> {a..<b}. ForBlock (c_Signatures commit ! i)}"

abbreviation power_in :: "ValidatorSet \<Rightarrow> nat set \<Rightarrow> int" where
  "power_in vals a \<equiv> \<Sum>i\<in>a. power_of vals i"

abbreviation all_power :: "ValidatorSet \<Rightarrow> int" where
  "all_power vals \<equiv> power_sum (vs_Validators vals)"

lemma for_block_finite [simp]: "finite (for_block commit a b)"
  by (simp add: for_block_def)

lemma for_block_empty [simp]: "for_block commit a a = {}"
  by (simp add: for_block_def)

lemma for_block_first:
  "a < b \<Longrightarrow> for_block commit a b =
     (if ForBlock (c_Signatures commit ! a) then insert a (for_block commit (Suc a) b) else for_block commit (Suc a) b)"
  by (auto simp: for_block_def Suc_le_eq less_le)

lemma for_block_mono: "b \<le> b' \<Longrightarrow> for_block commit a b \<subseteq> for_block commit a b'"
  by (auto simp: for_block_def)

lemma power_in_first:
  "a < b \<Longrightarrow> power_in vals (for_block commit a b) =
     (if ForBlock (c_Signatures commit ! a) then power_of vals a else 0) + power_in vals (for_block commit (Suc a) b)"
  by (subst for_block_first) (auto simp: for_block_def)

lemma all_power_sum: "all_power vals = (\<Sum>i<ValidatorSet_Size vals. power_of vals i)"
  by (simp add: power_of_def ValidatorSet_Size_def sum_list_sum_nth atLeast0LessThan)

lemma all_power_bounds: "vset_wf vals \<Longrightarrow> 0 \<le> all_power vals \<and> all_power vals \<le> MaxTotalVotingPower"
  using power_sum_nonneg by (auto simp: vset_wf_def validators_wf_def)

lemma power_in_le: "vset_wf vals \<Longrightarrow> a \<subseteq> {..<ValidatorSet_Size vals} \<Longrightarrow> 0 \<le> power_in vals a \<and> power_in vals a \<le> all_power vals"
  using voters.weight_nonneg [of vals a] voters.weight_mono [of vals "{..<ValidatorSet_Size vals}" a] all_power_sum [of vals] by auto

text \<open>A tally that counts each position at most once stays in the range of the integers.\<close>

lemma tally_step:
  assumes "vset_wf vals" "idx < ValidatorSet_Size vals" "0 \<le> tallied" "tallied \<le> power_in vals {..<idx}"
  shows "wrap64 (tallied + power_of vals idx) = tallied + power_of vals idx"
    "0 \<le> tallied + power_of vals idx" "tallied + power_of vals idx \<le> power_in vals {..<Suc idx}"
proof -
  have "power_in vals {..<Suc idx} \<le> all_power vals" using assms(2) by (intro conjunct2 [OF power_in_le [OF assms(1)]]) auto
  moreover show "tallied + power_of vals idx \<le> power_in vals {..<Suc idx}" using assms(4) by simp
  moreover show "0 \<le> tallied + power_of vals idx" using assms(3) voters.weight_pos [OF assms(1,2)] by simp
  ultimately show "wrap64 (tallied + power_of vals idx) = tallied + power_of vals idx"
    using all_power_bounds [OF assms(1)] by (intro wrap64_idI) (simp_all add: int_limits MaxTotalVotingPower_eq)
qed

lemma tally_all_exact:
  assumes "vset_wf vals" "length (c_Signatures commit) = ValidatorSet_Size vals" "idx \<le> ValidatorSet_Size vals"
    and "0 \<le> tallied" "tallied \<le> power_in vals {..<idx}"
  shows "tally_all cr chainID commit vals idx tallied (drop idx (c_Signatures commit)) = Inr got \<longleftrightarrow>
    (\<forall>i. idx \<le> i \<and> i < ValidatorSet_Size vals \<and> \<not> Absent (c_Signatures commit ! i) \<longrightarrow> signed_by cr chainID commit (vs_Validators vals ! i) i) \<and>
    got = tallied + power_in vals (for_block commit idx (ValidatorSet_Size vals))"
  using assms(3-5)
proof (induction "ValidatorSet_Size vals - idx" arbitrary: idx tallied)
  case 0
  with assms(2) show ?case by auto
next
  case (Suc k)
  then have lt: "idx < ValidatorSet_Size vals" by simp
  then have d: "drop idx (c_Signatures commit) = c_Signatures commit ! idx # drop (Suc idx) (c_Signatures commit)"
    using assms(2) by (simp add: Cons_nth_drop_Suc)
  have split: "(\<forall>i. idx \<le> i \<and> i < ValidatorSet_Size vals \<and> Q i \<longrightarrow> R i) \<longleftrightarrow> (Q idx \<longrightarrow> R idx) \<and>
      (\<forall>i. Suc idx \<le> i \<and> i < ValidatorSet_Size vals \<and> Q i \<longrightarrow> R i)" for Q R
    using lt by (metis Suc_leD Suc_leI le_neq_implies_less order_refl)
  have pos: "0 < power_of vals idx" using voters.weight_pos [OF assms(1) lt] .
  let ?t = "if ForBlock (c_Signatures commit ! idx) then tallied + power_of vals idx else tallied"
  have IH: "tally_all cr chainID commit vals (Suc idx) ?t (drop (Suc idx) (c_Signatures commit)) = Inr got \<longleftrightarrow>
    (\<forall>i. Suc idx \<le> i \<and> i < ValidatorSet_Size vals \<and> \<not> Absent (c_Signatures commit ! i) \<longrightarrow> signed_by cr chainID commit (vs_Validators vals ! i) i) \<and>
    got = ?t + power_in vals (for_block commit (Suc idx) (ValidatorSet_Size vals))"
    using Suc lt tally_step(2,3) [OF assms(1) lt Suc.prems(2,3)] pos by (intro Suc.hyps(1)) auto
  have w: "wrap64 (tallied + val_VotingPower (vs_Validators vals ! idx)) = tallied + power_of vals idx"
    using tally_step(1) [OF assms(1) lt Suc.prems(2,3)] by (simp add: power_of_def)
  have lt': "\<not> length (vs_Validators vals) \<le> idx" using lt by (simp add: ValidatorSet_Size_def)
  show ?case
  proof (cases "Absent (c_Signatures commit ! idx)")
    case True
    then have "\<not> ForBlock (c_Signatures commit ! idx)" by (simp add: Absent_def ForBlock_def block_id_flags)
    with True IH show ?thesis unfolding d split power_in_first [OF lt] by simp
  next
    case False
    with IH w lt' show ?thesis
      unfolding d split power_in_first [OF lt]
      by (auto simp: Let_def and_then_Inr_iff verify_sig_ok add.assoc)
  qed
qed

lemma tally_light_exact:
  assumes "vset_wf vals" "length (c_Signatures commit) = ValidatorSet_Size vals" "idx \<le> ValidatorSet_Size vals"
    and "0 \<le> tallied" "tallied \<le> power_in vals {..<idx}" "tallied \<le> needed"
  shows "tally_light cr chainID commit vals needed idx tallied (drop idx (c_Signatures commit)) = Inr () \<longleftrightarrow>
    (\<exists>m \<le> ValidatorSet_Size vals. (\<forall>i \<in> for_block commit idx m. signed_by cr chainID commit (vs_Validators vals ! i) i) \<and>
      needed < tallied + power_in vals (for_block commit idx m))"
  using assms(3-6)
proof (induction "ValidatorSet_Size vals - idx" arbitrary: idx tallied)
  case 0
  then have "for_block commit idx m = {}" if "m \<le> ValidatorSet_Size vals" for m
    using that by (auto simp: for_block_def)
  with 0 assms(2) show ?case by fastforce
next
  case (Suc k)
  then have lt: "idx < ValidatorSet_Size vals" by simp
  then have d: "drop idx (c_Signatures commit) = c_Signatures commit ! idx # drop (Suc idx) (c_Signatures commit)"
    using assms(2) by (simp add: Cons_nth_drop_Suc)
  have w: "wrap64 (tallied + val_VotingPower (vs_Validators vals ! idx)) = tallied + power_of vals idx"
    using tally_step(1) [OF assms(1) lt Suc.prems(2,3)] by (simp add: power_of_def)
  have lt': "\<not> length (vs_Validators vals) \<le> idx" using lt by (simp add: ValidatorSet_Size_def)
  have pos: "0 < power_of vals idx" using voters.weight_pos [OF assms(1) lt] .
  have later: "(\<exists>m \<le> ValidatorSet_Size vals. (\<forall>i \<in> for_block commit idx m. P i) \<and> needed < tallied + power_in vals (for_block commit idx m)) \<longleftrightarrow>
     (\<exists>m \<le> ValidatorSet_Size vals. idx < m \<and> (\<forall>i \<in> for_block commit idx m. P i) \<and> needed < tallied + power_in vals (for_block commit idx m))" for P
  proof -
    have "idx < m" if "needed < tallied + power_in vals (for_block commit idx m)" for m
      using that Suc.prems(4) by (cases "idx < m") (auto simp: for_block_def)
    then show ?thesis by blast
  qed
  show ?case
  proof (cases "ForBlock (c_Signatures commit ! idx)")
    case False
    have "tallied \<le> power_in vals {..<Suc idx}" using Suc.prems(3) pos by simp
    then have IH: "tally_light cr chainID commit vals needed (Suc idx) tallied (drop (Suc idx) (c_Signatures commit)) = Inr () \<longleftrightarrow>
       (\<exists>m \<le> ValidatorSet_Size vals. (\<forall>i \<in> for_block commit (Suc idx) m. signed_by cr chainID commit (vs_Validators vals ! i) i) \<and>
         needed < tallied + power_in vals (for_block commit (Suc idx) m))"
      using Suc lt by (intro Suc.hyps(1)) auto
    have "for_block commit (Suc idx) m = for_block commit idx m" for m
      using False by (auto simp: for_block_def Suc_le_eq less_le)
    with IH False show ?thesis unfolding d by simp
  next
    case True
    have eq: "for_block commit idx m = insert idx (for_block commit (Suc idx) m)" if "idx < m" for m
      using for_block_first [OF that] True by simp
    have pw: "power_in vals (for_block commit idx m) = power_of vals idx + power_in vals (for_block commit (Suc idx) m)" if "idx < m" for m
      using power_in_first [OF that] True by simp
    show ?thesis
    proof (cases "needed < tallied + power_of vals idx")
      case over: True
      have "for_block commit idx (Suc idx) = {idx}" using eq [of "Suc idx"] by simp
      then have "(\<exists>m \<le> ValidatorSet_Size vals. idx < m \<and> (\<forall>i \<in> for_block commit idx m. P i) \<and> needed < tallied + power_in vals (for_block commit idx m)) \<longleftrightarrow> P idx" for P
        using over lt eq by (auto intro!: exI [of _ "Suc idx"])
      then show ?thesis unfolding d later using True w lt' over by (auto simp: Let_def and_then_Inr_iff verify_sig_ok)
    next
      case under: False
      have IH: "tally_light cr chainID commit vals needed (Suc idx) (tallied + power_of vals idx) (drop (Suc idx) (c_Signatures commit)) = Inr () \<longleftrightarrow>
         (\<exists>m \<le> ValidatorSet_Size vals. (\<forall>i \<in> for_block commit (Suc idx) m. signed_by cr chainID commit (vs_Validators vals ! i) i) \<and>
           needed < tallied + power_of vals idx + power_in vals (for_block commit (Suc idx) m))"
        using Suc lt under tally_step(2,3) [OF assms(1) lt Suc.prems(2,3)] by (intro Suc.hyps(1)) auto
      have gt: "idx < m" if "needed < tallied + power_of vals idx + power_in vals (for_block commit (Suc idx) m)" for m
        using that under by (cases "idx < m") (auto simp: for_block_def)
      show ?thesis
        unfolding d later using True w lt' under IH gt eq pw
        by (simp add: Let_def and_then_Inr_iff verify_sig_ok) (fastforce simp: add.assoc)
    qed
  qed
qed

lemma total_power_wf: "vset_wf vals \<Longrightarrow> total_power vals = Inr (all_power vals)"
  by (simp add: total_power_def TotalVotingPower_wf)

lemma two_thirds:
  assumes "vset_wf vals"
  shows "0 \<le> wrap64 (all_power vals * 2) sdiv 3" "wrap64 (all_power vals * 2) sdiv 3 < got \<longleftrightarrow> 2 * all_power vals < 3 * got"
proof -
  have "wrap64 (all_power vals * 2) = all_power vals * 2"
    using all_power_bounds [OF assms] by (intro wrap64_idI) (simp_all add: int_limits MaxTotalVotingPower_eq)
  then have eq: "wrap64 (all_power vals * 2) sdiv 3 = all_power vals * 2 div 3"
    using all_power_bounds [OF assms] by (simp add: sdiv_nonneg)
  show "0 \<le> wrap64 (all_power vals * 2) sdiv 3" using eq all_power_bounds [OF assms] by (simp add: pos_imp_zdiv_nonneg_iff)
  show "wrap64 (all_power vals * 2) sdiv 3 < got \<longleftrightarrow> 2 * all_power vals < 3 * got"
    unfolding eq using div_less_iff_int [of 3 "all_power vals * 2" got] by (simp add: mult.commute)
qed

lemma check_commit_ok:
  "check_commit vals blockID height commit = Inr () \<longleftrightarrow>
     length (c_Signatures commit) = ValidatorSet_Size vals \<and> height = c_Height commit \<and> blockID = c_BlockID commit"
  by (auto simp: check_commit_def)

lemma VerifyCommit_iff:
  assumes "vset_wf vals"
  shows "VerifyCommit cr chainID blockID height commit vals = Inr () \<longleftrightarrow>
    length (c_Signatures commit) = ValidatorSet_Size vals \<and> height = c_Height commit \<and> blockID = c_BlockID commit \<and>
    (\<forall>i < ValidatorSet_Size vals. \<not> Absent (c_Signatures commit ! i) \<longrightarrow> signed_by cr chainID commit (vs_Validators vals ! i) i) \<and>
    2 * all_power vals < 3 * power_in vals (for_block commit 0 (ValidatorSet_Size vals))"
  using tally_all_exact [OF assms, of commit 0 0] two_thirds(2) [OF assms]
  by (auto simp: VerifyCommit_def and_then_Inr_iff check_commit_ok total_power_wf [OF assms] Let_def not_le)

lemma VerifyCommitLight_iff:
  assumes "vset_wf vals"
  shows "VerifyCommitLight cr chainID blockID height commit vals = Inr () \<longleftrightarrow>
    length (c_Signatures commit) = ValidatorSet_Size vals \<and> height = c_Height commit \<and> blockID = c_BlockID commit \<and>
    (\<exists>m \<le> ValidatorSet_Size vals. (\<forall>i \<in> for_block commit 0 m. signed_by cr chainID commit (vs_Validators vals ! i) i) \<and>
       2 * all_power vals < 3 * power_in vals (for_block commit 0 m))"
  using tally_light_exact [OF assms, of commit 0 0] two_thirds [OF assms]
  by (auto simp: VerifyCommitLight_def and_then_Inr_iff check_commit_ok total_power_wf [OF assms])

lemma VerifyCommit_light:
  assumes "vset_wf vals" "VerifyCommit cr chainID blockID height commit vals = Inr ()"
  shows "VerifyCommitLight cr chainID blockID height commit vals = Inr ()"
proof -
  have "\<not> Absent (c_Signatures commit ! i)" if "i \<in> for_block commit 0 n" for i n
    using that by (simp add: for_block_def ForBlock_def Absent_def block_id_flags)
  then show ?thesis
    using assms(2) unfolding VerifyCommit_iff [OF assms(1)] VerifyCommitLight_iff [OF assms(1)]
    by (auto simp: for_block_def intro!: exI [of _ "ValidatorSet_Size vals"])
qed

text \<open>The tally over trusted validators counts each of them once.\<close>

definition counted :: "crypto \<Rightarrow> bytes \<Rightarrow> Commit \<Rightarrow> ValidatorSet \<Rightarrow> nat \<Rightarrow> bool" where
  "counted cr chainID commit vals i \<longleftrightarrow> (\<exists>idx < length (c_Signatures commit).
     ForBlock (c_Signatures commit ! idx) \<and> cs_ValidatorAddress (c_Signatures commit ! idx) = val_Address (vs_Validators vals ! i) \<and>
     signed_by cr chainID commit (vs_Validators vals ! i) idx)"

lemma get_by_address_from_Some:
  "get_by_address_from k a vs = (j, Some v) \<Longrightarrow> \<exists>i < length vs. j = wrap32 (int (k + i)) \<and> v = vs ! i \<and> val_Address v = a"
proof (induction k a vs rule: get_by_address_from.induct)
  case (2 k a val rest)
  show ?case
  proof (cases "val_Address val = a")
    case True
    with "2.prems" show ?thesis by (intro exI [of _ 0]) auto
  next
    case False
    with 2 obtain i where "i < length rest" "j = wrap32 (int (Suc k + i))" "v = rest ! i" "val_Address v = a" by auto
    then show ?thesis by (intro exI [of _ "Suc i"]) auto
  qed
qed simp

lemma GetByAddress_Some:
  "GetByAddress a vals = (j, Some v) \<Longrightarrow> \<exists>i < ValidatorSet_Size vals. j = wrap32 (int i) \<and> v = vs_Validators vals ! i \<and> val_Address v = a"
  using get_by_address_from_Some [of 0 a "vs_Validators vals" j v] by (simp add: GetByAddress_def ValidatorSet_Size_def)

lemma tally_trusting_sound:
  assumes wf: "vset_wf vals"
    and "tally_trusting cr chainID commit vals needed seenVals idx tallied (drop idx (c_Signatures commit)) = Inr ()"
    and "s \<subseteq> {..<ValidatorSet_Size vals}" "\<forall>i \<in> s. counted cr chainID commit vals i"
    and "dom seenVals = (\<lambda>i. wrap32 (int i)) ` s" "tallied = power_in vals s"
  shows "\<exists>s \<subseteq> {..<ValidatorSet_Size vals}. (\<forall>i \<in> s. counted cr chainID commit vals i) \<and> needed < power_in vals s"
  using assms(2-6)
proof (induction "length (c_Signatures commit) - idx" arbitrary: idx tallied seenVals s)
  case 0
  then show ?case by simp
next
  case (Suc k)
  then have lt: "idx < length (c_Signatures commit)" by simp
  then have d: "drop idx (c_Signatures commit) = c_Signatures commit ! idx # drop (Suc idx) (c_Signatures commit)"
    by (simp add: Cons_nth_drop_Suc)
  have skip: ?case if "tally_trusting cr chainID commit vals needed seenVals (Suc idx) tallied (drop (Suc idx) (c_Signatures commit)) = Inr ()"
    using Suc.hyps(1) [of "Suc idx", OF _ that] Suc.hyps(2) Suc.prems(2-5) by simp
  obtain j vo where gba: "GetByAddress (cs_ValidatorAddress (c_Signatures commit ! idx)) vals = (j, vo)" by force
  show ?case
  proof (cases "ForBlock (c_Signatures commit ! idx) \<and> vo \<noteq> None")
    case False
    with Suc.prems(1) gba have "tally_trusting cr chainID commit vals needed seenVals (Suc idx) tallied (drop (Suc idx) (c_Signatures commit)) = Inr ()"
      unfolding d by (cases vo) (auto split: if_splits)
    then show ?thesis by (rule skip)
  next
    case True
    then obtain v where v: "vo = Some v" by blast
    obtain i where i: "i < ValidatorSet_Size vals" "j = wrap32 (int i)" "v = vs_Validators vals ! i"
        "val_Address v = cs_ValidatorAddress (c_Signatures commit ! idx)"
      using GetByAddress_Some [OF gba [unfolded v]] by auto
    have none: "seenVals j = None" and sig: "signed_by cr chainID commit v idx"
      using Suc.prems(1) True gba v unfolding d by (auto simp: and_then_Inr_iff verify_sig_ok split: option.splits)
    have new: "i \<notin> s" using none Suc.prems(4) i(2) by (metis domIff imageI)
    have fin: "finite s" using Suc.prems(2) finite_subset by blast
    let ?s = "insert i s"
    have sub: "?s \<subseteq> {..<ValidatorSet_Size vals}" using Suc.prems(2) i(1) by simp
    have c: "\<forall>i \<in> ?s. counted cr chainID commit vals i" using Suc.prems(3) True sig i lt by (auto simp: counted_def)
    have p: "power_in vals ?s = tallied + val_VotingPower v" using Suc.prems(5) new fin i(3) by (simp add: power_of_def)
    have w: "wrap64 (tallied + val_VotingPower v) = power_in vals ?s"
      unfolding p [symmetric] using power_in_le [OF wf sub] all_power_bounds [OF wf]
      by (intro wrap64_idI) (simp_all add: int_limits MaxTotalVotingPower_eq)
    show ?thesis
    proof (cases "needed < power_in vals ?s")
      case True
      with sub c show ?thesis by blast
    next
      case False
      then have "tally_trusting cr chainID commit vals needed (seenVals(j \<mapsto> idx)) (Suc idx) (power_in vals ?s) (drop (Suc idx) (c_Signatures commit)) = Inr ()"
        using Suc.prems(1) True gba v none w unfolding d by (auto simp: Let_def and_then_Inr_iff split: if_splits)
      then show ?thesis
        using Suc.hyps(1) [of "Suc idx" "seenVals(j \<mapsto> idx)" "power_in vals ?s" ?s] Suc.hyps(2) sub c Suc.prems(4) i(2) by simp
    qed
  qed
qed

lemma VerifyCommitLightTrusting_sound:
  assumes "vset_wf vals" "0 \<le> fr_Numerator lvl" "0 < fr_Denominator lvl" "int64_range (fr_Numerator lvl)"
    and "VerifyCommitLightTrusting cr chainID commit lvl vals = Inr ()"
  shows "\<exists>s \<subseteq> {..<ValidatorSet_Size vals}. (\<forall>i \<in> s. counted cr chainID commit vals i) \<and>
    all_power vals * fr_Numerator lvl < power_in vals s * fr_Denominator lvl"
proof -
  obtain mul where m: "safeMul (all_power vals) (fr_Numerator lvl) = (mul, False)"
    and t: "tally_trusting cr chainID commit vals (wrap64 (mul sdiv fr_Denominator lvl)) Map.empty 0 0 (drop 0 (c_Signatures commit)) = Inr ()"
    using assms(3,5) by (auto simp: VerifyCommitLightTrusting_def total_power_wf [OF assms(1)] Let_def split: prod.splits if_splits)
  have mul: "mul = all_power vals * fr_Numerator lvl" "mul \<le> MaxInt64"
    using m safeMul_exact [of "all_power vals" "fr_Numerator lvl"] assms(2,4) all_power_bounds [OF assms(1)]
    by (auto simp: int64_range_iff int_limits MaxTotalVotingPower_eq split: if_splits)
  moreover have nn: "0 \<le> all_power vals * fr_Numerator lvl" using all_power_bounds [OF assms(1)] assms(2) by simp
  moreover have "wrap64 (mul sdiv fr_Denominator lvl) = mul sdiv fr_Denominator lvl"
    using mul nn sdiv_abs_le [OF assms(3), of mul] assms(3) by (intro wrap64_idI) (auto simp: sdiv_nonneg int_limits abs_le_iff)
  ultimately show ?thesis
    using tally_trusting_sound [OF assms(1) t, of "{}"] div_less_iff_int [OF assms(3)] assms(3) by (auto simp: sdiv_nonneg)
qed

lemma GetVote_ForBlock:
  assumes "GetVote c i = Inr v"
  shows "ForBlock (c_Signatures c ! nat i) \<Longrightarrow> v_BlockID v = c_BlockID c"
    "v_Type v = PrecommitType" "v_Height v = c_Height c" "v_Round v = c_Round c"
  using assms by (auto simp: GetVote_def Let_def and_then_Inr_iff CommitSig_BlockID_def ForBlock_def block_id_flags split: if_splits)

section \<open>Properties\<close>

text \<open>
  C13: The full verification accepts a commit exactly when it has one signature slot per validator, is for
  the given height and block, every signature that is present verifies under the key of the validator at
  its position, and the validators that signed for the block hold more than two thirds of the voting power.
  The integer arithmetic of the code does not overflow on the way.
\<close>

theorem VerifyCommit_exact:
  assumes "vset_wf vals"
  shows "VerifyCommit cr chainID blockID height commit vals = Inr () \<longleftrightarrow>
    length (c_Signatures commit) = ValidatorSet_Size vals \<and> height = c_Height commit \<and> blockID = c_BlockID commit \<and>
    (\<forall>i < ValidatorSet_Size vals. \<not> Absent (c_Signatures commit ! i) \<longrightarrow> signed_by cr chainID commit (vs_Validators vals ! i) i) \<and>
    2 * all_power vals < 3 * (\<Sum>i | i < ValidatorSet_Size vals \<and> ForBlock (c_Signatures commit ! i). power_of vals i)"
proof -
  have "for_block commit 0 (ValidatorSet_Size vals) = {i. i < ValidatorSet_Size vals \<and> ForBlock (c_Signatures commit ! i)}"
    by (auto simp: for_block_def)
  then show ?thesis using VerifyCommit_iff [OF assms] by simp
qed

definition demo_sig :: "8 word \<Rightarrow> CommitSig" where
  "demo_sig a = \<lparr>cs_BlockIDFlag = BlockIDFlagCommit, cs_ValidatorAddress = [a], cs_Timestamp = 9, cs_Signature = [a]\<rparr>"

definition signed_commit :: "8 word \<Rightarrow> Commit" where
  "signed_commit x = NewCommit 5 0 (demo_BlockID x) [demo_sig 3, demo_sig 2, NewCommitSigAbsent]"

lemma signed_commit_facts:
  "c_Height (signed_commit x) = 5" "c_BlockID (signed_commit x) = demo_BlockID x" "c_Round (signed_commit x) = 0"
  "length (c_Signatures (signed_commit x)) = 3" "ValidatorSet_Size demo_vals = 3"
  by (simp_all add: signed_commit_def NewCommit_def ValidatorSet_Size_def demo_vals_def)

lemma signed_commit_signed:
  assumes "i < 2"
  shows "signed_by demo_crypto [116] (signed_commit x) (vs_Validators demo_vals ! i) i"
proof -
  have "i = 0 \<or> i = 1" using assms by linarith
  moreover have "\<exists>b. VoteSignBytes demo_crypto [116] (demo_precommit x a (int i)\<lparr>v_ValidatorAddress := d, v_Signature := g\<rparr>) = Inr b" for a d g
    using demo_sign_bytes [of x a "int i"]
    by (simp add: VoteSignBytes_def CanonicalizeVote_def demo_precommit_def)
  from this [where a = 0 and d = "[3]" and g = "[3]"] this [where a = 0 and d = "[2]" and g = "[2]"]
  have "\<exists>b. Commit_VoteSignBytes demo_crypto (signed_commit x) [116] (wrap32 (int i)) = Inr b"
    using \<open>i = 0 \<or> i = 1\<close>
    by (auto simp: Commit_VoteSignBytes_def GetVote_def signed_commit_def NewCommit_def demo_sig_def demo_precommit_def
        CommitSig_BlockID_def block_id_flags int32_range_iff int_limits)
  ultimately show ?thesis
    by (auto simp: signed_by_def signed_commit_def NewCommit_def demo_sig_def demo_vals_def demo_val_def demo_crypto_def)
qed

theorem VerifyCommit_exact_witness:
  "vset_wf demo_vals \<and> VerifyCommit demo_crypto [116] (demo_BlockID 1) 5 (signed_commit 1) demo_vals = Inr () \<and>
   VerifyCommit demo_crypto [116] (demo_BlockID 2) 5 (signed_commit 1) demo_vals \<noteq> Inr ()"
proof -
  have "signed_by demo_crypto [116] (signed_commit 1) (vs_Validators demo_vals ! i) i"
    if "i < 3" "\<not> Absent (c_Signatures (signed_commit 1) ! i)" for i
  proof -
    have "i < 2" using that by (cases "i = 2") (auto simp: signed_commit_def NewCommit_def NewCommitSigAbsent_def Absent_def numeral_2_eq_2)
    then show ?thesis by (rule signed_commit_signed)
  qed
  moreover have "{i. i < 3 \<and> ForBlock (c_Signatures (signed_commit 1) ! i)} = {0, 1}"
    by (auto simp: signed_commit_def NewCommit_def NewCommitSigAbsent_def demo_sig_def ForBlock_def block_id_flags numeral_3_eq_3 less_Suc_eq)
  moreover have "demo_BlockID 2 \<noteq> demo_BlockID 1" by (simp add: demo_BlockID_def)
  ultimately show ?thesis
    using VerifyCommit_exact [OF demo_vals_ok(1), of demo_crypto "[116]" _ 5 "signed_commit 1"] demo_vals_ok(1)
    by (simp add: signed_commit_facts demo_vals_facts) (simp add: power_of_def demo_vals_def demo_val_def)
qed

text \<open>
  C21: The light verification, which stops at two thirds and skips the signatures that are not for the block,
  accepts every commit that the full verification accepts; and whatever it accepts carries verified
  signatures for that block from validators with more than two thirds of the voting power.
\<close>

theorem VerifyCommitLight_between:
  assumes "vset_wf vals"
  shows "(VerifyCommit cr chainID blockID height commit vals = Inr () \<longrightarrow> VerifyCommitLight cr chainID blockID height commit vals = Inr ()) \<and>
    (VerifyCommitLight cr chainID blockID height commit vals = Inr () \<longrightarrow> height = c_Height commit \<and> blockID = c_BlockID commit \<and>
      (\<exists>s \<subseteq> {..<ValidatorSet_Size vals}. (\<forall>i \<in> s. ForBlock (c_Signatures commit ! i) \<and> signed_by cr chainID commit (vs_Validators vals ! i) i) \<and>
         2 * all_power vals < 3 * (\<Sum>i\<in>s. power_of vals i)))"
proof (intro conjI impI)
  assume l: "VerifyCommitLight cr chainID blockID height commit vals = Inr ()"
  then show "height = c_Height commit" "blockID = c_BlockID commit" using VerifyCommitLight_iff [OF assms] by blast+
  obtain m where m: "m \<le> ValidatorSet_Size vals" "\<forall>i \<in> for_block commit 0 m. signed_by cr chainID commit (vs_Validators vals ! i) i"
      "2 * all_power vals < 3 * power_in vals (for_block commit 0 m)"
    using l VerifyCommitLight_iff [OF assms] by blast
  then show "\<exists>s \<subseteq> {..<ValidatorSet_Size vals}. (\<forall>i \<in> s. ForBlock (c_Signatures commit ! i) \<and> signed_by cr chainID commit (vs_Validators vals ! i) i) \<and>
      2 * all_power vals < 3 * (\<Sum>i\<in>s. power_of vals i)"
    by (intro exI [of _ "for_block commit 0 m"]) (auto simp: for_block_def)
qed (rule VerifyCommit_light [OF assms])

lemma signed_commit_light: "VerifyCommitLight demo_crypto [116] (demo_BlockID x) 5 (signed_commit x) demo_vals = Inr ()"
proof -
  have "for_block (signed_commit x) 0 2 = {0, 1}"
    by (auto simp: for_block_def signed_commit_def NewCommit_def demo_sig_def ForBlock_def numeral_2_eq_2 less_Suc_eq)
  moreover from this have "2 * all_power demo_vals < 3 * power_in demo_vals (for_block (signed_commit x) 0 2)"
    by (simp add: demo_vals_facts) (simp add: power_of_def demo_vals_def demo_val_def)
  ultimately show ?thesis
    unfolding VerifyCommitLight_iff [OF demo_vals_ok(1)] signed_commit_facts
    using signed_commit_signed [of 0 x] signed_commit_signed [of 1 x] by (intro conjI refl exI [of _ 2]) auto
qed

theorem VerifyCommitLight_between_witness:
  "vset_wf demo_vals \<and> VerifyCommitLight demo_crypto [116] (demo_BlockID 1) 5 (signed_commit 1) demo_vals = Inr () \<and>
   (\<exists>s \<subseteq> {..<3}. 2 * all_power demo_vals < 3 * (\<Sum>i\<in>s. power_of demo_vals i))"
proof -
  have l: "VerifyCommitLight demo_crypto [116] (demo_BlockID 1) 5 (signed_commit 1) demo_vals = Inr ()"
    by (rule signed_commit_light)
  from VerifyCommitLight_between [OF demo_vals_ok(1)] this
  obtain s where "s \<subseteq> {..<3}" "2 * all_power demo_vals < 3 * (\<Sum>i\<in>s. power_of demo_vals i)"
    unfolding signed_commit_facts by metis
  with l demo_vals_ok(1) show ?thesis by blast
qed

text \<open>
  C6: Accountable safety. If two commits of one height are accepted for different blocks, then
  validators with more than a third of the voting power signed both, and each of them signed two
  precommits whose sign bytes differ. So a fork costs at least a third of the power in evidence.
\<close>

theorem conflicting_commits_convict:
  assumes "vset_wf vals" "int (ValidatorSet_Size vals) \<le> MaxInt32" "time_encoding (cr_TimeBytes cr)" "a \<noteq> b" "int64_range h"
    and "int64_range (c_Round ca)" "int64_range (c_Round cb)"
    and "VerifyCommitLight cr chainID a h ca vals = Inr ()" "VerifyCommitLight cr chainID b h cb vals = Inr ()"
  shows "\<exists>s \<subseteq> {..<ValidatorSet_Size vals}. all_power vals < 3 * (\<Sum>i\<in>s. power_of vals i) \<and>
    (\<forall>i \<in> s. \<exists>pk ba bb. val_PubKey (vs_Validators vals ! i) = Some pk \<and> ba \<noteq> bb \<and>
       Commit_VoteSignBytes cr ca chainID (wrap32 (int i)) = Inr ba \<and> cr_VerifyBytes cr pk ba (cs_Signature (c_Signatures ca ! i)) \<and>
       Commit_VoteSignBytes cr cb chainID (wrap32 (int i)) = Inr bb \<and> cr_VerifyBytes cr pk bb (cs_Signature (c_Signatures cb ! i)))"
proof -
  obtain m n where m: "m \<le> ValidatorSet_Size vals" "\<forall>i \<in> for_block ca 0 m. signed_by cr chainID ca (vs_Validators vals ! i) i"
      "2 * all_power vals < 3 * power_in vals (for_block ca 0 m)"
    and n: "n \<le> ValidatorSet_Size vals" "\<forall>i \<in> for_block cb 0 n. signed_by cr chainID cb (vs_Validators vals ! i) i"
      "2 * all_power vals < 3 * power_in vals (for_block cb 0 n)"
    and id: "h = c_Height ca" "a = c_BlockID ca" "h = c_Height cb" "b = c_BlockID cb"
    using assms(8,9) unfolding VerifyCommitLight_iff [OF assms(1)] by blast
  let ?s = "for_block ca 0 m \<inter> for_block cb 0 n"
  have sub: "for_block ca 0 m \<subseteq> {..<ValidatorSet_Size vals}" "for_block cb 0 n \<subseteq> {..<ValidatorSet_Size vals}"
    using m(1) n(1) by (auto simp: for_block_def)
  have "all_power vals < 3 * power_in vals ?s"
    using voters.quorum_overlap [OF assms(1) sub] m(3) n(3) by (simp add: all_power_sum)
  moreover have "ba \<noteq> bb" if "i \<in> ?s" and b: "Commit_VoteSignBytes cr ca chainID (wrap32 (int i)) = Inr ba"
      "Commit_VoteSignBytes cr cb chainID (wrap32 (int i)) = Inr bb" for i ba bb
  proof -
    have "i < ValidatorSet_Size vals" using that(1) sub by blast
    then have w: "wrap32 (int i) = int i" using assms(2) by (intro wrap32_id) (simp add: int32_range_iff int_limits)
    have f: "ForBlock (c_Signatures ca ! i)" "ForBlock (c_Signatures cb ! i)" using that(1) by (auto simp: for_block_def)
    obtain va where va: "GetVote ca (int i) = Inr va" "VoteSignBytes cr chainID va = Inr ba"
      using b(1) unfolding w by (auto simp: Commit_VoteSignBytes_def and_then_Inr_iff)
    obtain vb where vb: "GetVote cb (int i) = Inr vb" "VoteSignBytes cr chainID vb = Inr bb"
      using b(2) unfolding w by (auto simp: Commit_VoteSignBytes_def and_then_Inr_iff)
    have "v_BlockID va \<noteq> v_BlockID vb" using GetVote_ForBlock(1) [OF va(1)] GetVote_ForBlock(1) [OF vb(1)] f id assms(4) by simp
    moreover have "int64_range (v_Type va)" "int64_range (v_Type vb)" "int64_range (v_Height va)" "int64_range (v_Height vb)"
        "int64_range (v_Round va)" "int64_range (v_Round vb)"
      using GetVote_ForBlock(2-4) [OF va(1)] GetVote_ForBlock(2-4) [OF vb(1)] assms(5-7) id
      by (simp_all add: PrecommitType_def int64_range_iff int_limits)
    ultimately show ?thesis using VoteSignBytes_inject [OF assms(3) _ _ _ _ _ _ va(2), of vb] vb(2) by blast
  qed
  moreover have "\<exists>pk ba bb. val_PubKey (vs_Validators vals ! i) = Some pk \<and>
       Commit_VoteSignBytes cr ca chainID (wrap32 (int i)) = Inr ba \<and> cr_VerifyBytes cr pk ba (cs_Signature (c_Signatures ca ! i)) \<and>
       Commit_VoteSignBytes cr cb chainID (wrap32 (int i)) = Inr bb \<and> cr_VerifyBytes cr pk bb (cs_Signature (c_Signatures cb ! i))"
    if "i \<in> ?s" for i
    using that m(2) n(2) unfolding signed_by_def by fastforce
  moreover have "?s \<subseteq> {..<ValidatorSet_Size vals}" using sub by blast
  ultimately show ?thesis by (intro exI [of _ ?s]) metis
qed

theorem conflicting_commits_convict_witness:
  "vset_wf demo_vals \<and> demo_BlockID 1 \<noteq> demo_BlockID 2 \<and>
   VerifyCommitLight demo_crypto [116] (demo_BlockID 1) 5 (signed_commit 1) demo_vals = Inr () \<and>
   VerifyCommitLight demo_crypto [116] (demo_BlockID 2) 5 (signed_commit 2) demo_vals = Inr () \<and>
   (\<exists>s \<subseteq> {..<3}. all_power demo_vals < 3 * (\<Sum>i\<in>s. power_of demo_vals i))"
proof -
  have ne: "demo_BlockID 1 \<noteq> demo_BlockID 2" by (simp add: demo_BlockID_def)
  have t: "time_encoding (cr_TimeBytes demo_crypto)" using demo_time_encoding by (simp add: demo_crypto_def)
  have r: "int (ValidatorSet_Size demo_vals) \<le> MaxInt32" "int64_range 5"
      "int64_range (c_Round (signed_commit 1))" "int64_range (c_Round (signed_commit 2))"
    by (simp_all add: signed_commit_facts int64_range_iff int_limits)
  obtain s where "s \<subseteq> {..<3}" "all_power demo_vals < 3 * (\<Sum>i\<in>s. power_of demo_vals i)"
    using conflicting_commits_convict [OF demo_vals_ok(1) r(1) t ne r(2-4) signed_commit_light signed_commit_light]
    unfolding signed_commit_facts by metis
  with ne demo_vals_ok(1) signed_commit_light [of 1] signed_commit_light [of 2] show ?thesis by blast
qed

text \<open>
  C22: Trusting verification. If a commit is accepted against an older validator set at trust level
  \<open>n / d\<close>, then different validators of that set with more than \<open>n / d\<close> of its voting power have verified
  signatures for the block in the commit, wherever they stand in it. No validator is counted twice.
\<close>

theorem VerifyCommitLightTrusting_overlap:
  assumes "vset_wf vals" "0 \<le> fr_Numerator lvl" "0 < fr_Denominator lvl" "int64_range (fr_Numerator lvl)"
    and "VerifyCommitLightTrusting cr chainID commit lvl vals = Inr ()"
  shows "\<exists>s \<subseteq> {..<ValidatorSet_Size vals}.
    (\<forall>i \<in> s. \<exists>idx < length (c_Signatures commit). ForBlock (c_Signatures commit ! idx) \<and>
       cs_ValidatorAddress (c_Signatures commit ! idx) = val_Address (vs_Validators vals ! i) \<and>
       signed_by cr chainID commit (vs_Validators vals ! i) idx) \<and>
    all_power vals * fr_Numerator lvl < (\<Sum>i\<in>s. power_of vals i) * fr_Denominator lvl"
  using VerifyCommitLightTrusting_sound [OF assms] unfolding counted_def .

lemma signed_commit_trusting:
  "VerifyCommitLightTrusting demo_crypto [116] (signed_commit 1) \<lparr>fr_Numerator = 1, fr_Denominator = 3\<rparr> demo_vals = Inr ()"
proof -
  have "safeMul 60 1 = (60, False)" using safeMul_exact [of 60 1] by (simp add: int64_range_iff int_limits)
  moreover have "total_power demo_vals = Inr 60" using total_power_wf [OF demo_vals_ok(1)] by (simp add: demo_vals_facts)
  moreover have "tally_trusting demo_crypto [116] (signed_commit 1) demo_vals 20 Map.empty 0 0 (demo_sig 3 # rest) = Inr ()" for rest
    using verify_sig_ok [of demo_crypto "[116]" "signed_commit 1" "vs_Validators demo_vals ! 0" 0] signed_commit_signed [of 0 1]
    by (simp add: GetByAddress_def demo_vals_def demo_sig_def demo_val_def ForBlock_def Let_def int64_range_iff int_limits
        signed_commit_def NewCommit_def)
  moreover have "c_Signatures (signed_commit 1) = demo_sig 3 # [demo_sig 2, NewCommitSigAbsent]"
    by (simp add: signed_commit_def NewCommit_def)
  ultimately show ?thesis by (simp add: VerifyCommitLightTrusting_def sdiv_nonneg int64_range_iff int_limits del: tally_trusting.simps)
qed

theorem VerifyCommitLightTrusting_overlap_witness:
  "vset_wf demo_vals \<and>
   VerifyCommitLightTrusting demo_crypto [116] (signed_commit 1) \<lparr>fr_Numerator = 1, fr_Denominator = 3\<rparr> demo_vals = Inr () \<and>
   (\<exists>s \<subseteq> {..<3}. all_power demo_vals < 3 * (\<Sum>i\<in>s. power_of demo_vals i))"
proof -
  have "0 \<le> fr_Numerator \<lparr>fr_Numerator = 1, fr_Denominator = 3\<rparr>" "0 < fr_Denominator \<lparr>fr_Numerator = 1, fr_Denominator = 3\<rparr>"
      "int64_range (fr_Numerator \<lparr>fr_Numerator = 1, fr_Denominator = 3\<rparr>)"
    by (simp_all add: int64_range_iff int_limits)
  from VerifyCommitLightTrusting_overlap [OF demo_vals_ok(1) this signed_commit_trusting]
  obtain s where "s \<subseteq> {..<3}" "all_power demo_vals < 3 * (\<Sum>i\<in>s. power_of demo_vals i)"
    unfolding signed_commit_facts by (auto simp: mult.commute)
  with demo_vals_ok(1) signed_commit_trusting show ?thesis by blast
qed

end
