(* ===== verification/Vote_Set.thy ===== *)
theory Vote_Set
  imports Commit_Verify
begin

text \<open>
  \<^verbatim>\<open>types/vote_set.go\<close>: the collection of the votes of one height, round and type. The canonical votes and
  the votes kept per block are lists with one slot per validator, the map from block keys is a partial
  function. \<^verbatim>\<open>AddVote\<close> returns whether the vote was added, an error, or both, so its result is a flag, an
  optional error and the new set; a Go panic is \<open>Inl\<close>. The mutex is held for the whole of each method.

  The main results: every reachable vote set satisfies an invariant under which no method panics, a
  recorded majority is backed by more than two thirds of the voting power and is never replaced, a
  majority among the canonical votes is never overlooked, and the commit made from the votes passes the
  verification of commits and reads back to a vote set with the same commit.
\<close>

section \<open>Operations\<close>

record blockVotes =
  bv_peerMaj23 :: bool
  bv_bitArray :: "BitArray option"
  bv_votes :: "Vote option list"
  bv_sum :: int64

record VoteSet =
  vst_chainID :: bytes
  vst_height :: int64
  vst_round :: int32
  vst_signedMsgType :: SignedMsgType
  vst_valSet :: ValidatorSet
  vst_votesBitArray :: "BitArray option"
  vst_votes :: "Vote option list"
  vst_sum :: int64
  vst_maj23 :: "BlockID option"
  vst_votesByBlock :: "bytes \<rightharpoonup> blockVotes"
  vst_peerMaj23s :: "bytes \<rightharpoonup> BlockID"

type_synonym add_result = "bool \<times> vote_error option \<times> VoteSet"

definition NewVoteSet :: "bytes \<Rightarrow> int64 \<Rightarrow> int32 \<Rightarrow> SignedMsgType \<Rightarrow> ValidatorSet \<Rightarrow> (vote_error, VoteSet) result" where
  "NewVoteSet chainID height rnd signedMsgType valSet =
     (if height = 0 then Inl (Panic ''Cannot make VoteSet for height == 0'')
      else Inr \<lparr>vst_chainID = chainID, vst_height = height, vst_round = rnd, vst_signedMsgType = signedMsgType,
        vst_valSet = valSet, vst_votesBitArray = NewBitArray (int (ValidatorSet_Size valSet)),
        vst_votes = replicate (ValidatorSet_Size valSet) None, vst_sum = 0, vst_maj23 = None,
        vst_votesByBlock = Map.empty, vst_peerMaj23s = Map.empty\<rparr>)"

definition newBlockVotes :: "bool \<Rightarrow> nat \<Rightarrow> blockVotes" where
  "newBlockVotes peerMaj23 numValidators =
     \<lparr>bv_peerMaj23 = peerMaj23, bv_bitArray = NewBitArray (int numValidators),
      bv_votes = replicate numValidators None, bv_sum = 0\<rparr>"

definition set_bit_of :: "BitArray option \<Rightarrow> int32 \<Rightarrow> (vote_error, BitArray option) result" where
  "set_bit_of bA i = and_then (lift_fault (\<lambda>_. ErrVoteNil) (SetIndex bA i True)) (\<lambda>(_, bA). Inr bA)"

definition at_index :: "'a option list \<Rightarrow> int32 \<Rightarrow> (vote_error, 'a option) result" where
  "at_index xs i = (if i < 0 \<or> int (length xs) \<le> i then Inl (Panic ''index out of range'') else Inr (xs ! nat i))"

definition blockVotes_getByIndex :: "blockVotes option \<Rightarrow> int32 \<Rightarrow> (vote_error, Vote option) result" where
  "blockVotes_getByIndex vs index = (case vs of None \<Rightarrow> Inr None | Some bv \<Rightarrow> at_index (bv_votes bv) index)"

definition blockVotes_addVerifiedVote :: "blockVotes \<Rightarrow> Vote \<Rightarrow> int64 \<Rightarrow> (vote_error, blockVotes) result" where
  "blockVotes_addVerifiedVote vs vote votingPower =
     (let valIndex = v_ValidatorIndex vote in
      and_then (at_index (bv_votes vs) valIndex) (\<lambda>existing.
        if existing = None then
          and_then (set_bit_of (bv_bitArray vs) valIndex) (\<lambda>bA.
            Inr (vs\<lparr>bv_bitArray := bA, bv_votes := (bv_votes vs)[nat valIndex := Some vote],
                    bv_sum := wrap64 (bv_sum vs + votingPower)\<rparr>))
        else Inr vs))"

definition getVote :: "VoteSet \<Rightarrow> int32 \<Rightarrow> bytes \<Rightarrow> (vote_error, Vote option) result" where
  "getVote voteSet valIndex blockKey =
     and_then (at_index (vst_votes voteSet) valIndex) (\<lambda>existing.
       case existing of
         Some v \<Rightarrow> if BlockID_Key (v_BlockID v) = blockKey then Inr (Some v)
                   else blockVotes_getByIndex (vst_votesByBlock voteSet blockKey) valIndex
       | None \<Rightarrow> blockVotes_getByIndex (vst_votesByBlock voteSet blockKey) valIndex)"

text \<open>The loop that copies the votes of the majority over the canonical ones; both slices have one slot per validator.\<close>

definition copy_votes :: "Vote option list \<Rightarrow> Vote option list \<Rightarrow> Vote option list" where
  "copy_votes from to = map2 (\<lambda>v w. if v = None then w else v) from to"

definition record_vote :: "VoteSet \<Rightarrow> Vote \<Rightarrow> bytes \<Rightarrow> int64 \<Rightarrow> (vote_error, Vote option \<times> VoteSet) result" where
  "record_vote voteSet vote blockKey votingPower =
     (let valIndex = v_ValidatorIndex vote in
      and_then (at_index (vst_votes voteSet) valIndex) (\<lambda>existing.
        case existing of
          Some e \<Rightarrow>
            if BlockID_Equals (v_BlockID e) (v_BlockID vote) then Inl (Panic ''addVerifiedVote does not expect duplicate votes'')
            else (case vst_maj23 voteSet of
              Some m \<Rightarrow>
                if BlockID_Key m = blockKey then
                  and_then (set_bit_of (vst_votesBitArray voteSet) valIndex) (\<lambda>bA.
                    Inr (Some e, voteSet\<lparr>vst_votes := (vst_votes voteSet)[nat valIndex := Some vote], vst_votesBitArray := bA\<rparr>))
                else Inr (Some e, voteSet)
            | None \<Rightarrow> Inr (Some e, voteSet))
        | None \<Rightarrow>
            and_then (set_bit_of (vst_votesBitArray voteSet) valIndex) (\<lambda>bA.
              Inr (None, voteSet\<lparr>vst_votes := (vst_votes voteSet)[nat valIndex := Some vote], vst_votesBitArray := bA,
                vst_sum := wrap64 (vst_sum voteSet + votingPower)\<rparr>))))"

definition tally_block :: "VoteSet \<Rightarrow> Vote \<Rightarrow> bytes \<Rightarrow> int64 \<Rightarrow> blockVotes \<Rightarrow> (vote_error, VoteSet) result" where
  "tally_block voteSet vote blockKey votingPower votesByBlock =
     and_then (lift_fault (\<lambda>_. ErrVoteNil) (TotalVotingPower (vst_valSet voteSet))) (\<lambda>(tvp, _).
       let origSum = bv_sum votesByBlock;
           quorum = wrap64 (wrap64 (tvp * 2) sdiv 3 + 1)
       in and_then (blockVotes_addVerifiedVote votesByBlock vote votingPower) (\<lambda>votesByBlock.
            let voteSet = voteSet\<lparr>vst_votesByBlock := (vst_votesByBlock voteSet)(blockKey \<mapsto> votesByBlock)\<rparr>
            in if origSum < quorum \<and> quorum \<le> bv_sum votesByBlock \<and> vst_maj23 voteSet = None
               then Inr (voteSet\<lparr>vst_maj23 := Some (v_BlockID vote),
                      vst_votes := copy_votes (bv_votes votesByBlock) (vst_votes voteSet)\<rparr>)
               else Inr voteSet))"

definition addVerifiedVote :: "VoteSet \<Rightarrow> Vote \<Rightarrow> bytes \<Rightarrow> int64 \<Rightarrow> (vote_error, bool \<times> Vote option \<times> VoteSet) result" where
  "addVerifiedVote voteSet vote blockKey votingPower =
     and_then (record_vote voteSet vote blockKey votingPower) (\<lambda>(conflicting, voteSet).
       case vst_votesByBlock voteSet blockKey of
         Some votesByBlock \<Rightarrow>
           if conflicting \<noteq> None \<and> \<not> bv_peerMaj23 votesByBlock then Inr (False, conflicting, voteSet)
           else and_then (tally_block voteSet vote blockKey votingPower votesByBlock) (\<lambda>voteSet. Inr (True, conflicting, voteSet))
       | None \<Rightarrow>
           if conflicting \<noteq> None then Inr (False, conflicting, voteSet)
           else and_then (tally_block voteSet vote blockKey votingPower
                    (newBlockVotes False (ValidatorSet_Size (vst_valSet voteSet)))) (\<lambda>voteSet. Inr (True, conflicting, voteSet)))"

definition addVote :: "crypto \<Rightarrow> VoteSet \<Rightarrow> Vote option \<Rightarrow> (vote_error, add_result) result" where
  "addVote cr voteSet voteo =
     (case voteo of
        None \<Rightarrow> Inr (False, Some ErrVoteNil, voteSet)
      | Some vote \<Rightarrow>
          let valIndex = v_ValidatorIndex vote; valAddr = v_ValidatorAddress vote; blockKey = BlockID_Key (v_BlockID vote) in
          if valIndex < 0 then Inr (False, Some ErrVoteInvalidValidatorIndex, voteSet)
          else if length valAddr = 0 then Inr (False, Some ErrVoteInvalidValidatorAddress, voteSet)
          else if v_Height vote \<noteq> vst_height voteSet \<or> v_Round vote \<noteq> vst_round voteSet \<or> v_Type vote \<noteq> vst_signedMsgType voteSet
          then Inr (False, Some ErrVoteUnexpectedStep, voteSet)
          else case GetByIndex valIndex (vst_valSet voteSet) of
            None \<Rightarrow> Inr (False, Some ErrVoteInvalidValidatorIndex, voteSet)
          | Some (lookupAddr, val) \<Rightarrow>
              if valAddr \<noteq> lookupAddr then Inr (False, Some ErrVoteInvalidValidatorAddress, voteSet)
              else and_then (getVote voteSet valIndex blockKey) (\<lambda>existing.
                case existing of
                  Some e \<Rightarrow>
                    if v_Signature e = v_Signature vote then Inr (False, None, voteSet)
                    else Inr (False, Some ErrVoteNonDeterministicSignature, voteSet)
                | None \<Rightarrow>
                    (case val_PubKey val of
                       None \<Rightarrow> Inl (Panic ''nil pointer dereference'')
                     | Some pk \<Rightarrow>
                         (case Vote_Verify cr (vst_chainID voteSet) pk vote of
                            Inl (Panic s) \<Rightarrow> Inl (Panic s)
                          | Inl (Err e) \<Rightarrow> Inr (False, Some e, voteSet)
                          | Inr _ \<Rightarrow>
                              and_then (addVerifiedVote voteSet vote blockKey (val_VotingPower val)) (\<lambda>(added, conflicting, voteSet).
                                case conflicting of
                                  Some c \<Rightarrow> Inr (added, Some (ErrVoteConflictingVotes c vote), voteSet)
                                | None \<Rightarrow> if \<not> added then Inl (Panic ''Expected to add non-conflicting vote'')
                                          else Inr (added, None, voteSet))))))"

definition AddVote :: "crypto \<Rightarrow> VoteSet option \<Rightarrow> Vote option \<Rightarrow> (vote_error, add_result) result" where
  "AddVote cr voteSet vote =
     (case voteSet of None \<Rightarrow> Inl (Panic ''AddVote() on nil VoteSet'') | Some vs \<Rightarrow> addVote cr vs vote)"

definition SetPeerMaj23 :: "VoteSet option \<Rightarrow> bytes \<Rightarrow> BlockID \<Rightarrow> (vote_error, vote_error option \<times> VoteSet) result" where
  "SetPeerMaj23 voteSet peerID blockID =
     (case voteSet of
        None \<Rightarrow> Inl (Panic ''SetPeerMaj23() on nil VoteSet'')
      | Some vs \<Rightarrow>
          let blockKey = BlockID_Key blockID in
          (case vst_peerMaj23s vs peerID of
             Some existing \<Rightarrow> if BlockID_Equals existing blockID then Inr (None, vs) else Inr (Some ErrPeerConflict, vs)
           | None \<Rightarrow>
               let vs = vs\<lparr>vst_peerMaj23s := (vst_peerMaj23s vs)(peerID \<mapsto> blockID)\<rparr> in
               (case vst_votesByBlock vs blockKey of
                  Some bv \<Rightarrow>
                    if bv_peerMaj23 bv then Inr (None, vs)
                    else Inr (None, vs\<lparr>vst_votesByBlock := (vst_votesByBlock vs)(blockKey \<mapsto> bv\<lparr>bv_peerMaj23 := True\<rparr>)\<rparr>)
                | None \<Rightarrow>
                    Inr (None, vs\<lparr>vst_votesByBlock := (vst_votesByBlock vs)(blockKey \<mapsto>
                      newBlockVotes True (ValidatorSet_Size (vst_valSet vs)))\<rparr>))))"

definition VoteSet_BitArrayByBlockID :: "VoteSet option \<Rightarrow> BlockID \<Rightarrow> BitArray option" where
  "VoteSet_BitArrayByBlockID voteSet blockID =
     (case voteSet of None \<Rightarrow> None
      | Some vs \<Rightarrow> (case vst_votesByBlock vs (BlockID_Key blockID) of
          Some bv \<Rightarrow> BitArray_Copy (bv_bitArray bv) | None \<Rightarrow> None))"

definition VoteSet_GetByIndex :: "VoteSet option \<Rightarrow> int32 \<Rightarrow> (vote_error, Vote option) result" where
  "VoteSet_GetByIndex voteSet valIndex = (case voteSet of None \<Rightarrow> Inr None | Some vs \<Rightarrow> at_index (vst_votes vs) valIndex)"

definition VoteSet_GetByAddress :: "VoteSet option \<Rightarrow> bytes \<Rightarrow> (vote_error, Vote option) result" where
  "VoteSet_GetByAddress voteSet address =
     (case voteSet of None \<Rightarrow> Inr None
      | Some vs \<Rightarrow> (case GetByAddress address (vst_valSet vs) of
          (_, None) \<Rightarrow> Inl (Panic ''GetByAddress(address) returned nil'')
        | (valIndex, Some _) \<Rightarrow> at_index (vst_votes vs) valIndex))"

definition HasTwoThirdsMajority :: "VoteSet option \<Rightarrow> bool" where
  "HasTwoThirdsMajority voteSet = (case voteSet of None \<Rightarrow> False | Some vs \<Rightarrow> vst_maj23 vs \<noteq> None)"

definition VoteSet_IsCommit :: "VoteSet option \<Rightarrow> bool" where
  "VoteSet_IsCommit voteSet =
     (case voteSet of None \<Rightarrow> False | Some vs \<Rightarrow> vst_signedMsgType vs = PrecommitType \<and> vst_maj23 vs \<noteq> None)"

definition HasTwoThirdsAny :: "VoteSet option \<Rightarrow> (vote_error, bool) result" where
  "HasTwoThirdsAny voteSet =
     (case voteSet of None \<Rightarrow> Inr False
      | Some vs \<Rightarrow> and_then (lift_fault (\<lambda>_. ErrVoteNil) (TotalVotingPower (vst_valSet vs))) (\<lambda>(tvp, _).
          Inr (vst_sum vs > wrap64 (tvp * 2) sdiv 3)))"

definition VoteSet_HasAll :: "VoteSet \<Rightarrow> (vote_error, bool) result" where
  "VoteSet_HasAll vs = and_then (lift_fault (\<lambda>_. ErrVoteNil) (TotalVotingPower (vst_valSet vs))) (\<lambda>(tvp, _). Inr (vst_sum vs = tvp))"

definition TwoThirdsMajority :: "VoteSet option \<Rightarrow> BlockID \<times> bool" where
  "TwoThirdsMajority voteSet =
     (case voteSet of None \<Rightarrow> (nil_BlockID, False)
      | Some vs \<Rightarrow> (case vst_maj23 vs of Some m \<Rightarrow> (m, True) | None \<Rightarrow> (nil_BlockID, False)))"

fun commit_sigs :: "BlockID \<Rightarrow> Vote option list \<Rightarrow> (basic_error, CommitSig list) result" where
  "commit_sigs maj23 [] = Inr []"
| "commit_sigs maj23 (v # rest) =
     and_then (Vote_CommitSig v) (\<lambda>commitSig.
     let commitSig = (if ForBlock commitSig \<and> (case v of None \<Rightarrow> False | Some vote \<Rightarrow> \<not> BlockID_Equals (v_BlockID vote) maj23)
                      then NewCommitSigAbsent else commitSig)
     in and_then (commit_sigs maj23 rest) (\<lambda>sigs. Inr (commitSig # sigs)))"

definition MakeCommit :: "VoteSet \<Rightarrow> (basic_error, Commit) result" where
  "MakeCommit vs =
     (if vst_signedMsgType vs \<noteq> PrecommitType then Inl (Panic ''Cannot MakeCommit() unless VoteSet.Type is PrecommitType'')
      else case vst_maj23 vs of
        None \<Rightarrow> Inl (Panic ''Cannot MakeCommit() unless a blockhash has +2/3'')
      | Some m \<Rightarrow> and_then (commit_sigs m (vst_votes vs)) (\<lambda>sigs. Inr (NewCommit (vst_height vs) (vst_round vs) m sigs)))"

fun add_commit_sigs :: "crypto \<Rightarrow> Commit \<Rightarrow> nat \<Rightarrow> CommitSig list \<Rightarrow> VoteSet \<Rightarrow> (vote_error, VoteSet) result" where
  "add_commit_sigs cr commit idx [] voteSet = Inr voteSet"
| "add_commit_sigs cr commit idx (commitSig # rest) voteSet =
     (if Absent commitSig then add_commit_sigs cr commit (Suc idx) rest voteSet
      else and_then (lift_fault (\<lambda>_. ErrVoteNil) (GetVote commit (wrap32 (int idx)))) (\<lambda>vote.
        and_then (AddVote cr (Some voteSet) (Some vote)) (\<lambda>(added, err, voteSet).
          if \<not> added \<or> err \<noteq> None then Inl (Panic ''Failed to reconstruct LastCommit'')
          else add_commit_sigs cr commit (Suc idx) rest voteSet)))"

definition CommitToVoteSet :: "crypto \<Rightarrow> bytes \<Rightarrow> Commit \<Rightarrow> ValidatorSet \<Rightarrow> (vote_error, VoteSet) result" where
  "CommitToVoteSet cr chainID commit vals =
     and_then (NewVoteSet chainID (c_Height commit) (c_Round commit) PrecommitType vals) (\<lambda>voteSet.
       add_commit_sigs cr commit 0 (c_Signatures commit) voteSet)"

section \<open>The invariant\<close>

text \<open>A slot list and its bit array agree.\<close>

definition bits_ok :: "BitArray option \<Rightarrow> 'a option list \<Rightarrow> bool" where
  "bits_ok bA xs \<longleftrightarrow> (case bA of None \<Rightarrow> xs = [] | Some a \<Rightarrow> ba_wf a \<and> bits_of a = map (\<lambda>x. x \<noteq> None) xs)"

lemma bits_ok_new: "bits_ok (NewBitArray (int n)) (replicate n None)"
proof (cases "n = 0")
  case False
  then show ?thesis using NewBitArray_spec [of "int n"] by (auto simp: bits_ok_def map_replicate_const)
qed (simp add: bits_ok_def NewBitArray_def)

lemma bits_ok_set:
  assumes "bits_ok bA xs" "i < length xs"
  shows "\<exists>bA'. set_bit_of bA (int i) = Inr bA' \<and> bits_ok bA' (xs[i := Some x])"
proof -
  obtain a where a: "bA = Some a" "ba_wf a" "bits_of a = map (\<lambda>x. x \<noteq> None) xs"
    using assms by (auto simp: bits_ok_def split: option.splits)
  obtain a' where "setIndex a (int i) True = Inr (i < nat (ba_Bits a), a')" "ba_wf a'" "bits_of a' = (bits_of a)[i := True]"
    using setIndex_spec [OF a(2)] by blast
  then show ?thesis
    using a by (auto simp: set_bit_of_def SetIndex_def lift_fault_def bits_ok_def map_update)
qed

lemma bits_ok_cong: "bits_ok bA xs \<Longrightarrow> map (\<lambda>x. x \<noteq> None) xs = map (\<lambda>x. x \<noteq> None) ys \<Longrightarrow> bits_ok bA ys"
  by (cases bA; cases xs; cases ys) (auto simp: bits_ok_def)

definition slot_power :: "ValidatorSet \<Rightarrow> 'a option list \<Rightarrow> int" where
  "slot_power vals xs = power_in vals {i. i < ValidatorSet_Size vals \<and> xs ! i \<noteq> None}"

lemma slot_power_new [simp]: "slot_power vals (replicate (ValidatorSet_Size vals) None) = 0"
  unfolding slot_power_def by (rule sum.neutral) auto

lemma slot_power_le: "vset_wf vals \<Longrightarrow> 0 \<le> slot_power vals xs \<and> slot_power vals xs \<le> all_power vals"
  unfolding slot_power_def by (intro power_in_le) auto

lemma slot_power_set:
  assumes "i < ValidatorSet_Size vals" "length xs = ValidatorSet_Size vals" "xs ! i = None"
  shows "slot_power vals (xs[i := Some x]) = slot_power vals xs + power_of vals i"
proof -
  have "{j. j < ValidatorSet_Size vals \<and> xs[i := Some x] ! j \<noteq> None} = insert i {j. j < ValidatorSet_Size vals \<and> xs ! j \<noteq> None}"
    using assms by (auto simp: nth_list_update)
  then show ?thesis using assms(3) by (simp add: slot_power_def add.commute)
qed

lemma slot_power_cong:
  "(\<And>i. i < ValidatorSet_Size vals \<Longrightarrow> (xs ! i \<noteq> None) = (ys ! i \<noteq> None)) \<Longrightarrow> slot_power vals xs = slot_power vals ys"
  unfolding slot_power_def by (rule arg_cong [where f = "power_in vals"]) auto

lemma slot_power_replace: "xs ! i \<noteq> None \<Longrightarrow> slot_power vals (xs[i := Some x]) = slot_power vals xs"
  by (rule slot_power_cong) (metis list_update_beyond not_le_imp_less nth_list_update option.distinct(1))

lemma slot_power_wrap:
  assumes "vset_wf vals" "i < ValidatorSet_Size vals" "length xs = ValidatorSet_Size vals" "xs ! i = None"
  shows "wrap64 (slot_power vals xs + power_of vals i) = slot_power vals (xs[i := Some x])"
  using slot_power_le [OF assms(1), of "xs[i := Some x]"] all_power_bounds [OF assms(1)] slot_power_set [OF assms(2-4), of x]
  by (simp add: wrap64_idI int_limits MaxTotalVotingPower_eq)

text \<open>A vote that belongs in slot \<open>i\<close> of a vote set: right step, right validator, verified signature, proper block.\<close>

definition vote_ok :: "crypto \<Rightarrow> VoteSet \<Rightarrow> nat \<Rightarrow> Vote \<Rightarrow> bool" where
  "vote_ok cr vs i v \<longleftrightarrow> v_ValidatorIndex v = int i \<and> v_Height v = vst_height vs \<and> v_Round v = vst_round vs \<and>
     v_Type v = vst_signedMsgType vs \<and> v_ValidatorAddress v = val_Address (vs_Validators (vst_valSet vs) ! i) \<and>
     v_ValidatorAddress v \<noteq> [] \<and> proper_BlockID (v_BlockID v) \<and>
     (\<exists>pk. val_PubKey (vs_Validators (vst_valSet vs) ! i) = Some pk \<and> Vote_Verify cr (vst_chainID vs) pk v = Inr ())"

abbreviation vst_size :: "VoteSet \<Rightarrow> nat" where
  "vst_size vs \<equiv> ValidatorSet_Size (vst_valSet vs)"

definition slots_ok :: "crypto \<Rightarrow> VoteSet \<Rightarrow> BitArray option \<Rightarrow> Vote option list \<Rightarrow> int64 \<Rightarrow> bool" where
  "slots_ok cr vs bA votes tot \<longleftrightarrow> length votes = vst_size vs \<and> bits_ok bA votes \<and>
     (\<forall>i < vst_size vs. \<forall>v. votes ! i = Some v \<longrightarrow> vote_ok cr vs i v) \<and> tot = slot_power (vst_valSet vs) votes"

definition block_ok :: "crypto \<Rightarrow> VoteSet \<Rightarrow> bytes \<Rightarrow> blockVotes \<Rightarrow> bool" where
  "block_ok cr vs k bv \<longleftrightarrow> slots_ok cr vs (bv_bitArray bv) (bv_votes bv) (bv_sum bv) \<and>
     (\<forall>i < vst_size vs. \<forall>v. bv_votes bv ! i = Some v \<longrightarrow> BlockID_Key (v_BlockID v) = k \<and> vst_votes vs ! i \<noteq> None)"

definition tracked :: "VoteSet \<Rightarrow> nat \<Rightarrow> bool" where
  "tracked vs i \<longleftrightarrow> (\<forall>v. vst_votes vs ! i = Some v \<longrightarrow>
     (\<exists>bv. vst_votesByBlock vs (BlockID_Key (v_BlockID v)) = Some bv \<and> bv_votes bv ! i = Some v))"

definition majority_ok :: "VoteSet \<Rightarrow> bool" where
  "majority_ok vs \<longleftrightarrow> (\<forall>m. vst_maj23 vs = Some m \<longrightarrow> proper_BlockID m \<and>
     (\<exists>bv. vst_votesByBlock vs (BlockID_Key m) = Some bv \<and> 2 * all_power (vst_valSet vs) < 3 * bv_sum bv \<and>
        (\<forall>i < vst_size vs. bv_votes bv ! i \<noteq> None \<longrightarrow> (\<exists>w. vst_votes vs ! i = Some w \<and> v_BlockID w = m))))"

definition no_majority_ok :: "nat set \<Rightarrow> VoteSet \<Rightarrow> bool" where
  "no_majority_ok except vs \<longleftrightarrow> (vst_maj23 vs = None \<longrightarrow>
     (\<forall>k bv. vst_votesByBlock vs k = Some bv \<longrightarrow> 3 * bv_sum bv \<le> 2 * all_power (vst_valSet vs)) \<and>
     (\<forall>i < vst_size vs. i \<notin> except \<longrightarrow> tracked vs i))"

definition inv_upto :: "crypto \<Rightarrow> nat set \<Rightarrow> VoteSet \<Rightarrow> bool" where
  "inv_upto cr except vs \<longleftrightarrow> vset_wf (vst_valSet vs) \<and>
     slots_ok cr vs (vst_votesBitArray vs) (vst_votes vs) (vst_sum vs) \<and>
     (\<forall>k bv. vst_votesByBlock vs k = Some bv \<longrightarrow> block_ok cr vs k bv) \<and>
     majority_ok vs \<and> no_majority_ok except vs"

abbreviation vote_set_inv :: "crypto \<Rightarrow> VoteSet \<Rightarrow> bool" where
  "vote_set_inv cr \<equiv> inv_upto cr {}"

lemma NewVoteSet_inv:
  assumes "vset_wf vals" "NewVoteSet chainID h r t vals = Inr vs"
  shows "vote_set_inv cr vs"
  using assms bits_ok_new [of "ValidatorSet_Size vals"]
  by (auto simp: NewVoteSet_def inv_upto_def slots_ok_def majority_ok_def no_majority_ok_def tracked_def split: if_splits)

lemma at_index_nat [simp]: "i < length xs \<Longrightarrow> at_index xs (int i) = Inr (xs ! i)"
  by (simp add: at_index_def)

lemma slots_ok_set:
  assumes "slots_ok cr vs bA votes tot" "i < vst_size vs" "votes ! i = None" "vote_ok cr vs i v" "vset_wf (vst_valSet vs)"
  shows "\<exists>bA'. set_bit_of bA (int i) = Inr bA' \<and> slots_ok cr vs bA' (votes[i := Some v]) (wrap64 (tot + power_of (vst_valSet vs) i))"
proof -
  have l: "length votes = vst_size vs" "i < length votes" using assms(1,2) by (auto simp: slots_ok_def)
  obtain bA' where "set_bit_of bA (int i) = Inr bA'" "bits_ok bA' (votes[i := Some v])"
    using bits_ok_set [OF _ l(2)] assms(1) unfolding slots_ok_def by blast
  moreover have "\<forall>j < vst_size vs. \<forall>w. votes[i := Some v] ! j = Some w \<longrightarrow> vote_ok cr vs j w"
    using assms(1,2,4) l by (auto simp: slots_ok_def nth_list_update)
  ultimately show ?thesis
    using slot_power_wrap [OF assms(5,2) l(1) assms(3), of v] assms(1) l(1) by (auto simp: slots_ok_def)
qed

lemma slots_ok_replace:
  assumes "slots_ok cr vs bA votes tot" "i < vst_size vs" "votes ! i \<noteq> None" "vote_ok cr vs i v"
  shows "\<exists>bA'. set_bit_of bA (int i) = Inr bA' \<and> slots_ok cr vs bA' (votes[i := Some v]) tot"
proof -
  have l: "length votes = vst_size vs" "i < length votes" using assms(1,2) by (auto simp: slots_ok_def)
  obtain bA' where "set_bit_of bA (int i) = Inr bA'" "bits_ok bA' (votes[i := Some v])"
    using bits_ok_set [OF _ l(2)] assms(1) unfolding slots_ok_def by blast
  moreover have "\<forall>j < vst_size vs. \<forall>w. votes[i := Some v] ! j = Some w \<longrightarrow> vote_ok cr vs j w"
    using assms(1,2,4) l by (auto simp: slots_ok_def nth_list_update)
  ultimately show ?thesis
    using slot_power_replace [of votes i "vst_valSet vs" v] assms(1,3) l(1) by (auto simp: slots_ok_def)
qed

text \<open>The invariant speaks about fixed fields and slots only, so it carries over to sets that agree on them.\<close>

lemma vote_ok_frame:
  "vst_height vs' = vst_height vs \<Longrightarrow> vst_round vs' = vst_round vs \<Longrightarrow> vst_signedMsgType vs' = vst_signedMsgType vs \<Longrightarrow>
   vst_valSet vs' = vst_valSet vs \<Longrightarrow> vst_chainID vs' = vst_chainID vs \<Longrightarrow> vote_ok cr vs' = vote_ok cr vs"
  by (intro ext) (simp add: vote_ok_def)

definition same_step :: "VoteSet \<Rightarrow> VoteSet \<Rightarrow> bool" where
  "same_step vs' vs \<longleftrightarrow> vst_height vs' = vst_height vs \<and> vst_round vs' = vst_round vs \<and> vst_signedMsgType vs' = vst_signedMsgType vs \<and>
     vst_valSet vs' = vst_valSet vs \<and> vst_chainID vs' = vst_chainID vs"

lemma same_step_slots: "same_step vs' vs \<Longrightarrow> slots_ok cr vs' = slots_ok cr vs"
  using vote_ok_frame [of vs' vs cr] by (intro ext) (simp add: same_step_def slots_ok_def)

lemma same_step_refl [simp]: "same_step vs vs"
  by (simp add: same_step_def)

lemma same_step_trans: "same_step a b \<Longrightarrow> same_step b c \<Longrightarrow> same_step a c"
  by (simp add: same_step_def)

lemma quorum_exact:
  assumes "vset_wf vals"
  shows "wrap64 (wrap64 (all_power vals * 2) sdiv 3 + 1) \<le> got \<longleftrightarrow> 2 * all_power vals < 3 * got"
proof -
  have "2 * all_power vals < 3 * (all_power vals + 1)" using all_power_bounds [OF assms] by simp
  then have "wrap64 (all_power vals * 2) sdiv 3 \<le> all_power vals" using two_thirds(2) [OF assms, of "all_power vals + 1"] by simp
  then have "wrap64 (wrap64 (all_power vals * 2) sdiv 3 + 1) = wrap64 (all_power vals * 2) sdiv 3 + 1"
    using two_thirds(1) [OF assms] all_power_bounds [OF assms] by (intro wrap64_idI) (simp_all add: int_limits MaxTotalVotingPower_eq)
  then show ?thesis using two_thirds(2) [OF assms, of got] by linarith
qed

lemma blockVotes_addVerifiedVote_new:
  assumes "block_ok cr vs k bv" "vset_wf (vst_valSet vs)" "i < vst_size vs" "bv_votes bv ! i = None" "vote_ok cr vs i v"
    and "BlockID_Key (v_BlockID v) = k" "vst_votes vs ! i \<noteq> None"
  shows "\<exists>bv'. blockVotes_addVerifiedVote bv v (power_of (vst_valSet vs) i) = Inr bv' \<and> block_ok cr vs k bv' \<and>
    bv_votes bv' = (bv_votes bv)[i := Some v] \<and> bv_peerMaj23 bv' = bv_peerMaj23 bv"
proof -
  have s: "slots_ok cr vs (bv_bitArray bv) (bv_votes bv) (bv_sum bv)" and l: "length (bv_votes bv) = vst_size vs"
    using assms(1) by (auto simp: block_ok_def slots_ok_def)
  have idx: "v_ValidatorIndex v = int i" using assms(5) by (simp add: vote_ok_def)
  obtain bA' where b: "set_bit_of (bv_bitArray bv) (int i) = Inr bA'"
      "slots_ok cr vs bA' ((bv_votes bv)[i := Some v]) (wrap64 (bv_sum bv + power_of (vst_valSet vs) i))"
    using slots_ok_set [OF s assms(3,4,5,2)] by blast
  have "\<forall>j < vst_size vs. \<forall>w. (bv_votes bv)[i := Some v] ! j = Some w \<longrightarrow> BlockID_Key (v_BlockID w) = k \<and> vst_votes vs ! j \<noteq> None"
    using assms(1,3,6,7) l by (auto simp: block_ok_def nth_list_update)
  with b show ?thesis
    using assms(3,4) l by (simp add: blockVotes_addVerifiedVote_def idx block_ok_def)
qed

lemma copy_votes_nth: "length xs = length ys \<Longrightarrow> i < length xs \<Longrightarrow> copy_votes xs ys ! i = (if xs ! i = None then ys ! i else xs ! i)"
  by (simp add: copy_votes_def)

lemma length_copy_votes [simp]: "length (copy_votes xs ys) = min (length xs) (length ys)"
  by (simp add: copy_votes_def)

lemma slots_ok_copy:
  assumes "slots_ok cr vs bA votes tot" "slots_ok cr vs bA' bvotes tot'"
    and "\<forall>i < vst_size vs. bvotes ! i \<noteq> None \<longrightarrow> votes ! i \<noteq> None"
  shows "slots_ok cr vs bA (copy_votes bvotes votes) tot"
proof -
  have l: "length votes = vst_size vs" "length bvotes = vst_size vs" using assms(1,2) by (auto simp: slots_ok_def)
  have none: "(copy_votes bvotes votes ! i \<noteq> None) = (votes ! i \<noteq> None)" if "i < vst_size vs" for i
    using that assms(3) l copy_votes_nth [of bvotes votes i] by auto
  then have "map (\<lambda>x. x \<noteq> None) votes = map (\<lambda>x. x \<noteq> None) (copy_votes bvotes votes)"
    using l by (intro nth_equalityI) auto
  then have "bits_ok bA (copy_votes bvotes votes)" using bits_ok_cong assms(1) by (auto simp: slots_ok_def)
  moreover have "slot_power (vst_valSet vs) (copy_votes bvotes votes) = slot_power (vst_valSet vs) votes"
    using none by (intro slot_power_cong) auto
  moreover have "\<forall>i < vst_size vs. \<forall>v. copy_votes bvotes votes ! i = Some v \<longrightarrow> vote_ok cr vs i v"
    using assms(1,2) l copy_votes_nth [of bvotes votes] by (auto simp: slots_ok_def split: if_splits)
  ultimately show ?thesis using assms(1) l by (simp add: slots_ok_def)
qed

lemma block_ok_new: "block_ok cr vs k (newBlockVotes p (vst_size vs))"
  using bits_ok_new by (auto simp: block_ok_def newBlockVotes_def slots_ok_def)

lemma block_ok_votes:
  assumes "block_ok cr vs k bv" "same_step vs' vs" "\<forall>i < vst_size vs. vst_votes vs ! i \<noteq> None \<longrightarrow> vst_votes vs' ! i \<noteq> None"
  shows "block_ok cr vs' k bv"
  using assms same_step_slots [OF assms(2)] by (auto simp: block_ok_def same_step_def)

lemma block_ok_length: "block_ok cr vs k bv \<Longrightarrow> length (bv_votes bv) = vst_size vs"
  by (simp add: block_ok_def slots_ok_def)

lemma block_ok_sum: "block_ok cr vs k bv \<Longrightarrow> bv_sum bv = slot_power (vst_valSet vs) (bv_votes bv)"
  by (simp add: block_ok_def slots_ok_def)

lemma block_ok_same_block:
  assumes "block_ok cr vs (BlockID_Key b) bv" "proper_BlockID b" "j < vst_size vs" "bv_votes bv ! j = Some w"
  shows "v_BlockID w = b"
  using assms by (auto simp: block_ok_def slots_ok_def vote_ok_def intro!: BlockID_Key_inject)

text \<open>The two outcomes of counting a vote: its block gets the majority, or nothing but the count changes.\<close>

lemma majority_reached_inv:
  assumes "vset_wf (vst_valSet vs)" "slots_ok cr vs (vst_votesBitArray vs) (vst_votes vs) (vst_sum vs)"
    and blocks: "\<forall>q b. vst_votesByBlock vs q = Some b \<longrightarrow> block_ok cr vs q b"
    and bv: "vst_votesByBlock vs (BlockID_Key m) = Some bv" "proper_BlockID m" "2 * all_power (vst_valSet vs) < 3 * bv_sum bv"
  shows "vote_set_inv cr (vs\<lparr>vst_maj23 := Some m, vst_votes := copy_votes (bv_votes bv) (vst_votes vs)\<rparr>)" (is "vote_set_inv cr ?vc")
proof -
  have ok: "block_ok cr vs (BlockID_Key m) bv" using blocks bv(1) by blast
  have sub: "\<forall>j < vst_size vs. bv_votes bv ! j \<noteq> None \<longrightarrow> vst_votes vs ! j \<noteq> None" using ok by (auto simp: block_ok_def)
  have len: "length (bv_votes bv) = vst_size vs" "length (vst_votes vs) = vst_size vs"
    using block_ok_length [OF ok] assms(2) by (auto simp: slots_ok_def)
  have st: "same_step ?vc vs" by (simp add: same_step_def)
  have "slots_ok cr vs (bv_bitArray bv) (bv_votes bv) (bv_sum bv)" using ok by (simp add: block_ok_def)
  from slots_ok_copy [OF assms(2) this sub]
  have s: "slots_ok cr ?vc (vst_votesBitArray ?vc) (vst_votes ?vc) (vst_sum ?vc)" using same_step_slots [OF st] by simp
  have kept: "\<forall>j < vst_size vs. vst_votes vs ! j \<noteq> None \<longrightarrow> vst_votes ?vc ! j \<noteq> None" using len by (simp add: copy_votes_nth)
  have b: "\<forall>q b. vst_votesByBlock ?vc q = Some b \<longrightarrow> block_ok cr ?vc q b"
    using blocks block_ok_votes [OF _ st kept] by simp
  have "\<exists>w. copy_votes (bv_votes bv) (vst_votes vs) ! j = Some w \<and> v_BlockID w = m"
    if "j < vst_size vs" "bv_votes bv ! j \<noteq> None" for j
    using that len block_ok_same_block [OF ok bv(2) that(1)] by (auto simp: copy_votes_nth)
  then have "majority_ok ?vc" using bv by (simp add: majority_ok_def)
  with s b assms(1) show ?thesis by (simp add: inv_upto_def no_majority_ok_def)
qed

lemma vote_counted_inv:
  assumes inv: "inv_upto cr X vs" and X: "X \<subseteq> {i}" "i \<in> X \<longrightarrow> vst_votes vs ! i = Some v"
    and i: "i < vst_size vs" "k = BlockID_Key (v_BlockID v)"
    and old: "\<forall>bv. vst_votesByBlock vs k = Some bv \<longrightarrow> bv_votes bv ! i = None \<and> bv_sum bv \<le> bv_sum bv' \<and> bv_votes bv' = (bv_votes bv)[i := Some v]"
    and bv': "block_ok cr vs k bv'" "bv_votes bv' ! i = Some v" "vst_maj23 vs = None \<longrightarrow> 3 * bv_sum bv' \<le> 2 * all_power (vst_valSet vs)"
    and maj: "\<forall>m. vst_maj23 vs = Some m \<and> BlockID_Key m = k \<longrightarrow> (\<exists>w. vst_votes vs ! i = Some w \<and> v_BlockID w = m)"
  shows "vote_set_inv cr (vs\<lparr>vst_votesByBlock := (vst_votesByBlock vs)(k \<mapsto> bv')\<rparr>)" (is "vote_set_inv cr ?vs")
proof -
  have st: "same_step ?vs vs" by (simp add: same_step_def)
  have len: "length (bv_votes bv') = vst_size vs" using block_ok_length [OF bv'(1)] .
  have "block_ok cr ?vs q b" if "((vst_votesByBlock vs)(k \<mapsto> bv')) q = Some b" for q b
    using that inv bv'(1) by (intro block_ok_votes [OF _ st]) (auto simp: inv_upto_def split: if_splits)
  moreover have "majority_ok ?vs"
    unfolding majority_ok_def
  proof (intro allI impI)
    fix m assume m: "vst_maj23 ?vs = Some m"
    then obtain b where b: "proper_BlockID m" "vst_votesByBlock vs (BlockID_Key m) = Some b" "2 * all_power (vst_valSet vs) < 3 * bv_sum b"
        "\<forall>i < vst_size vs. bv_votes b ! i \<noteq> None \<longrightarrow> (\<exists>w. vst_votes vs ! i = Some w \<and> v_BlockID w = m)"
      using inv unfolding inv_upto_def majority_ok_def by auto
    have "\<exists>w. vst_votes vs ! j = Some w \<and> v_BlockID w = m" if "BlockID_Key m = k" "j < vst_size vs" "bv_votes bv' ! j \<noteq> None" for j
    proof (cases "j = i")
      case True
      then show ?thesis using maj m that(1) by simp
    next
      case False
      then have "bv_votes bv' ! j = bv_votes b ! j" using old b(2) that(1) by auto
      then show ?thesis using b(4) that(2,3) by simp
    qed
    moreover have "2 * all_power (vst_valSet vs) < 3 * bv_sum bv'" if "BlockID_Key m = k"
      using old b(2,3) that by fastforce
    ultimately show "proper_BlockID m \<and> (\<exists>bv. vst_votesByBlock ?vs (BlockID_Key m) = Some bv \<and> 2 * all_power (vst_valSet ?vs) < 3 * bv_sum bv \<and>
      (\<forall>i < vst_size ?vs. bv_votes bv ! i \<noteq> None \<longrightarrow> (\<exists>w. vst_votes ?vs ! i = Some w \<and> v_BlockID w = m)))"
      using b by (cases "BlockID_Key m = k") auto
  qed
  moreover have "tracked ?vs j" if none: "vst_maj23 vs = None" and j: "j < vst_size vs" for j
  proof (cases "j = i")
    case True
    have "tracked vs i \<or> vst_votes vs ! i = Some v"
      using inv X none i(1) unfolding inv_upto_def no_majority_ok_def by blast
    then show ?thesis using True bv'(2) i(2) old len i(1) by (auto simp: tracked_def nth_list_update)
  next
    case False
    then have "tracked vs j" using inv X none j unfolding inv_upto_def no_majority_ok_def by blast
    then show ?thesis using False old by (auto simp: tracked_def)
  qed
  then have "no_majority_ok {} ?vs"
    using inv bv'(3) by (auto simp: no_majority_ok_def inv_upto_def)
  ultimately show ?thesis using inv same_step_slots [OF st] by (simp add: inv_upto_def)
qed

lemma tally_block_inv:
  assumes inv: "inv_upto cr X vs" and X: "X \<subseteq> {i}" "i \<in> X \<longrightarrow> vst_votes vs ! i = Some v"
    and i: "i < vst_size vs" "vote_ok cr vs i v" "k = BlockID_Key (v_BlockID v)"
    and bv: "vst_votesByBlock vs k = Some bv \<or> vst_votesByBlock vs k = None \<and> bv = newBlockVotes False (vst_size vs)"
    and slot: "bv_votes bv ! i = None" "vst_votes vs ! i \<noteq> None"
    and maj: "\<forall>m. vst_maj23 vs = Some m \<and> BlockID_Key m = k \<longrightarrow> (\<exists>w. vst_votes vs ! i = Some w \<and> v_BlockID w = m)"
  shows "\<exists>vs' bv'. tally_block vs v k (power_of (vst_valSet vs) i) bv = Inr vs' \<and> vote_set_inv cr vs' \<and> same_step vs' vs \<and>
    (vst_maj23 vs \<noteq> None \<longrightarrow> vst_maj23 vs' = vst_maj23 vs) \<and>
    bv_votes bv' = (bv_votes bv)[i := Some v] \<and> bv_peerMaj23 bv' = bv_peerMaj23 bv \<and> vst_votesByBlock vs' = (vst_votesByBlock vs)(k \<mapsto> bv') \<and>
    (vst_votes vs' = vst_votes vs \<or> vst_votes vs' = copy_votes (bv_votes bv') (vst_votes vs))"
proof -
  have wf: "vset_wf (vst_valSet vs)" and slots: "slots_ok cr vs (vst_votesBitArray vs) (vst_votes vs) (vst_sum vs)"
    and blocks: "\<forall>q b. vst_votesByBlock vs q = Some b \<longrightarrow> block_ok cr vs q b"
    using inv by (simp_all add: inv_upto_def)
  have ok: "block_ok cr vs k bv" using bv blocks block_ok_new by blast
  obtain bv' where bv': "blockVotes_addVerifiedVote bv v (power_of (vst_valSet vs) i) = Inr bv'" "block_ok cr vs k bv'"
      "bv_votes bv' = (bv_votes bv)[i := Some v]" "bv_peerMaj23 bv' = bv_peerMaj23 bv"
    using blockVotes_addVerifiedVote_new [OF ok wf i(1) slot(1) i(2) i(3) [symmetric] slot(2)] by blast
  have lb: "length (bv_votes bv) = vst_size vs" using block_ok_length [OF ok] .
  have mono: "bv_sum bv \<le> bv_sum bv'"
    using slot_power_set [OF i(1) lb slot(1), of v] voters.weight_pos [OF wf i(1)]
    by (simp add: block_ok_sum [OF ok] block_ok_sum [OF bv'(2)] bv'(3))
  let ?vs = "vs\<lparr>vst_votesByBlock := (vst_votesByBlock vs)(k \<mapsto> bv')\<rparr>"
  let ?P = "all_power (vst_valSet vs)"
  have st: "same_step ?vs vs" by (simp add: same_step_def)
  have low: "3 * bv_sum bv \<le> 2 * ?P" if "vst_maj23 vs = None"
    using bv inv that all_power_bounds [OF wf] by (auto simp: newBlockVotes_def inv_upto_def no_majority_ok_def)
  let ?vc = "?vs\<lparr>vst_maj23 := Some (v_BlockID v), vst_votes := copy_votes (bv_votes bv') (vst_votes vs)\<rparr>"
  let ?q = "wrap64 (wrap64 (?P * 2) sdiv 3 + 1)"
  have cond: "(bv_sum bv < ?q \<and> ?q \<le> bv_sum bv' \<and> vst_maj23 vs = None) = (2 * ?P < 3 * bv_sum bv' \<and> vst_maj23 vs = None)"
    using quorum_exact [OF wf, of "bv_sum bv"] quorum_exact [OF wf, of "bv_sum bv'"] low by (auto simp: not_le [symmetric])
  have res: "tally_block vs v k (power_of (vst_valSet vs) i) bv = Inr (if 2 * ?P < 3 * bv_sum bv' \<and> vst_maj23 vs = None then ?vc else ?vs)"
    using bv'(1) TotalVotingPower_wf [OF wf] cond by (simp add: tally_block_def lift_fault_def Let_def)
  have crossed: "vote_set_inv cr ?vc" if "2 * ?P < 3 * bv_sum bv'"
  proof -
    have "\<forall>q b. vst_votesByBlock ?vs q = Some b \<longrightarrow> block_ok cr ?vs q b"
      using blocks bv'(2) by (auto intro!: block_ok_votes [OF _ st])
    then have "vote_set_inv cr (?vs\<lparr>vst_maj23 := Some (v_BlockID v), vst_votes := copy_votes (bv_votes bv') (vst_votes ?vs)\<rparr>)"
      using wf slots same_step_slots [OF st] that i by (intro majority_reached_inv) (auto simp: vote_ok_def)
    then show ?thesis by simp
  qed
  have counted: "vote_set_inv cr ?vs" if "\<not> (2 * ?P < 3 * bv_sum bv' \<and> vst_maj23 vs = None)"
    using that bv bv' mono lb i(1) slot(1) by (intro vote_counted_inv [OF inv X i(1,3)]) (use maj in \<open>auto simp: not_less\<close>)
  show ?thesis
  proof (cases "2 * ?P < 3 * bv_sum bv' \<and> vst_maj23 vs = None")
    case True
    then have "tally_block vs v k (power_of (vst_valSet vs) i) bv = Inr ?vc" using res by simp
    with True crossed bv'(3,4) show ?thesis by (intro exI [of _ ?vc] exI [of _ bv']) (simp add: same_step_def)
  next
    case False
    then have "tally_block vs v k (power_of (vst_valSet vs) i) bv = Inr ?vs" using res by (simp only: if_False)
    with False counted bv'(3,4) show ?thesis by (intro exI [of _ ?vs] exI [of _ bv']) (simp add: same_step_def)
  qed
qed

lemma inv_block: "inv_upto cr X vs \<Longrightarrow> vst_votesByBlock vs k = Some bv \<Longrightarrow> block_ok cr vs k bv"
  by (simp add: inv_upto_def)

lemma getVote_None:
  assumes "inv_upto cr X vs" "i < vst_size vs" "getVote vs (int i) k = Inr None"
  shows "\<forall>v. vst_votes vs ! i = Some v \<longrightarrow> BlockID_Key (v_BlockID v) \<noteq> k" "\<forall>bv. vst_votesByBlock vs k = Some bv \<longrightarrow> bv_votes bv ! i = None"
proof -
  have l: "length (vst_votes vs) = vst_size vs" using assms(1) by (simp add: inv_upto_def slots_ok_def)
  have b: "length (bv_votes bv) = vst_size vs" if "vst_votesByBlock vs k = Some bv" for bv
    using block_ok_length [OF inv_block [OF assms(1) that]] .
  show "\<forall>v. vst_votes vs ! i = Some v \<longrightarrow> BlockID_Key (v_BlockID v) \<noteq> k" "\<forall>bv. vst_votesByBlock vs k = Some bv \<longrightarrow> bv_votes bv ! i = None"
    using assms(2,3) l b by (auto simp: getVote_def blockVotes_getByIndex_def split: option.splits if_splits)
qed

lemma getVote_total:
  assumes "inv_upto cr X vs" "i < vst_size vs"
  shows "\<exists>e. getVote vs (int i) k = Inr e"
proof -
  have "length (vst_votes vs) = vst_size vs" using assms(1) by (simp add: inv_upto_def slots_ok_def)
  moreover have "length (bv_votes bv) = vst_size vs" if "vst_votesByBlock vs k = Some bv" for bv
    using block_ok_length [OF inv_block [OF assms(1) that]] .
  ultimately show ?thesis using assms(2) by (auto simp: getVote_def blockVotes_getByIndex_def split: option.splits)
qed

text \<open>Writing the vote into its canonical slot, before it is counted for its block.\<close>

lemma slot_written_inv:
  assumes inv: "vote_set_inv cr vs" and i: "i < vst_size vs" "vote_ok cr vs i v"
    and new: "slots_ok cr vs bA ((vst_votes vs)[i := Some v]) tot" "vst_votes vs ! i = None \<or> vst_maj23 vs = Some (v_BlockID v)"
    and bv: "\<forall>bv. vst_votesByBlock vs (BlockID_Key (v_BlockID v)) = Some bv \<longrightarrow> bv_votes bv ! i = None"
  shows "inv_upto cr {i} (vs\<lparr>vst_votes := (vst_votes vs)[i := Some v], vst_votesBitArray := bA, vst_sum := tot\<rparr>)" (is "inv_upto cr {i} ?vs")
proof -
  have st: "same_step ?vs vs" by (simp add: same_step_def)
  have l: "length (vst_votes vs) = vst_size vs" using inv by (simp add: inv_upto_def slots_ok_def)
  have "\<forall>q b. vst_votesByBlock ?vs q = Some b \<longrightarrow> block_ok cr ?vs q b"
    using inv l i(1) by (auto simp: inv_upto_def nth_list_update intro!: block_ok_votes [OF _ st])
  moreover have "majority_ok ?vs"
    unfolding majority_ok_def
  proof (intro allI impI)
    fix m assume m: "vst_maj23 ?vs = Some m"
    then obtain b where b: "proper_BlockID m" "vst_votesByBlock vs (BlockID_Key m) = Some b" "2 * all_power (vst_valSet vs) < 3 * bv_sum b"
        "\<forall>i < vst_size vs. bv_votes b ! i \<noteq> None \<longrightarrow> (\<exists>w. vst_votes vs ! i = Some w \<and> v_BlockID w = m)"
      using inv unfolding inv_upto_def majority_ok_def by auto
    have "bv_votes b ! i = None"
      using new(2) b(2,4) bv m i(1) by (cases "vst_votes vs ! i = None") auto
    then have "\<exists>w. vst_votes ?vs ! j = Some w \<and> v_BlockID w = m" if "j < vst_size vs" "bv_votes b ! j \<noteq> None" for j
      using that b(4) l by (cases "j = i") auto
    then show "proper_BlockID m \<and> (\<exists>bv. vst_votesByBlock ?vs (BlockID_Key m) = Some bv \<and> 2 * all_power (vst_valSet ?vs) < 3 * bv_sum bv \<and>
      (\<forall>i < vst_size ?vs. bv_votes bv ! i \<noteq> None \<longrightarrow> (\<exists>w. vst_votes ?vs ! i = Some w \<and> v_BlockID w = m)))"
      using b(1-3) by auto
  qed
  moreover have "no_majority_ok {i} ?vs"
    using inv by (auto simp: inv_upto_def no_majority_ok_def tracked_def nth_list_update)
  ultimately show ?thesis using inv new(1) same_step_slots [OF st] by (simp add: inv_upto_def)
qed

definition recorded :: "crypto \<Rightarrow> VoteSet \<Rightarrow> nat \<Rightarrow> Vote \<Rightarrow> nat set \<Rightarrow> VoteSet \<Rightarrow> bool" where
  "recorded cr vs i v X w \<longleftrightarrow> inv_upto cr X w \<and> X \<subseteq> {i} \<and> (i \<in> X \<longrightarrow> vst_votes w ! i = Some v) \<and>
     vst_votes w ! i \<noteq> None \<and> same_step w vs \<and> vst_maj23 w = vst_maj23 vs \<and> vst_votesByBlock w = vst_votesByBlock vs \<and>
     (\<forall>m. vst_maj23 w = Some m \<and> BlockID_Key m = BlockID_Key (v_BlockID v) \<longrightarrow> (\<exists>u. vst_votes w ! i = Some u \<and> v_BlockID u = m))"

lemma record_vote_inv:
  assumes inv: "vote_set_inv cr vs" and i: "i < vst_size vs" "vote_ok cr vs i v"
    and new: "getVote vs (int i) (BlockID_Key (v_BlockID v)) = Inr None"
  shows "\<exists>w X. record_vote vs v (BlockID_Key (v_BlockID v)) (power_of (vst_valSet vs) i) = Inr (vst_votes vs ! i, w) \<and>
    recorded cr vs i v X w \<and> (vst_votes vs ! i \<noteq> None \<longrightarrow> vote_set_inv cr w) \<and> (vst_votes vs ! i = None \<longrightarrow> vst_votes w = (vst_votes vs)[i := Some v])"
proof -
  let ?k = "BlockID_Key (v_BlockID v)" and ?p = "power_of (vst_valSet vs) i"
  have idx: "v_ValidatorIndex v = int i" and pr: "proper_BlockID (v_BlockID v)" using i(2) by (simp_all add: vote_ok_def)
  have wf: "vset_wf (vst_valSet vs)" and slots: "slots_ok cr vs (vst_votesBitArray vs) (vst_votes vs) (vst_sum vs)"
    and l: "length (vst_votes vs) = vst_size vs" using inv by (auto simp: inv_upto_def slots_ok_def)
  note none = getVote_None [OF inv i(1) new]
  have same: "v_BlockID v = m" if "vst_maj23 vs = Some m" "BlockID_Key m = ?k" for m
    using that inv pr by (intro BlockID_Key_inject) (auto simp: inv_upto_def majority_ok_def)
  have written: "recorded cr vs i v {i} (vs\<lparr>vst_votes := (vst_votes vs)[i := Some v], vst_votesBitArray := bA, vst_sum := tot\<rparr>)"
    if "slots_ok cr vs bA ((vst_votes vs)[i := Some v]) tot" "vst_votes vs ! i = None \<or> vst_maj23 vs = Some (v_BlockID v)" for bA tot
    using slot_written_inv [OF inv i that none(2)] same l i(1) by (auto simp: recorded_def same_step_def)
  show ?thesis
  proof (cases "vst_votes vs ! i")
    case None
    obtain bA where bA: "set_bit_of (vst_votesBitArray vs) (int i) = Inr bA"
        "slots_ok cr vs bA ((vst_votes vs)[i := Some v]) (wrap64 (vst_sum vs + ?p))"
      using slots_ok_set [OF slots i(1) None i(2) wf] by blast
    let ?w = "vs\<lparr>vst_votes := (vst_votes vs)[i := Some v], vst_votesBitArray := bA, vst_sum := wrap64 (vst_sum vs + ?p)\<rparr>"
    have "record_vote vs v ?k ?p = Inr (None, ?w)" using None bA(1) l i(1) by (simp add: record_vote_def idx)
    moreover have "recorded cr vs i v {i} ?w" using written [OF bA(2)] None by blast
    ultimately show ?thesis using None by (intro exI [of _ ?w] exI [of _ "{i}"]) simp
  next
    case (Some e)
    have ne: "v_BlockID e \<noteq> v_BlockID v" using none(1) Some by auto
    show ?thesis
    proof (cases "\<exists>m. vst_maj23 vs = Some m \<and> BlockID_Key m = ?k")
      case True
      then have m: "vst_maj23 vs = Some (v_BlockID v)" using same by blast
      obtain bA where bA: "set_bit_of (vst_votesBitArray vs) (int i) = Inr bA" "slots_ok cr vs bA ((vst_votes vs)[i := Some v]) (vst_sum vs)"
        using slots_ok_replace [OF slots i(1) _ i(2)] Some by blast
      let ?w = "vs\<lparr>vst_votes := (vst_votes vs)[i := Some v], vst_votesBitArray := bA, vst_sum := vst_sum vs\<rparr>"
      have "record_vote vs v ?k ?p = Inr (Some e, ?w)" using Some bA(1) l i(1) m ne by (simp add: record_vote_def idx)
      moreover have r: "recorded cr vs i v {i} ?w" using written [OF bA(2)] m by blast
      moreover have "vote_set_inv cr ?w" using r m by (simp add: recorded_def inv_upto_def no_majority_ok_def)
      ultimately show ?thesis using Some by (intro exI [of _ ?w] exI [of _ "{i}"]) simp
    next
      case False
      then have "record_vote vs v ?k ?p = Inr (Some e, vs)"
        using Some l i(1) ne by (auto simp: record_vote_def idx Let_def split: option.splits)
      then show ?thesis using Some False inv by (intro exI [of _ vs] exI [of _ "{}"]) (auto simp: recorded_def)
    qed
  qed
qed

lemma addVerifiedVote_inv:
  assumes inv: "vote_set_inv cr vs" and i: "i < vst_size vs" "vote_ok cr vs i v"
    and new: "getVote vs (int i) (BlockID_Key (v_BlockID v)) = Inr None"
  shows "\<exists>added vs'. addVerifiedVote vs v (BlockID_Key (v_BlockID v)) (power_of (vst_valSet vs) i) = Inr (added, vst_votes vs ! i, vs') \<and>
    vote_set_inv cr vs' \<and> same_step vs' vs \<and> (vst_votes vs ! i = None \<longrightarrow> added) \<and>
    (vst_maj23 vs \<noteq> None \<longrightarrow> vst_maj23 vs' = vst_maj23 vs)"
proof -
  let ?k = "BlockID_Key (v_BlockID v)" and ?p = "power_of (vst_valSet vs) i"
  obtain w X where rec: "record_vote vs v ?k ?p = Inr (vst_votes vs ! i, w)" and w: "recorded cr vs i v X w"
    and conf: "vst_votes vs ! i \<noteq> None \<longrightarrow> vote_set_inv cr w"
    using record_vote_inv [OF assms] by blast
  have e: "vst_valSet w = vst_valSet vs" "vote_ok cr w i v" "vst_votesByBlock w = vst_votesByBlock vs" "vst_maj23 w = vst_maj23 vs" "same_step w vs"
    using w i(2) by (auto simp: recorded_def same_step_def vote_ok_def)
  let ?bv = "case vst_votesByBlock w ?k of Some bv \<Rightarrow> bv | None \<Rightarrow> newBlockVotes False (vst_size w)"
  have "bv_votes ?bv ! i = None"
    using getVote_None(2) [OF inv i(1) new] e i(1) by (auto simp: newBlockVotes_def split: option.splits)
  moreover have "vst_votesByBlock w ?k = Some ?bv \<or> vst_votesByBlock w ?k = None \<and> ?bv = newBlockVotes False (vst_size w)"
    by (simp split: option.splits)
  ultimately obtain vs' where vs': "tally_block w v ?k ?p ?bv = Inr vs'" "vote_set_inv cr vs'" "same_step vs' w"
      "vst_maj23 w \<noteq> None \<longrightarrow> vst_maj23 vs' = vst_maj23 w"
    using tally_block_inv [OF _ _ _ _ e(2) refl, of X ?bv] w i(1) unfolding recorded_def e(1) by blast
  have maj: "vst_maj23 vs \<noteq> None \<longrightarrow> vst_maj23 vs' = vst_maj23 vs" "same_step vs' vs"
    using vs'(3,4) e(4) same_step_trans [OF vs'(3) e(5)] by auto
  have "addVerifiedVote vs v ?k ?p = Inr (True, vst_votes vs ! i, vs') \<or>
      vst_votes vs ! i \<noteq> None \<and> addVerifiedVote vs v ?k ?p = Inr (False, vst_votes vs ! i, w)"
    using vs'(1) rec by (cases "vst_votesByBlock w ?k") (simp_all add: addVerifiedVote_def)
  then show ?thesis using vs'(2) maj conf e(4,5) by metis
qed

definition vset_keys :: "ValidatorSet \<Rightarrow> bool" where
  "vset_keys vals \<longleftrightarrow> (\<forall>val \<in> set (vs_Validators vals). val_PubKey val \<noteq> None)"

text \<open>The checks before the signature: the right step, and an index and address of one validator.\<close>

definition addressed :: "VoteSet \<Rightarrow> nat \<Rightarrow> Vote \<Rightarrow> bool" where
  "addressed vs i v \<longleftrightarrow> i < vst_size vs \<and> v_ValidatorIndex v = int i \<and> v_Height v = vst_height vs \<and> v_Round v = vst_round vs \<and>
     v_Type v = vst_signedMsgType vs \<and> v_ValidatorAddress v = val_Address (vs_Validators (vst_valSet vs) ! i) \<and> v_ValidatorAddress v \<noteq> []"

lemma vote_ok_addressed:
  "i < vst_size vs \<Longrightarrow> vote_ok cr vs i v \<longleftrightarrow> addressed vs i v \<and> proper_BlockID (v_BlockID v) \<and>
     (\<exists>pk. val_PubKey (vs_Validators (vst_valSet vs) ! i) = Some pk \<and> Vote_Verify cr (vst_chainID vs) pk v = Inr ())"
  by (auto simp: vote_ok_def addressed_def)

lemma addVote_not_addressed:
  assumes "\<not> (\<exists>i. addressed vs i v)"
  shows "\<exists>err. addVote cr vs (Some v) = Inr (False, Some err, vs)"
proof (cases "0 \<le> v_ValidatorIndex v \<and> v_ValidatorIndex v < int (vst_size vs)")
  case True
  then obtain i where "v_ValidatorIndex v = int i" "i < vst_size vs" by (metis nonneg_int_cases of_nat_less_iff)
  with assms show ?thesis by (auto simp: addVote_def Let_def GetByIndex_def addressed_def ValidatorSet_Size_def)
next
  case False
  then show ?thesis by (auto simp: addVote_def Let_def GetByIndex_def ValidatorSet_Size_def)
qed

lemma addVote_addressed:
  assumes "addressed vs i v"
  shows "addVote cr vs (Some v) = and_then (getVote vs (int i) (BlockID_Key (v_BlockID v))) (\<lambda>existing.
    case existing of
      Some e \<Rightarrow> Inr (False, if v_Signature e = v_Signature v then None else Some ErrVoteNonDeterministicSignature, vs)
    | None \<Rightarrow>
        (case val_PubKey (vs_Validators (vst_valSet vs) ! i) of
           None \<Rightarrow> Inl (Panic ''nil pointer dereference'')
         | Some pk \<Rightarrow>
             (case Vote_Verify cr (vst_chainID vs) pk v of
                Inl (Panic s) \<Rightarrow> Inl (Panic s)
              | Inl (Err e) \<Rightarrow> Inr (False, Some e, vs)
              | Inr _ \<Rightarrow>
                  and_then (addVerifiedVote vs v (BlockID_Key (v_BlockID v)) (power_of (vst_valSet vs) i)) (\<lambda>(added, conflicting, vs).
                    case conflicting of
                      Some c \<Rightarrow> Inr (added, Some (ErrVoteConflictingVotes c v), vs)
                    | None \<Rightarrow> if \<not> added then Inl (Panic ''Expected to add non-conflicting vote'') else Inr (added, None, vs)))))"
proof -
  have "GetByIndex (int i) (vst_valSet vs) = Some (val_Address (vs_Validators (vst_valSet vs) ! i), vs_Validators (vst_valSet vs) ! i)"
    using assms by (simp add: GetByIndex_def addressed_def ValidatorSet_Size_def Let_def)
  then show ?thesis
    using assms unfolding addVote_def addressed_def power_of_def
    by (auto simp: Let_def intro!: arg_cong2 [where f = and_then] ext split: option.splits)
qed

lemma Vote_Verify_no_panic:
  assumes "\<exists>b. VoteSignBytes cr chainID v = Inr b"
  shows "Vote_Verify cr chainID pk v = Inr () \<or> (\<exists>e. Vote_Verify cr chainID pk v = Inl (Err e))"
  using assms by (auto simp: Vote_Verify_def lift_fault_def split: if_splits)

lemma addVote_inv:
  assumes inv: "vote_set_inv cr vs" and keys: "vset_keys (vst_valSet vs)"
    and v: "proper_BlockID (v_BlockID v)" "\<exists>b. VoteSignBytes cr (vst_chainID vs) v = Inr b"
  shows "\<exists>added err vs'. addVote cr vs (Some v) = Inr (added, err, vs') \<and> vote_set_inv cr vs' \<and> same_step vs' vs \<and>
    (vst_maj23 vs \<noteq> None \<longrightarrow> vst_maj23 vs' = vst_maj23 vs) \<and> (added \<longrightarrow> (\<exists>i < vst_size vs. vote_ok cr vs i v))"
proof (cases "\<exists>i. addressed vs i v")
  case False
  with addVote_not_addressed [OF False, of cr] inv show ?thesis by auto
next
  case True
  then obtain i where i: "addressed vs i v" "i < vst_size vs" by (auto simp: addressed_def)
  obtain pk where pk: "val_PubKey (vs_Validators (vst_valSet vs) ! i) = Some pk"
    using keys nth_mem [of i "vs_Validators (vst_valSet vs)"] i(2) by (force simp: vset_keys_def ValidatorSet_Size_def)
  obtain existing where ex: "getVote vs (int i) (BlockID_Key (v_BlockID v)) = Inr existing" using getVote_total [OF inv i(2)] by blast
  show ?thesis
  proof (cases "existing = None \<and> Vote_Verify cr (vst_chainID vs) pk v = Inr ()")
    case False
    then have "\<exists>err. addVote cr vs (Some v) = Inr (False, err, vs)"
      using addVote_addressed [OF i(1), of cr] ex pk Vote_Verify_no_panic [OF v(2), of pk] by (auto split: option.splits)
    with inv show ?thesis by auto
  next
    case True
    then have ok: "vote_ok cr vs i v" using vote_ok_addressed [OF i(2)] i(1) pk v(1) by blast
    obtain added vs' where a: "addVerifiedVote vs v (BlockID_Key (v_BlockID v)) (power_of (vst_valSet vs) i) = Inr (added, vst_votes vs ! i, vs')"
        "vote_set_inv cr vs'" "same_step vs' vs" "vst_votes vs ! i = None \<longrightarrow> added" "vst_maj23 vs \<noteq> None \<longrightarrow> vst_maj23 vs' = vst_maj23 vs"
      using addVerifiedVote_inv [OF inv i(2) ok] ex True by auto
    then have "\<exists>err. addVote cr vs (Some v) = Inr (added, err, vs')"
      using addVote_addressed [OF i(1), of cr] ex pk True by (auto split: option.splits)
    then show ?thesis using a ok i(2) by blast
  qed
qed

lemma SetPeerMaj23_inv:
  assumes inv: "vote_set_inv cr vs"
  shows "\<exists>err vs'. SetPeerMaj23 (Some vs) peer b = Inr (err, vs') \<and> vote_set_inv cr vs' \<and> same_step vs' vs \<and>
    vst_maj23 vs' = vst_maj23 vs \<and> vst_votes vs' = vst_votes vs"
proof -
  define pm where "pm = (vst_peerMaj23s vs)(peer \<mapsto> b)"
  have peers: "vote_set_inv cr (vs\<lparr>vst_peerMaj23s := pm\<rparr>)"
  proof -
    have st: "same_step (vs\<lparr>vst_peerMaj23s := pm\<rparr>) vs" by (simp add: same_step_def)
    show ?thesis
      using inv same_step_slots [OF st] block_ok_votes [OF _ st]
      by (simp add: inv_upto_def majority_ok_def no_majority_ok_def tracked_def)
  qed
  have put: "vote_set_inv cr (vs\<lparr>vst_peerMaj23s := pm, vst_votesByBlock := (vst_votesByBlock vs)(k \<mapsto> bv)\<rparr>)" (is "vote_set_inv cr ?w")
    if bv: "block_ok cr vs k bv" "\<forall>bv'. vst_votesByBlock vs k = Some bv' \<longrightarrow> bv_votes bv = bv_votes bv' \<and> bv_sum bv = bv_sum bv'"
      "vst_votesByBlock vs k = None \<longrightarrow> bv_sum bv = 0" for k bv
  proof -
    have st: "same_step ?w vs" by (simp add: same_step_def)
    have nonneg: "0 \<le> all_power (vst_valSet vs)" using inv all_power_bounds by (auto simp: inv_upto_def)
    have "\<forall>q b. vst_votesByBlock ?w q = Some b \<longrightarrow> block_ok cr ?w q b"
      using inv bv(1) by (auto simp: inv_upto_def intro!: block_ok_votes [OF _ st])
    moreover have "majority_ok ?w" unfolding majority_ok_def
    proof (intro allI impI)
      fix m assume "vst_maj23 ?w = Some m"
      then obtain b where b: "proper_BlockID m" "vst_votesByBlock vs (BlockID_Key m) = Some b" "2 * all_power (vst_valSet vs) < 3 * bv_sum b"
          "\<forall>i < vst_size vs. bv_votes b ! i \<noteq> None \<longrightarrow> (\<exists>w. vst_votes vs ! i = Some w \<and> v_BlockID w = m)"
        using inv unfolding inv_upto_def majority_ok_def by auto
      then show "proper_BlockID m \<and> (\<exists>bv. vst_votesByBlock ?w (BlockID_Key m) = Some bv \<and> 2 * all_power (vst_valSet ?w) < 3 * bv_sum bv \<and>
        (\<forall>i < vst_size ?w. bv_votes bv ! i \<noteq> None \<longrightarrow> (\<exists>w. vst_votes ?w ! i = Some w \<and> v_BlockID w = m)))"
        using bv(2) by (cases "BlockID_Key m = k") auto
    qed
    moreover have "no_majority_ok {} ?w"
      using inv bv(2,3) nonneg by (cases "vst_votesByBlock vs k") (auto simp: inv_upto_def no_majority_ok_def tracked_def)
    ultimately show ?thesis using inv same_step_slots [OF st] by (simp add: inv_upto_def)
  qed
  have old: "vote_set_inv cr (vs\<lparr>vst_peerMaj23s := pm, vst_votesByBlock := (vst_votesByBlock vs)(k \<mapsto> bv\<lparr>bv_peerMaj23 := True\<rparr>)\<rparr>)"
    if "vst_votesByBlock vs k = Some bv" for k bv
    using that inv_block [OF inv that] by (intro put) (auto simp: block_ok_def)
  have fresh: "vote_set_inv cr (vs\<lparr>vst_peerMaj23s := pm, vst_votesByBlock := (vst_votesByBlock vs)(k \<mapsto> newBlockVotes True (vst_size vs))\<rparr>)"
    if "vst_votesByBlock vs k = None" for k
    using that block_ok_new by (intro put) (auto simp: newBlockVotes_def)
  show ?thesis
    using inv peers old fresh
    by (auto simp: SetPeerMaj23_def Let_def same_step_def pm_def split: option.splits)
qed

section \<open>Reachable vote sets\<close>

text \<open>
  What a node does with the votes of a step: it creates the set, adds votes that passed their basic
  validation and whose time can be encoded, and records the claims of peers.
\<close>

definition votable :: "crypto \<Rightarrow> Vote \<Rightarrow> bool" where
  "votable cr v \<longleftrightarrow> Vote_ValidateBasic v = Inr () \<and> cr_TimeBytes cr (v_Timestamp v) \<noteq> None"

inductive vote_set_reachable :: "crypto \<Rightarrow> bytes \<Rightarrow> int64 \<Rightarrow> int32 \<Rightarrow> SignedMsgType \<Rightarrow> ValidatorSet \<Rightarrow> VoteSet \<Rightarrow> bool"
  for cr chainID h r t vals where
  vote_set_new: "NewVoteSet chainID h r t vals = Inr vs \<Longrightarrow> vote_set_reachable cr chainID h r t vals vs"
| vote_set_add: "vote_set_reachable cr chainID h r t vals vs \<Longrightarrow> votable cr v \<Longrightarrow>
    AddVote cr (Some vs) (Some v) = Inr (added, err, vs') \<Longrightarrow> vote_set_reachable cr chainID h r t vals vs'"
| vote_set_peer: "vote_set_reachable cr chainID h r t vals vs \<Longrightarrow>
    SetPeerMaj23 (Some vs) peer b = Inr (perr, vs') \<Longrightarrow> vote_set_reachable cr chainID h r t vals vs'"

lemma Vote_ValidateBasic_proper: "Vote_ValidateBasic v = Inr () \<Longrightarrow> proper_BlockID (v_BlockID v)"
  by (auto simp: Vote_ValidateBasic_def proper_BlockID_def split: if_splits sum.splits fault.splits)

lemma proper_valid: "proper_BlockID b \<Longrightarrow> BlockID_ValidateBasic b = Inr ()"
  using IsComplete_valid by (auto simp: proper_BlockID_def)

lemma VoteSignBytes_total:
  assumes "proper_BlockID (v_BlockID v)" "cr_TimeBytes cr (v_Timestamp v) \<noteq> None"
  shows "\<exists>b. VoteSignBytes cr chainID v = Inr b"
  using assms BlockIDFromProto_valid [OF proper_valid [OF assms(1)]]
  by (auto simp: VoteSignBytes_def CanonicalizeVote_def CanonicalizeBlockID_def or_panic_def MarshalDelimited_def CanonicalVote_marshal_def)

lemma votable_facts:
  assumes "votable cr v"
  shows "proper_BlockID (v_BlockID v)" "\<exists>b. VoteSignBytes cr chainID v = Inr b"
  using assms Vote_ValidateBasic_proper VoteSignBytes_total unfolding votable_def by blast+

lemma AddVote_inv:
  assumes "vote_set_inv cr vs" "vset_keys (vst_valSet vs)" "votable cr v"
  shows "\<exists>added err vs'. AddVote cr (Some vs) (Some v) = Inr (added, err, vs') \<and> vote_set_inv cr vs' \<and> same_step vs' vs \<and>
    (vst_maj23 vs \<noteq> None \<longrightarrow> vst_maj23 vs' = vst_maj23 vs) \<and> (added \<longrightarrow> (\<exists>i < vst_size vs. vote_ok cr vs i v))"
  using addVote_inv [OF assms(1,2) votable_facts [OF assms(3)]] by (simp add: AddVote_def)

lemma reachable_inv:
  assumes "vote_set_reachable cr chainID h r t vals vs" "vset_wf vals" "vset_keys vals"
  shows "vote_set_inv cr vs \<and> vst_valSet vs = vals \<and> vst_chainID vs = chainID \<and> vst_height vs = h \<and> vst_round vs = r \<and> vst_signedMsgType vs = t"
  using assms
proof (induction rule: vote_set_reachable.induct)
  case (vote_set_new vs)
  then show ?case using NewVoteSet_inv by (auto simp: NewVoteSet_def split: if_splits)
next
  case (vote_set_add vs v added err vs')
  then show ?case using AddVote_inv [of cr vs v] by (auto simp: same_step_def)
next
  case (vote_set_peer vs peer b perr vs')
  then show ?case using SetPeerMaj23_inv [of cr vs peer b] by (auto simp: same_step_def)
qed

text \<open>The power behind a block among the canonical votes.\<close>

definition block_power :: "VoteSet \<Rightarrow> BlockID \<Rightarrow> int" where
  "block_power vs m = power_in (vst_valSet vs) {i. i < vst_size vs \<and> (\<exists>v. vst_votes vs ! i = Some v \<and> v_BlockID v = m)}"

lemma block_power_majority:
  assumes inv: "vote_set_inv cr vs" and m: "vst_maj23 vs = Some m"
  shows "2 * all_power (vst_valSet vs) < 3 * block_power vs m"
proof -
  have wf: "vset_wf (vst_valSet vs)" using inv by (simp add: inv_upto_def)
  obtain bv where bv: "vst_votesByBlock vs (BlockID_Key m) = Some bv" "2 * all_power (vst_valSet vs) < 3 * bv_sum bv"
      "\<forall>i < vst_size vs. bv_votes bv ! i \<noteq> None \<longrightarrow> (\<exists>w. vst_votes vs ! i = Some w \<and> v_BlockID w = m)"
    using inv m unfolding inv_upto_def majority_ok_def by blast
  have "bv_sum bv = slot_power (vst_valSet vs) (bv_votes bv)" using block_ok_sum [OF inv_block [OF inv bv(1)]] .
  also have "\<dots> \<le> block_power vs m"
    unfolding slot_power_def block_power_def using bv(3) by (intro voters.weight_mono [OF wf]) auto
  finally show ?thesis using bv(2) by linarith
qed

lemma block_power_unique:
  assumes "vset_wf (vst_valSet vs)" "2 * all_power (vst_valSet vs) < 3 * block_power vs a" "2 * all_power (vst_valSet vs) < 3 * block_power vs b"
  shows "a = b"
proof (rule ccontr)
  assume "a \<noteq> b"
  let ?s = "\<lambda>m. {i. i < vst_size vs \<and> (\<exists>v. vst_votes vs ! i = Some v \<and> v_BlockID v = m)}"
  have "?s a \<inter> ?s b = {}" using \<open>a \<noteq> b\<close> by auto
  moreover have "all_power (vst_valSet vs) < 3 * power_in (vst_valSet vs) (?s a \<inter> ?s b)"
    unfolding all_power_sum using assms(2,3)
    by (intro voters.quorum_overlap [OF assms(1)]) (auto simp: block_power_def all_power_sum)
  ultimately show False using all_power_bounds [OF assms(1)] by simp
qed

lemma maj23_iff:
  assumes inv: "vote_set_inv cr vs"
  shows "vst_maj23 vs = Some m \<longleftrightarrow> 2 * all_power (vst_valSet vs) < 3 * block_power vs m"
proof
  have wf: "vset_wf (vst_valSet vs)" using inv by (simp add: inv_upto_def)
  assume big: "2 * all_power (vst_valSet vs) < 3 * block_power vs m"
  let ?s = "{i. i < vst_size vs \<and> (\<exists>v. vst_votes vs ! i = Some v \<and> v_BlockID v = m)}"
  have "vst_maj23 vs \<noteq> None"
  proof
    assume none: "vst_maj23 vs = None"
    have "?s \<noteq> {}"
    proof
      assume "?s = {}"
      then have "block_power vs m = 0" unfolding block_power_def by (simp only: sum.empty)
      then show False using big all_power_bounds [OF wf] by simp
    qed
    have tr: "\<exists>bv. vst_votesByBlock vs (BlockID_Key m) = Some bv \<and> bv_votes bv ! i \<noteq> None" if "i \<in> ?s" for i
      using that inv none by (fastforce simp: inv_upto_def no_majority_ok_def tracked_def)
    then obtain bv where bv: "vst_votesByBlock vs (BlockID_Key m) = Some bv" using \<open>?s \<noteq> {}\<close> by blast
    have "block_power vs m \<le> slot_power (vst_valSet vs) (bv_votes bv)"
      unfolding slot_power_def block_power_def using tr bv by (intro voters.weight_mono [OF wf]) auto
    moreover have "3 * bv_sum bv \<le> 2 * all_power (vst_valSet vs)" using inv none bv by (simp add: inv_upto_def no_majority_ok_def)
    ultimately show False using big block_ok_sum [OF inv_block [OF inv bv]] by linarith
  qed
  then obtain m' where m': "vst_maj23 vs = Some m'" by blast
  with block_power_majority [OF inv m'] block_power_unique [OF wf big] show "vst_maj23 vs = Some m" by simp
qed (rule block_power_majority [OF inv])

section \<open>Vote sets without conflicts\<close>

text \<open>No peer has claimed a majority and each validator has voted for one block only.\<close>

definition conflict_free :: "VoteSet \<Rightarrow> bool" where
  "conflict_free vs \<longleftrightarrow> (\<forall>k bv. vst_votesByBlock vs k = Some bv \<longrightarrow> \<not> bv_peerMaj23 bv) \<and> (\<forall>k bv i w. vst_votesByBlock vs k = Some bv \<and> i < vst_size vs \<and> bv_votes bv ! i = Some w \<longrightarrow> vst_votes vs ! i = Some w)"

lemma addVote_fresh:
  assumes inv: "vote_set_inv cr vs" and cf: "conflict_free vs" and i: "i < vst_size vs" "vote_ok cr vs i v" and none: "vst_votes vs ! i = None"
  shows "\<exists>vs'. addVote cr vs (Some v) = Inr (True, None, vs') \<and> vote_set_inv cr vs' \<and> conflict_free vs' \<and> same_step vs' vs \<and>
    vst_votes vs' = (vst_votes vs)[i := Some v]"
proof -
  let ?k = "BlockID_Key (v_BlockID v)" and ?p = "power_of (vst_valSet vs) i"
  have ad: "addressed vs i v" and pk: "\<exists>pk. val_PubKey (vs_Validators (vst_valSet vs) ! i) = Some pk \<and> Vote_Verify cr (vst_chainID vs) pk v = Inr ()"
    using vote_ok_addressed [OF i(1)] i(2) by blast+
  obtain e where e: "getVote vs (int i) ?k = Inr e" using getVote_total [OF inv i(1)] by blast
  have l: "length (vst_votes vs) = vst_size vs" using inv by (simp add: inv_upto_def slots_ok_def)
  have bnone: "bv_votes bv ! i = None" if "vst_votesByBlock vs k = Some bv" for k bv
    using cf none i(1) that by (cases "bv_votes bv ! i") (auto simp: conflict_free_def)
  have lens: "length (bv_votes bv) = vst_size vs" if "vst_votesByBlock vs k = Some bv" for k bv
    using block_ok_length [OF inv_block [OF inv that]] .
  have "e = None" using e none bnone lens l i(1) by (auto simp: getVote_def blockVotes_getByIndex_def split: option.splits)
  with e have new: "getVote vs (int i) ?k = Inr None" by simp
  obtain w X where rec: "record_vote vs v ?k ?p = Inr (None, w)" and w: "recorded cr vs i v X w" "vst_votes w = (vst_votes vs)[i := Some v]"
    using record_vote_inv [OF inv i new] none by auto
  have ew: "vst_valSet w = vst_valSet vs" "vote_ok cr w i v" "vst_votesByBlock w = vst_votesByBlock vs" "same_step w vs"
    using w(1) i(2) by (auto simp: recorded_def same_step_def vote_ok_def)
  let ?bv = "case vst_votesByBlock w ?k of Some bv \<Rightarrow> bv | None \<Rightarrow> newBlockVotes False (vst_size w)"
  have bv: "bv_votes ?bv ! i = None" "length (bv_votes ?bv) = vst_size vs" "j < vst_size vs \<Longrightarrow> bv_votes ?bv ! j = Some u \<Longrightarrow> vst_votes vs ! j = Some u" for j u
    using bnone lens ew(1,3) i(1) cf by (auto simp: newBlockVotes_def conflict_free_def split: option.splits)
  have opt: "vst_votesByBlock w ?k = Some ?bv \<or> vst_votesByBlock w ?k = None \<and> ?bv = newBlockVotes False (vst_size w)"
    by (simp split: option.splits)
  obtain vs' bv' where vs': "tally_block w v ?k ?p ?bv = Inr vs'" "vote_set_inv cr vs'" "same_step vs' w"
      "bv_votes bv' = (bv_votes ?bv)[i := Some v]" "bv_peerMaj23 bv' = bv_peerMaj23 ?bv" "vst_votesByBlock vs' = (vst_votesByBlock w)(?k \<mapsto> bv')"
      "vst_votes vs' = vst_votes w \<or> vst_votes vs' = copy_votes (bv_votes bv') (vst_votes w)"
    using tally_block_inv [OF _ _ _ _ ew(2) refl opt bv(1), of X] w(1) i(1) unfolding recorded_def ew(1) by blast
  have agree: "vst_votes w ! j = Some u" if "j < vst_size vs" "bv_votes bv' ! j = Some u" for j u
    using that bv vs'(4) w(2) l i(1) by (cases "j = i") auto
  have "copy_votes (bv_votes bv') (vst_votes w) = vst_votes w"
    using agree bv(2) vs'(4) w(2) l by (intro nth_equalityI) (auto simp: copy_votes_nth split: if_splits)
  then have votes: "vst_votes vs' = (vst_votes vs)[i := Some v]" using vs'(7) w(2) by auto
  have "\<not> bv_peerMaj23 bv'" using vs'(5) cf ew(3) by (auto simp: conflict_free_def newBlockVotes_def split: option.splits)
  then have "conflict_free vs'"
    using cf bnone agree vs'(3,6) votes w(2) ew(1,3) l i(1)
    by (auto simp: conflict_free_def same_step_def nth_list_update split: if_splits)
  moreover have "addVerifiedVote vs v ?k ?p = Inr (True, None, vs')"
    using vs'(1) rec by (cases "vst_votesByBlock w ?k") (simp_all add: addVerifiedVote_def)
  then have "addVote cr vs (Some v) = Inr (True, None, vs')" using addVote_addressed [OF ad, of cr] new pk by auto
  ultimately show ?thesis using vs'(2,3) ew(4) same_step_trans votes by blast
qed

section \<open>Commits from vote sets and back\<close>

text \<open>The votes that a commit for \<open>m\<close> keeps.\<close>

definition kept :: "BlockID \<Rightarrow> Vote option \<Rightarrow> Vote option" where
  "kept m vo = (case vo of Some v \<Rightarrow> if v_BlockID v = m \<or> BlockID_IsZero (v_BlockID v) then Some v else None | None \<Rightarrow> None)"

definition sig_of :: "Vote option \<Rightarrow> CommitSig" where
  "sig_of vo = (case vo of None \<Rightarrow> NewCommitSigAbsent
     | Some v \<Rightarrow> \<lparr>cs_BlockIDFlag = (if BlockID_IsComplete (v_BlockID v) then BlockIDFlagCommit else BlockIDFlagNil),
         cs_ValidatorAddress = v_ValidatorAddress v, cs_Timestamp = v_Timestamp v, cs_Signature = v_Signature v\<rparr>)"

lemma commit_sigs_kept:
  assumes "\<forall>v. Some v \<in> set votes \<longrightarrow> proper_BlockID (v_BlockID v)"
  shows "commit_sigs m votes = Inr (map (\<lambda>vo. sig_of (kept m vo)) votes)"
  using assms
proof (induction votes)
  case (Cons vo votes)
  show ?case
  proof (cases vo)
    case None
    with Cons show ?thesis
      by (simp add: Vote_CommitSig_def sig_of_def kept_def NewCommitSigAbsent_def ForBlock_def block_id_flags Let_def)
  next
    case (Some v)
    then have "BlockID_IsZero (v_BlockID v) \<or> BlockID_IsComplete (v_BlockID v)" using Cons.prems by (auto simp: proper_BlockID_def)
    with Some Cons show ?thesis
      using IsComplete_not_zero [of "v_BlockID v"]
      by (auto simp: Vote_CommitSig_def sig_of_def kept_def ForBlock_def block_id_flags Let_def)
  qed
qed simp

lemma sig_of_flags:
  "Absent (sig_of vo) \<longleftrightarrow> vo = None"
  "ForBlock (sig_of vo) \<longleftrightarrow> (\<exists>v. vo = Some v \<and> BlockID_IsComplete (v_BlockID v))"
  by (auto simp: sig_of_def Absent_def ForBlock_def NewCommitSigAbsent_def block_id_flags split: option.splits)

lemma kept_cases: "kept m vo = Some v \<longleftrightarrow> vo = Some v \<and> (v_BlockID v = m \<or> BlockID_IsZero (v_BlockID v))"
  by (auto simp: kept_def split: option.splits)

lemma MakeCommit_eq:
  assumes inv: "vote_set_inv cr vs" and m: "vst_signedMsgType vs = PrecommitType" "vst_maj23 vs = Some m"
  shows "MakeCommit vs = Inr (NewCommit (vst_height vs) (vst_round vs) m (map (\<lambda>vo. sig_of (kept m vo)) (vst_votes vs)))"
proof -
  have "\<forall>v. Some v \<in> set (vst_votes vs) \<longrightarrow> proper_BlockID (v_BlockID v)"
    using inv by (auto simp: inv_upto_def slots_ok_def vote_ok_def in_set_conv_nth)
  from commit_sigs_kept [OF this, of m] show ?thesis using m by (simp add: MakeCommit_def)
qed

lemma Vote_eqI:
  "v_Type v = v_Type w \<Longrightarrow> v_Height v = v_Height w \<Longrightarrow> v_Round v = v_Round w \<Longrightarrow> v_BlockID v = v_BlockID w \<Longrightarrow>
   v_Timestamp v = v_Timestamp w \<Longrightarrow> v_ValidatorAddress v = v_ValidatorAddress w \<Longrightarrow> v_ValidatorIndex v = v_ValidatorIndex w \<Longrightarrow>
   v_Signature v = v_Signature w \<Longrightarrow> v = (w :: Vote)"
  by (cases v, cases w) simp

text \<open>Reading a vote out of the commit gives back the vote that went in.\<close>

lemma GetVote_kept:
  assumes inv: "vote_set_inv cr vs" and m: "vst_signedMsgType vs = PrecommitType" "BlockID_IsComplete m"
    and i: "i < vst_size vs" "kept m (vst_votes vs ! i) = Some v"
  shows "GetVote (NewCommit (vst_height vs) (vst_round vs) m (map (\<lambda>vo. sig_of (kept m vo)) (vst_votes vs))) (int i) = Inr v"
proof -
  have l: "length (vst_votes vs) = vst_size vs" using inv by (simp add: inv_upto_def slots_ok_def)
  have v: "vst_votes vs ! i = Some v" "v_BlockID v = m \<or> BlockID_IsZero (v_BlockID v)" using i(2) by (simp_all add: kept_cases)
  then have ok: "vote_ok cr vs i v" using inv i(1) by (auto simp: inv_upto_def slots_ok_def)
  have "CommitSig_BlockID (sig_of (Some v)) m = Inr (v_BlockID v)"
    using v(2) m(2) IsComplete_not_zero [of "v_BlockID v"]
    by (auto simp: CommitSig_BlockID_def sig_of_def block_id_flags BlockID_IsZero_iff)
  then show ?thesis
    using ok m(1) l i by (auto simp: GetVote_def NewCommit_def Let_def sig_of_def vote_ok_def intro!: Vote_eqI)
qed

lemma MakeCommit_verifies:
  assumes inv: "vote_set_inv cr vs" and m: "vst_signedMsgType vs = PrecommitType" "vst_maj23 vs = Some m" "BlockID_IsComplete m"
    and small: "int (vst_size vs) \<le> MaxInt32" and c: "MakeCommit vs = Inr c"
  shows "VerifyCommit cr (vst_chainID vs) m (vst_height vs) c (vst_valSet vs) = Inr ()"
proof -
  have c_eq: "c = NewCommit (vst_height vs) (vst_round vs) m (map (\<lambda>vo. sig_of (kept m vo)) (vst_votes vs))"
    using MakeCommit_eq [OF inv m(1,2)] c by simp
  have wf: "vset_wf (vst_valSet vs)" and l: "length (vst_votes vs) = vst_size vs" using inv by (auto simp: inv_upto_def slots_ok_def)
  have flds: "c_Height c = vst_height vs" "c_BlockID c = m" "c_Signatures c = map (\<lambda>vo. sig_of (kept m vo)) (vst_votes vs)"
    by (simp_all add: c_eq NewCommit_def)
  have "signed_by cr (vst_chainID vs) c (vs_Validators (vst_valSet vs) ! i) i"
    if i: "i < vst_size vs" "\<not> Absent (c_Signatures c ! i)" for i
  proof -
    obtain v where v: "kept m (vst_votes vs ! i) = Some v" using i l by (auto simp: flds sig_of_flags)
    then have vi: "vst_votes vs ! i = Some v" by (simp add: kept_cases)
    have "vote_ok cr vs i v" using inv vi i(1) by (auto simp: inv_upto_def slots_ok_def)
    then obtain pk b where "val_PubKey (vs_Validators (vst_valSet vs) ! i) = Some pk" "VoteSignBytes cr (vst_chainID vs) v = Inr b"
        "cr_VerifyBytes cr pk b (v_Signature v)"
      by (auto simp: vote_ok_def Vote_Verify_def and_then_Inr_iff split: if_splits)
    moreover have "wrap32 (int i) = int i" using i(1) small by (intro wrap32_id) (simp add: int32_range_iff int_limits)
    moreover have "cs_Signature (c_Signatures c ! i) = v_Signature v" using v i(1) l by (simp add: flds sig_of_def)
    ultimately show ?thesis
      using GetVote_kept [OF inv m(1,3) i(1) v] unfolding signed_by_def by (auto simp: Commit_VoteSignBytes_def c_eq)
  qed
  moreover have "{i. i < vst_size vs \<and> (\<exists>v. vst_votes vs ! i = Some v \<and> v_BlockID v = m)} = for_block c 0 (vst_size vs)"
    using l m(3) IsComplete_not_zero by (auto simp: for_block_def flds sig_of_flags kept_cases)
  then have "2 * all_power (vst_valSet vs) < 3 * power_in (vst_valSet vs) (for_block c 0 (vst_size vs))"
    using block_power_majority [OF inv m(2)] by (simp add: block_power_def)
  ultimately show ?thesis unfolding VerifyCommit_iff [OF wf] flds using l by auto
qed

lemma add_commit_sigs_kept:
  assumes inv: "vote_set_inv cr vs" and m: "vst_signedMsgType vs = PrecommitType" "BlockID_IsComplete m" and small: "int (vst_size vs) \<le> MaxInt32"
    and c: "c = NewCommit (vst_height vs) (vst_round vs) m (map (\<lambda>vo. sig_of (kept m vo)) (vst_votes vs))"
    and w: "vote_set_inv cr w" "conflict_free w" "same_step w vs" "idx \<le> vst_size vs"
      "vst_votes w = take idx (map (kept m) (vst_votes vs)) @ replicate (vst_size vs - idx) None"
  shows "\<exists>vs'. add_commit_sigs cr c idx (drop idx (c_Signatures c)) w = Inr vs' \<and> vote_set_inv cr vs' \<and> same_step vs' vs \<and>
    vst_votes vs' = map (kept m) (vst_votes vs)"
  using w
proof (induction "vst_size vs - idx" arbitrary: idx w)
  case 0
  moreover have "length (vst_votes vs) = vst_size vs" using inv by (simp add: inv_upto_def slots_ok_def)
  ultimately show ?case by (auto simp: c NewCommit_def)
next
  case (Suc k)
  then have lt: "idx < vst_size vs" by simp
  have l: "length (vst_votes vs) = vst_size vs" using inv by (simp add: inv_upto_def slots_ok_def)
  have d: "drop idx (c_Signatures c) = sig_of (kept m (vst_votes vs ! idx)) # drop (Suc idx) (c_Signatures c)"
    using lt l by (simp add: c NewCommit_def Cons_nth_drop_Suc [symmetric])
  have tk: "take (Suc idx) (map (kept m) (vst_votes vs)) = take idx (map (kept m) (vst_votes vs)) @ [kept m (vst_votes vs ! idx)]"
    using lt l by (simp add: take_Suc_conv_app_nth)
  have rp: "replicate (vst_size vs - idx) None = None # replicate (vst_size vs - Suc idx) None"
    using lt by (metis Suc_diff_Suc replicate_Suc)
  have votes: "vst_votes w = take idx (map (kept m) (vst_votes vs)) @ None # replicate (vst_size vs - Suc idx) None"
    using Suc.prems(5) rp by simp
  have li: "length (take idx (map (kept m) (vst_votes vs))) = idx" using lt l by simp
  have step: ?case if "vote_set_inv cr w'" "conflict_free w'" "same_step w' vs"
      "vst_votes w' = (vst_votes w)[idx := kept m (vst_votes vs ! idx)]"
      "add_commit_sigs cr c idx (drop idx (c_Signatures c)) w = add_commit_sigs cr c (Suc idx) (drop (Suc idx) (c_Signatures c)) w'" for w'
  proof -
    have "vst_votes w' = take (Suc idx) (map (kept m) (vst_votes vs)) @ replicate (vst_size vs - Suc idx) None"
      unfolding that(4) votes tk using lt l by (simp add: list_update_append)
    with Suc.hyps(1) [of "Suc idx" w'] Suc.hyps(2) lt that show ?thesis by simp
  qed
  show ?case
  proof (cases "kept m (vst_votes vs ! idx)")
    case None
    have "vst_votes w = (vst_votes w)[idx := None]" unfolding votes using lt l by (simp add: list_update_append)
    with None show ?thesis using Suc.prems(1-3) by (intro step [of w]) (simp_all add: d sig_of_flags)
  next
    case (Some v)
    have wi: "vst_votes w ! idx = None" unfolding votes using li by (metis nth_append_length)
    have ok: "vote_ok cr vs idx v" using inv Some lt by (auto simp: inv_upto_def slots_ok_def kept_cases)
    then have okw: "vote_ok cr w idx v" "idx < vst_size w" using Suc.prems(3) lt by (auto simp: same_step_def vote_ok_def)
    obtain w' where w': "addVote cr w (Some v) = Inr (True, None, w')" "vote_set_inv cr w'" "conflict_free w'" "same_step w' w"
        "vst_votes w' = (vst_votes w)[idx := Some v]"
      using addVote_fresh [OF Suc.prems(1,2) okw(2,1) wi] by blast
    have "wrap32 (int idx) = int idx" using lt small by (intro wrap32_id) (simp add: int32_range_iff int_limits)
    then have "lift_fault (\<lambda>_. ErrVoteNil) (GetVote c (wrap32 (int idx))) = Inr v"
      using GetVote_kept [OF inv m lt Some] by (simp add: c)
    then show ?thesis
      using w' Some Suc.prems(3) same_step_trans by (intro step [of w']) (auto simp: d sig_of_flags AddVote_def)
  qed
qed

lemma kept_idem [simp]: "kept m (kept m vo) = kept m vo"
  by (auto simp: kept_def split: option.splits)

lemma CommitToVoteSet_MakeCommit:
  assumes inv: "vote_set_inv cr vs" and m: "vst_signedMsgType vs = PrecommitType" "vst_maj23 vs = Some m" "BlockID_IsComplete m"
    and small: "int (vst_size vs) \<le> MaxInt32" and h: "vst_height vs \<noteq> 0" and c: "MakeCommit vs = Inr c"
  shows "\<exists>vs'. CommitToVoteSet cr (vst_chainID vs) c (vst_valSet vs) = Inr vs' \<and> vst_maj23 vs' = Some m \<and> MakeCommit vs' = Inr c"
proof -
  have c_eq: "c = NewCommit (vst_height vs) (vst_round vs) m (map (\<lambda>vo. sig_of (kept m vo)) (vst_votes vs))"
    using MakeCommit_eq [OF inv m(1,2)] c by simp
  obtain w where w: "NewVoteSet (vst_chainID vs) (c_Height c) (c_Round c) PrecommitType (vst_valSet vs) = Inr w"
    using h by (simp add: NewVoteSet_def c_eq NewCommit_def)
  have wi: "vote_set_inv cr w" using NewVoteSet_inv [OF _ w] inv by (simp add: inv_upto_def)
  have "conflict_free w" "same_step w vs" "vst_votes w = take 0 (map (kept m) (vst_votes vs)) @ replicate (vst_size vs - 0) None"
    using w m(1) h by (auto simp: NewVoteSet_def conflict_free_def same_step_def c_eq NewCommit_def)
  then obtain vs' where vs': "add_commit_sigs cr c 0 (drop 0 (c_Signatures c)) w = Inr vs'" "vote_set_inv cr vs'" "same_step vs' vs"
      "vst_votes vs' = map (kept m) (vst_votes vs)"
    using add_commit_sigs_kept [OF inv m(1,3) small c_eq wi] by blast
  have l: "length (vst_votes vs) = vst_size vs" using inv by (simp add: inv_upto_def slots_ok_def)
  have "block_power vs' m = block_power vs m"
    using vs'(3,4) l by (auto simp: block_power_def same_step_def kept_cases intro!: arg_cong [where f = "power_in (vst_valSet vs)"])
  then have maj: "vst_maj23 vs' = Some m" using block_power_majority [OF inv m(2)] maj23_iff [OF vs'(2)] vs'(3) by (simp add: same_step_def)
  then have "MakeCommit vs' = Inr c"
    using MakeCommit_eq [OF vs'(2) _ maj] vs'(3,4) m(1) by (simp add: same_step_def c_eq comp_def)
  with maj vs'(1) w show ?thesis by (auto simp: CommitToVoteSet_def)
qed

section \<open>Properties\<close>

definition demo_member :: "8 word \<Rightarrow> int \<Rightarrow> Validator" where
  "demo_member a p = \<lparr>val_Address = replicate 20 a, val_PubKey = Some (replicate 20 a), val_VotingPower = p, val_ProposerPriority = 0\<rparr>"

definition committee :: ValidatorSet where
  "committee = \<lparr>vs_Validators = [demo_member 3 30, demo_member 2 20, demo_member 1 10], vs_Proposer = None, vs_totalVotingPower = 60\<rparr>"

lemma committee_facts:
  "vset_wf committee" "vset_keys committee" "ValidatorSet_Size committee = 3" "all_power committee = 60"
  by (simp_all add: committee_def demo_member_def vset_wf_def validators_wf_def vset_keys_def ValidatorSet_Size_def MaxTotalVotingPower_eq)

lemma demo_votable: "0 \<le> i \<Longrightarrow> votable demo_crypto (demo_precommit x a i)"
  using demo_precommit_valid by (simp add: votable_def demo_crypto_def demo_precommit_def demo_time_def int64_range_iff int_limits)

abbreviation demo_reachable :: "VoteSet \<Rightarrow> bool" where
  "demo_reachable \<equiv> vote_set_reachable demo_crypto [116] 5 0 PrecommitType committee"

lemma demo_vote_ok:
  assumes "vst_valSet vs = committee" "vst_chainID vs = [116]" "vst_height vs = 5" "vst_round vs = 0" "vst_signedMsgType vs = PrecommitType"
    and "i < 3" "vs_Validators committee ! i = demo_member a p"
  shows "vote_ok demo_crypto vs i (demo_precommit x a (int i))"
proof -
  obtain b where "VoteSignBytes demo_crypto [116] (demo_precommit x a (int i)) = Inr b" using demo_sign_bytes by blast
  moreover have "proper_BlockID (demo_BlockID x)" using demo_BlockID_complete by (simp add: proper_BlockID_def)
  ultimately show ?thesis
    using assms by (simp add: vote_ok_def Vote_Verify_def lift_fault_def) (simp add: demo_precommit_def demo_member_def demo_crypto_def)
qed

lemma demo_two_votes:
  "\<exists>vs. demo_reachable vs \<and> vst_votes vs = [Some (demo_precommit x 3 0), Some (demo_precommit x 2 1), None] \<and> vst_maj23 vs = Some (demo_BlockID x)"
proof -
  obtain w where w: "NewVoteSet [116] 5 0 PrecommitType committee = Inr w" "vst_votes w = [None, None, None]"
    by (simp add: NewVoteSet_def committee_facts numeral_3_eq_3)
  note r0 = vote_set_new [OF w(1), of demo_crypto]
  note i0 = reachable_inv [OF r0 committee_facts(1,2)]
  have cf: "conflict_free w" using w(1) by (auto simp: NewVoteSet_def conflict_free_def)
  obtain w1 where w1: "addVote demo_crypto w (Some (demo_precommit x 3 0)) = Inr (True, None, w1)" "vote_set_inv demo_crypto w1" "conflict_free w1"
      "vst_votes w1 = (vst_votes w)[0 := Some (demo_precommit x 3 0)]"
    using addVote_fresh [of demo_crypto w 0 "demo_precommit x 3 0"] demo_vote_ok [of w 0 3 30 x] i0 cf w(2) committee_facts(3)
    by (auto simp: committee_def)
  have r1: "demo_reachable w1" using vote_set_add [OF r0 demo_votable [of 0 x 3]] w1(1) by (simp add: AddVote_def)
  note i1 = reachable_inv [OF r1 committee_facts(1,2)]
  obtain w2 where w2: "addVote demo_crypto w1 (Some (demo_precommit x 2 1)) = Inr (True, None, w2)" "vote_set_inv demo_crypto w2"
      "vst_votes w2 = (vst_votes w1)[1 := Some (demo_precommit x 2 1)]"
    using addVote_fresh [of demo_crypto w1 1 "demo_precommit x 2 1"] demo_vote_ok [of w1 1 2 20 x] i1 w1(3,4) w(2) committee_facts(3)
    by (auto simp: committee_def)
  have r2: "demo_reachable w2" using vote_set_add [OF r1 demo_votable [of 1 x 2]] w2(1) by (simp add: AddVote_def)
  have votes: "vst_votes w2 = [Some (demo_precommit x 3 0), Some (demo_precommit x 2 1), None]" using w2(3) w1(4) w(2) by simp
  have vs2: "vst_valSet w2 = committee" using reachable_inv [OF r2 committee_facts(1,2)] by simp
  have "{i. i < vst_size w2 \<and> (\<exists>v. vst_votes w2 ! i = Some v \<and> v_BlockID v = demo_BlockID x)} = {0, 1}"
    by (auto simp: vs2 votes committee_facts demo_precommit_def numeral_3_eq_3 less_Suc_eq)
  then have "block_power w2 (demo_BlockID x) = 50" by (simp add: block_power_def vs2) (simp add: power_of_def committee_def demo_member_def)
  then have "vst_maj23 w2 = Some (demo_BlockID x)" using maj23_iff [OF w2(2)] by (simp add: vs2 committee_facts)
  with r2 votes show ?thesis by blast
qed

text \<open>
  C14: No sequence of valid votes and peer claims makes a vote set panic. In every reachable set the recorded
  sum is the voting power of the validators that voted, the bit array marks exactly these validators, and
  every vote that is kept has been verified under the key of its validator.
\<close>

theorem vote_set_reachable_safe:
  assumes "vote_set_reachable cr chainID h r t vals vs" "vset_wf vals" "vset_keys vals"
  shows "(\<forall>v. votable cr v \<longrightarrow> (\<exists>res. AddVote cr (Some vs) (Some v) = Inr res)) \<and>
    (\<forall>peer b. \<exists>res. SetPeerMaj23 (Some vs) peer b = Inr res) \<and>
    vst_sum vs = (\<Sum>i | i < ValidatorSet_Size vals \<and> vst_votes vs ! i \<noteq> None. power_of vals i) \<and>
    (\<forall>i < ValidatorSet_Size vals. GetIndex (vst_votesBitArray vs) (int i) = Inr (vst_votes vs ! i \<noteq> None)) \<and>
    (\<forall>i < ValidatorSet_Size vals. \<forall>v. vst_votes vs ! i = Some v \<longrightarrow> (\<exists>pk. val_PubKey (vs_Validators vals ! i) = Some pk \<and>
       Vote_Verify cr chainID pk v = Inr () \<and> v_Height v = h \<and> v_Round v = r \<and> v_Type v = t))"
proof -
  note i = reachable_inv [OF assms]
  then have s: "slots_ok cr vs (vst_votesBitArray vs) (vst_votes vs) (vst_sum vs)" by (simp add: inv_upto_def)
  have "GetIndex (vst_votesBitArray vs) (int j) = Inr (vst_votes vs ! j \<noteq> None)" if j: "j < ValidatorSet_Size vals" for j
  proof -
    obtain a where a: "vst_votesBitArray vs = Some a" "ba_wf a" "bits_of a = map (\<lambda>x. x \<noteq> None) (vst_votes vs)" "j < length (vst_votes vs)"
      using s i j by (auto simp: slots_ok_def bits_ok_def split: option.splits)
    have "length (bits_of a) = length (vst_votes vs)" using a(3) by simp
    then have "j < nat (ba_Bits a)" using a(4) by simp
    moreover from this have "ba_bit a j = (vst_votes vs ! j \<noteq> None)" using a(3,4) bits_of_nth [of j a] by simp
    ultimately show ?thesis using getIndex_spec [OF a(2), of j] a(1) by (simp add: GetIndex_def)
  qed
  moreover have "\<exists>res. AddVote cr (Some vs) (Some v) = Inr res" if "votable cr v" for v
    using AddVote_inv [of cr vs v] i assms(3) that by auto
  moreover have "\<exists>res. SetPeerMaj23 (Some vs) peer b = Inr res" for peer b
    using SetPeerMaj23_inv [of cr vs peer b] i by auto
  ultimately show ?thesis using s i by (auto simp: slots_ok_def slot_power_def vote_ok_def)
qed

theorem vote_set_reachable_safe_witness:
  "\<exists>vs. demo_reachable vs \<and> vset_wf committee \<and> vset_keys committee \<and> (\<exists>res. AddVote demo_crypto (Some vs) (Some (demo_precommit 2 1 2)) = Inr res)"
proof -
  obtain vs where "demo_reachable vs" using demo_two_votes by blast
  with vote_set_reachable_safe [OF this committee_facts(1,2)] demo_votable [of 2 2 1] committee_facts(1,2) show ?thesis by auto
qed

text \<open>
  C2: The recorded majority is exact. In every reachable vote set a block is recorded as the majority if and
  only if the canonical votes for it hold more than two thirds of the voting power; so at most one block
  has a majority, and no majority among the canonical votes is missed. Once recorded, it is kept by every
  further vote.
\<close>

theorem maj23_exact:
  assumes "vote_set_reachable cr chainID h r t vals vs" "vset_wf vals" "vset_keys vals"
  shows "(vst_maj23 vs = Some m \<longleftrightarrow>
      2 * all_power vals < 3 * (\<Sum>i | i < ValidatorSet_Size vals \<and> (\<exists>v. vst_votes vs ! i = Some v \<and> v_BlockID v = m). power_of vals i)) \<and>
    (\<forall>v added err vs'. vst_maj23 vs = Some m \<and> votable cr v \<and> AddVote cr (Some vs) (Some v) = Inr (added, err, vs') \<longrightarrow> vst_maj23 vs' = Some m)"
proof -
  note i = reachable_inv [OF assms]
  have "vst_maj23 vs' = Some m" if "vst_maj23 vs = Some m" "votable cr v" "AddVote cr (Some vs) (Some v) = Inr (added, err, vs')" for v added err vs'
    using AddVote_inv [of cr vs v] i assms(3) that by auto
  moreover have "vst_maj23 vs = Some m \<longleftrightarrow> 2 * all_power vals < 3 * block_power vs m" using maj23_iff [of cr vs m] i by simp
  moreover have "(\<Sum>i | i < ValidatorSet_Size vals \<and> (\<exists>v. vst_votes vs ! i = Some v \<and> v_BlockID v = m). power_of vals i) = block_power vs m"
    using i by (simp add: block_power_def)
  ultimately show ?thesis by (intro conjI) (simp, blast)
qed

theorem maj23_exact_witness:
  "\<exists>vs. demo_reachable vs \<and> vset_wf committee \<and> vset_keys committee \<and> vst_maj23 vs = Some (demo_BlockID 1) \<and>
     (\<exists>added err vs'. AddVote demo_crypto (Some vs) (Some (demo_precommit 2 1 2)) = Inr (added, err, vs') \<and> vst_maj23 vs' = Some (demo_BlockID 1))"
proof -
  obtain vs where vs: "demo_reachable vs" "vst_maj23 vs = Some (demo_BlockID 1)" using demo_two_votes by blast
  note i = reachable_inv [OF vs(1) committee_facts(1,2)]
  have v: "votable demo_crypto (demo_precommit 2 1 2)" by (rule demo_votable) simp
  obtain added err vs' where a: "AddVote demo_crypto (Some vs) (Some (demo_precommit 2 1 2)) = Inr (added, err, vs')"
    using AddVote_inv [of demo_crypto vs] i v committee_facts(2) by metis
  with maj23_exact [OF vs(1) committee_facts(1,2), of "demo_BlockID 1"] v vs(2) have "vst_maj23 vs' = Some (demo_BlockID 1)" by blast
  with a vs committee_facts(1,2) show ?thesis by blast
qed

text \<open>
  C12: From votes to a commit and back. When the precommits of a reachable vote set have a majority for a
  block, \<^verbatim>\<open>MakeCommit\<close> returns a commit that passes the full verification against the validator set,
  although it also carries votes for nil; and rebuilding a vote set from that commit, as a node does
  after a restart, gives a set with the same majority from which the very same commit is made.
\<close>

theorem MakeCommit_roundtrip:
  assumes "vote_set_reachable cr chainID h r PrecommitType vals vs" "vset_wf vals" "vset_keys vals" "h \<noteq> 0"
    and "int (ValidatorSet_Size vals) \<le> MaxInt32" "vst_maj23 vs = Some m" "BlockID_IsComplete m"
  shows "\<exists>c vs'. MakeCommit vs = Inr c \<and> VerifyCommit cr chainID m h c vals = Inr () \<and>
    CommitToVoteSet cr chainID c vals = Inr vs' \<and> vst_maj23 vs' = Some m \<and> MakeCommit vs' = Inr c"
proof -
  have i: "vote_set_inv cr vs" "vst_valSet vs = vals" "vst_chainID vs = chainID" "vst_height vs = h" "vst_signedMsgType vs = PrecommitType"
    using reachable_inv [OF assms(1-3)] by simp_all
  have s: "int (vst_size vs) \<le> MaxInt32" "vst_height vs \<noteq> 0" using assms(4,5) i by simp_all
  obtain c where c: "MakeCommit vs = Inr c" using MakeCommit_eq [OF i(1,5) assms(6)] by blast
  from MakeCommit_verifies [OF i(1,5) assms(6,7) s(1) c] CommitToVoteSet_MakeCommit [OF i(1,5) assms(6,7) s c] c
  show ?thesis unfolding i by blast
qed

theorem MakeCommit_roundtrip_witness:
  "\<exists>vs c. demo_reachable vs \<and> vst_maj23 vs = Some (demo_BlockID 1) \<and> MakeCommit vs = Inr c \<and>
     VerifyCommit demo_crypto [116] (demo_BlockID 1) 5 c committee = Inr ()"
proof -
  obtain vs where vs: "demo_reachable vs" "vst_maj23 vs = Some (demo_BlockID 1)" using demo_two_votes by blast
  have "(5::int) \<noteq> 0" "int (ValidatorSet_Size committee) \<le> MaxInt32" by (simp_all add: committee_facts int_limits)
  from MakeCommit_roundtrip [OF vs(1) committee_facts(1,2) this vs(2) demo_BlockID_complete] vs show ?thesis by blast
qed

text \<open>
  C23: Agreement of majorities. If two nodes record majorities for different blocks from votes of the same
  chain, height, round and type, then validators with more than a third of the voting power have signed
  two different messages for this step.
\<close>

theorem conflicting_majorities_convict:
  assumes "vote_set_reachable cr chainID h r t vals vs" "vote_set_reachable cr chainID h r t vals ws" "vset_wf vals" "vset_keys vals"
    and "vst_maj23 vs = Some a" "vst_maj23 ws = Some b" "a \<noteq> b"
    and "time_encoding (cr_TimeBytes cr)" "int64_range h" "int64_range r" "int64_range t"
  shows "\<exists>s \<subseteq> {..<ValidatorSet_Size vals}. all_power vals < 3 * (\<Sum>i\<in>s. power_of vals i) \<and>
    (\<forall>i \<in> s. \<exists>pk v w ba bb. val_PubKey (vs_Validators vals ! i) = Some pk \<and> vst_votes vs ! i = Some v \<and> vst_votes ws ! i = Some w \<and>
       VoteSignBytes cr chainID v = Inr ba \<and> cr_VerifyBytes cr pk ba (v_Signature v) \<and>
       VoteSignBytes cr chainID w = Inr bb \<and> cr_VerifyBytes cr pk bb (v_Signature w) \<and> ba \<noteq> bb)"
proof -
  let ?s = "\<lambda>x m. {i. i < ValidatorSet_Size vals \<and> (\<exists>v. vst_votes x ! i = Some v \<and> v_BlockID v = m)}"
  note i = reachable_inv [OF assms(1,3,4)] and j = reachable_inv [OF assms(2,3,4)]
  have "2 * all_power vals < 3 * power_in vals (?s vs a)" "2 * all_power vals < 3 * power_in vals (?s ws b)"
    using block_power_majority [of cr vs a] block_power_majority [of cr ws b] i j assms(5,6) by (simp_all add: block_power_def)
  then have "all_power vals < 3 * power_in vals (?s vs a \<inter> ?s ws b)"
    unfolding all_power_sum by (intro voters.quorum_overlap [OF assms(3)]) auto
  moreover have "\<exists>pk v w ba bb. val_PubKey (vs_Validators vals ! k) = Some pk \<and> vst_votes vs ! k = Some v \<and> vst_votes ws ! k = Some w \<and>
       VoteSignBytes cr chainID v = Inr ba \<and> cr_VerifyBytes cr pk ba (v_Signature v) \<and>
       VoteSignBytes cr chainID w = Inr bb \<and> cr_VerifyBytes cr pk bb (v_Signature w) \<and> ba \<noteq> bb"
    if "k \<in> ?s vs a \<inter> ?s ws b" for k
  proof -
    obtain v w where v: "vst_votes vs ! k = Some v" "v_BlockID v = a" and w: "vst_votes ws ! k = Some w" "v_BlockID w = b" and k: "k < ValidatorSet_Size vals"
      using \<open>k \<in> ?s vs a \<inter> ?s ws b\<close> by blast
    have "vote_ok cr vs k v" "vote_ok cr ws k w" using i j v(1) w(1) k by (auto simp: inv_upto_def slots_ok_def)
    then obtain pk ba bb where ok: "val_PubKey (vs_Validators vals ! k) = Some pk" "VoteSignBytes cr chainID v = Inr ba" "cr_VerifyBytes cr pk ba (v_Signature v)"
        "VoteSignBytes cr chainID w = Inr bb" "cr_VerifyBytes cr pk bb (v_Signature w)"
        "v_Height v = h" "v_Round v = r" "v_Type v = t" "v_Height w = h" "v_Round w = r" "v_Type w = t"
      using i j by (auto simp: vote_ok_def Vote_Verify_def and_then_Inr_iff split: if_splits)
    then have "ba \<noteq> bb" using VoteSignBytes_inject [OF assms(8), of v w chainID ba] v(2) w(2) assms(7,9-11) by auto
    with ok v(1) w(1) show ?thesis by blast
  qed
  ultimately show ?thesis by (intro exI [of _ "?s vs a \<inter> ?s ws b"]) auto
qed

theorem conflicting_majorities_convict_witness:
  "\<exists>vs ws. demo_reachable vs \<and> demo_reachable ws \<and> vst_maj23 vs = Some (demo_BlockID 1) \<and> vst_maj23 ws = Some (demo_BlockID 2) \<and>
     (\<exists>s \<subseteq> {..<3}. all_power committee < 3 * (\<Sum>i\<in>s. power_of committee i))"
proof -
  obtain vs ws where vs: "demo_reachable vs" "vst_maj23 vs = Some (demo_BlockID 1)" and ws: "demo_reachable ws" "vst_maj23 ws = Some (demo_BlockID 2)"
    using demo_two_votes by blast
  have ne: "demo_BlockID 1 \<noteq> demo_BlockID 2" by (simp add: demo_BlockID_def)
  have t: "time_encoding (cr_TimeBytes demo_crypto)" using demo_time_encoding by (simp add: demo_crypto_def)
  have r: "int64_range 5" "int64_range 0" "int64_range PrecommitType" by (simp_all add: int64_range_iff int_limits PrecommitType_def)
  obtain s where "s \<subseteq> {..<3}" "all_power committee < 3 * (\<Sum>i\<in>s. power_of committee i)"
    using conflicting_majorities_convict [OF vs(1) ws(1) committee_facts(1,2) vs(2) ws(2) ne t r] unfolding committee_facts(3) by metis
  with vs ws show ?thesis by blast
qed

lemma addVote_late:
  assumes inv: "vote_set_inv cr vs" and i: "i < vst_size vs" "vote_ok cr vs i v" and e: "vst_votes vs ! i = Some e" "v_BlockID e \<noteq> v_BlockID v"
    and m: "vst_maj23 vs = Some (v_BlockID v)" "vst_votesByBlock vs (BlockID_Key (v_BlockID v)) = Some bv" "\<not> bv_peerMaj23 bv"
  shows "\<exists>vs'. addVote cr vs (Some v) = Inr (False, Some (ErrVoteConflictingVotes e v), vs') \<and>
    vst_votes vs' ! i = Some v \<and> vst_votesByBlock vs' = vst_votesByBlock vs \<and> bv_votes bv ! i = None"
proof -
  let ?k = "BlockID_Key (v_BlockID v)" and ?p = "power_of (vst_valSet vs) i"
  have ad: "addressed vs i v" and pk: "\<exists>pk. val_PubKey (vs_Validators (vst_valSet vs) ! i) = Some pk \<and> Vote_Verify cr (vst_chainID vs) pk v = Inr ()"
    and idx: "v_ValidatorIndex v = int i" using vote_ok_addressed [OF i(1)] i(2) by (auto simp: vote_ok_def)
  have oke: "vote_ok cr vs i e" and l: "length (vst_votes vs) = vst_size vs" and s: "slots_ok cr vs (vst_votesBitArray vs) (vst_votes vs) (vst_sum vs)"
    using inv i(1) e(1) by (auto simp: inv_upto_def slots_ok_def)
  have ke: "BlockID_Key (v_BlockID e) \<noteq> ?k" using e(2) i(2) oke BlockID_Key_inject by (auto simp: vote_ok_def)
  have bn: "bv_votes bv ! i = None"
    using inv m(1,2) e i(1) by (auto simp: inv_upto_def majority_ok_def)
  moreover have lb: "length (bv_votes bv) = vst_size vs" using block_ok_length [OF inv_block [OF inv m(2)]] .
  ultimately have new: "getVote vs (int i) ?k = Inr None"
    using e(1) ke l i(1) m(2) by (simp add: getVote_def blockVotes_getByIndex_def)
  obtain bA where bA: "set_bit_of (vst_votesBitArray vs) (int i) = Inr bA" using slots_ok_replace [OF s i(1) _ i(2)] e(1) by blast
  let ?w = "vs\<lparr>vst_votes := (vst_votes vs)[i := Some v], vst_votesBitArray := bA\<rparr>"
  have "record_vote vs v ?k ?p = Inr (Some e, ?w)" using e bA l i(1) m(1) by (simp add: record_vote_def idx)
  then have "addVerifiedVote vs v ?k ?p = Inr (False, Some e, ?w)" using m(2,3) by (simp add: addVerifiedVote_def)
  then have "addVote cr vs (Some v) = Inr (False, Some (ErrVoteConflictingVotes e v), ?w)"
    using addVote_addressed [OF ad, of cr] new pk by auto
  then show ?thesis using bn l i(1) by (intro exI [of _ ?w]) simp
qed

lemma demo_step:
  assumes "demo_reachable w" "conflict_free w" "i < 3" "vs_Validators committee ! i = demo_member a p" "vst_votes w ! i = None"
  shows "\<exists>w'. demo_reachable w' \<and> conflict_free w' \<and> vst_votes w' = (vst_votes w)[i := Some (demo_precommit x a (int i))]"
proof -
  note i = reachable_inv [OF assms(1) committee_facts(1,2)]
  obtain w' where "addVote demo_crypto w (Some (demo_precommit x a (int i))) = Inr (True, None, w')" "conflict_free w'"
      "vst_votes w' = (vst_votes w)[i := Some (demo_precommit x a (int i))]"
    using addVote_fresh [OF _ assms(2) _ _ assms(5)] demo_vote_ok [OF _ _ _ _ _ assms(3,4)] i assms(3) committee_facts(3) by metis
  moreover from this have "demo_reachable w'" using vote_set_add [OF assms(1) demo_votable [of "int i" x a]] by (simp add: AddVote_def)
  ultimately show ?thesis by blast
qed

text \<open>
  A late vote for the majority is kept but not tracked. When a validator that voted for another block
  sends its vote for the block that already has the majority, and no peer has claimed that majority,
  then the new vote replaces the old one among the canonical votes, yet it is reported as not added
  and does not enter the votes of its block. So not every canonical vote has an entry in \<^verbatim>\<open>votesByBlock\<close>.
\<close>

theorem late_majority_vote_untracked:
  assumes "vote_set_reachable cr chainID h r t vals vs" "vset_wf vals" "vset_keys vals"
    and "i < ValidatorSet_Size vals" "vote_ok cr vs i v" "vst_votes vs ! i = Some e" "v_BlockID e \<noteq> v_BlockID v"
    and "vst_maj23 vs = Some (v_BlockID v)" "vst_votesByBlock vs (BlockID_Key (v_BlockID v)) = Some bv" "\<not> bv_peerMaj23 bv"
  shows "\<exists>vs'. AddVote cr (Some vs) (Some v) = Inr (False, Some (ErrVoteConflictingVotes e v), vs') \<and> vst_votes vs' ! i = Some v \<and>
    vst_votesByBlock vs' (BlockID_Key (v_BlockID v)) = Some bv \<and> bv_votes bv ! i = None"
  using addVote_late [OF _ _ assms(5-10)] reachable_inv [OF assms(1-3)] assms(4,9) by (fastforce simp: AddVote_def)

theorem late_majority_vote_untracked_witness:
  "\<exists>vs vs' bv. demo_reachable vs \<and> vst_votes vs ! 2 = Some (demo_precommit 2 1 2) \<and> vst_maj23 vs = Some (demo_BlockID 1) \<and>
     AddVote demo_crypto (Some vs) (Some (demo_precommit 1 1 2)) =
       Inr (False, Some (ErrVoteConflictingVotes (demo_precommit 2 1 2) (demo_precommit 1 1 2)), vs') \<and>
     vst_votes vs' ! 2 = Some (demo_precommit 1 1 2) \<and> vst_votesByBlock vs' (BlockID_Key (demo_BlockID 1)) = Some bv \<and> bv_votes bv ! 2 = None"
proof -
  have com: "vs_Validators committee ! 0 = demo_member 3 30" "vs_Validators committee ! 1 = demo_member 2 20" "vs_Validators committee ! 2 = demo_member 1 10"
    by (simp_all add: committee_def)
  obtain w where w: "NewVoteSet [116] 5 0 PrecommitType committee = Inr w" "vst_votes w = [None, None, None]"
    by (simp add: NewVoteSet_def committee_facts numeral_3_eq_3)
  have cf: "conflict_free w" using w(1) by (auto simp: NewVoteSet_def conflict_free_def)
  obtain w1 where w1: "demo_reachable w1" "conflict_free w1" "vst_votes w1 = [None, None, Some (demo_precommit 2 1 2)]"
    using demo_step [OF vote_set_new [OF w(1)] cf _ com(3), of 2] w(2) by auto
  obtain w2 where w2: "demo_reachable w2" "conflict_free w2" "vst_votes w2 = [Some (demo_precommit 1 3 0), None, Some (demo_precommit 2 1 2)]"
    using demo_step [OF w1(1,2) _ com(1), of 1] w1(3) by auto
  obtain w3 where w3: "demo_reachable w3" "conflict_free w3"
      "vst_votes w3 = [Some (demo_precommit 1 3 0), Some (demo_precommit 1 2 1), Some (demo_precommit 2 1 2)]"
    using demo_step [OF w2(1,2) _ com(2), of 1] w2(3) by auto
  note i3 = reachable_inv [OF w3(1) committee_facts(1,2)]
  have "{i. i < vst_size w3 \<and> (\<exists>v. vst_votes w3 ! i = Some v \<and> v_BlockID v = demo_BlockID 1)} = {0, 1}"
    using i3 by (auto simp: w3(3) committee_facts demo_precommit_def demo_BlockID_def numeral_3_eq_3 less_Suc_eq)
  then have "block_power w3 (demo_BlockID 1) = 50" using i3 by (simp add: block_power_def) (simp add: power_of_def committee_def demo_member_def)
  then have m: "vst_maj23 w3 = Some (demo_BlockID 1)" using maj23_iff [of demo_crypto w3] i3 by (simp add: committee_facts)
  then obtain bv where bv: "vst_votesByBlock w3 (BlockID_Key (demo_BlockID 1)) = Some bv" using i3 by (auto simp: inv_upto_def majority_ok_def)
  have np: "\<not> bv_peerMaj23 bv" using w3(2) bv unfolding conflict_free_def by blast
  have ids: "v_BlockID (demo_precommit x 1 2) = demo_BlockID x" for x by (simp add: demo_precommit_def)
  have ok: "vote_ok demo_crypto w3 2 (demo_precommit 1 1 2)" using demo_vote_ok [OF _ _ _ _ _ _ com(3), of w3 1] i3 by simp
  have ne: "v_BlockID (demo_precommit 2 1 2) \<noteq> v_BlockID (demo_precommit 1 1 2)" by (simp add: ids demo_BlockID_def)
  have "2 < ValidatorSet_Size committee" "vst_votes w3 ! 2 = Some (demo_precommit 2 1 2)" by (simp_all add: committee_facts w3(3))
  from late_majority_vote_untracked [OF w3(1) committee_facts(1,2) this(1) ok this(2) ne] m bv np w3(1) this(2)
  show ?thesis unfolding ids by blast
qed

end
