(* ===== verification/Wire_Decode.thy ===== *)
theory Wire_Decode
  imports Wire_Format "HOL-Library.Sublist"
begin

text \<open>
  Reading the canonical messages back: the \<^verbatim>\<open>Unmarshal\<close> methods of
  \<^verbatim>\<open>proto/tendermint/types/canonical.pb.go\<close> with \<^verbatim>\<open>skipCanonical\<close>, and the length-delimited reader of
  \<^verbatim>\<open>libs/protoio/reader.go\<close>. As in the code, the data stay whole and an index moves through them. Indexing,
  slicing and \<^verbatim>\<open>make\<close> panic when Go's bounds checks fail, so the tests the code makes first are what keeps
  it from panicking; sums of an index and a length wrap around. The four methods are the same loop over
  different fields: for each field number they have the wire type they expect (\<open>None\<close> for a field they do
  not know) and what they do with the value. The decoder of times is the argument \<open>time_of\<close>. The main
  results are that decoding inverts encoding and that no input makes a decoder panic.
\<close>

section \<open>Indexing and slicing\<close>

text \<open>
  Go's \<^verbatim>\<open>len(b)\<close>, \<^verbatim>\<open>b[i]\<close> and \<^verbatim>\<open>b[lo:hi]\<close>. Slicing is allowed up to the capacity of a slice; here it is allowed up
  to its length only, so the model panics at least where the code does.
\<close>

definition len_int :: "bytes \<Rightarrow> int64" where
  "len_int b = wrap64 (int (length b))"

definition index_byte :: "bytes \<Rightarrow> int64 \<Rightarrow> (wire_error, 8 word) result" where
  "index_byte b i = (if 0 \<le> i \<and> i < len_int b then Inr (b ! nat i) else Inl (Panic ''index out of range''))"

definition slice_bytes :: "bytes \<Rightarrow> int64 \<Rightarrow> int64 \<Rightarrow> (wire_error, bytes) result" where
  "slice_bytes b lo hi =
     (if 0 \<le> lo \<and> lo \<le> hi \<and> hi \<le> len_int b then Inr (take (nat (hi - lo)) (drop (nat lo) b))
      else Inl (Panic ''slice bounds out of range''))"

definition make_bytes :: "int64 \<Rightarrow> (wire_error, bytes) result" where
  "make_bytes n = (if n < 0 then Inl (Panic ''makeslice: len out of range'') else Inr (replicate (nat n) 0))"

lemma len_int_id [simp]: "int (length b) \<le> MaxInt64 \<Longrightarrow> len_int b = int (length b)"
  by (simp add: len_int_def wrap64_idI int_limits)

lemma len_int_le: "len_int b \<le> MaxInt64"
  using wrap_int_range [of 64 "int (length b)"] by (simp add: len_int_def int64_range_iff)

lemma wrap_forward:
  assumes "0 \<le> i" "i \<le> MaxInt64" "0 \<le> k" "k \<le> MaxInt64" "0 \<le> wrap64 (i + k)"
  shows "wrap64 (i + k) = i + k"
proof (cases "i + k \<le> MaxInt64")
  case True
  then show ?thesis using assms by (intro wrap64_idI) (simp_all add: int_limits)
next
  case False
  then have "(i + k + 2 ^ 63 - 2 ^ 64) mod 2 ^ 64 = i + k + 2 ^ 63 - 2 ^ 64"
    using assms(2,4) by (intro mod_pos_pos_trivial) (simp_all add: int_limits)
  then have "wrap64 (i + k) = i + k - 2 ^ 64" by (simp only: minus_mod_self2 wrap_int_def) simp
  moreover have "i + k - 2 ^ 64 < 0" using assms(2,4) by (simp add: int_limits)
  ultimately show ?thesis using assms(5) by linarith
qed

section \<open>Values on the wire\<close>

text \<open>
  The loop that reads a varint, written out by the generator at every place it is needed. An index below
  the length of the data can be incremented without overflow.
\<close>

function read_uvarint :: "bytes \<Rightarrow> nat \<Rightarrow> 64 word \<Rightarrow> int64 \<Rightarrow> (wire_error, 64 word \<times> int64) result" where
  "read_uvarint dAtA shift acc iNdEx =
     (if shift \<ge> 64 then Inl (Err ErrIntOverflowCanonical)
      else if iNdEx \<ge> len_int dAtA then Inl (Err ErrUnexpectedEOF)
      else and_then (index_byte dAtA iNdEx) (\<lambda>b.
        let iNdEx = iNdEx + 1;
            acc = acc OR push_bit shift (ucast (b AND 0x7F))
        in if b < 0x80 then Inr (acc, iNdEx) else read_uvarint dAtA (shift + 7) acc iNdEx))"
  by pat_completeness auto
termination
  by (relation "measure (\<lambda>(_, shift, _, _). 64 - shift)") auto

declare read_uvarint.simps [simp del]

text \<open>\<^verbatim>\<open>LittleEndian.Uint64\<close>, which looks at the eighth byte first.\<close>

fun little_endian :: "bytes \<Rightarrow> 64 word" where
  "little_endian [] = 0"
| "little_endian (b # bs) = ucast b OR push_bit 8 (little_endian bs)"

definition Uint64 :: "bytes \<Rightarrow> (wire_error, 64 word) result" where
  "Uint64 b = and_then (index_byte b 7) (\<lambda>_. Inr (little_endian (take 8 b)))"

datatype wire_val = Varint (varint_of: "64 word") | Fixed64 (fixed_of: "64 word") | Delimited (bytes_of: bytes)

definition read_value :: "bytes \<Rightarrow> nat \<Rightarrow> int64 \<Rightarrow> (wire_error, wire_val \<times> int64) result" where
  "read_value dAtA wireType iNdEx =
     (if wireType = 0 then and_then (read_uvarint dAtA 0 0 iNdEx) (\<lambda>(w, iNdEx). Inr (Varint w, iNdEx))
      else if wireType = 1 then
        (if wrap64 (iNdEx + 8) > len_int dAtA then Inl (Err ErrUnexpectedEOF)
         else and_then (slice_bytes dAtA iNdEx (len_int dAtA)) (\<lambda>b.
           and_then (Uint64 b) (\<lambda>w. Inr (Fixed64 w, iNdEx + 8))))
      else and_then (read_uvarint dAtA 0 0 iNdEx) (\<lambda>(w, iNdEx).
        let msglen = sint w;
            postIndex = wrap64 (iNdEx + msglen)
        in if msglen < 0 then Inl (Err ErrInvalidLengthCanonical)
           else if postIndex < 0 then Inl (Err ErrInvalidLengthCanonical)
           else if postIndex > len_int dAtA then Inl (Err ErrUnexpectedEOF)
           else and_then (slice_bytes dAtA iNdEx postIndex) (\<lambda>b. Inr (Delimited b, postIndex))))"

section \<open>Skipping unknown fields\<close>

text \<open>One step of \<^verbatim>\<open>skipCanonical\<close> after the tag: the new index and the new depth of groups.\<close>

definition skip_value :: "bytes \<Rightarrow> nat \<Rightarrow> nat \<Rightarrow> int64 \<Rightarrow> (wire_error, int64 \<times> nat) result" where
  "skip_value dAtA wireType depth iNdEx =
     (if wireType = 0 then and_then (read_uvarint dAtA 0 0 iNdEx) (\<lambda>(_, iNdEx). Inr (iNdEx, depth))
      else if wireType = 1 then Inr (wrap64 (iNdEx + 8), depth)
      else if wireType = 2 then
        and_then (read_uvarint dAtA 0 0 iNdEx) (\<lambda>(w, iNdEx).
          if sint w < 0 then Inl (Err ErrInvalidLengthCanonical) else Inr (wrap64 (iNdEx + sint w), depth))
      else if wireType = 3 then Inr (iNdEx, depth + 1)
      else if wireType = 4 then (if depth = 0 then Inl (Err ErrUnexpectedEndOfGroupCanonical) else Inr (iNdEx, depth - 1))
      else if wireType = 5 then Inr (wrap64 (iNdEx + 4), depth)
      else Inl (Err ErrWrongWireType))"

lemma index_byte_Inr: "index_byte d i = Inr b \<longleftrightarrow> 0 \<le> i \<and> i < len_int d \<and> b = d ! nat i"
  by (auto simp: index_byte_def)

lemma read_uvarint_bounds:
  "read_uvarint d shift acc i = Inr (w, j) \<Longrightarrow> 0 \<le> i \<and> i < j \<and> j \<le> len_int d"
proof (induction d shift acc i rule: read_uvarint.induct)
  case (1 d shift acc i)
  from "1.prems" obtain b where b: "\<not> 64 \<le> shift" "\<not> len_int d \<le> i" "index_byte d i = Inr b"
      "(if b < 0x80 then Inr (acc OR push_bit shift (ucast (b AND 0x7F)), i + 1)
        else read_uvarint d (shift + 7) (acc OR push_bit shift (ucast (b AND 0x7F))) (i + 1)) = Inr (w, j)"
    by (subst (asm) read_uvarint.simps) (auto simp: and_then_Inr_iff Let_def split: if_splits)
  show ?case
  proof (cases "b < 0x80")
    case False
    then show ?thesis using "1.IH" [OF b(1-3) refl refl False] b by (simp add: index_byte_Inr)
  qed (use b in \<open>auto simp: index_byte_Inr\<close>)
qed

lemma sint_64_le: "sint (w :: 64 word) \<le> MaxInt64"
  using sint_lt [of w] by (simp add: int_limits)

lemma skip_value_forward:
  assumes "skip_value d t depth i = Inr (j, depth')" "0 \<le> i" "i \<le> MaxInt64" "0 \<le> j"
  shows "i \<le> j \<and> j \<le> MaxInt64"
proof -
  have fixed: "i \<le> wrap64 (i + k) \<and> wrap64 (i + k) \<le> MaxInt64" if "0 \<le> wrap64 (i + k)" "k = 4 \<or> k = 8" for k
    using wrap_forward [of i k] that assms(2,3) wrap_int_range [of 64 "i + k"] by (auto simp: int64_range_iff int_limits)
  have len: "i \<le> wrap64 (m + sint w) \<and> wrap64 (m + sint w) \<le> MaxInt64"
    if "i < m" "m \<le> len_int d" "\<not> sint w < 0" "0 \<le> wrap64 (m + sint w)" for w :: "64 word" and m
    using wrap_forward [of m "sint w"] that assms(2) len_int_le [of d] sint_64_le [of w]
      wrap_int_range [of 64 "m + sint w"] by (auto simp: int64_range_iff)
  have varint: "i \<le> m \<and> m \<le> MaxInt64" if "i < m" "m \<le> len_int d" for m using that len_int_le [of d] by linarith
  from assms(1) consider (varint) w where "t = 0" "read_uvarint d 0 0 i = Inr (w, j)"
    | (fixed) k where "k = 4 \<or> k = 8" "j = wrap64 (i + k)"
    | (len) w m where "read_uvarint d 0 0 i = Inr (w, m)" "\<not> sint w < 0" "j = wrap64 (m + sint w)"
    | (group) "j = i"
    by (auto simp: skip_value_def and_then_Inr_iff split: if_splits)
  then show ?thesis
    by cases (use assms(3,4) fixed len varint read_uvarint_bounds in \<open>blast+\<close>)
qed

function skip_fields :: "bytes \<Rightarrow> nat \<Rightarrow> int64 \<Rightarrow> (wire_error, int64) result" where
  "skip_fields dAtA depth iNdEx =
     (if iNdEx \<ge> len_int dAtA then Inl (Err ErrUnexpectedEOF)
      else and_then (read_uvarint dAtA 0 0 iNdEx) (\<lambda>(wire, iNdEx).
        and_then (skip_value dAtA (unat (wire AND 7)) depth iNdEx) (\<lambda>(iNdEx, depth).
          if iNdEx < 0 then Inl (Err ErrInvalidLengthCanonical)
          else if depth = 0 then Inr iNdEx
          else skip_fields dAtA depth iNdEx)))"
  by pat_completeness auto

lemma skip_step_forward:
  assumes "read_uvarint d 0 0 i = Inr (wire, i1)" "skip_value d t depth i1 = Inr (j, depth')" "\<not> j < 0"
  shows "i < j \<and> j \<le> MaxInt64"
  using read_uvarint_bounds [OF assms(1)] skip_value_forward [OF assms(2)] assms(3) len_int_le [of d] by auto

termination skip_fields
  by (relation "measure (\<lambda>(dAtA, _, i). nat (len_int dAtA - i))") (auto dest: skip_step_forward)

declare skip_fields.simps [simp del]

definition skipCanonical :: "bytes \<Rightarrow> (wire_error, int64) result" where
  "skipCanonical dAtA = skip_fields dAtA 0 0"

lemma skip_fields_forward: "skip_fields d depth i = Inr j \<Longrightarrow> i < j \<and> j \<le> MaxInt64"
proof (induction d depth i rule: skip_fields.induct)
  case (1 d depth i)
  from "1.prems" obtain wire i1 k dp where r: "\<not> len_int d \<le> i" "read_uvarint d 0 0 i = Inr (wire, i1)"
      "skip_value d (unat (wire AND 7)) depth i1 = Inr (k, dp)" "\<not> k < 0"
      "(if dp = 0 then Inr k else skip_fields d dp k) = Inr j"
    by (subst (asm) skip_fields.simps) (auto simp: and_then_Inr_iff split: if_splits)
  then show ?case using skip_step_forward [OF r(2-4)] "1.IH" [OF r(1,2) refl r(3) refl r(4)] by (auto split: if_splits)
qed

section \<open>The message loop\<close>

lemma slice_bytes_Inr: "slice_bytes d lo hi = Inr b \<longleftrightarrow> 0 \<le> lo \<and> lo \<le> hi \<and> hi \<le> len_int d \<and> b = take (nat (hi - lo)) (drop (nat lo) d)"
  by (auto simp: slice_bytes_def)

lemma read_value_forward: "read_value d t i = Inr (v, j) \<Longrightarrow> i \<le> j"
  by (auto simp: read_value_def and_then_Inr_iff slice_bytes_Inr Let_def split: if_splits dest!: read_uvarint_bounds)

function decode_fields :: "(int32 \<Rightarrow> nat option) \<Rightarrow> (int32 \<Rightarrow> wire_val \<Rightarrow> 'm \<Rightarrow> (wire_error, 'm) result) \<Rightarrow> bytes \<Rightarrow> 'm \<Rightarrow> int64 \<Rightarrow>
    (wire_error, 'm) result" where
  "decode_fields expected assign dAtA m iNdEx =
     (if iNdEx \<ge> len_int dAtA then (if iNdEx > len_int dAtA then Inl (Err ErrUnexpectedEOF) else Inr m)
      else and_then (read_uvarint dAtA 0 0 iNdEx) (\<lambda>(wire, i1).
        let fieldNum = sint (ucast (drop_bit 3 wire) :: 32 word);
            wireType = unat (wire AND 7)
        in if wireType = 4 then Inl (Err ErrWrongWireType)
           else if fieldNum \<le> 0 then Inl (Err ErrIllegalTag)
           else case expected fieldNum of
             Some t \<Rightarrow>
               if wireType \<noteq> t then Inl (Err ErrWrongWireType)
               else and_then (read_value dAtA t i1) (\<lambda>(v, i2).
                 and_then (assign fieldNum v m) (\<lambda>m. decode_fields expected assign dAtA m i2))
           | None \<Rightarrow>
               and_then (slice_bytes dAtA iNdEx (len_int dAtA)) (\<lambda>rest.
               and_then (skipCanonical rest) (\<lambda>skippy.
                 if skippy < 0 then Inl (Err ErrInvalidLengthCanonical)
                 else if wrap64 (iNdEx + skippy) < 0 then Inl (Err ErrInvalidLengthCanonical)
                 else if wrap64 (iNdEx + skippy) > len_int dAtA then Inl (Err ErrUnexpectedEOF)
                 else decode_fields expected assign dAtA m (wrap64 (iNdEx + skippy))))))"
  by pat_completeness auto

lemma skipCanonical_forward:
  assumes "skipCanonical rest = Inr k" "0 \<le> i" "i < j" "j \<le> len_int d" "\<not> wrap64 (i + k) < 0"
  shows "i < wrap64 (i + k)"
  using skip_fields_forward [of rest 0 0 k] wrap_forward [of i k] assms len_int_le [of d] by (simp add: skipCanonical_def)

termination decode_fields
proof (relation "measure (\<lambda>(_, _, d, _, i). nat (len_int d - i))", goal_cases)
  case (2 expected assign d m i x wire i1)
  then show ?case by (auto dest!: read_uvarint_bounds intro: skipCanonical_forward)
next
  case (3 expected assign d m i x wire i1)
  then show ?case by (auto dest!: read_uvarint_bounds read_value_forward)
qed simp

declare decode_fields.simps [simp del]

section \<open>The messages\<close>

definition CanonicalPartSetHeader_expected :: "int32 \<Rightarrow> nat option" where
  "CanonicalPartSetHeader_expected n = (if n = 1 then Some 0 else if n = 2 then Some 2 else None)"

definition CanonicalPartSetHeader_assign :: "int32 \<Rightarrow> wire_val \<Rightarrow> CanonicalPartSetHeader \<Rightarrow> (wire_error, CanonicalPartSetHeader) result" where
  "CanonicalPartSetHeader_assign n v m =
     (if n = 1 then Inr (m\<lparr>cp_Total := unat (ucast (varint_of v) :: 32 word)\<rparr>) else Inr (m\<lparr>cp_Hash := bytes_of v\<rparr>))"

definition CanonicalPartSetHeader_Unmarshal :: "CanonicalPartSetHeader \<Rightarrow> bytes \<Rightarrow> (wire_error, CanonicalPartSetHeader) result" where
  "CanonicalPartSetHeader_Unmarshal m dAtA =
     decode_fields CanonicalPartSetHeader_expected CanonicalPartSetHeader_assign dAtA m 0"

definition CanonicalBlockID_expected :: "int32 \<Rightarrow> nat option" where
  "CanonicalBlockID_expected n = (if n = 1 \<or> n = 2 then Some 2 else None)"

definition CanonicalBlockID_assign :: "int32 \<Rightarrow> wire_val \<Rightarrow> CanonicalBlockID \<Rightarrow> (wire_error, CanonicalBlockID) result" where
  "CanonicalBlockID_assign n v m =
     (if n = 1 then Inr (m\<lparr>cb_Hash := bytes_of v\<rparr>)
      else and_then (CanonicalPartSetHeader_Unmarshal (cb_PartSetHeader m) (bytes_of v)) (\<lambda>h. Inr (m\<lparr>cb_PartSetHeader := h\<rparr>)))"

definition CanonicalBlockID_Unmarshal :: "CanonicalBlockID \<Rightarrow> bytes \<Rightarrow> (wire_error, CanonicalBlockID) result" where
  "CanonicalBlockID_Unmarshal m dAtA = decode_fields CanonicalBlockID_expected CanonicalBlockID_assign dAtA m 0"

definition zero_PartSetHeader :: CanonicalPartSetHeader where
  "zero_PartSetHeader = \<lparr>cp_Total = 0, cp_Hash = []\<rparr>"

definition zero_BlockID :: CanonicalBlockID where
  "zero_BlockID = \<lparr>cb_Hash = [], cb_PartSetHeader = zero_PartSetHeader\<rparr>"

definition read_BlockID :: "CanonicalBlockID option \<Rightarrow> bytes \<Rightarrow> (wire_error, CanonicalBlockID) result" where
  "read_BlockID b dAtA = CanonicalBlockID_Unmarshal (case b of None \<Rightarrow> zero_BlockID | Some m \<Rightarrow> m) dAtA"

definition read_time :: "(bytes \<Rightarrow> timestamp option) \<Rightarrow> bytes \<Rightarrow> (wire_error, timestamp) result" where
  "read_time time_of b = (case time_of b of None \<Rightarrow> Inl (Err ErrTimeFormat) | Some t \<Rightarrow> Inr t)"

definition CanonicalVote_expected :: "int32 \<Rightarrow> nat option" where
  "CanonicalVote_expected n =
     (if n = 1 then Some 0 else if n = 2 \<or> n = 3 then Some 1 else if n = 4 \<or> n = 5 \<or> n = 6 then Some 2 else None)"

definition CanonicalVote_assign :: "(bytes \<Rightarrow> timestamp option) \<Rightarrow> int32 \<Rightarrow> wire_val \<Rightarrow> CanonicalVote \<Rightarrow> (wire_error, CanonicalVote) result" where
  "CanonicalVote_assign time_of n v m =
     (if n = 1 then Inr (m\<lparr>cv_Type := sint (ucast (varint_of v) :: 32 word)\<rparr>)
      else if n = 2 then Inr (m\<lparr>cv_Height := sint (fixed_of v)\<rparr>)
      else if n = 3 then Inr (m\<lparr>cv_Round := sint (fixed_of v)\<rparr>)
      else if n = 4 then and_then (read_BlockID (cv_BlockID m) (bytes_of v)) (\<lambda>b. Inr (m\<lparr>cv_BlockID := Some b\<rparr>))
      else if n = 5 then and_then (read_time time_of (bytes_of v)) (\<lambda>t. Inr (m\<lparr>cv_Timestamp := t\<rparr>))
      else Inr (m\<lparr>cv_ChainID := bytes_of v\<rparr>))"

definition CanonicalVote_Unmarshal :: "(bytes \<Rightarrow> timestamp option) \<Rightarrow> CanonicalVote \<Rightarrow> bytes \<Rightarrow> (wire_error, CanonicalVote) result" where
  "CanonicalVote_Unmarshal time_of m dAtA = decode_fields CanonicalVote_expected (CanonicalVote_assign time_of) dAtA m 0"

definition CanonicalProposal_expected :: "int32 \<Rightarrow> nat option" where
  "CanonicalProposal_expected n =
     (if n = 1 \<or> n = 4 then Some 0 else if n = 2 \<or> n = 3 then Some 1 else if n = 5 \<or> n = 6 \<or> n = 7 then Some 2 else None)"

definition CanonicalProposal_assign :: "(bytes \<Rightarrow> timestamp option) \<Rightarrow> int32 \<Rightarrow> wire_val \<Rightarrow> CanonicalProposal \<Rightarrow> (wire_error, CanonicalProposal) result" where
  "CanonicalProposal_assign time_of n v m =
     (if n = 1 then Inr (m\<lparr>cpr_Type := sint (ucast (varint_of v) :: 32 word)\<rparr>)
      else if n = 2 then Inr (m\<lparr>cpr_Height := sint (fixed_of v)\<rparr>)
      else if n = 3 then Inr (m\<lparr>cpr_Round := sint (fixed_of v)\<rparr>)
      else if n = 4 then Inr (m\<lparr>cpr_POLRound := sint (varint_of v)\<rparr>)
      else if n = 5 then and_then (read_BlockID (cpr_BlockID m) (bytes_of v)) (\<lambda>b. Inr (m\<lparr>cpr_BlockID := Some b\<rparr>))
      else if n = 6 then and_then (read_time time_of (bytes_of v)) (\<lambda>t. Inr (m\<lparr>cpr_Timestamp := t\<rparr>))
      else Inr (m\<lparr>cpr_ChainID := bytes_of v\<rparr>))"

definition CanonicalProposal_Unmarshal :: "(bytes \<Rightarrow> timestamp option) \<Rightarrow> CanonicalProposal \<Rightarrow> bytes \<Rightarrow> (wire_error, CanonicalProposal) result" where
  "CanonicalProposal_Unmarshal time_of m dAtA =
     decode_fields CanonicalProposal_expected (CanonicalProposal_assign time_of) dAtA m 0"

section \<open>Delimited messages\<close>

text \<open>
  \<^verbatim>\<open>binary.ReadUvarint\<close> on the data: at most ten bytes, the tenth at most 1. Then \<open>UnmarshalDelimited\<close> reads a
  message of that length into its zero value with the given decoder; the maximal size is the length of the data.
\<close>

fun ReadUvarint :: "nat \<Rightarrow> 64 word \<Rightarrow> bytes \<Rightarrow> (wire_error, 64 word \<times> bytes) result" where
  "ReadUvarint i x [] = Inl (Err ErrUnexpectedEOF)"
| "ReadUvarint i x (b # rest) =
     (if b < 0x80 then
        (if i > 9 \<or> i = 9 \<and> b > 1 then Inl (Err ErrIntOverflowCanonical)
         else Inr (x OR push_bit (7 * i) (ucast b), rest))
      else ReadUvarint (Suc i) (x OR push_bit (7 * i) (ucast (b AND 0x7F))) rest)"

definition UnmarshalDelimited :: "(bytes \<Rightarrow> (wire_error, 'm) result) \<Rightarrow> bytes \<Rightarrow> (wire_error, 'm) result" where
  "UnmarshalDelimited unmarshal data =
     and_then (ReadUvarint 0 0 data) (\<lambda>(length64, rest).
       let len = sint length64
       in if len < 0 \<or> len > int (length data) then Inl (Err ErrMessageTooLarge)
          else and_then (if 0 < len then make_bytes len else Inr []) (\<lambda>buf.
            and_then (slice_bytes buf 0 len) (\<lambda>buf.
              if length rest < length buf then Inl (Err ErrUnexpectedEOF)
              else unmarshal (take (length buf) rest))))"

section \<open>Decoding inverts encoding\<close>

text \<open>The index of the data at which a suffix of them starts.\<close>

definition pos :: "bytes \<Rightarrow> bytes \<Rightarrow> int64" where
  "pos d rest = int (length d) - int (length rest)"

lemma pos_simps [simp]: "pos d d = 0" "pos d [] = int (length d)" "pos d (b # rest) + 1 = pos d rest"
  by (simp_all add: pos_def)

lemma pos_less:
  assumes "suffix (b # rest) d" "int (length d) \<le> MaxInt64"
  shows "pos d (b # rest) < len_int d"
  using assms by (simp add: pos_def)

lemma index_pos:
  assumes "suffix (b # rest) d" "int (length d) \<le> MaxInt64"
  shows "index_byte d (pos d (b # rest)) = Inr b"
  using assms by (auto simp: suffix_def index_byte_def pos_def nth_append)

lemma slice_pos:
  assumes "suffix (b @ rest) d" "int (length d) \<le> MaxInt64"
  shows "slice_bytes d (pos d (b @ rest)) (pos d rest) = Inr b"
  using assms by (auto simp: suffix_def slice_bytes_def pos_def)

lemma read_uvarint_Cons:
  assumes "suffix (b # rest) d" "int (length d) \<le> MaxInt64" "shift < 64"
  shows "read_uvarint d shift acc (pos d (b # rest)) =
    (if b < 0x80 then Inr (acc OR push_bit shift (ucast (b AND 0x7F)), pos d rest)
     else read_uvarint d (shift + 7) (acc OR push_bit shift (ucast (b AND 0x7F))) (pos d rest))"
  using pos_less [OF assms(1,2)] index_pos [OF assms(1,2)] assms(3)
  by (subst read_uvarint.simps) (simp add: Let_def del: len_int_id)

lemma split_seven: "w = (take_bit 7 w :: 64 word) OR push_bit 7 (drop_bit 7 w)"
proof (rule bit_word_eqI)
  fix n assume "n < LENGTH(64)"
  then show "bit w n = bit ((take_bit 7 w :: 64 word) OR push_bit 7 (drop_bit 7 w)) n"
    by (cases "n < 7") (auto simp: bit_or_iff bit_take_bit_iff bit_push_bit_iff bit_drop_bit_eq not_less)
qed

lemma take_seven: "(of_nat (v mod 128) :: 64 word) = take_bit 7 (of_nat v)"
proof -
  have "v mod 128 = take_bit 7 v" by (simp add: take_bit_eq_mod)
  then show ?thesis by (simp only: of_nat_take_bit)
qed

lemma drop_seven:
  assumes "v < 2 ^ 64"
  shows "(of_nat (v div 128) :: 64 word) = drop_bit 7 (of_nat v)"
proof -
  have "unat (of_nat v :: 64 word) = v" using assms by (simp add: unat_of_nat)
  then have "unat (drop_bit 7 (of_nat v :: 64 word)) = drop_bit 7 v" by (simp only: unat_drop_bit_eq)
  moreover have "unat (of_nat (v div 128) :: 64 word) = v div 128"
    using assms div_le_dividend [of v 128] by (simp add: unat_of_nat)
  moreover have "drop_bit 7 v = v div 128" by (simp add: drop_bit_eq_div)
  ultimately show ?thesis by (metis word_unat_eq_iff)
qed

lemma low_seven: "(ucast ((b :: 8 word) AND 0x7F) :: 64 word) = of_nat (unat b mod 128)"
proof -
  have "b AND 0x7F = take_bit 7 b" by (simp add: take_bit_eq_mask mask_eq_decr_exp)
  also have "\<dots> = b mod 128" by (simp add: take_bit_eq_mod)
  finally have "unat (b AND 0x7F) = unat b mod 128" by (simp add: unat_mod)
  moreover have "(ucast (b AND 0x7F) :: 64 word) = of_nat (unat (b AND 0x7F))" by (simp add: unsigned_eq_0_iff)
  ultimately show ?thesis by simp
qed

lemma byte_less_128: "(b :: 8 word) < 0x80 \<longleftrightarrow> unat b < 128"
  by (simp add: word_less_nat_alt)

lemma read_uvarint_encode:
  assumes "v < 2 ^ (64 - shift)" "shift < 64" "suffix (encodeVarint v @ rest) d" "int (length d) \<le> MaxInt64"
  shows "read_uvarint d shift acc (pos d (encodeVarint v @ rest)) = Inr (acc OR push_bit shift (of_nat v), pos d rest)"
  using assms
proof (induction v arbitrary: shift acc rule: encodeVarint.induct)
  case (1 v)
  have v64: "v < 2 ^ 64" using "1.prems"(1) by (rule less_le_trans) (rule power_increasing, simp_all)
  show ?case
  proof (cases "v \<ge> 128")
    case True
    have "(2::nat) ^ 7 < 2 ^ (64 - shift)" using True "1.prems"(1) by simp
    then have "7 < 64 - shift" by (rule power_less_imp_less_exp [rotated]) simp
    then have sh: "shift + 7 < 64" "64 - shift = 7 + (64 - (shift + 7))" by linarith+
    have "v < 128 * 2 ^ (64 - (shift + 7))" using "1.prems"(1) unfolding sh(2) power_add by simp
    moreover have enc: "encodeVarint v @ rest = of_nat (v mod 128 + 128) # encodeVarint (v div 128) @ rest"
      using True by (subst encodeVarint.simps) simp
    ultimately have IH: "read_uvarint d (shift + 7) a (pos d (encodeVarint (v div 128) @ rest)) =
        Inr (a OR push_bit (shift + 7) (of_nat (v div 128)), pos d rest)" for a
      using "1.IH" [OF True _ sh(1) _ "1.prems"(4)] "1.prems"(3) by (simp add: div_less_iff_less_mult mult.commute suffix_ConsD)
    have "(of_nat v :: 64 word) = of_nat (v mod 128) OR push_bit 7 (of_nat (v div 128))"
      unfolding take_seven drop_seven [OF v64] by (rule split_seven)
    then have "acc OR push_bit shift (of_nat v) = acc OR push_bit shift (of_nat (v mod 128)) OR push_bit (shift + 7) (of_nat (v div 128))"
      by (simp add: push_bit_or or.assoc push_bit_push_bit add.commute)
    then show ?thesis
      using "1.prems"(2-4) IH unat_of_nat_byte [of "v mod 128 + 128"] unfolding enc
      by (subst read_uvarint_Cons) (simp_all add: low_seven byte_less_128 or.assoc del: of_nat_add)
  next
    case False
    then have enc: "encodeVarint v @ rest = of_nat v # rest" by (subst encodeVarint.simps) simp
    then show ?thesis using False "1.prems"(2-4) unat_of_nat_byte [of v] unfolding enc
      by (subst read_uvarint_Cons) (simp_all add: low_seven byte_less_128)
  qed
qed

lemma little_endian_bit: "n < 64 \<Longrightarrow> bit (little_endian bs) n \<longleftrightarrow> n div 8 < length bs \<and> bit (bs ! (n div 8)) (n mod 8)"
proof (induction bs arbitrary: n)
  case (Cons b bs)
  show ?case
  proof (cases "n < 8")
    case True
    then show ?thesis by (simp add: bit_or_iff bit_push_bit_iff bit_ucast_iff)
  next
    case False
    then have "n div 8 = Suc ((n - 8) div 8)" "n mod 8 = (n - 8) mod 8" by (simp_all add: le_div_geq le_mod_geq)
    moreover have "\<not> bit b n" using False bit_imp_le_length [of b n] by auto
    ultimately show ?thesis using False Cons by (simp add: bit_or_iff bit_push_bit_iff bit_ucast_iff)
  qed
qed simp

lemma little_endian_PutUint64: "little_endian (PutUint64 w) = w"
proof (rule bit_word_eqI)
  fix n assume "n < LENGTH(64)"
  then have k: "n < 64" "n div 8 < 8" "n mod 8 < 8" by auto
  then have "bit (PutUint64 w ! (n div 8)) (n mod 8) = bit w n"
    by (simp add: PutUint64_def bit_ucast_iff bit_drop_bit_eq)
  then show "bit (little_endian (PutUint64 w)) n = bit w n" using little_endian_bit [OF k(1), of "PutUint64 w"] k(2) by simp
qed

lemma Uint64_PutUint64: "int (length rest) + 8 \<le> MaxInt64 \<Longrightarrow> Uint64 (PutUint64 w @ rest) = Inr w"
  by (simp add: Uint64_def index_byte_def little_endian_PutUint64)

lemma read_value_varint:
  assumes "v < 2 ^ 64" "suffix (encodeVarint v @ rest) d" "int (length d) \<le> MaxInt64"
  shows "read_value d 0 (pos d (encodeVarint v @ rest)) = Inr (Varint (of_nat v), pos d rest)"
  using read_uvarint_encode [of v 0 rest d 0] assms by (simp add: read_value_def)

lemma read_value_fixed:
  assumes "suffix (PutUint64 w @ rest) d" "int (length d) \<le> MaxInt64"
  shows "read_value d 1 (pos d (PutUint64 w @ rest)) = Inr (Fixed64 w, pos d rest)"
proof -
  have p: "pos d (PutUint64 w @ rest) + 8 = pos d rest" by (simp add: pos_def)
  have len: "length rest + 8 \<le> length d" using suffix_length_le [OF assms(1)] by simp
  have "slice_bytes d (pos d ((PutUint64 w @ rest) @ [])) (pos d []) = Inr (PutUint64 w @ rest)"
    using assms by (intro slice_pos) simp_all
  moreover have "wrap64 (pos d rest) \<le> int (length d)" using assms(2) by (subst wrap64_idI) (use len in \<open>simp_all add: pos_def int_limits\<close>)
  ultimately show ?thesis
    using assms(2) len by (simp add: read_value_def p Uint64_PutUint64)
qed

lemma sint_of_nat_64: "v < 2 ^ 63 \<Longrightarrow> sint (of_nat v :: 64 word) = int v"
  using wrap_int_word [of "int v"] by (simp add: int64_range_iff int_limits)

lemma read_value_delimited:
  assumes "suffix (len_prefixed b @ rest) d" "int (length d) \<le> MaxInt64"
  shows "read_value d 2 (pos d (len_prefixed b @ rest)) = Inr (Delimited b, pos d rest)"
proof -
  have suf: "suffix (encodeVarint (length b) @ b @ rest) d" "suffix (b @ rest) d"
    using assms(1) suffix_appendD [of "encodeVarint (length b)" "b @ rest" d] by (simp_all add: len_prefixed_def)
  then have lb: "length b < 2 ^ 63" "pos d (b @ rest) + int (length b) = pos d rest" "0 \<le> pos d rest" "pos d rest \<le> int (length d)"
    using suffix_length_le [OF suf(2)] assms(2) by (simp_all add: pos_def int_limits)
  moreover from this have "wrap64 (pos d rest) = pos d rest" using assms(2) by (intro wrap64_idI) (simp_all add: int_limits)
  ultimately show ?thesis
    using read_uvarint_encode [of "length b" 0 "b @ rest" d 0] suf assms(2) sint_of_nat_64 [OF lb(1)] slice_pos [OF suf(2) assms(2)]
    by (simp add: read_value_def len_prefixed_def Let_def)
qed

text \<open>The tag of a field: one byte with the field number and the wire type.\<close>

definition tag_field :: "8 word \<Rightarrow> int32" where
  "tag_field t = sint (ucast (drop_bit 3 (of_nat (unat t) :: 64 word)) :: 32 word)"

definition tag_type :: "8 word \<Rightarrow> nat" where
  "tag_type t = unat ((of_nat (unat t) :: 64 word) AND 7)"

lemma tags:
  "tag_field 0x08 = 1" "tag_field 0x0a = 1" "tag_field 0x11 = 2" "tag_field 0x12 = 2" "tag_field 0x19 = 3"
  "tag_field 0x20 = 4" "tag_field 0x22 = 4" "tag_field 0x2a = 5" "tag_field 0x32 = 6" "tag_field 0x3a = 7"
  "tag_type 0x08 = 0" "tag_type 0x0a = 2" "tag_type 0x11 = 1" "tag_type 0x12 = 2" "tag_type 0x19 = 1"
  "tag_type 0x20 = 0" "tag_type 0x22 = 2" "tag_type 0x2a = 2" "tag_type 0x32 = 2" "tag_type 0x3a = 2"
  by (simp_all add: tag_field_def tag_type_def)

text \<open>Decoding what is left of the data.\<close>

abbreviation decode_rest :: "(int32 \<Rightarrow> nat option) \<Rightarrow> (int32 \<Rightarrow> wire_val \<Rightarrow> 'm \<Rightarrow> (wire_error, 'm) result) \<Rightarrow> bytes \<Rightarrow> 'm \<Rightarrow> bytes \<Rightarrow>
    (wire_error, 'm) result" where
  "decode_rest expected assign d m rest \<equiv> decode_fields expected assign d m (pos d rest)"

lemma decode_tagged:
  assumes "unat t < 128" "tag_type t \<noteq> 4" "0 < tag_field t" "expected (tag_field t) = Some (tag_type t)"
    and "read_value d (tag_type t) (pos d (bs @ rest)) = Inr (v, pos d rest)"
    and "suffix (t # bs @ rest) d" "int (length d) \<le> MaxInt64"
  shows "decode_rest expected assign d m (t # bs @ rest) =
    and_then (assign (tag_field t) v m) (\<lambda>m. decode_rest expected assign d m rest)"
proof -
  have "read_uvarint d 0 0 (pos d (t # bs @ rest)) = Inr (of_nat (unat t), pos d (bs @ rest))"
    using assms(1,6,7) by (subst read_uvarint_Cons) (simp_all add: low_seven byte_less_128)
  then show ?thesis
    using assms(2-5) pos_less [OF assms(6,7)] by (subst decode_fields.simps) (simp add: Let_def tag_field_def tag_type_def)
qed

text \<open>Optional fields: assigned when present, left at their default when not.\<close>

lemma decode_varint_field:
  assumes "unat t < 128" "0 < tag_field t" "expected (tag_field t) = Some 0" "tag_type t = 0" "v < 2 ^ 64"
    and "suffix (varint_field t v @ rest) d" "int (length d) \<le> MaxInt64"
  shows "decode_rest expected assign d m (varint_field t v @ rest) =
    (if v = 0 then decode_rest expected assign d m rest
     else and_then (assign (tag_field t) (Varint (of_nat v)) m) (\<lambda>m. decode_rest expected assign d m rest))"
  using decode_tagged [of t expected d "encodeVarint v" rest "Varint (of_nat v)" assign m] read_value_varint [OF assms(5), of rest d]
    suffix_ConsD [of t "encodeVarint v @ rest" d] assms
  by (cases "v = 0") (simp_all add: varint_field_def)

lemma decode_fixed64_field:
  assumes "unat t < 128" "0 < tag_field t" "expected (tag_field t) = Some 1" "tag_type t = 1"
    and "suffix (fixed64_field t x @ rest) d" "int (length d) \<le> MaxInt64"
  shows "decode_rest expected assign d m (fixed64_field t x @ rest) =
    (if x = 0 then decode_rest expected assign d m rest
     else and_then (assign (tag_field t) (Fixed64 (of_int x)) m) (\<lambda>m. decode_rest expected assign d m rest))"
  using decode_tagged [of t expected d "PutUint64 (of_int x)" rest "Fixed64 (of_int x)" assign m] read_value_fixed [of "of_int x" rest d]
    suffix_ConsD [of t "PutUint64 (of_int x) @ rest" d] assms
  by (cases "x = 0") (simp_all add: fixed64_field_def)

lemma decode_len_prefixed:
  assumes "unat t < 128" "0 < tag_field t" "expected (tag_field t) = Some 2" "tag_type t = 2"
    and "suffix (t # len_prefixed b @ rest) d" "int (length d) \<le> MaxInt64"
  shows "decode_rest expected assign d m (t # len_prefixed b @ rest) =
    and_then (assign (tag_field t) (Delimited b) m) (\<lambda>m. decode_rest expected assign d m rest)"
  using decode_tagged [of t expected d "len_prefixed b" rest "Delimited b" assign m]
    read_value_delimited [OF suffix_ConsD [OF assms(5)] assms(6)] assms by simp

lemma decode_bytes_field:
  assumes "unat t < 128" "0 < tag_field t" "expected (tag_field t) = Some 2" "tag_type t = 2"
    and "suffix (bytes_field t b @ rest) d" "int (length d) \<le> MaxInt64"
  shows "decode_rest expected assign d m (bytes_field t b @ rest) =
    (if b = [] then decode_rest expected assign d m rest
     else and_then (assign (tag_field t) (Delimited b) m) (\<lambda>m. decode_rest expected assign d m rest))"
  using decode_len_prefixed [of t expected b rest d assign m] assms by (auto simp: bytes_field_def)

lemma decode_nil [simp]: "int (length d) \<le> MaxInt64 \<Longrightarrow> decode_fields expected assign d m (int (length d)) = Inr m"
  by (simp add: decode_fields.simps)

lemma of_nat_uint64_of: "(of_nat (uint64_of x) :: 64 word) = of_int x"
proof -
  have "uint (of_nat (uint64_of x) :: 64 word) = x mod 2 ^ 64" by (simp add: uint64_of_def uint_word_of_int)
  moreover have "uint (of_int x :: 64 word) = x mod 2 ^ 64" by (simp add: uint_word_of_int)
  ultimately show ?thesis by (metis word_uint_eq_iff)
qed

lemma uint64_of_less: "uint64_of x < 2 ^ 64"
proof -
  have "x mod 2 ^ 64 < 2 ^ 64" "0 \<le> x mod 2 ^ 64" by simp_all
  then show ?thesis unfolding uint64_of_def by (metis nat_less_iff of_nat_numeral of_nat_power)
qed

lemma sint_of_int_64: "int64_range x \<Longrightarrow> sint (of_int x :: 64 word) = x"
  using wrap_int_word [of x] by simp

lemma sint_of_int_32: "int32_range x \<Longrightarrow> sint (ucast (of_int x :: 64 word) :: 32 word) = x"
proof -
  assume r: "int32_range x"
  have "(ucast (of_int x :: 64 word) :: 32 word) = of_int x"
    by (rule bit_word_eqI) (simp add: bit_ucast_iff bit_word_of_int_iff)
  moreover have "wrap32 x = sint (of_int x :: 32 word)" by (simp add: wrap_int_def int_word_sint)
  ultimately show ?thesis using r by simp
qed

definition header_ok :: "CanonicalPartSetHeader \<Rightarrow> bool" where
  "header_ok h \<longleftrightarrow> cp_Total h < 2 ^ 32"

lemma CanonicalPartSetHeader_roundtrip:
  assumes "header_ok h" "int (length (CanonicalPartSetHeader_marshal h)) \<le> MaxInt64"
  shows "CanonicalPartSetHeader_Unmarshal zero_PartSetHeader (CanonicalPartSetHeader_marshal h) = Inr h"
proof -
  let ?d = "CanonicalPartSetHeader_marshal h"
  have t: "cp_Total h < 2 ^ 64" "unat (ucast (of_nat (cp_Total h) :: 64 word) :: 32 word) = cp_Total h"
    using assms(1) by (simp_all add: header_ok_def unsigned_ucast_eq unsigned_of_nat take_bit_nat_eq_self)
  have d: "?d = varint_field 0x08 (cp_Total h) @ bytes_field 0x12 (cp_Hash h)" by (simp add: CanonicalPartSetHeader_marshal_def)
  have suf: "suffix (bytes_field 0x12 (cp_Hash h)) ?d" unfolding d by (rule suffixI) (rule refl)
  have "decode_rest CanonicalPartSetHeader_expected CanonicalPartSetHeader_assign ?d m (bytes_field 0x12 (cp_Hash h) @ []) =
      (if cp_Hash h = [] then Inr m else Inr (m\<lparr>cp_Hash := cp_Hash h\<rparr>))" for m
    using assms(2) suf by (subst decode_bytes_field)
      (simp_all add: tags CanonicalPartSetHeader_expected_def CanonicalPartSetHeader_assign_def)
  moreover have "decode_rest CanonicalPartSetHeader_expected CanonicalPartSetHeader_assign ?d m
       (varint_field 0x08 (cp_Total h) @ bytes_field 0x12 (cp_Hash h)) =
     decode_rest CanonicalPartSetHeader_expected CanonicalPartSetHeader_assign ?d
       (if cp_Total h = 0 then m else m\<lparr>cp_Total := cp_Total h\<rparr>) (bytes_field 0x12 (cp_Hash h))" for m
    using t assms(2) d by (subst decode_varint_field)
      (simp_all add: tags CanonicalPartSetHeader_expected_def CanonicalPartSetHeader_assign_def)
  ultimately have "decode_rest CanonicalPartSetHeader_expected CanonicalPartSetHeader_assign ?d zero_PartSetHeader ?d = Inr h"
    unfolding d [symmetric] by (cases h) (simp add: zero_PartSetHeader_def)
  then show ?thesis by (simp add: CanonicalPartSetHeader_Unmarshal_def)
qed

lemma CanonicalBlockID_roundtrip:
  assumes "header_ok (cb_PartSetHeader b)" "int (length (CanonicalBlockID_marshal b)) \<le> MaxInt64"
  shows "CanonicalBlockID_Unmarshal zero_BlockID (CanonicalBlockID_marshal b) = Inr b"
proof -
  let ?d = "CanonicalBlockID_marshal b" and ?h = "CanonicalPartSetHeader_marshal (cb_PartSetHeader b)"
  let ?dec = "decode_rest CanonicalBlockID_expected CanonicalBlockID_assign ?d"
  have d: "?d = bytes_field 0x0a (cb_Hash b) @ 0x12 # len_prefixed ?h" by (simp add: CanonicalBlockID_marshal_def)
  have suf: "suffix (0x12 # len_prefixed ?h) ?d" unfolding d by (rule suffixI) (rule refl)
  have small: "int (length ?h) \<le> MaxInt64" using assms(2) by (simp add: CanonicalBlockID_marshal_def len_prefixed_def)
  have h: "?dec m (0x12 # len_prefixed ?h @ []) = Inr (m\<lparr>cb_PartSetHeader := cb_PartSetHeader b\<rparr>)"
    if "cb_PartSetHeader m = zero_PartSetHeader" for m
    using assms(2) suf CanonicalPartSetHeader_roundtrip [OF assms(1) small] that
    by (subst decode_len_prefixed) (simp_all add: tags CanonicalBlockID_expected_def CanonicalBlockID_assign_def)
  have "?dec m (bytes_field 0x0a (cb_Hash b) @ 0x12 # len_prefixed ?h) =
      ?dec (if cb_Hash b = [] then m else m\<lparr>cb_Hash := cb_Hash b\<rparr>) (0x12 # len_prefixed ?h)" for m
    using assms(2) d by (subst decode_bytes_field)
      (simp_all add: tags CanonicalBlockID_expected_def CanonicalBlockID_assign_def)
  then have "?dec zero_BlockID ?d = Inr b"
    using h unfolding d [symmetric] by (cases b) (simp add: zero_BlockID_def)
  then show ?thesis by (simp add: CanonicalBlockID_Unmarshal_def)
qed

text \<open>The documented behaviour of the decoder of times: it inverts the encoder.\<close>

definition time_decoding :: "(timestamp \<Rightarrow> bytes option) \<Rightarrow> (bytes \<Rightarrow> timestamp option) \<Rightarrow> bool" where
  "time_decoding time_bytes time_of \<longleftrightarrow> (\<forall>t b. time_bytes t = Some b \<longrightarrow> time_of b = Some t)"

definition vote_ranges :: "CanonicalVote \<Rightarrow> bool" where
  "vote_ranges v \<longleftrightarrow> int32_range (cv_Type v) \<and> int64_range (cv_Height v) \<and> int64_range (cv_Round v) \<and>
     (\<forall>b. cv_BlockID v = Some b \<longrightarrow> header_ok (cb_PartSetHeader b))"

definition zero_Vote :: CanonicalVote where
  "zero_Vote = \<lparr>cv_Type = 0, cv_Height = 0, cv_Round = 0, cv_BlockID = None, cv_Timestamp = 0, cv_ChainID = []\<rparr>"

abbreviation decode_vote :: "(bytes \<Rightarrow> timestamp option) \<Rightarrow> bytes \<Rightarrow> CanonicalVote \<Rightarrow> bytes \<Rightarrow> (wire_error, CanonicalVote) result" where
  "decode_vote time_of d m rest \<equiv> decode_rest CanonicalVote_expected (CanonicalVote_assign time_of) d m rest"

lemma decode_vote_tail:
  assumes "time_of tb = Some t" "suffix (0x2a # len_prefixed tb @ bytes_field 0x32 c) d" "int (length d) \<le> MaxInt64"
  shows "decode_vote time_of d m (0x2a # len_prefixed tb @ bytes_field 0x32 c) =
    Inr (if c = [] then m\<lparr>cv_Timestamp := t\<rparr> else m\<lparr>cv_Timestamp := t, cv_ChainID := c\<rparr>)"
proof -
  have suf: "suffix (bytes_field 0x32 c) d" using suffix_appendD [OF suffix_ConsD [OF assms(2)]] .
  have "decode_vote time_of d m' (bytes_field 0x32 c @ []) = (if c = [] then Inr m' else Inr (m'\<lparr>cv_ChainID := c\<rparr>))" for m'
    using suf assms(3) by (subst decode_bytes_field) (simp_all add: tags CanonicalVote_expected_def CanonicalVote_assign_def)
  then show ?thesis
    using assms by (subst decode_len_prefixed) (simp_all add: tags CanonicalVote_expected_def CanonicalVote_assign_def read_time_def)
qed

lemma decode_vote_block:
  assumes "\<forall>b. bo = Some b \<longrightarrow> header_ok (cb_PartSetHeader b)" "cv_BlockID m = None"
    and "suffix (block_id_field 0x22 bo @ rest) d" "int (length d) \<le> MaxInt64"
  shows "decode_vote time_of d m (block_id_field 0x22 bo @ rest) =
    decode_vote time_of d (case bo of None \<Rightarrow> m | Some b \<Rightarrow> m\<lparr>cv_BlockID := Some b\<rparr>) rest"
proof (cases bo)
  case (Some b)
  have "int (length (CanonicalBlockID_marshal b)) \<le> MaxInt64"
    using suffix_length_le [OF assms(3)] assms(4) Some by (simp add: block_id_field_def len_prefixed_def)
  then have "read_BlockID None (CanonicalBlockID_marshal b) = Inr b"
    using CanonicalBlockID_roundtrip assms(1) Some by (simp add: read_BlockID_def)
  then show ?thesis
    using Some assms(2-4) by (simp add: block_id_field_def)
      (subst decode_len_prefixed; simp add: tags CanonicalVote_expected_def CanonicalVote_assign_def)
qed (simp add: block_id_field_def)

lemma decode_vote_step:
  assumes "int32_range ty" "int64_range h" "int64_range r"
    and "suffix (varint_field 0x08 (uint64_of ty) @ fixed64_field 0x11 h @ fixed64_field 0x19 r @ rest) d" "int (length d) \<le> MaxInt64"
  shows "decode_vote time_of d m (varint_field 0x08 (uint64_of ty) @ fixed64_field 0x11 h @ fixed64_field 0x19 r @ rest) =
    decode_vote time_of d (m\<lparr>cv_Type := if ty = 0 then cv_Type m else ty, cv_Height := if h = 0 then cv_Height m else h,
      cv_Round := if r = 0 then cv_Round m else r\<rparr>) rest"
proof -
  note suf2 = suffix_appendD [OF assms(4)]
  note suf3 = suffix_appendD [OF suf2]
  have ty: "uint64_of ty = 0 \<longleftrightarrow> ty = 0" using assms(1) by (intro uint64_of_eq_0) (simp add: int32_range_iff int64_range_iff int_limits)
  have "decode_vote time_of d m' (fixed64_field 0x19 r @ rest) = decode_vote time_of d (if r = 0 then m' else m'\<lparr>cv_Round := r\<rparr>) rest" for m'
    using sint_of_int_64 [OF assms(3)] suf3 assms(5) by (subst decode_fixed64_field) (simp_all add: tags CanonicalVote_expected_def CanonicalVote_assign_def)
  moreover have "decode_vote time_of d m' (fixed64_field 0x11 h @ fixed64_field 0x19 r @ rest) =
      decode_vote time_of d (if h = 0 then m' else m'\<lparr>cv_Height := h\<rparr>) (fixed64_field 0x19 r @ rest)" for m'
    using sint_of_int_64 [OF assms(2)] suf2 assms(5) by (subst decode_fixed64_field) (simp_all add: tags CanonicalVote_expected_def CanonicalVote_assign_def)
  moreover have "decode_vote time_of d m (varint_field 0x08 (uint64_of ty) @ fixed64_field 0x11 h @ fixed64_field 0x19 r @ rest) =
      decode_vote time_of d (if ty = 0 then m else m\<lparr>cv_Type := ty\<rparr>) (fixed64_field 0x11 h @ fixed64_field 0x19 r @ rest)"
    using sint_of_int_32 [OF assms(1)] uint64_of_less [of ty] assms(4,5)
    by (subst decode_varint_field) (simp_all add: tags ty of_nat_uint64_of CanonicalVote_expected_def CanonicalVote_assign_def)
  ultimately show ?thesis by simp
qed

lemma CanonicalVote_roundtrip:
  assumes "time_decoding time_bytes time_of" "vote_ranges v" "CanonicalVote_marshal time_bytes v = Inr d" "int (length d) \<le> MaxInt64"
  shows "CanonicalVote_Unmarshal time_of zero_Vote d = Inr v"
proof -
  obtain tb where tb: "time_bytes (cv_Timestamp v) = Some tb" and d: "d = varint_field 0x08 (uint64_of (cv_Type v)) @ fixed64_field 0x11 (cv_Height v) @
      fixed64_field 0x19 (cv_Round v) @ block_id_field 0x22 (cv_BlockID v) @ 0x2a # len_prefixed tb @ bytes_field 0x32 (cv_ChainID v)"
    using assms(3) by (auto simp: CanonicalVote_marshal_def split: option.splits)
  have t: "time_of tb = Some (cv_Timestamp v)" using assms(1) tb by (simp add: time_decoding_def)
  have r: "int32_range (cv_Type v)" "int64_range (cv_Height v)" "int64_range (cv_Round v)"
      "\<forall>b. cv_BlockID v = Some b \<longrightarrow> header_ok (cb_PartSetHeader b)" using assms(2) by (simp_all add: vote_ranges_def)
  let ?m = "zero_Vote\<lparr>cv_Type := cv_Type v, cv_Height := cv_Height v, cv_Round := cv_Round v\<rparr>"
  have suffix_d: "suffix (varint_field 0x08 (uint64_of (cv_Type v)) @ fixed64_field 0x11 (cv_Height v) @ fixed64_field 0x19 (cv_Round v) @
      block_id_field 0x22 (cv_BlockID v) @ 0x2a # len_prefixed tb @ bytes_field 0x32 (cv_ChainID v)) d" unfolding d by (rule suffix_order.refl)
  note suf = suffix_appendD [OF suffix_appendD [OF suffix_appendD [OF suffix_d]]]
  have "CanonicalVote_Unmarshal time_of zero_Vote d = decode_vote time_of d ?m
      (block_id_field 0x22 (cv_BlockID v) @ 0x2a # len_prefixed tb @ bytes_field 0x32 (cv_ChainID v))"
    using decode_vote_step [OF r(1-3) suffix_d assms(4), of time_of zero_Vote]
    by (simp add: CanonicalVote_Unmarshal_def d [symmetric] zero_Vote_def)
  also have "\<dots> = decode_vote time_of d (?m\<lparr>cv_BlockID := cv_BlockID v\<rparr>) (0x2a # len_prefixed tb @ bytes_field 0x32 (cv_ChainID v))"
    using suf assms(4) by (subst decode_vote_block [OF r(4)]) (auto simp: zero_Vote_def split: option.splits)
  also have "\<dots> = Inr v"
    using suffix_appendD [OF suf] assms(4) by (subst decode_vote_tail [where time_of = time_of and t = "cv_Timestamp v"]) (auto simp: t zero_Vote_def)
  finally show ?thesis .
qed

abbreviation decode_proposal :: "(bytes \<Rightarrow> timestamp option) \<Rightarrow> bytes \<Rightarrow> CanonicalProposal \<Rightarrow> bytes \<Rightarrow> (wire_error, CanonicalProposal) result" where
  "decode_proposal time_of d m rest \<equiv> decode_rest CanonicalProposal_expected (CanonicalProposal_assign time_of) d m rest"

definition proposal_ranges :: "CanonicalProposal \<Rightarrow> bool" where
  "proposal_ranges p \<longleftrightarrow> int32_range (cpr_Type p) \<and> int64_range (cpr_Height p) \<and> int64_range (cpr_Round p) \<and> int64_range (cpr_POLRound p) \<and>
     (\<forall>b. cpr_BlockID p = Some b \<longrightarrow> header_ok (cb_PartSetHeader b))"

definition zero_Proposal :: CanonicalProposal where
  "zero_Proposal = \<lparr>cpr_Type = 0, cpr_Height = 0, cpr_Round = 0, cpr_POLRound = 0, cpr_BlockID = None, cpr_Timestamp = 0, cpr_ChainID = []\<rparr>"

lemma decode_proposal_tail:
  assumes "time_of tb = Some t" "suffix (0x32 # len_prefixed tb @ bytes_field 0x3a c) d" "int (length d) \<le> MaxInt64"
  shows "decode_proposal time_of d m (0x32 # len_prefixed tb @ bytes_field 0x3a c) =
    Inr (if c = [] then m\<lparr>cpr_Timestamp := t\<rparr> else m\<lparr>cpr_Timestamp := t, cpr_ChainID := c\<rparr>)"
proof -
  have suf: "suffix (bytes_field 0x3a c) d" using suffix_appendD [OF suffix_ConsD [OF assms(2)]] .
  have "decode_proposal time_of d m' (bytes_field 0x3a c @ []) = (if c = [] then Inr m' else Inr (m'\<lparr>cpr_ChainID := c\<rparr>))" for m'
    using suf assms(3) by (subst decode_bytes_field) (simp_all add: tags CanonicalProposal_expected_def CanonicalProposal_assign_def)
  then show ?thesis
    using assms by (subst decode_len_prefixed) (simp_all add: tags CanonicalProposal_expected_def CanonicalProposal_assign_def read_time_def)
qed

lemma decode_proposal_block:
  assumes "\<forall>b. bo = Some b \<longrightarrow> header_ok (cb_PartSetHeader b)" "cpr_BlockID m = None"
    and "suffix (block_id_field 0x2a bo @ rest) d" "int (length d) \<le> MaxInt64"
  shows "decode_proposal time_of d m (block_id_field 0x2a bo @ rest) =
    decode_proposal time_of d (case bo of None \<Rightarrow> m | Some b \<Rightarrow> m\<lparr>cpr_BlockID := Some b\<rparr>) rest"
proof (cases bo)
  case (Some b)
  have "int (length (CanonicalBlockID_marshal b)) \<le> MaxInt64"
    using suffix_length_le [OF assms(3)] assms(4) Some by (simp add: block_id_field_def len_prefixed_def)
  then have "read_BlockID None (CanonicalBlockID_marshal b) = Inr b"
    using CanonicalBlockID_roundtrip assms(1) Some by (simp add: read_BlockID_def)
  then show ?thesis
    using Some assms(2-4) by (simp add: block_id_field_def)
      (subst decode_len_prefixed; simp add: tags CanonicalProposal_expected_def CanonicalProposal_assign_def)
qed (simp add: block_id_field_def)

lemma decode_proposal_step:
  assumes "int32_range ty" "int64_range h" "int64_range r" "int64_range p"
    and "suffix (varint_field 0x08 (uint64_of ty) @ fixed64_field 0x11 h @ fixed64_field 0x19 r @ varint_field 0x20 (uint64_of p) @ rest) d"
    and "int (length d) \<le> MaxInt64"
  shows "decode_proposal time_of d m (varint_field 0x08 (uint64_of ty) @ fixed64_field 0x11 h @ fixed64_field 0x19 r @ varint_field 0x20 (uint64_of p) @ rest) =
    decode_proposal time_of d (m\<lparr>cpr_Type := if ty = 0 then cpr_Type m else ty, cpr_Height := if h = 0 then cpr_Height m else h,
      cpr_Round := if r = 0 then cpr_Round m else r, cpr_POLRound := if p = 0 then cpr_POLRound m else p\<rparr>) rest"
proof -
  let ?p = "varint_field 0x20 (uint64_of p) @ rest"
  note suf2 = suffix_appendD [OF assms(5)]
  note suf3 = suffix_appendD [OF suf2]
  note suf4 = suffix_appendD [OF suf3]
  have ty: "uint64_of ty = 0 \<longleftrightarrow> ty = 0" using assms(1) by (intro uint64_of_eq_0) (simp add: int32_range_iff int64_range_iff int_limits)
  have p: "uint64_of p = 0 \<longleftrightarrow> p = 0" using assms(4) by (rule uint64_of_eq_0)
  have "decode_proposal time_of d m' (fixed64_field 0x19 r @ ?p) = decode_proposal time_of d (if r = 0 then m' else m'\<lparr>cpr_Round := r\<rparr>) ?p" for m'
    using sint_of_int_64 [OF assms(3)] suf3 assms(6) by (subst decode_fixed64_field) (simp_all add: tags CanonicalProposal_expected_def CanonicalProposal_assign_def)
  moreover have "decode_proposal time_of d m' (varint_field 0x20 (uint64_of p) @ rest) = decode_proposal time_of d (if p = 0 then m' else m'\<lparr>cpr_POLRound := p\<rparr>) rest" for m'
    using sint_of_int_64 [OF assms(4)] uint64_of_less [of p] suf4 assms(6)
    by (subst decode_varint_field) (simp_all add: tags p of_nat_uint64_of CanonicalProposal_expected_def CanonicalProposal_assign_def)
  moreover have "decode_proposal time_of d m' (fixed64_field 0x11 h @ fixed64_field 0x19 r @ ?p) =
      decode_proposal time_of d (if h = 0 then m' else m'\<lparr>cpr_Height := h\<rparr>) (fixed64_field 0x19 r @ ?p)" for m'
    using sint_of_int_64 [OF assms(2)] suf2 assms(6) by (subst decode_fixed64_field) (simp_all add: tags CanonicalProposal_expected_def CanonicalProposal_assign_def)
  moreover have "decode_proposal time_of d m (varint_field 0x08 (uint64_of ty) @ fixed64_field 0x11 h @ fixed64_field 0x19 r @ ?p) =
      decode_proposal time_of d (if ty = 0 then m else m\<lparr>cpr_Type := ty\<rparr>) (fixed64_field 0x11 h @ fixed64_field 0x19 r @ ?p)"
    using sint_of_int_32 [OF assms(1)] uint64_of_less [of ty] assms(5,6)
    by (subst decode_varint_field) (simp_all add: tags ty of_nat_uint64_of CanonicalProposal_expected_def CanonicalProposal_assign_def)
  ultimately show ?thesis by simp
qed

lemma CanonicalProposal_roundtrip:
  assumes "time_decoding time_bytes time_of" "proposal_ranges v" "CanonicalProposal_marshal time_bytes v = Inr d" "int (length d) \<le> MaxInt64"
  shows "CanonicalProposal_Unmarshal time_of zero_Proposal d = Inr v"
proof -
  obtain tb where tb: "time_bytes (cpr_Timestamp v) = Some tb" and d: "d = varint_field 0x08 (uint64_of (cpr_Type v)) @ fixed64_field 0x11 (cpr_Height v) @
      fixed64_field 0x19 (cpr_Round v) @ varint_field 0x20 (uint64_of (cpr_POLRound v)) @ block_id_field 0x2a (cpr_BlockID v) @
      0x32 # len_prefixed tb @ bytes_field 0x3a (cpr_ChainID v)"
    using assms(3) by (auto simp: CanonicalProposal_marshal_def split: option.splits)
  have t: "time_of tb = Some (cpr_Timestamp v)" using assms(1) tb by (simp add: time_decoding_def)
  have r: "int32_range (cpr_Type v)" "int64_range (cpr_Height v)" "int64_range (cpr_Round v)" "int64_range (cpr_POLRound v)"
      "\<forall>b. cpr_BlockID v = Some b \<longrightarrow> header_ok (cb_PartSetHeader b)" using assms(2) by (simp_all add: proposal_ranges_def)
  let ?m = "zero_Proposal\<lparr>cpr_Type := cpr_Type v, cpr_Height := cpr_Height v, cpr_Round := cpr_Round v, cpr_POLRound := cpr_POLRound v\<rparr>"
  have suffix_d: "suffix (varint_field 0x08 (uint64_of (cpr_Type v)) @ fixed64_field 0x11 (cpr_Height v) @ fixed64_field 0x19 (cpr_Round v) @
      varint_field 0x20 (uint64_of (cpr_POLRound v)) @ block_id_field 0x2a (cpr_BlockID v) @ 0x32 # len_prefixed tb @ bytes_field 0x3a (cpr_ChainID v)) d" unfolding d by (rule suffix_order.refl)
  note suf = suffix_appendD [OF suffix_appendD [OF suffix_appendD [OF suffix_appendD [OF suffix_d]]]]
  have "CanonicalProposal_Unmarshal time_of zero_Proposal d = decode_proposal time_of d ?m
      (block_id_field 0x2a (cpr_BlockID v) @ 0x32 # len_prefixed tb @ bytes_field 0x3a (cpr_ChainID v))"
    using decode_proposal_step [OF r(1-4) suffix_d assms(4), of time_of zero_Proposal]
    by (simp add: CanonicalProposal_Unmarshal_def d [symmetric] zero_Proposal_def)
  also have "\<dots> = decode_proposal time_of d (?m\<lparr>cpr_BlockID := cpr_BlockID v\<rparr>) (0x32 # len_prefixed tb @ bytes_field 0x3a (cpr_ChainID v))"
    using suf assms(4) by (subst decode_proposal_block [OF r(5)]) (auto simp: zero_Proposal_def split: option.splits)
  also have "\<dots> = Inr v"
    using suffix_appendD [OF suf] assms(4) by (subst decode_proposal_tail [where time_of = time_of and t = "cpr_Timestamp v"]) (auto simp: t zero_Proposal_def)
  finally show ?thesis .
qed

lemma ReadUvarint_encode:
  assumes "v < 2 ^ (64 - 7 * i)" "i < 10"
  shows "ReadUvarint i acc (encodeVarint v @ rest) = Inr (acc OR push_bit (7 * i) (of_nat v), rest)"
  using assms
proof (induction v arbitrary: i acc rule: encodeVarint.induct)
  case (1 v)
  have v64: "v < 2 ^ 64" using "1.prems"(1) by (rule less_le_trans) (rule power_increasing, simp_all)
  show ?case
  proof (cases "v \<ge> 128")
    case True
    have "(2::nat) ^ 7 < 2 ^ (64 - 7 * i)" using True "1.prems"(1) by simp
    then have "7 < 64 - 7 * i" by (rule power_less_imp_less_exp [rotated]) simp
    then have sh: "Suc i < 10" "64 - 7 * i = 7 + (64 - 7 * Suc i)" by simp_all
    have "v < 128 * 2 ^ (64 - 7 * Suc i)" using "1.prems"(1) unfolding sh(2) power_add by simp
    then have IH: "ReadUvarint (Suc i) a (encodeVarint (v div 128) @ rest) = Inr (a OR push_bit (7 * Suc i) (of_nat (v div 128)), rest)" for a
      using "1.IH" [OF True _ sh(1)] by (simp add: div_less_iff_less_mult mult.commute)
    have "(of_nat v :: 64 word) = of_nat (v mod 128) OR push_bit 7 (of_nat (v div 128))"
      unfolding take_seven drop_seven [OF v64] by (rule split_seven)
    then have "acc OR push_bit (7 * i) (of_nat v) = acc OR push_bit (7 * i) (of_nat (v mod 128)) OR push_bit (7 * Suc i) (of_nat (v div 128))"
      by (simp add: push_bit_or or.assoc push_bit_push_bit add.commute)
    then show ?thesis
      using True IH unat_of_nat_byte [of "v mod 128 + 128"]
      by (subst encodeVarint.simps) (simp add: low_seven byte_less_128 or.assoc del: of_nat_add)
  next
    case False
    have u: "unat (of_nat v :: 8 word) = v" using False by (simp add: unat_of_nat_byte)
    moreover have "\<not> (i = 9 \<and> (1 :: 8 word) < of_nat v)"
    proof
      assume i: "i = 9 \<and> (1 :: 8 word) < of_nat v"
      then have "1 < v" using u by (simp add: word_less_nat_alt)
      moreover have "v < 2" using i "1.prems"(1) by simp
      ultimately show False by simp
    qed
    moreover have "(ucast (of_nat v :: 8 word) :: 64 word) = of_nat v" using u by (metis unsigned_of_nat ucast_eq of_nat_unat)
    ultimately show ?thesis using False "1.prems"(2) by (subst encodeVarint.simps) (simp add: byte_less_128)
  qed
qed

lemma UnmarshalDelimited_len_prefixed:
  assumes "int (length d) \<le> MaxInt64"
  shows "UnmarshalDelimited unmarshal (len_prefixed d) = unmarshal d"
proof -
  have "length d < 2 ^ 63" using assms by (simp add: int_limits)
  then have "ReadUvarint 0 0 (len_prefixed d) = Inr (of_nat (length d), d)" "sint (of_nat (length d) :: 64 word) = int (length d)"
    using ReadUvarint_encode [of "length d" 0 0 d] sint_of_nat_64 by (simp_all add: len_prefixed_def)
  then show ?thesis using assms by (simp add: UnmarshalDelimited_def Let_def len_prefixed_def make_bytes_def slice_bytes_def)
qed

section \<open>No panic on any input\<close>

text \<open>
  The bounds checks of the code imply those of Go. The only overflow that could defeat them is in
  \<^verbatim>\<open>iNdEx + 8\<close>, within eight bytes of the largest \<^verbatim>\<open>int\<close>; no slice is that long.
\<close>

definition no_panic :: "(wire_error, 'a) result \<Rightarrow> bool" where
  "no_panic r \<longleftrightarrow> (\<forall>s. r \<noteq> Inl (Panic s))"

definition short :: "bytes \<Rightarrow> bool" where
  "short d \<longleftrightarrow> int (length d) + 8 \<le> MaxInt64"

lemma no_panic_simps [simp]: "no_panic (Inr x)" "no_panic (Inl (Err e))"
  by (simp_all add: no_panic_def)

lemma no_panic_and_then: "no_panic r \<Longrightarrow> (\<And>x. r = Inr x \<Longrightarrow> no_panic (k x)) \<Longrightarrow> no_panic (and_then r k)"
  by (cases r) (auto simp: no_panic_def)

lemma short_len [simp]: "short d \<Longrightarrow> len_int d = int (length d)"
  by (simp add: short_def)

lemma short_mono: "short d \<Longrightarrow> length b \<le> length d \<Longrightarrow> short b"
  by (simp add: short_def)

lemma index_byte_no_panic: "0 \<le> i \<Longrightarrow> i < len_int d \<Longrightarrow> no_panic (index_byte d i)"
  by (simp add: index_byte_def)

lemma slice_bytes_no_panic: "0 \<le> lo \<Longrightarrow> lo \<le> hi \<Longrightarrow> hi \<le> len_int d \<Longrightarrow> no_panic (slice_bytes d lo hi)"
  by (simp add: slice_bytes_def)

lemma read_uvarint_no_panic: "0 \<le> i \<Longrightarrow> no_panic (read_uvarint d shift acc i)"
proof (induction d shift acc i rule: read_uvarint.induct)
  case (1 d shift acc i)
  then show ?case
    by (subst read_uvarint.simps) (auto simp: Let_def intro!: no_panic_and_then index_byte_no_panic)
qed

lemma ReadUvarint_no_panic: "no_panic (ReadUvarint i x rest)"
  by (induction i x rest rule: ReadUvarint.induct) simp_all

lemma Uint64_no_panic:
  assumes "short d" "0 \<le> i" "i + 8 \<le> int (length d)" "slice_bytes d i (len_int d) = Inr b"
  shows "no_panic (Uint64 b)"
proof -
  have "8 \<le> length b" "length b \<le> length d" using assms by (auto simp: slice_bytes_Inr)
  then have "7 < len_int b" using short_mono [OF assms(1), of b] by simp
  then show ?thesis unfolding Uint64_def by (intro no_panic_and_then index_byte_no_panic) simp_all
qed

lemma read_value_no_panic:
  assumes "short d" "0 \<le> i" "i \<le> len_int d"
  shows "no_panic (read_value d t i)"
proof -
  have w: "wrap64 (i + 8) = i + 8" using assms by (intro wrap64_idI) (simp_all add: short_def int_limits)
  have fixed: "no_panic (if wrap64 (i + 8) > len_int d then Inl (Err ErrUnexpectedEOF)
      else and_then (slice_bytes d i (len_int d)) (\<lambda>b. and_then (Uint64 b) (\<lambda>w. Inr (Fixed64 w, i + 8))))"
    unfolding w using assms by (auto intro!: no_panic_and_then slice_bytes_no_panic Uint64_no_panic)
  have delimited: "no_panic (slice_bytes d j (wrap64 (j + sint w)))"
    if "read_uvarint d 0 0 i = Inr (w, j)" "\<not> sint w < 0" "\<not> wrap64 (j + sint w) < 0" "\<not> len_int d < wrap64 (j + sint w)" for w j
    using read_uvarint_bounds [OF that(1)] wrap_forward [of j "sint w"] that(2-4) len_int_le [of d] sint_64_le [of w]
    by (intro slice_bytes_no_panic) auto
  show ?thesis
    using assms(2) fixed unfolding read_value_def
    by (auto simp: Let_def intro!: no_panic_and_then read_uvarint_no_panic delimited)
qed

lemma skip_fields_no_panic: "0 \<le> i \<Longrightarrow> no_panic (skip_fields d depth i)"
proof (induction d depth i rule: skip_fields.induct)
  case (1 d depth i)
  have "no_panic (skip_value d t dp j)" if "0 \<le> j" for t dp j
    using that by (auto simp: skip_value_def intro!: no_panic_and_then read_uvarint_no_panic)
  then show ?case
    using 1 by (subst skip_fields.simps) (auto intro!: no_panic_and_then read_uvarint_no_panic dest: read_uvarint_bounds)
qed

lemma skipCanonical_no_panic: "no_panic (skipCanonical d)"
  by (simp add: skipCanonical_def skip_fields_no_panic)

lemma read_value_position:
  assumes "read_value d t i = Inr (v, j)" "short d" "0 \<le> i" "i \<le> len_int d"
  shows "0 \<le> j \<and> j \<le> len_int d"
proof -
  have "wrap64 (i + 8) = i + 8" using assms by (intro wrap64_idI) (simp_all add: short_def int_limits)
  then show ?thesis
    using assms by (auto simp: read_value_def and_then_Inr_iff slice_bytes_Inr Let_def split: if_splits dest!: read_uvarint_bounds)
qed

lemma read_value_Delimited:
  "read_value d 2 i = Inr (v, j) \<Longrightarrow> \<exists>b. v = Delimited b \<and> length b \<le> length d"
  by (auto simp: read_value_def and_then_Inr_iff slice_bytes_Inr Let_def split: if_splits)

text \<open>A loop panics only if one of its assignments does; nested messages are shorter than the message.\<close>

lemma decode_fields_no_panic:
  assumes "\<And>n t v m. expected n = Some t \<Longrightarrow> (t = 2 \<Longrightarrow> \<exists>b. v = Delimited b \<and> length b \<le> length d) \<Longrightarrow> no_panic (assign n v m)"
    and "short d" "0 \<le> i" "i \<le> len_int d"
  shows "no_panic (decode_fields expected assign d m i)"
  using assms(3,4)
proof (induction "nat (len_int d - i)" arbitrary: m i rule: less_induct)
  case less
  have IH: "no_panic (decode_fields expected assign d m' j)" if "i < j" "j \<le> len_int d" for m' j
    using less that by simp
  have known: "no_panic (and_then (read_value d t i1) (\<lambda>(v, i2). and_then (assign n v m) (\<lambda>m. decode_fields expected assign d m i2)))"
    if r: "i < i1" "i1 \<le> len_int d" and t: "expected n = Some t" for i1 n t
  proof (intro no_panic_and_then, goal_cases)
    case 1
    show ?case using r less.prems by (intro read_value_no_panic assms(2)) simp_all
  next
    case (2 x)
    then obtain v i2 where v: "x = (v, i2)" "read_value d t i1 = Inr (v, i2)" by (cases x) simp
    have "i < i2" "i2 \<le> len_int d"
      using r less.prems(1) read_value_forward [OF v(2)] read_value_position [OF v(2) assms(2)] by auto
    moreover have "no_panic (assign n v m)" using v(2) read_value_Delimited by (intro assms(1) [OF t]) blast
    ultimately show ?case unfolding v(1) by (auto intro!: no_panic_and_then IH)
  qed
  have unknown: "no_panic (and_then (slice_bytes d i (len_int d)) (\<lambda>rest.
      and_then (skipCanonical rest) (\<lambda>skippy.
        if skippy < 0 then Inl (Err ErrInvalidLengthCanonical)
        else if wrap64 (i + skippy) < 0 then Inl (Err ErrInvalidLengthCanonical)
        else if wrap64 (i + skippy) > len_int d then Inl (Err ErrUnexpectedEOF)
        else decode_fields expected assign d m (wrap64 (i + skippy)))))"
    if r: "i < i1" "i1 \<le> len_int d" for i1
    using less.prems skipCanonical_forward [OF _ less.prems(1) r]
    by (auto intro!: no_panic_and_then slice_bytes_no_panic skipCanonical_no_panic IH)
  have "no_panic (read_uvarint d 0 0 i)" using less.prems(1) by (rule read_uvarint_no_panic)
  then show ?case
    using known unknown by (subst decode_fields.simps)
      (auto simp: Let_def split: option.splits dest!: read_uvarint_bounds intro: no_panic_and_then [of "read_uvarint d 0 0 i"])
qed

lemma CanonicalPartSetHeader_no_panic: "short d \<Longrightarrow> no_panic (CanonicalPartSetHeader_Unmarshal m d)"
  unfolding CanonicalPartSetHeader_Unmarshal_def
  by (rule decode_fields_no_panic) (simp_all add: CanonicalPartSetHeader_assign_def)

lemma CanonicalBlockID_no_panic:
  assumes "short d"
  shows "no_panic (CanonicalBlockID_Unmarshal m d)"
  unfolding CanonicalBlockID_Unmarshal_def
proof (rule decode_fields_no_panic)
  fix n t v m assume "CanonicalBlockID_expected n = Some t" "t = 2 \<Longrightarrow> \<exists>b. v = Delimited b \<and> length b \<le> length d"
  then show "no_panic (CanonicalBlockID_assign n v m)"
    using short_mono [OF assms]
    by (auto simp: CanonicalBlockID_assign_def CanonicalBlockID_expected_def intro!: no_panic_and_then CanonicalPartSetHeader_no_panic split: if_splits)
qed (use assms in simp_all)

lemma CanonicalVote_no_panic:
  assumes "short d"
  shows "no_panic (CanonicalVote_Unmarshal time_of m d)"
  unfolding CanonicalVote_Unmarshal_def
proof (rule decode_fields_no_panic)
  fix n t v m assume "CanonicalVote_expected n = Some t" "t = 2 \<Longrightarrow> \<exists>b. v = Delimited b \<and> length b \<le> length d"
  then show "no_panic (CanonicalVote_assign time_of n v m)"
    using short_mono [OF assms]
    by (auto simp: CanonicalVote_assign_def CanonicalVote_expected_def read_BlockID_def read_time_def
        intro!: no_panic_and_then CanonicalBlockID_no_panic split: if_splits option.splits)
qed (use assms in simp_all)

lemma CanonicalProposal_no_panic:
  assumes "short d"
  shows "no_panic (CanonicalProposal_Unmarshal time_of m d)"
  unfolding CanonicalProposal_Unmarshal_def
proof (rule decode_fields_no_panic)
  fix n t v m assume "CanonicalProposal_expected n = Some t" "t = 2 \<Longrightarrow> \<exists>b. v = Delimited b \<and> length b \<le> length d"
  then show "no_panic (CanonicalProposal_assign time_of n v m)"
    using short_mono [OF assms]
    by (auto simp: CanonicalProposal_assign_def CanonicalProposal_expected_def read_BlockID_def read_time_def
        intro!: no_panic_and_then CanonicalBlockID_no_panic split: if_splits option.splits)
qed (use assms in simp_all)

lemma ReadUvarint_shorter: "ReadUvarint i x rest = Inr (w, rest') \<Longrightarrow> length rest' < length rest"
  by (induction i x rest rule: ReadUvarint.induct) (fastforce split: if_splits)+

lemma UnmarshalDelimited_no_panic:
  assumes "short d" "\<And>b. short b \<Longrightarrow> no_panic (unmarshal b)"
  shows "no_panic (UnmarshalDelimited unmarshal d)"
proof -
  have "no_panic (slice_bytes buf 0 (sint w))"
    if "length buf = nat (sint w)" "\<not> sint w < 0" "\<not> int (length d) < sint w" for w :: "64 word" and buf
    using that assms(1) by (intro slice_bytes_no_panic) (auto simp: short_def)
  moreover have "no_panic (slice_bytes [] 0 0)" by (simp add: slice_bytes_def int_limits)
  moreover have "short (take k rest)" if "ReadUvarint 0 0 d = Inr (w, rest)" for w rest k
    using ReadUvarint_shorter [OF that] assms(1) by (auto intro: short_mono)
  ultimately show ?thesis
    unfolding UnmarshalDelimited_def
    by (auto simp: Let_def make_bytes_def split: if_splits intro!: no_panic_and_then ReadUvarint_no_panic assms(2))
qed

section \<open>Properties\<close>

text \<open>
  C37: Reading a length-delimited canonical vote or proposal gives back the message that was written.
\<close>

theorem canonical_roundtrip:
  assumes "time_decoding time_bytes time_of"
  shows "(\<forall>v b. vote_ranges v \<and> MarshalDelimited (CanonicalVote_marshal time_bytes v) = Inr b \<and> int (length b) \<le> MaxInt64 \<longrightarrow>
      UnmarshalDelimited (CanonicalVote_Unmarshal time_of zero_Vote) b = Inr v) \<and>
    (\<forall>p b. proposal_ranges p \<and> MarshalDelimited (CanonicalProposal_marshal time_bytes p) = Inr b \<and> int (length b) \<le> MaxInt64 \<longrightarrow>
      UnmarshalDelimited (CanonicalProposal_Unmarshal time_of zero_Proposal) b = Inr p)"
proof -
  have len: "int (length d) \<le> MaxInt64" if "int (length (len_prefixed d)) \<le> MaxInt64" for d
    using that by (simp add: len_prefixed_def)
  show ?thesis
    using CanonicalVote_roundtrip [OF assms] CanonicalProposal_roundtrip [OF assms] len
    by (auto simp: MarshalDelimited_def and_then_Inr_iff UnmarshalDelimited_len_prefixed)
qed

definition demo_time_of :: "bytes \<Rightarrow> timestamp option" where
  "demo_time_of b = (if length b = 8 then Some (sint (little_endian b)) else None)"

lemma demo_time_decoding: "time_decoding demo_time demo_time_of"
  by (auto simp: time_decoding_def demo_time_def demo_time_of_def little_endian_PutUint64 sint_of_int_64 split: if_splits)

theorem canonical_roundtrip_witness:
  "time_decoding demo_time demo_time_of \<and> vote_ranges demo_vote \<and>
   (\<exists>b. MarshalDelimited (CanonicalVote_marshal demo_time demo_vote) = Inr b \<and>
     UnmarshalDelimited (CanonicalVote_Unmarshal demo_time_of zero_Vote) b = Inr demo_vote)"
proof -
  have r: "vote_ranges demo_vote" by (simp add: vote_ranges_def demo_vote_def int64_range_iff int32_range_iff int_limits header_ok_def)
  have t: "demo_time 5 = Some (PutUint64 5)" by (simp add: demo_time_def int64_range_iff int_limits)
  obtain b where b: "MarshalDelimited (CanonicalVote_marshal demo_time demo_vote) = Inr b" "int (length b) \<le> MaxInt64"
    using t by (simp add: MarshalDelimited_def CanonicalVote_marshal_def demo_vote_def len_prefixed_def varint_field_def fixed64_field_def
        block_id_field_def CanonicalBlockID_marshal_def CanonicalPartSetHeader_marshal_def bytes_field_def uint64_of_def
        encodeVarint.simps int_limits)
  with canonical_roundtrip [OF demo_time_decoding] r demo_time_decoding show ?thesis by blast
qed

text \<open>
  C39: The decoders of length-delimited canonical votes and proposals never panic, whatever the bytes are, when there
  are at most \<open>MaxInt64 - 8\<close> of them: none of their index expressions, slice expressions and allocations is out of range,
  so bytes from a peer or a damaged state file give a message or an error. The decoder of times, which belongs
  to another package, is assumed to return.
\<close>

theorem Unmarshal_never_panics:
  assumes "int (length d) + 8 \<le> MaxInt64"
  shows "UnmarshalDelimited (CanonicalVote_Unmarshal time_of m) d \<noteq> Inl (Panic s) \<and>
   UnmarshalDelimited (CanonicalProposal_Unmarshal time_of p) d \<noteq> Inl (Panic s)"
proof -
  have "short d" using assms by (simp add: short_def)
  then have "no_panic (UnmarshalDelimited (CanonicalVote_Unmarshal time_of m) d)" "no_panic (UnmarshalDelimited (CanonicalProposal_Unmarshal time_of p) d)"
    by (auto intro!: UnmarshalDelimited_no_panic CanonicalVote_no_panic CanonicalProposal_no_panic)
  then show ?thesis by (simp add: no_panic_def)
qed

text \<open>A vote cut off inside its height, and a block identifier that claims to be longer than the message.\<close>

theorem Unmarshal_never_panics_witness:
  "UnmarshalDelimited (CanonicalVote_Unmarshal demo_time_of zero_Vote) [3, 0x11, 1, 2] \<noteq> Inl (Panic ''index out of range'') \<and>
   UnmarshalDelimited (CanonicalVote_Unmarshal demo_time_of zero_Vote) [3, 0x11, 1, 2] = Inl (Err ErrUnexpectedEOF) \<and>
   UnmarshalDelimited (CanonicalProposal_Unmarshal demo_time_of zero_Proposal) [3, 0x2a, 0x7f, 1] \<noteq> Inl (Panic ''slice bounds out of range'') \<and>
   UnmarshalDelimited (CanonicalProposal_Unmarshal demo_time_of zero_Proposal) [3, 0x2a, 0x7f, 1] = Inl (Err ErrUnexpectedEOF)"
proof -
  have "int (length [3 :: 8 word, 0x11, 1, 2]) + 8 \<le> MaxInt64" "int (length [3 :: 8 word, 0x2a, 0x7f, 1]) + 8 \<le> MaxInt64"
    by (simp_all add: int_limits)
  note safe = this [THEN Unmarshal_never_panics]
  have "UnmarshalDelimited (CanonicalVote_Unmarshal demo_time_of zero_Vote) [3, 0x11, 1, 2] = Inl (Err ErrUnexpectedEOF)"
    "UnmarshalDelimited (CanonicalProposal_Unmarshal demo_time_of zero_Proposal) [3, 0x2a, 0x7f, 1] = Inl (Err ErrUnexpectedEOF)"
    by code_simp+
  with safe show ?thesis by blast
qed

end
