(* ===== verification/Priv_Validator.thy ===== *)
theory Priv_Validator
  imports Block_Types Wire_Decode
begin

text \<open>
  \<^verbatim>\<open>privval/file.go\<close>: the signer that keeps the height, round and step of its last signature in a file so
  that it never signs two different messages for one step, even when the process dies at any moment.
  The two files are a value that survives a crash; \<^verbatim>\<open>Save\<close> replaces the state file atomically or panics.
  A nil byte slice is \<open>None\<close>; JSON leaves out empty slices, so they come back as nil. Signing with the
  private key, its public key and the decoder of times are arguments. \<^verbatim>\<open>Reset\<close> is modelled but is
  not a step of the signer: it exists to forget the state.

  The main result is that all signatures the signer ever hands out for one height, round and step are
  for the same bytes.
\<close>

section \<open>State\<close>

definition stepNone :: int where "stepNone = 0"
definition stepPropose :: int where "stepPropose = 1"
definition stepPrevote :: int where "stepPrevote = 2"
definition stepPrecommit :: int where "stepPrecommit = 3"

lemmas sign_steps = stepNone_def stepPropose_def stepPrevote_def stepPrecommit_def

datatype pv_error =
    ErrHeightRegression
  | ErrRoundRegression
  | ErrStepRegression
  | ErrNoSignBytes
  | ErrConflictingData
  | ErrSigning

record FilePVKey =
  pvk_Address :: bytes
  pvk_PubKey :: bytes
  pvk_PrivKey :: bytes
  pvk_filePath :: string

record FilePVLastSignState =
  lss_Height :: int64
  lss_Round :: int32
  lss_Step :: int
  lss_Signature :: "bytes option"
  lss_SignBytes :: "bytes option"
  lss_filePath :: string

record FilePV =
  pv_Key :: FilePVKey
  pv_LastSignState :: FilePVLastSignState

text \<open>The files, and the code the signer calls: key operations, the decoder of times, and whether a write succeeds.\<close>

record pv_files =
  fs_Key :: "FilePVKey option"
  fs_State :: "FilePVLastSignState option"

record pv_env =
  env_crypto :: crypto
  env_PubKey :: "bytes \<Rightarrow> bytes"
  env_Sign :: "bytes \<Rightarrow> bytes \<Rightarrow> bytes option"
  env_TimeOf :: "bytes \<Rightarrow> timestamp option"

section \<open>Operations\<close>

definition voteToStep :: "Vote \<Rightarrow> (pv_error, int) result" where
  "voteToStep vote =
     (if v_Type vote = PrevoteType then Inr stepPrevote
      else if v_Type vote = PrecommitType then Inr stepPrecommit
      else Inl (Panic ''Unknown vote type''))"

definition FilePVKey_Save :: "bool \<Rightarrow> FilePVKey \<Rightarrow> pv_files \<Rightarrow> (pv_error, pv_files) result" where
  "FilePVKey_Save write_ok pvKey fs =
     (if pvk_filePath pvKey = '''' then Inl (Panic ''cannot save PrivValidator key: filePath not set'')
      else if \<not> write_ok then Inl (Panic ''write failed'')
      else Inr (fs\<lparr>fs_Key := Some pvKey\<rparr>))"

definition CheckHRS :: "FilePVLastSignState \<Rightarrow> int64 \<Rightarrow> int32 \<Rightarrow> int \<Rightarrow> (pv_error, bool) result" where
  "CheckHRS lss height rnd step =
     (if lss_Height lss > height then Inl (Err ErrHeightRegression)
      else if lss_Height lss = height then
        (if lss_Round lss > rnd then Inl (Err ErrRoundRegression)
         else if lss_Round lss = rnd then
           (if lss_Step lss > step then Inl (Err ErrStepRegression)
            else if lss_Step lss = step then
              (if lss_SignBytes lss \<noteq> None then
                 (if lss_Signature lss = None then Inl (Panic ''pv: Signature is nil but SignBytes is not!'')
                  else Inr True)
               else Inl (Err ErrNoSignBytes))
            else Inr False)
         else Inr False)
      else Inr False)"

definition omitempty :: "bytes option \<Rightarrow> bytes option" where
  "omitempty b = (if b = Some [] then None else b)"

definition LastSignState_Save :: "bool \<Rightarrow> FilePVLastSignState \<Rightarrow> pv_files \<Rightarrow> (pv_error, pv_files) result" where
  "LastSignState_Save write_ok lss fs =
     (if lss_filePath lss = '''' then Inl (Panic ''cannot save FilePVLastSignState: filePath not set'')
      else if \<not> write_ok then Inl (Panic ''write failed'')
      else Inr (fs\<lparr>fs_State := Some (lss\<lparr>lss_Signature := omitempty (lss_Signature lss), lss_SignBytes := omitempty (lss_SignBytes lss)\<rparr>)\<rparr>))"

definition empty_state :: "string \<Rightarrow> FilePVLastSignState" where
  "empty_state path = \<lparr>lss_Height = 0, lss_Round = 0, lss_Step = stepNone, lss_Signature = None, lss_SignBytes = None, lss_filePath = path\<rparr>"

text \<open>The random private key is an argument.\<close>

definition GenFilePV :: "pv_env \<Rightarrow> bytes \<Rightarrow> string \<Rightarrow> string \<Rightarrow> FilePV" where
  "GenFilePV env privKey keyFilePath stateFilePath =
     \<lparr>pv_Key = \<lparr>pvk_Address = cr_Address (env_crypto env) (env_PubKey env privKey), pvk_PubKey = env_PubKey env privKey,
        pvk_PrivKey = privKey, pvk_filePath = keyFilePath\<rparr>,
      pv_LastSignState = empty_state stateFilePath\<rparr>"

definition loadFilePV :: "pv_env \<Rightarrow> string \<Rightarrow> string \<Rightarrow> bool \<Rightarrow> pv_files \<Rightarrow> (pv_error, FilePV) result" where
  "loadFilePV env keyFilePath stateFilePath loadState fs =
     (case fs_Key fs of
        None \<Rightarrow> Inl (Panic ''exit: no key file'')
      | Some k \<Rightarrow>
          let pvKey = k\<lparr>pvk_PubKey := env_PubKey env (pvk_PrivKey k),
                pvk_Address := cr_Address (env_crypto env) (env_PubKey env (pvk_PrivKey k)), pvk_filePath := keyFilePath\<rparr>
          in if loadState then
               (case fs_State fs of
                  None \<Rightarrow> Inl (Panic ''exit: no state file'')
                | Some s \<Rightarrow> Inr \<lparr>pv_Key = pvKey, pv_LastSignState = s\<lparr>lss_filePath := stateFilePath\<rparr>\<rparr>)
             else Inr \<lparr>pv_Key = pvKey, pv_LastSignState = empty_state stateFilePath\<rparr>)"

definition LoadFilePV :: "pv_env \<Rightarrow> string \<Rightarrow> string \<Rightarrow> pv_files \<Rightarrow> (pv_error, FilePV) result" where
  "LoadFilePV env keyFilePath stateFilePath fs = loadFilePV env keyFilePath stateFilePath True fs"

definition FilePV_Save :: "bool \<Rightarrow> FilePV \<Rightarrow> pv_files \<Rightarrow> (pv_error, pv_files) result" where
  "FilePV_Save write_ok pv fs = and_then (FilePVKey_Save write_ok (pv_Key pv) fs) (LastSignState_Save write_ok (pv_LastSignState pv))"

definition LoadOrGenFilePV :: "pv_env \<Rightarrow> bool \<Rightarrow> bytes \<Rightarrow> string \<Rightarrow> string \<Rightarrow> pv_files \<Rightarrow> (pv_error, FilePV \<times> pv_files) result" where
  "LoadOrGenFilePV env write_ok privKey keyFilePath stateFilePath fs =
     (if fs_Key fs \<noteq> None then and_then (LoadFilePV env keyFilePath stateFilePath fs) (\<lambda>pv. Inr (pv, fs))
      else let pv = GenFilePV env privKey keyFilePath stateFilePath
           in and_then (FilePV_Save write_ok pv fs) (\<lambda>fs. Inr (pv, fs)))"

definition FilePV_Reset :: "bool \<Rightarrow> FilePV \<Rightarrow> pv_files \<Rightarrow> (pv_error, FilePV \<times> pv_files) result" where
  "FilePV_Reset write_ok pv fs =
     (let pv = pv\<lparr>pv_LastSignState := (pv_LastSignState pv)\<lparr>lss_Height := 0, lss_Round := 0, lss_Step := 0, lss_Signature := None, lss_SignBytes := None\<rparr>\<rparr>
      in and_then (FilePV_Save write_ok pv fs) (\<lambda>fs. Inr (pv, fs)))"

definition saveSigned :: "bool \<Rightarrow> int64 \<Rightarrow> int32 \<Rightarrow> int \<Rightarrow> bytes \<Rightarrow> bytes \<Rightarrow> FilePV \<Rightarrow> pv_files \<Rightarrow> (pv_error, FilePV \<times> pv_files) result" where
  "saveSigned write_ok height rnd step signBytes sig pv fs =
     (let pv = pv\<lparr>pv_LastSignState := (pv_LastSignState pv)\<lparr>lss_Height := height, lss_Round := rnd, lss_Step := step,
        lss_Signature := Some sig, lss_SignBytes := Some signBytes\<rparr>\<rparr>
      in and_then (LastSignState_Save write_ok (pv_LastSignState pv) fs) (\<lambda>fs. Inr (pv, fs)))"

text \<open>The time of the last message, and whether the two messages differ in nothing else; \<open>now\<close> is set in both before they are compared.\<close>

definition checkVotesOnlyDifferByTimestamp :: "pv_env \<Rightarrow> timestamp \<Rightarrow> bytes \<Rightarrow> bytes \<Rightarrow> (pv_error, timestamp \<times> bool) result" where
  "checkVotesOnlyDifferByTimestamp env now lastSignBytes newSignBytes =
     (case UnmarshalDelimited (CanonicalVote_Unmarshal (env_TimeOf env) zero_Vote) lastSignBytes of
        Inl _ \<Rightarrow> Inl (Panic ''LastSignBytes cannot be unmarshalled into vote'')
      | Inr lastVote \<Rightarrow>
          (case UnmarshalDelimited (CanonicalVote_Unmarshal (env_TimeOf env) zero_Vote) newSignBytes of
             Inl _ \<Rightarrow> Inl (Panic ''signBytes cannot be unmarshalled into vote'')
           | Inr newVote \<Rightarrow> Inr (cv_Timestamp lastVote, newVote\<lparr>cv_Timestamp := now\<rparr> = lastVote\<lparr>cv_Timestamp := now\<rparr>)))"

definition checkProposalsOnlyDifferByTimestamp :: "pv_env \<Rightarrow> timestamp \<Rightarrow> bytes \<Rightarrow> bytes \<Rightarrow> (pv_error, timestamp \<times> bool) result" where
  "checkProposalsOnlyDifferByTimestamp env now lastSignBytes newSignBytes =
     (case UnmarshalDelimited (CanonicalProposal_Unmarshal (env_TimeOf env) zero_Proposal) lastSignBytes of
        Inl _ \<Rightarrow> Inl (Panic ''LastSignBytes cannot be unmarshalled into proposal'')
      | Inr lastProposal \<Rightarrow>
          (case UnmarshalDelimited (CanonicalProposal_Unmarshal (env_TimeOf env) zero_Proposal) newSignBytes of
             Inl _ \<Rightarrow> Inl (Panic ''signBytes cannot be unmarshalled into proposal'')
           | Inr newProposal \<Rightarrow> Inr (cpr_Timestamp lastProposal, newProposal\<lparr>cpr_Timestamp := now\<rparr> = lastProposal\<lparr>cpr_Timestamp := now\<rparr>)))"

definition signVote :: "pv_env \<Rightarrow> bool \<Rightarrow> timestamp \<Rightarrow> bytes \<Rightarrow> Vote \<Rightarrow> FilePV \<Rightarrow> pv_files \<Rightarrow> (pv_error, Vote \<times> FilePV \<times> pv_files) result" where
  "signVote env write_ok now chainID vote pv fs =
     and_then (voteToStep vote) (\<lambda>step.
     let height = v_Height vote; rnd = v_Round vote; lss = pv_LastSignState pv in
     and_then (CheckHRS lss height rnd step) (\<lambda>sameHRS.
     and_then (lift_fault (\<lambda>_. ErrSigning) (VoteSignBytes (env_crypto env) chainID vote)) (\<lambda>signBytes.
       if sameHRS then
         (if signBytes = raw (lss_SignBytes lss) then Inr (vote\<lparr>v_Signature := raw (lss_Signature lss)\<rparr>, pv, fs)
          else and_then (checkVotesOnlyDifferByTimestamp env now (raw (lss_SignBytes lss)) signBytes) (\<lambda>(timestamp, ok).
            if ok then Inr (vote\<lparr>v_Timestamp := timestamp, v_Signature := raw (lss_Signature lss)\<rparr>, pv, fs)
            else Inl (Err ErrConflictingData)))
       else
         (case env_Sign env (pvk_PrivKey (pv_Key pv)) signBytes of
            None \<Rightarrow> Inl (Err ErrSigning)
          | Some sig \<Rightarrow> and_then (saveSigned write_ok height rnd step signBytes sig pv fs) (\<lambda>(pv, fs).
              Inr (vote\<lparr>v_Signature := sig\<rparr>, pv, fs))))))"

definition signProposal :: "pv_env \<Rightarrow> bool \<Rightarrow> timestamp \<Rightarrow> bytes \<Rightarrow> Proposal \<Rightarrow> FilePV \<Rightarrow> pv_files \<Rightarrow> (pv_error, Proposal \<times> FilePV \<times> pv_files) result" where
  "signProposal env write_ok now chainID proposal pv fs =
     (let height = p_Height proposal; rnd = p_Round proposal; step = stepPropose; lss = pv_LastSignState pv in
     and_then (CheckHRS lss height rnd step) (\<lambda>sameHRS.
     and_then (lift_fault (\<lambda>_. ErrSigning) (ProposalSignBytes (env_crypto env) chainID proposal)) (\<lambda>signBytes.
       if sameHRS then
         (if signBytes = raw (lss_SignBytes lss) then Inr (proposal\<lparr>p_Signature := raw (lss_Signature lss)\<rparr>, pv, fs)
          else and_then (checkProposalsOnlyDifferByTimestamp env now (raw (lss_SignBytes lss)) signBytes) (\<lambda>(timestamp, ok).
            if ok then Inr (proposal\<lparr>p_Timestamp := timestamp, p_Signature := raw (lss_Signature lss)\<rparr>, pv, fs)
            else Inl (Err ErrConflictingData)))
       else
         (case env_Sign env (pvk_PrivKey (pv_Key pv)) signBytes of
            None \<Rightarrow> Inl (Err ErrSigning)
          | Some sig \<Rightarrow> and_then (saveSigned write_ok height rnd step signBytes sig pv fs) (\<lambda>(pv, fs).
              Inr (proposal\<lparr>p_Signature := sig\<rparr>, pv, fs))))))"

section \<open>The signer as a state machine\<close>

text \<open>
  What the signer has handed out: for each message the height, round and step, the bytes that were signed
  and the signature. A crash at any moment, also between the write of the state and the return of
  the signature, is a restart from the files.
\<close>

type_synonym hrs = "int64 \<times> int32 \<times> int"
type_synonym release = "hrs \<times> (basic_error, bytes) result \<times> bytes"

record signer =
  sg_pv :: FilePV
  sg_files :: pv_files
  sg_released :: "release list"

definition vote_release :: "pv_env \<Rightarrow> bytes \<Rightarrow> Vote \<Rightarrow> release" where
  "vote_release env chainID v =
     ((v_Height v, v_Round v, if v_Type v = PrevoteType then stepPrevote else stepPrecommit),
      VoteSignBytes (env_crypto env) chainID v, v_Signature v)"

definition proposal_release :: "pv_env \<Rightarrow> bytes \<Rightarrow> Proposal \<Rightarrow> release" where
  "proposal_release env chainID p =
     ((p_Height p, p_Round p, stepPropose), ProposalSignBytes (env_crypto env) chainID p, p_Signature p)"

text \<open>The fields of a message fit the types they have in the program, and its encoding fits into memory.\<close>

definition fits :: "BlockID \<Rightarrow> int64 \<Rightarrow> int32 \<Rightarrow> (basic_error, bytes) result \<Rightarrow> bool" where
  "fits b h r res \<longleftrightarrow> psh_Total (bid_PartSetHeader b) < 2 ^ 32 \<and> int64_range h \<and> int32_range r \<and>
     (\<forall>bs. res = Inr bs \<longrightarrow> int (length bs) \<le> MaxInt64)"

definition vote_fits :: "pv_env \<Rightarrow> bytes \<Rightarrow> Vote \<Rightarrow> bool" where
  "vote_fits env chainID v \<longleftrightarrow> fits (v_BlockID v) (v_Height v) (v_Round v) (VoteSignBytes (env_crypto env) chainID v)"

definition proposal_fits :: "pv_env \<Rightarrow> bytes \<Rightarrow> Proposal \<Rightarrow> bool" where
  "proposal_fits env chainID p \<longleftrightarrow> int64_range (p_POLRound p) \<and>
     fits (p_BlockID p) (p_Height p) (p_Round p) (ProposalSignBytes (env_crypto env) chainID p)"

inductive signer_reachable :: "pv_env \<Rightarrow> bytes \<Rightarrow> string \<Rightarrow> string \<Rightarrow> signer \<Rightarrow> bool" for env chainID keyPath statePath where
  signer_start: "LoadOrGenFilePV env True privKey keyPath statePath \<lparr>fs_Key = None, fs_State = None\<rparr> = Inr (pv, fs) \<Longrightarrow>
    signer_reachable env chainID keyPath statePath \<lparr>sg_pv = pv, sg_files = fs, sg_released = []\<rparr>"
| signer_vote: "signer_reachable env chainID keyPath statePath s \<Longrightarrow> vote_fits env chainID v \<Longrightarrow>
    signVote env write_ok now chainID v (sg_pv s) (sg_files s) = Inr (v', pv, fs) \<Longrightarrow>
    signer_reachable env chainID keyPath statePath (s\<lparr>sg_pv := pv, sg_files := fs, sg_released := vote_release env chainID v' # sg_released s\<rparr>)"
| signer_vote_lost: "signer_reachable env chainID keyPath statePath s \<Longrightarrow> vote_fits env chainID v \<Longrightarrow>
    signVote env write_ok now chainID v (sg_pv s) (sg_files s) = Inr (v', pv, fs) \<Longrightarrow>
    LoadFilePV env keyPath statePath fs = Inr pv' \<Longrightarrow>
    signer_reachable env chainID keyPath statePath (s\<lparr>sg_pv := pv', sg_files := fs\<rparr>)"
| signer_proposal: "signer_reachable env chainID keyPath statePath s \<Longrightarrow> proposal_fits env chainID p \<Longrightarrow>
    signProposal env write_ok now chainID p (sg_pv s) (sg_files s) = Inr (p', pv, fs) \<Longrightarrow>
    signer_reachable env chainID keyPath statePath (s\<lparr>sg_pv := pv, sg_files := fs, sg_released := proposal_release env chainID p' # sg_released s\<rparr>)"
| signer_proposal_lost: "signer_reachable env chainID keyPath statePath s \<Longrightarrow> proposal_fits env chainID p \<Longrightarrow>
    signProposal env write_ok now chainID p (sg_pv s) (sg_files s) = Inr (p', pv, fs) \<Longrightarrow>
    LoadFilePV env keyPath statePath fs = Inr pv' \<Longrightarrow>
    signer_reachable env chainID keyPath statePath (s\<lparr>sg_pv := pv', sg_files := fs\<rparr>)"
| signer_restart: "signer_reachable env chainID keyPath statePath s \<Longrightarrow> LoadFilePV env keyPath statePath (sg_files s) = Inr pv' \<Longrightarrow>
    signer_reachable env chainID keyPath statePath (s\<lparr>sg_pv := pv'\<rparr>)"

section \<open>The invariant\<close>

definition hrs_of :: "FilePVLastSignState \<Rightarrow> hrs" where
  "hrs_of lss = (lss_Height lss, lss_Round lss, lss_Step lss)"

lemma CheckHRS_fresh: "CheckHRS lss h r st = Inr False \<Longrightarrow> hrs_of lss < (h, r, st)"
  by (auto simp: CheckHRS_def hrs_of_def less_prod_def split: if_splits)

lemma CheckHRS_same:
  "CheckHRS lss h r st = Inr True \<Longrightarrow> hrs_of lss = (h, r, st) \<and> lss_SignBytes lss \<noteq> None \<and> lss_Signature lss \<noteq> None"
  by (auto simp: CheckHRS_def hrs_of_def split: if_splits)

text \<open>The bytes in the state were signed as a message of its step.\<close>

definition signed :: "pv_env \<Rightarrow> bytes \<Rightarrow> int \<Rightarrow> bytes \<Rightarrow> bool" where
  "signed env chainID step b \<longleftrightarrow>
     (if step = stepPropose then \<exists>p. proposal_fits env chainID p \<and> ProposalSignBytes (env_crypto env) chainID p = Inr b
      else \<exists>v. v_Type v \<in> {PrevoteType, PrecommitType} \<and> vote_fits env chainID v \<and> VoteSignBytes (env_crypto env) chainID v = Inr b)"

definition log_ok :: "FilePVLastSignState \<Rightarrow> release list \<Rightarrow> bool" where
  "log_ok lss rel \<longleftrightarrow>
     (\<forall>(x, b, g) \<in> set rel. x \<le> hrs_of lss \<and> (\<exists>bs. b = Inr bs \<and> (x = hrs_of lss \<longrightarrow> lss_SignBytes lss = Some bs \<and>
        (\<forall>g'. lss_Signature lss = Some g' \<longrightarrow> g' = g)))) \<and>
     (\<forall>e \<in> set rel. \<forall>e' \<in> set rel. fst e = fst e' \<longrightarrow> e = e') \<and> sorted_wrt (\<lambda>e e'. fst e' \<le> fst e) rel"

lemma log_ok_fresh:
  assumes "log_ok lss rel" "hrs_of lss < hrs_of lss'" "lss_SignBytes lss' = Some b" "lss_Signature lss' = Some g"
  shows "log_ok lss' ((hrs_of lss', Inr b, g) # rel)" "log_ok lss' rel"
proof -
  have old: "x < hrs_of lss'" if "(x, c, d) \<in> set rel" for x c d
    using assms(1,2) that by (fastforce simp: log_ok_def intro: le_less_trans)
  show rel: "log_ok lss' rel"
    using assms(1) old by (fastforce simp: log_ok_def)
  show "log_ok lss' ((hrs_of lss', Inr b, g) # rel)"
    using rel old assms(3,4) by (fastforce simp: log_ok_def)
qed

lemma log_ok_reuse:
  assumes "log_ok lss rel" "lss_SignBytes lss = Some b" "lss_Signature lss = Some g"
  shows "log_ok lss ((hrs_of lss, Inr b, g) # rel)"
  using assms by (fastforce simp: log_ok_def)

text \<open>The state as the file keeps it.\<close>

definition stored :: "FilePVLastSignState \<Rightarrow> FilePVLastSignState" where
  "stored lss = lss\<lparr>lss_Signature := omitempty (lss_Signature lss), lss_SignBytes := omitempty (lss_SignBytes lss)\<rparr>"

definition signer_inv :: "pv_env \<Rightarrow> bytes \<Rightarrow> FilePV \<Rightarrow> pv_files \<Rightarrow> release list \<Rightarrow> bool" where
  "signer_inv env chainID pv fs rel \<longleftrightarrow>
     log_ok (pv_LastSignState pv) rel \<and>
     (\<forall>b. lss_SignBytes (pv_LastSignState pv) = Some b \<longrightarrow> b \<noteq> [] \<and> signed env chainID (lss_Step (pv_LastSignState pv)) b) \<and>
     (\<exists>f. fs_State fs = Some ((stored (pv_LastSignState pv))\<lparr>lss_filePath := f\<rparr>))"

lemma log_ok_stored:
  assumes "log_ok lss rel" "lss_SignBytes lss \<noteq> Some []"
  shows "log_ok ((stored lss)\<lparr>lss_filePath := f\<rparr>) rel"
proof -
  have "hrs_of ((stored lss)\<lparr>lss_filePath := f\<rparr>) = hrs_of lss" by (simp add: hrs_of_def stored_def)
  then show ?thesis using assms by (fastforce simp: log_ok_def stored_def omitempty_def)
qed

lemma LoadFilePV_inv:
  assumes "signer_inv env chainID pv fs rel" "LoadFilePV env k f fs = Inr pv'"
  shows "signer_inv env chainID pv' fs rel"
proof -
  let ?m = "pv_LastSignState pv"
  have n: "pv_LastSignState pv' = (stored ?m)\<lparr>lss_filePath := f\<rparr>"
    using assms by (auto simp: signer_inv_def LoadFilePV_def loadFilePV_def Let_def split: option.splits)
  have "log_ok ((stored ?m)\<lparr>lss_filePath := f\<rparr>) rel"
    using assms(1) by (intro log_ok_stored) (auto simp: signer_inv_def)
  moreover have "omitempty (omitempty x) = omitempty x" for x by (simp add: omitempty_def)
  moreover have "omitempty x = Some y \<Longrightarrow> x = Some y" for x y by (simp add: omitempty_def split: if_splits)
  ultimately show ?thesis
    using assms(1) unfolding signer_inv_def n by (fastforce simp: stored_def)
qed

lemma LoadOrGenFilePV_inv:
  assumes "LoadOrGenFilePV env w privKey k f \<lparr>fs_Key = None, fs_State = None\<rparr> = Inr (pv, fs)"
  shows "signer_inv env chainID pv fs []"
  using assms by (auto simp: LoadOrGenFilePV_def GenFilePV_def Let_def FilePV_Save_def and_then_Inr_iff FilePVKey_Save_def
      LastSignState_Save_def empty_state_def signer_inv_def log_ok_def stored_def omitempty_def split: if_splits)

lemma saveSigned_inv:
  assumes "signer_inv env chainID pv fs rel" "saveSigned w h r st b g pv fs = Inr (pv', fs')"
    and "hrs_of (pv_LastSignState pv) < (h, r, st)" "b \<noteq> []" "signed env chainID st b"
  shows "signer_inv env chainID pv' fs' (((h, r, st), Inr b, g) # rel)" "signer_inv env chainID pv' fs' rel"
proof -
  let ?n = "(pv_LastSignState pv)\<lparr>lss_Height := h, lss_Round := r, lss_Step := st, lss_Signature := Some g, lss_SignBytes := Some b\<rparr>"
  have n: "pv_LastSignState pv' = ?n" and fs: "fs_State fs' = Some (stored ?n)"
    using assms(2) by (auto simp: saveSigned_def Let_def and_then_Inr_iff LastSignState_Save_def stored_def split: if_splits)
  have x: "hrs_of ?n = (h, r, st)" by (simp add: hrs_of_def)
  have "log_ok ?n (((h, r, st), Inr b, g) # rel)" "log_ok ?n rel"
    using log_ok_fresh [of "pv_LastSignState pv" rel ?n b g] assms(1,3) x by (simp_all add: signer_inv_def)
  moreover have "\<exists>p. fs_State fs' = Some ((stored ?n)\<lparr>lss_filePath := p\<rparr>)"
    unfolding fs by (intro exI [of _ "lss_filePath (stored ?n)"]) simp
  ultimately show "signer_inv env chainID pv' fs' (((h, r, st), Inr b, g) # rel)" "signer_inv env chainID pv' fs' rel"
    using assms(4,5) unfolding signer_inv_def n by simp_all
qed

section \<open>What votes and proposals share\<close>

text \<open>
  The contract of a kind of message the signer accepts: signing one either hands out the bytes and
  the signature of the state again, for a message that has those bytes or gets them by taking the earlier time, or
  it signs the bytes of the message at a later step and saves that first.
\<close>

locale signable =
  fixes sign :: "pv_env \<Rightarrow> bool \<Rightarrow> timestamp \<Rightarrow> bytes \<Rightarrow> 'm \<Rightarrow> FilePV \<Rightarrow> pv_files \<Rightarrow> (pv_error, 'm \<times> FilePV \<times> pv_files) result"
    and release_of :: "pv_env \<Rightarrow> bytes \<Rightarrow> 'm \<Rightarrow> release"
    and only_time :: "pv_env \<Rightarrow> timestamp \<Rightarrow> bytes \<Rightarrow> bytes \<Rightarrow> (pv_error, timestamp \<times> bool) result"
    and at_time :: "timestamp \<Rightarrow> 'm \<Rightarrow> 'm"
    and message_fits :: "pv_env \<Rightarrow> bytes \<Rightarrow> 'm \<Rightarrow> bool"
  assumes sign_cases: "sign env w now chainID m pv fs = Inr (m', pv', fs') \<Longrightarrow>
      \<exists>h r st b. fst (release_of env chainID m) = (h, r, st) \<and> fst (snd (release_of env chainID m)) = Inr b \<and>
        ((CheckHRS (pv_LastSignState pv) h r st = Inr True \<and> pv' = pv \<and> fs' = fs \<and>
          ((release_of env chainID m' = ((h, r, st), Inr b, raw (lss_Signature (pv_LastSignState pv))) \<and>
              b = raw (lss_SignBytes (pv_LastSignState pv))) \<or>
           (\<exists>t. only_time env now (raw (lss_SignBytes (pv_LastSignState pv))) b = Inr (t, True) \<and>
              release_of env chainID m' =
                ((h, r, st), fst (snd (release_of env chainID (at_time t m))), raw (lss_Signature (pv_LastSignState pv)))))) \<or>
         (CheckHRS (pv_LastSignState pv) h r st = Inr False \<and>
          (\<exists>g. saveSigned w h r st b g pv fs = Inr (pv', fs') \<and> release_of env chainID m' = ((h, r, st), Inr b, g))))"
    and retry: "time_decoding (cr_TimeBytes (env_crypto env)) (env_TimeOf env) \<Longrightarrow> message_fits env chainID m \<Longrightarrow>
      sign env w now chainID m pv fs = Inr (m', pv', fs') \<Longrightarrow> release_of env chainID m = ((h, r, st), Inr b, g) \<Longrightarrow>
      signed env chainID st b0 \<Longrightarrow> only_time env now b0 b = Inr (t, True) \<Longrightarrow>
      fst (snd (release_of env chainID (at_time t m))) = Inr b0"
    and signs: "message_fits env chainID m \<Longrightarrow> sign env w now chainID m pv fs = Inr (m', pv', fs') \<Longrightarrow>
      release_of env chainID m = ((h, r, st), Inr b, g) \<Longrightarrow> b \<noteq> [] \<and> signed env chainID st b"
begin

lemma sign_inv:
  assumes "time_decoding (cr_TimeBytes (env_crypto env)) (env_TimeOf env)" "message_fits env chainID m"
    and "signer_inv env chainID pv fs rel" "sign env w now chainID m pv fs = Inr (m', pv', fs')"
  shows "signer_inv env chainID pv' fs' (release_of env chainID m' # rel) \<and> signer_inv env chainID pv' fs' rel"
proof -
  let ?lss = "pv_LastSignState pv"
  obtain h r st b where pos: "fst (release_of env chainID m) = (h, r, st)" "fst (snd (release_of env chainID m)) = Inr b"
    and cases: "(CheckHRS ?lss h r st = Inr True \<and> pv' = pv \<and> fs' = fs \<and>
          ((release_of env chainID m' = ((h, r, st), Inr b, raw (lss_Signature ?lss)) \<and> b = raw (lss_SignBytes ?lss)) \<or>
           (\<exists>t. only_time env now (raw (lss_SignBytes ?lss)) b = Inr (t, True) \<and>
              release_of env chainID m' = ((h, r, st), fst (snd (release_of env chainID (at_time t m))), raw (lss_Signature ?lss))))) \<or>
         (CheckHRS ?lss h r st = Inr False \<and>
          (\<exists>g. saveSigned w h r st b g pv fs = Inr (pv', fs') \<and> release_of env chainID m' = ((h, r, st), Inr b, g)))"
    using sign_cases [OF assms(4)] by blast
  obtain g0 where rel: "release_of env chainID m = ((h, r, st), Inr b, g0)"
    using pos by (metis prod.collapse)
  from cases show ?thesis
  proof
    assume same: "CheckHRS ?lss h r st = Inr True \<and> pv' = pv \<and> fs' = fs \<and>
          ((release_of env chainID m' = ((h, r, st), Inr b, raw (lss_Signature ?lss)) \<and> b = raw (lss_SignBytes ?lss)) \<or>
           (\<exists>t. only_time env now (raw (lss_SignBytes ?lss)) b = Inr (t, True) \<and>
              release_of env chainID m' = ((h, r, st), fst (snd (release_of env chainID (at_time t m))), raw (lss_Signature ?lss))))"
    then obtain b0 g where lss: "lss_SignBytes ?lss = Some b0" "lss_Signature ?lss = Some g" "hrs_of ?lss = (h, r, st)"
      using CheckHRS_same by blast
    then have "signed env chainID st b0" using assms(3) by (auto simp: signer_inv_def hrs_of_def)
    then have "release_of env chainID m' = (hrs_of ?lss, Inr b0, g)"
      using same retry [OF assms(1,2,4) rel] lss by (auto simp: raw_def)
    moreover have "log_ok ?lss ((hrs_of ?lss, Inr b0, g) # rel)"
      using assms(3) lss by (intro log_ok_reuse) (simp_all add: signer_inv_def)
    ultimately show ?thesis using assms(3) same by (simp add: signer_inv_def)
  next
    assume "CheckHRS ?lss h r st = Inr False \<and>
          (\<exists>g. saveSigned w h r st b g pv fs = Inr (pv', fs') \<and> release_of env chainID m' = ((h, r, st), Inr b, g))"
    then show ?thesis
      using saveSigned_inv [OF assms(3)] CheckHRS_fresh signs [OF assms(2,4) rel] by metis
  qed
qed

end

lemma fits_len: "fits b h r (Inr bs) \<Longrightarrow> int (length bs) \<le> MaxInt64"
  by (simp add: fits_def)

lemma len_prefixed_bound: "int (length (len_prefixed d)) \<le> MaxInt64 \<Longrightarrow> int (length d) \<le> MaxInt64"
  by (simp add: len_prefixed_def)

lemma len_prefixed_nonempty [simp]: "len_prefixed d \<noteq> []"
  by (subst len_prefixed_def, subst encodeVarint.simps) simp

lemma MarshalDelimited_Inr: "MarshalDelimited r = Inr b \<longleftrightarrow> (\<exists>d. r = Inr d \<and> b = len_prefixed d)"
  by (auto simp: MarshalDelimited_def and_then_Inr_iff)

lemma or_panic_Inr [simp]: "or_panic r = Inr x \<longleftrightarrow> r = Inr x"
  by (auto simp: or_panic_def split: sum.splits)

lemma CanonicalizeBlockID_header:
  "CanonicalizeBlockID b = Inr (Some c) \<Longrightarrow> cp_Total (cb_PartSetHeader c) = psh_Total (bid_PartSetHeader b)"
  by (auto simp: CanonicalizeBlockID_def split: sum.splits if_splits)

subsection \<open>Votes\<close>

lemma VoteSignBytes_decode:
  assumes "time_decoding (cr_TimeBytes (env_crypto env)) (env_TimeOf env)" "vote_fits env chainID v"
    and "v_Type v \<in> {PrevoteType, PrecommitType}" "VoteSignBytes (env_crypto env) chainID v = Inr b"
  shows "\<exists>cv. CanonicalizeVote chainID v = Inr cv \<and> UnmarshalDelimited (CanonicalVote_Unmarshal (env_TimeOf env) zero_Vote) b = Inr cv"
proof -
  obtain cv d where cv: "CanonicalizeVote chainID v = Inr cv" "CanonicalVote_marshal (cr_TimeBytes (env_crypto env)) cv = Inr d" "b = len_prefixed d"
    using assms(4) by (auto simp: VoteSignBytes_def and_then_Inr_iff MarshalDelimited_Inr)
  have "int (length d) \<le> MaxInt64" using assms(2,4) cv(3) by (auto simp: vote_fits_def fits_def intro: len_prefixed_bound)
  moreover have "vote_ranges cv"
    using cv(1) assms(2,3) by (auto simp: CanonicalizeVote_def and_then_Inr_iff vote_fits_def fits_def vote_ranges_def header_ok_def
        CanonicalizeBlockID_header int32_range_iff int64_range_iff int_limits PrevoteType_def PrecommitType_def)
  ultimately show ?thesis
    using CanonicalVote_roundtrip [OF assms(1) _ cv(2)] cv by (simp add: UnmarshalDelimited_len_prefixed)
qed

lemma vote_retry:
  assumes "time_decoding (cr_TimeBytes (env_crypto env)) (env_TimeOf env)" "vote_fits env chainID v" "vote_fits env chainID v0"
    and "v_Type v \<in> {PrevoteType, PrecommitType}" "v_Type v0 \<in> {PrevoteType, PrecommitType}"
    and "VoteSignBytes (env_crypto env) chainID v = Inr b" "VoteSignBytes (env_crypto env) chainID v0 = Inr b0"
    and "checkVotesOnlyDifferByTimestamp env now b0 b = Inr (t, True)"
  shows "VoteSignBytes (env_crypto env) chainID (v\<lparr>v_Timestamp := t\<rparr>) = Inr b0"
proof -
  obtain cv cv0 where cv: "CanonicalizeVote chainID v = Inr cv" "CanonicalizeVote chainID v0 = Inr cv0"
    and dec: "UnmarshalDelimited (CanonicalVote_Unmarshal (env_TimeOf env) zero_Vote) b = Inr cv"
      "UnmarshalDelimited (CanonicalVote_Unmarshal (env_TimeOf env) zero_Vote) b0 = Inr cv0"
    using VoteSignBytes_decode [OF assms(1,2,4,6)] VoteSignBytes_decode [OF assms(1,3,5,7)] by blast
  have t: "t = cv_Timestamp cv0" and eq: "cv\<lparr>cv_Timestamp := now\<rparr> = cv0\<lparr>cv_Timestamp := now\<rparr>"
    using assms(8) dec by (simp_all add: checkVotesOnlyDifferByTimestamp_def)
  have "CanonicalizeVote chainID (v\<lparr>v_Timestamp := t\<rparr>) = Inr (cv\<lparr>cv_Timestamp := t\<rparr>)"
    using cv(1) by (auto simp: CanonicalizeVote_def and_then_Inr_iff)
  also have "cv\<lparr>cv_Timestamp := t\<rparr> = cv0"
    using eq t by (cases cv, cases cv0) simp
  finally show ?thesis using assms(7) cv(2) by (simp add: VoteSignBytes_def)
qed

lemma signVote_cases:
  assumes "signVote env w now chainID v pv fs = Inr (v', pv', fs')"
  shows "\<exists>h r st b. fst (vote_release env chainID v) = (h, r, st) \<and> fst (snd (vote_release env chainID v)) = Inr b \<and>
        ((CheckHRS (pv_LastSignState pv) h r st = Inr True \<and> pv' = pv \<and> fs' = fs \<and>
          ((vote_release env chainID v' = ((h, r, st), Inr b, raw (lss_Signature (pv_LastSignState pv))) \<and>
              b = raw (lss_SignBytes (pv_LastSignState pv))) \<or>
           (\<exists>t. checkVotesOnlyDifferByTimestamp env now (raw (lss_SignBytes (pv_LastSignState pv))) b = Inr (t, True) \<and>
              vote_release env chainID v' =
                ((h, r, st), fst (snd (vote_release env chainID (v\<lparr>v_Timestamp := t\<rparr>))), raw (lss_Signature (pv_LastSignState pv)))))) \<or>
         (CheckHRS (pv_LastSignState pv) h r st = Inr False \<and>
          (\<exists>g. saveSigned w h r st b g pv fs = Inr (pv', fs') \<and> vote_release env chainID v' = ((h, r, st), Inr b, g))))"
    (is "\<exists>h r st b. ?P h r st b")
proof -
  have sig: "VoteSignBytes cr chainID (u\<lparr>v_Signature := g\<rparr>) = VoteSignBytes cr chainID u" for cr u g
    by (simp add: VoteSignBytes_def CanonicalizeVote_def)
  obtain st sm b where st: "voteToStep v = Inr st" and chk: "CheckHRS (pv_LastSignState pv) (v_Height v) (v_Round v) st = Inr sm"
    and b: "VoteSignBytes (env_crypto env) chainID v = Inr b"
    using assms by (auto simp: signVote_def Let_def and_then_Inr_iff)
  have step: "fst (vote_release env chainID v) = (v_Height v, v_Round v, st)"
    using st by (auto simp: voteToStep_def vote_release_def split: if_splits)
  note res = assms [unfolded signVote_def st and_then_simps Let_def chk b lift_fault_Inr]
  have "?P (v_Height v) (v_Round v) st b"
  proof (cases sm)
    case True
    then have "pv' = pv \<and> fs' = fs \<and>
       ((v' = v\<lparr>v_Signature := raw (lss_Signature (pv_LastSignState pv))\<rparr> \<and> b = raw (lss_SignBytes (pv_LastSignState pv))) \<or>
        (\<exists>t. checkVotesOnlyDifferByTimestamp env now (raw (lss_SignBytes (pv_LastSignState pv))) b = Inr (t, True) \<and>
           v' = v\<lparr>v_Timestamp := t, v_Signature := raw (lss_Signature (pv_LastSignState pv))\<rparr>))"
      using res by (auto simp: and_then_Inr_iff split: if_splits)
    then show ?thesis using chk True step b by (auto simp: vote_release_def sig)
  next
    case False
    then have "\<exists>g. saveSigned w (v_Height v) (v_Round v) st b g pv fs = Inr (pv', fs') \<and> v' = v\<lparr>v_Signature := g\<rparr>"
      using res by (auto simp: and_then_Inr_iff split: option.splits)
    then show ?thesis using chk False step b by (auto simp: vote_release_def sig)
  qed
  then show ?thesis by blast
qed

interpretation votes: signable signVote vote_release checkVotesOnlyDifferByTimestamp "\<lambda>t v. v\<lparr>v_Timestamp := t\<rparr>" vote_fits
proof
  fix env w now chainID v pv fs v' pv' fs' h r st b g b0 t
  assume s: "signVote env w now chainID v pv fs = Inr (v', pv', fs')" and r: "vote_release env chainID v = ((h, r, st), Inr b, g)"
    and f: "vote_fits env chainID v"
  have ty: "v_Type v \<in> {PrevoteType, PrecommitType}" using s by (auto simp: signVote_def voteToStep_def and_then_Inr_iff split: if_splits)
  have vb: "VoteSignBytes (env_crypto env) chainID v = Inr b" and st: "st \<noteq> stepPropose"
    using r by (auto simp: vote_release_def sign_steps split: if_splits)
  show "b \<noteq> [] \<and> signed env chainID st b"
    using ty vb st f by (auto simp: signed_def VoteSignBytes_def and_then_Inr_iff MarshalDelimited_Inr)
  assume tm: "time_decoding (cr_TimeBytes (env_crypto env)) (env_TimeOf env)"
    and sg: "signed env chainID st b0" and chk: "checkVotesOnlyDifferByTimestamp env now b0 b = Inr (t, True)"
  obtain v0 where "v_Type v0 \<in> {PrevoteType, PrecommitType}" "vote_fits env chainID v0" "VoteSignBytes (env_crypto env) chainID v0 = Inr b0"
    using sg st by (auto simp: signed_def)
  then show "fst (snd (vote_release env chainID (v\<lparr>v_Timestamp := t\<rparr>))) = Inr b0"
    using vote_retry [OF tm f _ ty _ vb _ chk] by (simp add: vote_release_def)
qed (rule signVote_cases)

subsection \<open>Proposals\<close>

lemma ProposalSignBytes_decode:
  assumes "time_decoding (cr_TimeBytes (env_crypto env)) (env_TimeOf env)" "proposal_fits env chainID p"
    and "ProposalSignBytes (env_crypto env) chainID p = Inr b"
  shows "\<exists>cp. CanonicalizeProposal chainID p = Inr cp \<and> UnmarshalDelimited (CanonicalProposal_Unmarshal (env_TimeOf env) zero_Proposal) b = Inr cp"
proof -
  obtain cp d where cp: "CanonicalizeProposal chainID p = Inr cp" "CanonicalProposal_marshal (cr_TimeBytes (env_crypto env)) cp = Inr d" "b = len_prefixed d"
    using assms(3) by (auto simp: ProposalSignBytes_def and_then_Inr_iff MarshalDelimited_Inr)
  have "int (length d) \<le> MaxInt64" using assms(2,3) cp(3) by (auto simp: proposal_fits_def fits_def intro: len_prefixed_bound)
  moreover have "proposal_ranges cp"
    using cp(1) assms(2) by (auto simp: CanonicalizeProposal_def and_then_Inr_iff proposal_fits_def fits_def proposal_ranges_def header_ok_def
        CanonicalizeBlockID_header int32_range_iff int64_range_iff int_limits ProposalType_def)
  ultimately show ?thesis
    using CanonicalProposal_roundtrip [OF assms(1) _ cp(2)] cp by (simp add: UnmarshalDelimited_len_prefixed)
qed

lemma proposal_retry:
  assumes "time_decoding (cr_TimeBytes (env_crypto env)) (env_TimeOf env)" "proposal_fits env chainID p" "proposal_fits env chainID p0"
    and "ProposalSignBytes (env_crypto env) chainID p = Inr b" "ProposalSignBytes (env_crypto env) chainID p0 = Inr b0"
    and "checkProposalsOnlyDifferByTimestamp env now b0 b = Inr (t, True)"
  shows "ProposalSignBytes (env_crypto env) chainID (p\<lparr>p_Timestamp := t\<rparr>) = Inr b0"
proof -
  obtain cp cp0 where cp: "CanonicalizeProposal chainID p = Inr cp" "CanonicalizeProposal chainID p0 = Inr cp0"
    and dec: "UnmarshalDelimited (CanonicalProposal_Unmarshal (env_TimeOf env) zero_Proposal) b = Inr cp"
      "UnmarshalDelimited (CanonicalProposal_Unmarshal (env_TimeOf env) zero_Proposal) b0 = Inr cp0"
    using ProposalSignBytes_decode [OF assms(1,2,4)] ProposalSignBytes_decode [OF assms(1,3,5)] by blast
  have t: "t = cpr_Timestamp cp0" and eq: "cp\<lparr>cpr_Timestamp := now\<rparr> = cp0\<lparr>cpr_Timestamp := now\<rparr>"
    using assms(6) dec by (simp_all add: checkProposalsOnlyDifferByTimestamp_def)
  have "CanonicalizeProposal chainID (p\<lparr>p_Timestamp := t\<rparr>) = Inr (cp\<lparr>cpr_Timestamp := t\<rparr>)"
    using cp(1) by (auto simp: CanonicalizeProposal_def and_then_Inr_iff)
  also have "cp\<lparr>cpr_Timestamp := t\<rparr> = cp0"
    using eq t by (cases cp, cases cp0) simp
  finally show ?thesis using assms(5) cp(2) by (simp add: ProposalSignBytes_def)
qed

lemma signProposal_cases:
  assumes "signProposal env w now chainID p pv fs = Inr (p', pv', fs')"
  shows "\<exists>h r st b. fst (proposal_release env chainID p) = (h, r, st) \<and> fst (snd (proposal_release env chainID p)) = Inr b \<and>
        ((CheckHRS (pv_LastSignState pv) h r st = Inr True \<and> pv' = pv \<and> fs' = fs \<and>
          ((proposal_release env chainID p' = ((h, r, st), Inr b, raw (lss_Signature (pv_LastSignState pv))) \<and>
              b = raw (lss_SignBytes (pv_LastSignState pv))) \<or>
           (\<exists>t. checkProposalsOnlyDifferByTimestamp env now (raw (lss_SignBytes (pv_LastSignState pv))) b = Inr (t, True) \<and>
              proposal_release env chainID p' =
                ((h, r, st), fst (snd (proposal_release env chainID (p\<lparr>p_Timestamp := t\<rparr>))), raw (lss_Signature (pv_LastSignState pv)))))) \<or>
         (CheckHRS (pv_LastSignState pv) h r st = Inr False \<and>
          (\<exists>g. saveSigned w h r st b g pv fs = Inr (pv', fs') \<and> proposal_release env chainID p' = ((h, r, st), Inr b, g))))"
    (is "\<exists>h r st b. ?P h r st b")
proof -
  have sig: "ProposalSignBytes cr chainID (u\<lparr>p_Signature := g\<rparr>) = ProposalSignBytes cr chainID u" for cr u g
    by (simp add: ProposalSignBytes_def CanonicalizeProposal_def)
  obtain sm b where chk: "CheckHRS (pv_LastSignState pv) (p_Height p) (p_Round p) stepPropose = Inr sm"
    and b: "ProposalSignBytes (env_crypto env) chainID p = Inr b"
    using assms by (auto simp: signProposal_def Let_def and_then_Inr_iff)
  have step: "fst (proposal_release env chainID p) = (p_Height p, p_Round p, stepPropose)" by (simp add: proposal_release_def)
  note res = assms [unfolded signProposal_def and_then_simps Let_def chk b lift_fault_Inr]
  have "?P (p_Height p) (p_Round p) stepPropose b"
  proof (cases sm)
    case True
    then have "pv' = pv \<and> fs' = fs \<and>
       ((p' = p\<lparr>p_Signature := raw (lss_Signature (pv_LastSignState pv))\<rparr> \<and> b = raw (lss_SignBytes (pv_LastSignState pv))) \<or>
        (\<exists>t. checkProposalsOnlyDifferByTimestamp env now (raw (lss_SignBytes (pv_LastSignState pv))) b = Inr (t, True) \<and>
           p' = p\<lparr>p_Timestamp := t, p_Signature := raw (lss_Signature (pv_LastSignState pv))\<rparr>))"
      using res by (auto simp: and_then_Inr_iff split: if_splits)
    then show ?thesis using chk True step b by (auto simp: proposal_release_def sig)
  next
    case False
    then have "\<exists>g. saveSigned w (p_Height p) (p_Round p) stepPropose b g pv fs = Inr (pv', fs') \<and> p' = p\<lparr>p_Signature := g\<rparr>"
      using res by (auto simp: and_then_Inr_iff split: option.splits)
    then show ?thesis using chk False step b by (auto simp: proposal_release_def sig)
  qed
  then show ?thesis by blast
qed

interpretation proposals: signable signProposal proposal_release checkProposalsOnlyDifferByTimestamp "\<lambda>t p. p\<lparr>p_Timestamp := t\<rparr>" proposal_fits
proof
  fix env w now chainID p pv fs p' pv' fs' h r st b g b0 t
  assume s: "signProposal env w now chainID p pv fs = Inr (p', pv', fs')" and r: "proposal_release env chainID p = ((h, r, st), Inr b, g)"
    and f: "proposal_fits env chainID p"
  have vb: "ProposalSignBytes (env_crypto env) chainID p = Inr b" and st: "st = stepPropose"
    using r by (auto simp: proposal_release_def)
  show "b \<noteq> [] \<and> signed env chainID st b"
    using vb st f by (auto simp: signed_def ProposalSignBytes_def and_then_Inr_iff MarshalDelimited_Inr)
  assume tm: "time_decoding (cr_TimeBytes (env_crypto env)) (env_TimeOf env)"
    and sg: "signed env chainID st b0" and chk: "checkProposalsOnlyDifferByTimestamp env now b0 b = Inr (t, True)"
  obtain p0 where "proposal_fits env chainID p0" "ProposalSignBytes (env_crypto env) chainID p0 = Inr b0"
    using sg st by (auto simp: signed_def)
  then show "fst (snd (proposal_release env chainID (p\<lparr>p_Timestamp := t\<rparr>))) = Inr b0"
    using proposal_retry [OF tm f _ vb _ chk] by (simp add: proposal_release_def)
qed (rule signProposal_cases)

section \<open>No double signing\<close>

lemma signer_reachable_inv:
  assumes "signer_reachable env chainID k f s" "time_decoding (cr_TimeBytes (env_crypto env)) (env_TimeOf env)"
  shows "signer_inv env chainID (sg_pv s) (sg_files s) (sg_released s)"
  using assms
proof (induction rule: signer_reachable.induct)
  case (signer_start privKey pv fs)
  then show ?case using LoadOrGenFilePV_inv by simp
next
  case (signer_vote s v w now v' pv fs)
  then show ?case using votes.sign_inv [OF signer_vote.prems signer_vote.hyps(2) signer_vote.IH signer_vote.hyps(3)] by simp
next
  case (signer_vote_lost s v w now v' pv fs pv')
  then show ?case
    using conjunct2 [OF votes.sign_inv [OF signer_vote_lost.prems signer_vote_lost.hyps(2) signer_vote_lost.IH signer_vote_lost.hyps(3)]]
      LoadFilePV_inv [OF _ signer_vote_lost.hyps(4)] by fastforce
next
  case (signer_proposal s p w now p' pv fs)
  then show ?case using proposals.sign_inv [OF signer_proposal.prems signer_proposal.hyps(2) signer_proposal.IH signer_proposal.hyps(3)] by simp
next
  case (signer_proposal_lost s p w now p' pv fs pv')
  then show ?case
    using conjunct2 [OF proposals.sign_inv [OF signer_proposal_lost.prems signer_proposal_lost.hyps(2) signer_proposal_lost.IH signer_proposal_lost.hyps(3)]]
      LoadFilePV_inv [OF _ signer_proposal_lost.hyps(4)] by fastforce
next
  case (signer_restart s pv')
  then show ?case using LoadFilePV_inv [OF signer_restart.IH signer_restart.hyps(2)] by simp
qed

text \<open>A vote that was signed is signed the same way again after a restart, whatever time the repeated request carries.\<close>

lemma checkVotes_retimed:
  assumes "time_decoding (cr_TimeBytes (env_crypto env)) (env_TimeOf env)" "vote_fits env chainID v" "vote_fits env chainID (v\<lparr>v_Timestamp := t\<rparr>)"
    and "v_Type v \<in> {PrevoteType, PrecommitType}"
    and "VoteSignBytes (env_crypto env) chainID v = Inr b" "VoteSignBytes (env_crypto env) chainID (v\<lparr>v_Timestamp := t\<rparr>) = Inr b'"
  shows "checkVotesOnlyDifferByTimestamp env now b b' = Inr (v_Timestamp v, True) \<and> (b' = b \<longrightarrow> t = v_Timestamp v)"
proof -
  obtain cv where cv: "CanonicalizeVote chainID v = Inr cv"
      "UnmarshalDelimited (CanonicalVote_Unmarshal (env_TimeOf env) zero_Vote) b = Inr cv"
    using VoteSignBytes_decode [OF assms(1,2,4,5)] by blast
  obtain cw where cw: "CanonicalizeVote chainID (v\<lparr>v_Timestamp := t\<rparr>) = Inr cw"
      "UnmarshalDelimited (CanonicalVote_Unmarshal (env_TimeOf env) zero_Vote) b' = Inr cw"
    using VoteSignBytes_decode [OF assms(1,3) _ assms(6)] assms(4) by auto
  have eq: "cw = cv\<lparr>cv_Timestamp := t\<rparr>" "cv_Timestamp cv = v_Timestamp v"
    using cv(1) cw(1) by (auto simp: CanonicalizeVote_def and_then_Inr_iff)
  have "b' = b \<Longrightarrow> cw = cv" using cv(2) cw(2) by simp
  then have "b' = b \<Longrightarrow> t = v_Timestamp v" using eq by (cases cv) simp
  then show ?thesis using cv(2) cw(2) eq by (simp add: checkVotesOnlyDifferByTimestamp_def)
qed

lemma signVote_result:
  assumes "signVote env w now chainID v pv fs = Inr (v', pv', fs')"
  shows "v' = v\<lparr>v_Timestamp := v_Timestamp v', v_Signature := v_Signature v'\<rparr>" "v_Type v \<in> {PrevoteType, PrecommitType}"
    and "hrs_of (pv_LastSignState pv') = fst (vote_release env chainID v)" "lss_Signature (pv_LastSignState pv') = Some (v_Signature v')"
proof -
  show "v' = v\<lparr>v_Timestamp := v_Timestamp v', v_Signature := v_Signature v'\<rparr>" "v_Type v \<in> {PrevoteType, PrecommitType}"
    using assms by (auto simp: signVote_def voteToStep_def Let_def and_then_Inr_iff split: if_splits option.splits)
  have "hrs_of (pv_LastSignState pv') = (h, r, st) \<and> lss_Signature (pv_LastSignState pv') = Some g"
    if "saveSigned w h r st b g pv fs = Inr (pv', fs')" for h r st b g
    using that by (auto simp: saveSigned_def Let_def and_then_Inr_iff hrs_of_def)
  moreover have "snd (snd (vote_release env chainID v')) = v_Signature v'" by (simp add: vote_release_def)
  ultimately have "hrs_of (pv_LastSignState pv') = fst (vote_release env chainID v) \<and> lss_Signature (pv_LastSignState pv') = Some (v_Signature v')"
    using signVote_cases [OF assms] by (auto dest!: CheckHRS_same simp: raw_def)
  then show "hrs_of (pv_LastSignState pv') = fst (vote_release env chainID v)" "lss_Signature (pv_LastSignState pv') = Some (v_Signature v')"
    by simp_all
qed

lemma signVote_state:
  assumes "signer_inv env chainID pv fs rel" "time_decoding (cr_TimeBytes (env_crypto env)) (env_TimeOf env)" "vote_fits env chainID v"
    and "signVote env w now chainID v pv fs = Inr (v', pv', fs')" "v_Signature v' \<noteq> []"
  shows "\<exists>b. VoteSignBytes (env_crypto env) chainID v' = Inr b \<and> vote_fits env chainID v' \<and> lss_SignBytes (pv_LastSignState pv') = Some b \<and>
     lss_Signature (pv_LastSignState pv') = Some (v_Signature v')"
proof -
  note v' = signVote_result [OF assms(4)]
  have rel: "fst (vote_release env chainID v') = hrs_of (pv_LastSignState pv')"
    unfolding v'(3) by (subst v'(1)) (simp add: vote_release_def)
  have inv: "signer_inv env chainID pv' fs' (vote_release env chainID v' # rel)"
    using votes.sign_inv [OF assms(2,3,1,4)] by simp
  then obtain b where b: "VoteSignBytes (env_crypto env) chainID v' = Inr b" "lss_SignBytes (pv_LastSignState pv') = Some b"
    using rel by (auto simp: signer_inv_def log_ok_def vote_release_def)
  have "signed env chainID (lss_Step (pv_LastSignState pv')) b" using inv b(2) by (simp add: signer_inv_def)
  then have "int (length b) \<le> MaxInt64" by (auto simp: signed_def vote_fits_def proposal_fits_def fits_def split: if_splits)
  moreover have "v_BlockID v' = v_BlockID v" "v_Height v' = v_Height v" "v_Round v' = v_Round v" by (subst v'(1), simp)+
  ultimately have "vote_fits env chainID v'" using assms(3) b(1) by (simp add: vote_fits_def fits_def)
  then show ?thesis using b v'(4) by blast
qed

lemma signVote_again:
  assumes "signer_inv env chainID pv fs rel" "time_decoding (cr_TimeBytes (env_crypto env)) (env_TimeOf env)" "vote_fits env chainID v"
    and "signVote env w now chainID v pv fs = Inr (v', pv', fs')" "v_Signature v' \<noteq> []" "LoadFilePV env k f fs' = Inr pv''"
    and "vote_fits env chainID (v\<lparr>v_Timestamp := t\<rparr>)" "VoteSignBytes (env_crypto env) chainID (v\<lparr>v_Timestamp := t\<rparr>) = Inr b'"
  shows "signVote env w' now' chainID (v\<lparr>v_Timestamp := t\<rparr>) pv'' fs' = Inr (v', pv'', fs')"
proof -
  let ?v = "v\<lparr>v_Timestamp := t\<rparr>" and ?lss = "pv_LastSignState pv''"
  note v' = signVote_result [OF assms(4)]
  obtain b where b: "VoteSignBytes (env_crypto env) chainID v' = Inr b" "vote_fits env chainID v'"
      "lss_SignBytes (pv_LastSignState pv') = Some b" "lss_Signature (pv_LastSignState pv') = Some (v_Signature v')"
    using signVote_state [OF assms(1-5)] by blast
  have inv: "signer_inv env chainID pv' fs' rel" using votes.sign_inv [OF assms(2,3,1,4)] by simp
  then have lss: "?lss = (stored (pv_LastSignState pv'))\<lparr>lss_filePath := f\<rparr>"
    using assms(6) by (auto simp: signer_inv_def LoadFilePV_def loadFilePV_def Let_def split: option.splits)
  have "b \<noteq> []" using inv b(3) by (simp add: signer_inv_def)
  then have st: "lss_SignBytes ?lss = Some b" "lss_Signature ?lss = Some (v_Signature v')" "hrs_of ?lss = fst (vote_release env chainID v)"
    using b(3,4) assms(5) v'(3) by (simp_all add: lss stored_def omitempty_def hrs_of_def)
  obtain s where s: "voteToStep ?v = Inr s" "hrs_of ?lss = (v_Height v, v_Round v, s)"
    using v'(2) st(3) by (auto simp: voteToStep_def vote_release_def PrevoteType_def PrecommitType_def)
  have chk: "CheckHRS ?lss (v_Height v) (v_Round v) s = Inr True"
    using s(2) st(1,2) by (simp add: CheckHRS_def hrs_of_def)
  have sig: "VoteSignBytes (env_crypto env) chainID (u\<lparr>v_Signature := g\<rparr>) = VoteSignBytes (env_crypto env) chainID u" for u g
    by (simp add: VoteSignBytes_def CanonicalizeVote_def)
  have t: "v'\<lparr>v_Timestamp := t\<rparr> = ?v\<lparr>v_Signature := v_Signature v'\<rparr>" by (subst v'(1)) simp
  have "v_Type v' = v_Type v" by (subst v'(1)) simp
  then have "checkVotesOnlyDifferByTimestamp env now' b b' = Inr (v_Timestamp v', True) \<and> (b' = b \<longrightarrow> t = v_Timestamp v')"
    using assms(7,8) v'(2) by (intro checkVotes_retimed [OF assms(2) b(2) _ _ b(1)]) (simp_all add: t sig vote_fits_def)
  then have c: "checkVotesOnlyDifferByTimestamp env now' b b' = Inr (v_Timestamp v', True)" "b' = b \<Longrightarrow> t = v_Timestamp v'" by auto
  have e: "v\<lparr>v_Timestamp := v_Timestamp v', v_Signature := v_Signature v'\<rparr> = v'" using v'(1) by (rule sym)
  have "signVote env w' now' chainID ?v pv'' fs' =
      (if b' = b then Inr (?v\<lparr>v_Signature := v_Signature v'\<rparr>, pv'', fs') else Inr (v\<lparr>v_Timestamp := v_Timestamp v', v_Signature := v_Signature v'\<rparr>, pv'', fs'))"
    by (simp add: signVote_def s(1) chk assms(8) st(1,2) raw_def Let_def c(1))
  also have "\<dots> = Inr (v', pv'', fs')"
  proof (cases "b' = b")
    case True
    then show ?thesis unfolding c(2) [OF True] by (simp only: if_cancel e)
  qed (simp only: if_False e)
  finally show ?thesis .
qed

text \<open>
  C3: Whatever votes and proposals a signer is asked for, and however often it crashes and restarts from its files
  in between, all signatures it ever hands out for one height, round and step are the same signature for the
  same bytes, and the heights, rounds and steps it signs never go back. The decoder of times inverts their encoder.
\<close>

theorem never_double_signs:
  assumes "time_decoding (cr_TimeBytes (env_crypto env)) (env_TimeOf env)" "signer_reachable env chainID keyPath statePath s"
  shows "(\<forall>e \<in> set (sg_released s). \<forall>e' \<in> set (sg_released s). fst e = fst e' \<longrightarrow> e = e') \<and>
    (\<forall>(x, b, g) \<in> set (sg_released s). (\<exists>bs. b = Inr bs) \<and> x \<le> hrs_of (pv_LastSignState (sg_pv s))) \<and>
    sorted_wrt (\<lambda>e e'. fst e' \<le> fst e) (sg_released s)"
proof -
  have ok: "log_ok (pv_LastSignState (sg_pv s)) (sg_released s)"
    using signer_reachable_inv [OF assms(2,1)] by (simp add: signer_inv_def)
  then have "(\<exists>bs. b = Inr bs) \<and> x \<le> hrs_of (pv_LastSignState (sg_pv s))" if "(x, b, g) \<in> set (sg_released s)" for x b g
    using that by (auto simp: log_ok_def)
  with ok show ?thesis by (auto simp: log_ok_def)
qed

definition demo_env :: pv_env where
  "demo_env = \<lparr>env_crypto = demo_crypto, env_PubKey = (\<lambda>k. k), env_Sign = (\<lambda>k m. Some (k @ m)), env_TimeOf = demo_time_of\<rparr>"

definition nil_vote :: "timestamp \<Rightarrow> Vote" where
  "nil_vote t = \<lparr>v_Type = PrecommitType, v_Height = 1, v_Round = 0,
     v_BlockID = \<lparr>bid_Hash = [], bid_PartSetHeader = \<lparr>psh_Total = 0, psh_Hash = []\<rparr>\<rparr>,
     v_Timestamp = t, v_ValidatorAddress = [], v_ValidatorIndex = 0, v_Signature = []\<rparr>"

lemma demo_env_time: "time_decoding (cr_TimeBytes (env_crypto demo_env)) (env_TimeOf demo_env)"
  by (simp add: demo_env_def demo_crypto_def demo_time_decoding)

lemma nil_vote_bytes:
  assumes "int64_range t"
  shows "\<exists>b. VoteSignBytes (env_crypto demo_env) [] (nil_vote t) = Inr b \<and> b \<noteq> []" "vote_fits demo_env [] (nil_vote t)"
proof -
  have "BlockIDFromProto (Some (v_BlockID (nil_vote t))) = Inr (v_BlockID (nil_vote t))" "BlockID_IsZero (v_BlockID (nil_vote t))"
    by (simp_all add: nil_vote_def, code_simp+)
  then have cv: "CanonicalizeVote [] (nil_vote t) = Inr \<lparr>cv_Type = 2, cv_Height = 1, cv_Round = 0, cv_BlockID = None, cv_Timestamp = t, cv_ChainID = []\<rparr>"
      (is "_ = Inr ?cv")
    by (simp add: CanonicalizeVote_def CanonicalizeBlockID_def nil_vote_def PrecommitType_def)
  have "length (PutUint64 w) = 8" for w by (simp add: PutUint64_def)
  then obtain b where "CanonicalVote_marshal demo_time ?cv = Inr b" "length b < 100"
    using assms by (simp add: CanonicalVote_marshal_def demo_time_def varint_field_def fixed64_field_def len_prefixed_def
        block_id_field_def bytes_field_def uint64_of_def encodeVarint.simps)
  moreover have "length (len_prefixed b) \<le> length b + 100" if "length b < 100" for b
    using that by (simp add: len_prefixed_def encodeVarint.simps)
  ultimately show "\<exists>b. VoteSignBytes (env_crypto demo_env) [] (nil_vote t) = Inr b \<and> b \<noteq> []" "vote_fits demo_env [] (nil_vote t)"
    using cv by (fastforce simp: VoteSignBytes_def demo_env_def demo_crypto_def MarshalDelimited_def or_panic_def vote_fits_def fits_def nil_vote_def
        int64_range_iff int32_range_iff int_limits)+
qed

lemma nil_vote_signed:
  assumes sign: "env_Sign env = (\<lambda>k m. Some (k @ m))" and b: "VoteSignBytes (env_crypto env) [] (nil_vote 5) = Inr b"
  shows "\<exists>s v pv fs pv'. signer_reachable env [] ''key'' ''state'' s \<and> sg_released s = [] \<and>
     signVote env True 0 [] (nil_vote 5) (sg_pv s) (sg_files s) = Inr (v, pv, fs) \<and> v = (nil_vote 5)\<lparr>v_Signature := [1] @ b\<rparr> \<and>
     LoadFilePV env ''key'' ''state'' fs = Inr pv'"
proof -
  let ?pv = "GenFilePV env [1] ''key'' ''state''"
  let ?fs = "\<lparr>fs_Key = Some (pv_Key ?pv), fs_State = Some (empty_state ''state'')\<rparr>"
  have r: "signer_reachable env [] ''key'' ''state'' \<lparr>sg_pv = ?pv, sg_files = ?fs, sg_released = []\<rparr>"
    by (rule signer_start [of _ "[1]"]) (simp add: LoadOrGenFilePV_def FilePV_Save_def FilePVKey_Save_def LastSignState_Save_def
        GenFilePV_def empty_state_def omitempty_def Let_def)
  have st: "voteToStep (nil_vote 5) = Inr stepPrecommit" "v_Height (nil_vote 5) = 1" "v_Round (nil_vote 5) = 0"
    by (simp_all add: voteToStep_def nil_vote_def PrevoteType_def PrecommitType_def)
  have "CheckHRS (pv_LastSignState ?pv) 1 0 stepPrecommit = Inr False"
    by (simp add: CheckHRS_def GenFilePV_def empty_state_def)
  then obtain v pv fs where v: "signVote env True 0 [] (nil_vote 5) ?pv ?fs = Inr (v, pv, fs)" "v = (nil_vote 5)\<lparr>v_Signature := [1] @ b\<rparr>"
      "fs_Key fs = Some (pv_Key ?pv)" "fs_State fs \<noteq> None"
    using b st by (simp add: signVote_def Let_def saveSigned_def LastSignState_Save_def GenFilePV_def empty_state_def sign)
  then obtain pv' where "LoadFilePV env ''key'' ''state'' fs = Inr pv'" by (auto simp: LoadFilePV_def loadFilePV_def Let_def)
  then show ?thesis using r v
    by (intro exI [of _ "\<lparr>sg_pv = ?pv, sg_files = ?fs, sg_released = []\<rparr>"] exI [of _ v] exI [of _ pv] exI [of _ fs] exI [of _ pv']) simp
qed

lemma demo_signed:
  "\<exists>s v pv fs pv'. signer_reachable demo_env [] ''key'' ''state'' s \<and> sg_released s = [] \<and>
     signVote demo_env True 0 [] (nil_vote 5) (sg_pv s) (sg_files s) = Inr (v, pv, fs) \<and> v_Signature v \<noteq> [] \<and>
     LoadFilePV demo_env ''key'' ''state'' fs = Inr pv'"
proof -
  obtain b where b: "VoteSignBytes (env_crypto demo_env) [] (nil_vote 5) = Inr b"
    using nil_vote_bytes(1) [of 5] by (auto simp: int64_range_iff int_limits)
  have "env_Sign demo_env = (\<lambda>k m. Some (k @ m))" by (simp add: demo_env_def)
  from nil_vote_signed [OF this b] obtain s v pv fs pv' where "signer_reachable demo_env [] ''key'' ''state'' s" "sg_released s = []"
      "signVote demo_env True 0 [] (nil_vote 5) (sg_pv s) (sg_files s) = Inr (v, pv, fs)" "v_Signature v \<noteq> []"
      "LoadFilePV demo_env ''key'' ''state'' fs = Inr pv'"
    by auto
  then show ?thesis by (intro exI [of _ s] exI [of _ v] exI [of _ pv] exI [of _ fs] exI [of _ pv']) simp
qed

theorem never_double_signs_witness:
  "\<exists>s e. time_decoding (cr_TimeBytes (env_crypto demo_env)) (env_TimeOf demo_env) \<and>
     signer_reachable demo_env [] ''key'' ''state'' s \<and> sg_released s = [e, e] \<and> sorted_wrt (\<lambda>e e'. fst e' \<le> fst e) (sg_released s)"
proof -
  obtain s v pv fs pv' where s: "signer_reachable demo_env [] ''key'' ''state'' s" "sg_released s = []"
    and v: "signVote demo_env True 0 [] (nil_vote 5) (sg_pv s) (sg_files s) = Inr (v, pv, fs)" "v_Signature v \<noteq> []"
    and load: "LoadFilePV demo_env ''key'' ''state'' fs = Inr pv'"
    using demo_signed by blast
  have f: "vote_fits demo_env [] (nil_vote 5)" "vote_fits demo_env [] (nil_vote 7)"
    by (rule nil_vote_bytes; simp add: int64_range_iff int_limits)+
  obtain b where b: "VoteSignBytes (env_crypto demo_env) [] (nil_vote 7) = Inr b"
    using nil_vote_bytes(1) [of 7] by (auto simp: int64_range_iff int_limits)
  have t: "(nil_vote 5)\<lparr>v_Timestamp := 7\<rparr> = nil_vote 7" by (simp add: nil_vote_def)
  note inv = signer_reachable_inv [OF s(1) demo_env_time]
  have again: "signVote demo_env True 0 [] (nil_vote 7) pv' fs = Inr (v, pv', fs)"
    using signVote_again [OF inv demo_env_time f(1) v load, of 7 b] f(2) b unfolding t by simp
  define s1 where "s1 = s\<lparr>sg_files := fs, sg_released := [vote_release demo_env [] v], sg_pv := pv'\<rparr>"
  have "signer_reachable demo_env [] ''key'' ''state'' s1"
    using signer_restart [OF signer_vote [OF s(1) f(1) v(1)], of pv'] load s(2) by (simp add: s1_def)
  then have r: "signer_reachable demo_env [] ''key'' ''state'' (s1\<lparr>sg_pv := pv', sg_files := fs, sg_released := vote_release demo_env [] v # sg_released s1\<rparr>)"
    using again f(2) by (intro signer_vote [where v = "nil_vote 7" and write_ok = True and now = 0]) (simp_all add: s1_def)
  have "sorted_wrt (\<lambda>e e'. fst e' \<le> fst e) (sg_released (s1\<lparr>sg_pv := pv', sg_files := fs, sg_released := vote_release demo_env [] v # sg_released s1\<rparr>))"
    using never_double_signs [OF demo_env_time r] by (elim conjE)
  then show ?thesis
    by (intro exI [of _ "s1\<lparr>sg_pv := pv', sg_files := fs, sg_released := vote_release demo_env [] v # sg_released s1\<rparr>"]
        exI [of _ "vote_release demo_env [] v"] conjI demo_env_time r) (simp_all only:, simp add: s1_def)
qed

text \<open>
  C38: A vote that the signer has signed is signed the same way again after a restart from the files: a request that differs
  from it in the time only, as a node makes it that replays its log, gets the very vote that was handed out before, with
  its time and its signature, and changes neither the state nor the files.
\<close>

theorem signVote_repeats:
  assumes "time_decoding (cr_TimeBytes (env_crypto env)) (env_TimeOf env)" "signer_reachable env chainID keyPath statePath s"
    and "vote_fits env chainID v" "signVote env w now chainID v (sg_pv s) (sg_files s) = Inr (v', pv, fs)" "v_Signature v' \<noteq> []"
    and "LoadFilePV env keyPath statePath fs = Inr pv'"
    and "vote_fits env chainID (v\<lparr>v_Timestamp := t\<rparr>)" "VoteSignBytes (env_crypto env) chainID (v\<lparr>v_Timestamp := t\<rparr>) = Inr b"
  shows "signVote env w' now' chainID (v\<lparr>v_Timestamp := t\<rparr>) pv' fs = Inr (v', pv', fs)"
  using signVote_again [OF signer_reachable_inv [OF assms(2,1)] assms(1,3-8)] .

theorem signVote_repeats_witness:
  "\<exists>s v pv fs pv'. signer_reachable demo_env [] ''key'' ''state'' s \<and>
     signVote demo_env True 0 [] (nil_vote 5) (sg_pv s) (sg_files s) = Inr (v, pv, fs) \<and>
     LoadFilePV demo_env ''key'' ''state'' fs = Inr pv' \<and>
     signVote demo_env False 1 [] (nil_vote 7) pv' fs = Inr (v, pv', fs)"
proof -
  obtain s v pv fs pv' where s: "signer_reachable demo_env [] ''key'' ''state'' s"
    and v: "signVote demo_env True 0 [] (nil_vote 5) (sg_pv s) (sg_files s) = Inr (v, pv, fs)" "v_Signature v \<noteq> []"
    and load: "LoadFilePV demo_env ''key'' ''state'' fs = Inr pv'"
    using demo_signed by blast
  have f: "vote_fits demo_env [] (nil_vote 5)" "vote_fits demo_env [] (nil_vote 7)"
    by (rule nil_vote_bytes; simp add: int64_range_iff int_limits)+
  obtain b where b: "VoteSignBytes (env_crypto demo_env) [] (nil_vote 7) = Inr b"
    using nil_vote_bytes(1) [of 7] by (auto simp: int64_range_iff int_limits)
  have t: "(nil_vote 5)\<lparr>v_Timestamp := 7\<rparr> = nil_vote 7" by (simp add: nil_vote_def)
  have "signVote demo_env False 1 [] (nil_vote 7) pv' fs = Inr (v, pv', fs)"
    using signVote_repeats [OF demo_env_time s f(1) v load, of 7 b] f(2) b unfolding t by simp
  with s v load show ?thesis
    by (intro exI [of _ s] exI [of _ v] exI [of _ pv] exI [of _ fs] exI [of _ pv']) simp
qed

end
