(* ===== verification/Headers.thy ===== *)
theory Headers
  imports Block_Types
begin

text \<open>
  The parts of a block of \<^verbatim>\<open>types/block.go\<close>: headers and their Merkle hash, transactions
  (\<^verbatim>\<open>types/tx.go\<close>), signed headers, the hash of a validator set. A byte slice of a header whose
  being nil matters is \<open>None\<close> then; the memoised hash of the transactions is part of the state, as in the code.

  The main result is that the hash of a header determines every field of it, unless the hash
  function has a collision.
\<close>

section \<open>Headers\<close>

record Consensus =
  cver_Block :: nat
  cver_App :: nat

record Header =
  h_Version :: Consensus
  h_ChainID :: bytes
  h_Height :: int64
  h_Time :: timestamp
  h_LastBlockID :: BlockID
  h_LastCommitHash :: "bytes option"
  h_DataHash :: "bytes option"
  h_ValidatorsHash :: bytes
  h_NextValidatorsHash :: bytes
  h_ConsensusHash :: bytes
  h_AppHash :: bytes
  h_ResultsHash :: bytes
  h_EvidenceHash :: "bytes option"
  h_ProposerAddress :: bytes

datatype block_error =
    ErrChainIDTooLong
  | ErrHeaderNegativeHeight
  | ErrHeaderZeroHeight
  | ErrWrongLastBlockID basic_error
  | ErrWrongLastCommitHash
  | ErrWrongDataHash
  | ErrWrongEvidenceHash
  | ErrWrongProposerAddress
  | ErrWrongValidatorsHash
  | ErrWrongNextValidatorsHash
  | ErrWrongConsensusHash
  | ErrWrongResultsHash
  | ErrMissingHeader
  | ErrMissingCommit
  | ErrWrongCommit basic_error
  | ErrOtherChain
  | ErrCommitHeight
  | ErrCommitForOtherBlock
  | ErrNilBlock
  | ErrNilLastCommit
  | ErrFoundEvidence nat
  | ErrInvalidBlockEvidence nat
  | ErrNilData
  | ErrDifferentDataHash
  | ErrNegativeProofIndex
  | ErrProofTotal
  | ErrInconsistentProof

definition MaxChainIDLen :: nat where
  "MaxChainIDLen = 50"

definition Header_Populate :: "Consensus \<Rightarrow> bytes \<Rightarrow> timestamp \<Rightarrow> BlockID \<Rightarrow> bytes \<Rightarrow> bytes \<Rightarrow> bytes \<Rightarrow> bytes \<Rightarrow> bytes \<Rightarrow> bytes \<Rightarrow> Header \<Rightarrow> Header" where
  "Header_Populate version chainID timestamp lastBlockID valHash nextValHash consensusHash appHash resultsHash proposerAddress h =
     h\<lparr>h_Version := version, h_ChainID := chainID, h_Time := timestamp, h_LastBlockID := lastBlockID,
       h_ValidatorsHash := valHash, h_NextValidatorsHash := nextValHash, h_ConsensusHash := consensusHash,
       h_AppHash := appHash, h_ResultsHash := resultsHash, h_ProposerAddress := proposerAddress\<rparr>"

definition Header_ValidateBasic :: "Header \<Rightarrow> (block_error, unit) result" where
  "Header_ValidateBasic h =
     (if length (h_ChainID h) > MaxChainIDLen then Inl (Err ErrChainIDTooLong)
      else if h_Height h < 0 then Inl (Err ErrHeaderNegativeHeight)
      else if h_Height h = 0 then Inl (Err ErrHeaderZeroHeight)
      else and_then (lift_fault ErrWrongLastBlockID (BlockID_ValidateBasic (h_LastBlockID h))) (\<lambda>_.
        if \<not> ValidateHash (raw (h_LastCommitHash h)) then Inl (Err ErrWrongLastCommitHash)
        else if \<not> ValidateHash (raw (h_DataHash h)) then Inl (Err ErrWrongDataHash)
        else if \<not> ValidateHash (raw (h_EvidenceHash h)) then Inl (Err ErrWrongEvidenceHash)
        else if length (h_ProposerAddress h) \<noteq> AddressSize then Inl (Err ErrWrongProposerAddress)
        else if \<not> ValidateHash (h_ValidatorsHash h) then Inl (Err ErrWrongValidatorsHash)
        else if \<not> ValidateHash (h_NextValidatorsHash h) then Inl (Err ErrWrongNextValidatorsHash)
        else if \<not> ValidateHash (h_ConsensusHash h) then Inl (Err ErrWrongConsensusHash)
        else if \<not> ValidateHash (h_ResultsHash h) then Inl (Err ErrWrongResultsHash)
        else Inr ()))"

text \<open>\<^verbatim>\<open>cdcEncode\<close> wraps a string, a number or a byte slice in the message that has it as its only field.\<close>

definition cdcEncode_bytes :: "bytes \<Rightarrow> bytes" where
  "cdcEncode_bytes b = (if b = [] then [] else bytes_field 0x0a b)"

definition cdcEncode_int64 :: "int64 \<Rightarrow> bytes" where
  "cdcEncode_int64 x = varint_field 0x08 (uint64_of x)"

definition Consensus_marshal :: "Consensus \<Rightarrow> bytes" where
  "Consensus_marshal m = varint_field 0x08 (cver_Block m) @ varint_field 0x10 (cver_App m)"

definition BlockID_marshal :: "BlockID \<Rightarrow> bytes" where
  "BlockID_marshal m = bytes_field 0x0a (bid_Hash m) @ 0x12 # len_prefixed (PartSetHeader_marshal (bid_PartSetHeader m))"

definition header_fields :: "Header \<Rightarrow> bytes \<Rightarrow> bytes list" where
  "header_fields h pbt =
     [Consensus_marshal (h_Version h), cdcEncode_bytes (h_ChainID h), cdcEncode_int64 (h_Height h), pbt,
      BlockID_marshal (h_LastBlockID h), cdcEncode_bytes (raw (h_LastCommitHash h)), cdcEncode_bytes (raw (h_DataHash h)),
      cdcEncode_bytes (h_ValidatorsHash h), cdcEncode_bytes (h_NextValidatorsHash h), cdcEncode_bytes (h_ConsensusHash h),
      cdcEncode_bytes (h_AppHash h), cdcEncode_bytes (h_ResultsHash h), cdcEncode_bytes (raw (h_EvidenceHash h)),
      cdcEncode_bytes (h_ProposerAddress h)]"

definition Header_Hash :: "crypto \<Rightarrow> (bytes \<Rightarrow> bytes) \<Rightarrow> Header \<Rightarrow> bytes" where
  "Header_Hash cr H h =
     (if h_ValidatorsHash h = [] then []
      else case cr_TimeBytes cr (h_Time h) of
        None \<Rightarrow> []
      | Some pbt \<Rightarrow> HashFromByteSlices H (header_fields h pbt))"

text \<open>The message has the fields of the header, a nil slice and an empty one are the same in it.\<close>

definition HeaderFromProto :: "Header option \<Rightarrow> (block_error, Header) result" where
  "HeaderFromProto ph =
     (case ph of
        None \<Rightarrow> Inl (Err ErrMissingHeader)
      | Some h \<Rightarrow>
          and_then (lift_fault ErrWrongLastBlockID (BlockIDFromProto (Some (h_LastBlockID h)))) (\<lambda>bi.
          let h = h\<lparr>h_LastBlockID := bi\<rparr> in and_then (Header_ValidateBasic h) (\<lambda>_. Inr h)))"

section \<open>Signed headers\<close>

record SignedHeader =
  sh_Header :: "Header option"
  sh_Commit :: "Commit option"

definition SignedHeader_ValidateBasic :: "crypto \<Rightarrow> (bytes \<Rightarrow> bytes) \<Rightarrow> bytes \<Rightarrow> SignedHeader \<Rightarrow> (block_error, unit) result" where
  "SignedHeader_ValidateBasic cr H chainID sh =
     (case sh_Header sh of
        None \<Rightarrow> Inl (Err ErrMissingHeader)
      | Some h \<Rightarrow>
          (case sh_Commit sh of
             None \<Rightarrow> Inl (Err ErrMissingCommit)
           | Some c \<Rightarrow>
               and_then (Header_ValidateBasic h) (\<lambda>_.
               and_then (lift_fault ErrWrongCommit (Commit_ValidateBasic c)) (\<lambda>_.
                 if h_ChainID h \<noteq> chainID then Inl (Err ErrOtherChain)
                 else if c_Height c \<noteq> h_Height h then Inl (Err ErrCommitHeight)
                 else if Header_Hash cr H h \<noteq> bid_Hash (c_BlockID c) then Inl (Err ErrCommitForOtherBlock)
                 else Inr ()))))"

definition SignedHeaderFromProto :: "(Header option \<times> tmproto_Commit option) option \<Rightarrow> (block_error, SignedHeader) result" where
  "SignedHeaderFromProto shp =
     (case shp of
        None \<Rightarrow> Inl (Err ErrMissingHeader)
      | Some (ph, pc) \<Rightarrow>
          and_then (case ph of None \<Rightarrow> Inr None | Some h \<Rightarrow> and_then (HeaderFromProto (Some h)) (\<lambda>h. Inr (Some h))) (\<lambda>h.
          and_then (case pc of None \<Rightarrow> Inr None
            | Some c \<Rightarrow> and_then (lift_fault ErrWrongCommit (CommitFromProto (Some c))) (\<lambda>c. Inr (Some c))) (\<lambda>c.
          Inr \<lparr>sh_Header = h, sh_Commit = c\<rparr>)))"

section \<open>Transactions\<close>

type_synonym Tx = bytes

definition Txs_Hash :: "(bytes \<Rightarrow> bytes) \<Rightarrow> Tx list \<Rightarrow> bytes" where
  "Txs_Hash H txs = HashFromByteSlices H (map H txs)"

fun index_where :: "('a \<Rightarrow> bool) \<Rightarrow> int \<Rightarrow> 'a list \<Rightarrow> int" where
  "index_where p i [] = -1"
| "index_where p i (x # xs) = (if p x then i else index_where p (i + 1) xs)"

definition Txs_Index :: "Tx \<Rightarrow> Tx list \<Rightarrow> int" where
  "Txs_Index tx txs = index_where (\<lambda>t. t = tx) 0 txs"

definition Txs_IndexByHash :: "(bytes \<Rightarrow> bytes) \<Rightarrow> bytes \<Rightarrow> Tx list \<Rightarrow> int" where
  "Txs_IndexByHash H hash txs = index_where (\<lambda>t. H t = hash) 0 txs"

record TxProof =
  tp_RootHash :: bytes
  tp_Data :: Tx
  tp_Proof :: Proof

definition Txs_Proof :: "(bytes \<Rightarrow> bytes) \<Rightarrow> Tx list \<Rightarrow> int \<Rightarrow> (merkle_error, TxProof) result" where
  "Txs_Proof H txs i =
     and_then (ProofsFromByteSlices H (map H txs)) (\<lambda>(root, proofs).
       if i < 0 \<or> i \<ge> int (length txs) then Inl (Panic ''index out of range'')
       else Inr \<lparr>tp_RootHash = root, tp_Data = txs ! nat i, tp_Proof = proofs ! nat i\<rparr>)"

definition TxProof_Validate :: "(bytes \<Rightarrow> bytes) \<Rightarrow> bytes \<Rightarrow> TxProof \<Rightarrow> (block_error, unit) result" where
  "TxProof_Validate H dataHash tp =
     (if dataHash \<noteq> tp_RootHash tp then Inl (Err ErrDifferentDataHash)
      else if pf_Index (tp_Proof tp) < 0 then Inl (Err ErrNegativeProofIndex)
      else if pf_Total (tp_Proof tp) \<le> 0 then Inl (Err ErrProofTotal)
      else case Proof_Verify H (tp_Proof tp) (tp_RootHash tp) (H (tp_Data tp)) of
        Inl (Panic s) \<Rightarrow> Inl (Panic s)
      | Inl (Err e) \<Rightarrow> Inl (Err ErrInconsistentProof)
      | Inr _ \<Rightarrow> Inr ())"

record Data =
  d_Txs :: "Tx list"
  d_hash :: "bytes option"

text \<open>The root of no items is nil, so it is not remembered.\<close>

definition Data_Hash :: "(bytes \<Rightarrow> bytes) \<Rightarrow> Data \<Rightarrow> bytes option \<times> Data" where
  "Data_Hash H data =
     (let h = (case d_hash data of
                 None \<Rightarrow> (if d_Txs data = [] then None else Some (Txs_Hash H (d_Txs data)))
               | Some h \<Rightarrow> Some h)
      in (h, data\<lparr>d_hash := h\<rparr>))"

text \<open>The message of the transactions carries the memoised hash, and the decoder takes it over.\<close>

record tmproto_Data =
  pd_Txs :: "bytes list"
  pd_Hash :: "bytes option"

definition Data_ToProto :: "Data \<Rightarrow> tmproto_Data" where
  "Data_ToProto data = \<lparr>pd_Txs = d_Txs data, pd_Hash = d_hash data\<rparr>"

definition DataFromProto :: "tmproto_Data option \<Rightarrow> (block_error, Data) result" where
  "DataFromProto dp =
     (case dp of
        None \<Rightarrow> Inl (Err ErrNilData)
      | Some p \<Rightarrow> Inr \<lparr>d_Txs = pd_Txs p, d_hash = pd_Hash p\<rparr>)"

section \<open>The hash of a validator set\<close>

text \<open>Keys are ed25519 keys, the only ones \<^verbatim>\<open>PubKeyToProto\<close> encodes; a nil key makes it fail.\<close>

definition PublicKey_marshal :: "bytes \<Rightarrow> bytes" where
  "PublicKey_marshal pk = 0x0a # len_prefixed pk"

definition Validator_Bytes :: "Validator \<Rightarrow> (vs_error, bytes) result" where
  "Validator_Bytes v =
     (case val_PubKey v of
        None \<Rightarrow> Inl (Panic ''toproto: key type is not supported'')
      | Some pk \<Rightarrow> Inr (0x0a # len_prefixed (PublicKey_marshal pk) @ varint_field 0x10 (uint64_of (val_VotingPower v))))"

fun validators_bytes :: "Validator list \<Rightarrow> (vs_error, bytes list) result" where
  "validators_bytes [] = Inr []"
| "validators_bytes (v # vs) = and_then (Validator_Bytes v) (\<lambda>b. and_then (validators_bytes vs) (\<lambda>bs. Inr (b # bs)))"

definition ValidatorSet_Hash :: "(bytes \<Rightarrow> bytes) \<Rightarrow> ValidatorSet \<Rightarrow> (vs_error, bytes) result" where
  "ValidatorSet_Hash H vals = and_then (validators_bytes (vs_Validators vals)) (\<lambda>bzs. Inr (HashFromByteSlices H bzs))"

section \<open>A header hash binds the header\<close>

lemma cdcEncode_bytes_inject:
  assumes "cdcEncode_bytes a = cdcEncode_bytes b"
  shows "a = b"
proof -
  have "cdcEncode_bytes c = bytes_field 0x0a c" for c by (simp add: cdcEncode_bytes_def bytes_field_def)
  then have "bytes_field 0x0a a @ [] = bytes_field 0x0a b @ []" using assms by simp
  from bytes_field_read [OF this] show ?thesis by (simp add: starts_with_append)
qed

lemma cdcEncode_int64_inject:
  assumes "int64_range x" "int64_range y" "cdcEncode_int64 x = cdcEncode_int64 y"
  shows "x = y"
proof -
  have "varint_field 0x08 (uint64_of x) @ [] = varint_field 0x08 (uint64_of y) @ []" using assms(3) by (simp add: cdcEncode_int64_def)
  from varint_field_read [OF this] show ?thesis using uint64_of_inject [OF assms(1,2)] by (simp add: starts_with_append)
qed

lemma Consensus_marshal_inject: "Consensus_marshal a = Consensus_marshal b \<Longrightarrow> a = b"
proof -
  assume eq: "Consensus_marshal a = Consensus_marshal b"
  have st: "\<not> starts_with 0x08 (varint_field 0x10 v)" for v
    using starts_with_append(3) [of "0x08" "[]" "0x10" v] by (simp add: starts_with_append)
  from varint_field_read [OF eq [unfolded Consensus_marshal_def] st st]
  have "cver_Block a = cver_Block b" "varint_field 0x10 (cver_App a) @ [] = varint_field 0x10 (cver_App b) @ []" by simp_all
  with varint_field_read [OF this(2)] show "a = b" by (cases a, cases b) (simp add: starts_with_append)
qed

lemma BlockID_marshal_inject: "BlockID_marshal a = BlockID_marshal b \<Longrightarrow> a = b"
proof -
  assume eq: "BlockID_marshal a = BlockID_marshal b"
  have st: "\<not> starts_with 0x0a (0x12 # r)" for r by (simp add: starts_with_append)
  from bytes_field_read [OF eq [unfolded BlockID_marshal_def] st st]
  have "bid_Hash a = bid_Hash b"
    "len_prefixed (PartSetHeader_marshal (bid_PartSetHeader a)) @ [] = len_prefixed (PartSetHeader_marshal (bid_PartSetHeader b)) @ []"
    by simp_all
  then show "a = b" using delimited.delimited PartSetHeader_marshal_inject by (intro BlockID_eqI) blast+
qed

text \<open>A header up to the difference between nil and empty slices.\<close>

definition plain_header :: "Header \<Rightarrow> Header" where
  "plain_header h = h\<lparr>h_LastCommitHash := Some (raw (h_LastCommitHash h)), h_DataHash := Some (raw (h_DataHash h)),
     h_EvidenceHash := Some (raw (h_EvidenceHash h))\<rparr>"

lemma header_fields_inject:
  assumes "header_fields h p = header_fields k q" "int64_range (h_Height h)" "int64_range (h_Height k)" "p = q \<Longrightarrow> h_Time h = h_Time k"
  shows "plain_header h = plain_header k"
proof -
  have "h_Height h = h_Height k"
    using assms(1-3) by (intro cdcEncode_int64_inject) (simp_all add: header_fields_def)
  moreover have "h_Time h = h_Time k" using assms(1,4) by (simp add: header_fields_def)
  moreover have "h_Version h = h_Version k" "h_LastBlockID h = h_LastBlockID k"
    using assms(1) by (auto simp: header_fields_def intro: Consensus_marshal_inject BlockID_marshal_inject)
  moreover have "h_ChainID h = h_ChainID k" "raw (h_LastCommitHash h) = raw (h_LastCommitHash k)" "raw (h_DataHash h) = raw (h_DataHash k)"
      "h_ValidatorsHash h = h_ValidatorsHash k" "h_NextValidatorsHash h = h_NextValidatorsHash k" "h_ConsensusHash h = h_ConsensusHash k"
      "h_AppHash h = h_AppHash k" "h_ResultsHash h = h_ResultsHash k" "raw (h_EvidenceHash h) = raw (h_EvidenceHash k)"
      "h_ProposerAddress h = h_ProposerAddress k"
    using assms(1) by (simp_all add: header_fields_def cdcEncode_bytes_inject)
  ultimately show ?thesis by (simp add: plain_header_def)
qed

text \<open>The strings that are hashed for a header.\<close>

definition header_inputs :: "crypto \<Rightarrow> (bytes \<Rightarrow> bytes) \<Rightarrow> Header \<Rightarrow> bytes list" where
  "header_inputs cr H h = (case cr_TimeBytes cr (h_Time h) of None \<Rightarrow> [] | Some pbt \<Rightarrow> tree_inputs H (header_fields h pbt))"

lemma Header_Hash_inject:
  assumes "\<forall>x. length (H x) = tmhash_Size" "time_encoding (cr_TimeBytes cr)" "int64_range (h_Height h)" "int64_range (h_Height k)"
    and "Header_Hash cr H h = Header_Hash cr H k" "Header_Hash cr H h \<noteq> []"
    and "inj_on H (set (header_inputs cr H h) \<union> set (header_inputs cr H k))"
  shows "plain_header h = plain_header k"
proof -
  obtain p q where pq: "cr_TimeBytes cr (h_Time h) = Some p" "cr_TimeBytes cr (h_Time k) = Some q"
    and eq: "HashFromByteSlices H (header_fields h p) = HashFromByteSlices H (header_fields k q)"
    using assms(5,6) by (auto simp: Header_Hash_def split: if_splits option.splits)
  have "header_fields h p = header_fields k q"
    using HashFromByteSlices_inject [OF _ eq] assms(1,7) pq by (simp add: header_inputs_def)
  moreover have "p = q \<Longrightarrow> h_Time h = h_Time k" using assms(2) pq unfolding time_encoding_def by blast
  ultimately show ?thesis by (rule header_fields_inject [OF _ assms(3,4)])
qed

text \<open>
  C28: The hash of a header binds the header: two headers with the same hash agree in every field, where a nil and an
  empty slice count as equal, or two different strings that were hashed for them have the same hash.
\<close>

theorem Header_Hash_binds:
  assumes "\<forall>x. length (H x) = tmhash_Size" "time_encoding (cr_TimeBytes cr)" "int64_range (h_Height h)" "int64_range (h_Height k)"
    and "Header_Hash cr H h = Header_Hash cr H k" "Header_Hash cr H h \<noteq> []"
  shows "plain_header h = plain_header k \<or>
    (\<exists>x \<in> set (header_inputs cr H h) \<union> set (header_inputs cr H k). \<exists>y \<in> set (header_inputs cr H h) \<union> set (header_inputs cr H k).
       x \<noteq> y \<and> H x = H y)"
  using Header_Hash_inject [OF assms] unfolding inj_on_def by blast

definition demo_header :: "bytes option \<Rightarrow> Header" where
  "demo_header data = \<lparr>h_Version = \<lparr>cver_Block = 11, cver_App = 1\<rparr>, h_ChainID = [116], h_Height = 3, h_Time = 5, h_LastBlockID = nil_BlockID,
     h_LastCommitHash = None, h_DataHash = data, h_ValidatorsHash = [7], h_NextValidatorsHash = [8], h_ConsensusHash = [], h_AppHash = [9],
     h_ResultsHash = [], h_EvidenceHash = None, h_ProposerAddress = [1]\<rparr>"

lemma demo_hash_size: "\<forall>x. length (demo_hash x) = tmhash_Size"
  by (auto simp: demo_hash_def tmhash_Size_def min_def)

lemma demo_header_hash: "Header_Hash demo_crypto demo_hash (demo_header d) \<noteq> []"
proof -
  have "HashFromByteSlices demo_hash (header_fields (demo_header d) p) \<noteq> []" for p
  proof -
    have "header_fields (demo_header d) p \<noteq> []" by (simp add: header_fields_def)
    then have "length (HashFromByteSlices demo_hash (header_fields (demo_header d) p)) = tmhash_Size"
      using hash_lengths(1) [of demo_hash] demo_hash_size by blast
    then show ?thesis by (auto simp: tmhash_Size_def)
  qed
  moreover have "cr_TimeBytes demo_crypto 5 = Some (PutUint64 5)"
    by (simp add: demo_crypto_def demo_time_def int64_range_iff int_limits)
  moreover have "h_Time (demo_header d) = 5" "h_ValidatorsHash (demo_header d) = [7]" by (simp_all add: demo_header_def)
  ultimately show ?thesis by (simp add: Header_Hash_def)
qed

theorem Header_Hash_binds_witness:
  "Header_Hash demo_crypto demo_hash (demo_header None) = Header_Hash demo_crypto demo_hash (demo_header (Some [])) \<and>
   demo_header None \<noteq> demo_header (Some []) \<and>
   (plain_header (demo_header None) = plain_header (demo_header (Some [])) \<or>
    (\<exists>x y. x \<noteq> y \<and> demo_hash x = demo_hash y))"
proof -
  have eq: "Header_Hash demo_crypto demo_hash (demo_header None) = Header_Hash demo_crypto demo_hash (demo_header (Some []))"
  proof -
    have "header_fields (demo_header None) p = header_fields (demo_header (Some [])) p" for p
      by (simp add: header_fields_def demo_header_def)
    moreover have "h_Time (demo_header d) = 5" "h_ValidatorsHash (demo_header d) = [7]" for d by (simp_all add: demo_header_def)
    ultimately show ?thesis by (simp add: Header_Hash_def split: option.split)
  qed
  have r: "int64_range (h_Height (demo_header d))" for d by (simp add: demo_header_def int64_range_iff int_limits)
  have "time_encoding (cr_TimeBytes demo_crypto)" using demo_time_encoding by (simp add: demo_crypto_def)
  from Header_Hash_binds [OF demo_hash_size this r r eq demo_header_hash] eq show ?thesis
    by (auto simp: demo_header_def)
qed

end
