(* ===== verification/Evidence.thy ===== *)
theory Evidence
  imports Headers Vote_Set Priv_Validator
begin

text \<open>
  \<^verbatim>\<open>types/evidence.go\<close>: the six kinds of evidence of misbehaviour, their validation, verification,
  comparison and decoding, proofs of lock change, and the splitting of two conflicting headers into
  evidence against single validators. Votes inside evidence are pointers, \<open>None\<close> is nil, and reading
  a field of nil panics. The protobuf encoding of evidence, of votes and of votes with a height stamp, which
  generated code computes, is the argument \<open>enc\<close>; \<open>H\<close> is the hash function.
\<close>

section \<open>The kinds of evidence\<close>

record DuplicateVoteEvidence =
  dve_VoteA :: "Vote option"
  dve_VoteB :: "Vote option"

record ConflictingHeadersEvidence =
  che_H1 :: "SignedHeader option"
  che_H2 :: "SignedHeader option"

record PhantomValidatorEvidence =
  pve_Vote :: "Vote option"
  pve_LastHeightValidatorWasInSet :: int64

record LunaticValidatorEvidence =
  lve_Header :: "Header option"
  lve_Vote :: "Vote option"
  lve_InvalidHeaderField :: string

record PotentialAmnesiaEvidence =
  pae_VoteA :: "Vote option"
  pae_VoteB :: "Vote option"
  pae_HeightStamp :: int64

text \<open>The votes of a proof are \<open>None\<close> for a nil slice.\<close>

record ProofOfLockChange =
  polc_Votes :: "Vote option list option"
  polc_PubKey :: "bytes option"

record AmnesiaEvidence =
  ae_PotentialAmnesiaEvidence :: "PotentialAmnesiaEvidence option"
  ae_Polc :: "ProofOfLockChange option"

datatype Evidence =
    DuplicateVote DuplicateVoteEvidence
  | ConflictingHeaders ConflictingHeadersEvidence
  | PhantomValidator PhantomValidatorEvidence
  | LunaticValidator LunaticValidatorEvidence
  | PotentialAmnesia PotentialAmnesiaEvidence
  | Amnesia AmnesiaEvidence

datatype evidence_error =
    ErrNilEvidence
  | ErrEvidenceNotRecognized
  | ErrEmptyVotes
  | ErrInvalidVoteA basic_error
  | ErrInvalidVoteB basic_error
  | ErrInvalidVote nat basic_error
  | ErrVotesOrder
  | ErrStepMismatch
  | ErrAddressMismatch
  | ErrIndexMismatch
  | ErrSameBlockID
  | ErrPubKeyMismatch
  | ErrPubKeySize
  | ErrKeyType
  | ErrEvidenceSignature
  | ErrMissingHeaderH1
  | ErrMissingHeaderH2
  | ErrEvidenceHeader block_error
  | ErrNotCommitted
  | ErrAltChain
  | ErrAltHeight
  | ErrTooManySignatures
  | ErrAltPower commit_error
  | ErrExpectedBlockVote
  | ErrLastHeight
  | ErrHeightMismatch
  | ErrUnknownField
  | ErrNotForHeader
  | ErrFieldMatches
  | ErrTimeOrder
  | ErrEmptyPOLC
  | ErrMissingPubKey
  | ErrMissingVotes
  | ErrFirstRoundPOLC
  | ErrNilVote nat
  | ErrPOLCVoteHeight nat
  | ErrPOLCVoteRound nat
  | ErrPOLCVoteType nat
  | ErrPOLCVoteBlock
  | ErrOwnVote
  | ErrDuplicateVotes
  | ErrNotInSet
  | ErrPOLCPower
  | ErrPOLCPowerOverflow
  | ErrAmnesiaMissing
  | ErrPOLCRound
  | ErrPOLCBlock
  | ErrPOLCTime

definition deref :: "'a option \<Rightarrow> (evidence_error, 'a) result" where
  "deref p = (case p of None \<Rightarrow> Inl (Panic ''nil pointer dereference'') | Some x \<Rightarrow> Inr x)"

definition maxTime :: "timestamp \<Rightarrow> timestamp \<Rightarrow> timestamp" where
  "maxTime t1 t2 = (if t1 > t2 then t1 else t2)"

text \<open>A signature check: encoding a vote that is not canonical panics.\<close>

definition verify_vote :: "crypto \<Rightarrow> bytes \<Rightarrow> bytes \<Rightarrow> Vote \<Rightarrow> (evidence_error, bool) result" where
  "verify_vote cr chainID pubKey vote =
     and_then (lift_fault (\<lambda>_. ErrEvidenceSignature) (VoteSignBytes cr chainID vote)) (\<lambda>bz.
       Inr (cr_VerifyBytes cr pubKey bz (v_Signature vote)))"

section \<open>Duplicate votes\<close>

definition NewDuplicateVoteEvidence :: "Vote option \<Rightarrow> Vote option \<Rightarrow> DuplicateVoteEvidence option" where
  "NewDuplicateVoteEvidence vote1 vote2 =
     (case (vote1, vote2) of
        (Some v1, Some v2) \<Rightarrow>
          if BlockID_Key (v_BlockID v1) < BlockID_Key (v_BlockID v2) then Some \<lparr>dve_VoteA = vote1, dve_VoteB = vote2\<rparr>
          else Some \<lparr>dve_VoteA = vote2, dve_VoteB = vote1\<rparr>
      | _ \<Rightarrow> None)"

definition DuplicateVoteEvidence_Height :: "DuplicateVoteEvidence \<Rightarrow> (evidence_error, int64) result" where
  "DuplicateVoteEvidence_Height dve = and_then (deref (dve_VoteA dve)) (\<lambda>a. Inr (v_Height a))"

definition DuplicateVoteEvidence_Time :: "DuplicateVoteEvidence \<Rightarrow> (evidence_error, timestamp) result" where
  "DuplicateVoteEvidence_Time dve =
     and_then (deref (dve_VoteA dve)) (\<lambda>a. and_then (deref (dve_VoteB dve)) (\<lambda>b. Inr (maxTime (v_Timestamp a) (v_Timestamp b))))"

definition DuplicateVoteEvidence_Address :: "DuplicateVoteEvidence \<Rightarrow> (evidence_error, bytes) result" where
  "DuplicateVoteEvidence_Address dve = and_then (deref (dve_VoteA dve)) (\<lambda>a. Inr (v_ValidatorAddress a))"

definition DuplicateVoteEvidence_Verify :: "crypto \<Rightarrow> bytes \<Rightarrow> bytes \<Rightarrow> DuplicateVoteEvidence \<Rightarrow> (evidence_error, unit) result" where
  "DuplicateVoteEvidence_Verify cr chainID pubKey dve =
     and_then (deref (dve_VoteA dve)) (\<lambda>a.
     and_then (deref (dve_VoteB dve)) (\<lambda>b.
       if v_Height a \<noteq> v_Height b \<or> v_Round a \<noteq> v_Round b \<or> v_Type a \<noteq> v_Type b then Inl (Err ErrStepMismatch)
       else if v_ValidatorAddress a \<noteq> v_ValidatorAddress b then Inl (Err ErrAddressMismatch)
       else if v_ValidatorIndex a \<noteq> v_ValidatorIndex b then Inl (Err ErrIndexMismatch)
       else if BlockID_Equals (v_BlockID a) (v_BlockID b) then Inl (Err ErrSameBlockID)
       else if cr_Address cr pubKey \<noteq> v_ValidatorAddress a then Inl (Err ErrPubKeyMismatch)
       else and_then (verify_vote cr chainID pubKey a) (\<lambda>ok.
         if \<not> ok then Inl (Err ErrEvidenceSignature)
         else and_then (verify_vote cr chainID pubKey b) (\<lambda>ok.
           if \<not> ok then Inl (Err ErrEvidenceSignature) else Inr ()))))"

definition DuplicateVoteEvidence_ValidateBasic :: "DuplicateVoteEvidence \<Rightarrow> (evidence_error, unit) result" where
  "DuplicateVoteEvidence_ValidateBasic dve =
     (case (dve_VoteA dve, dve_VoteB dve) of
        (Some a, Some b) \<Rightarrow>
          and_then (lift_fault ErrInvalidVoteA (Vote_ValidateBasic a)) (\<lambda>_.
          and_then (lift_fault ErrInvalidVoteB (Vote_ValidateBasic b)) (\<lambda>_.
            if BlockID_Key (v_BlockID b) \<le> BlockID_Key (v_BlockID a) then Inl (Err ErrVotesOrder) else Inr ()))
      | _ \<Rightarrow> Inl (Err ErrEmptyVotes))"

definition DuplicateVoteEvidenceFromProto :: "DuplicateVoteEvidence option \<Rightarrow> (evidence_error, DuplicateVoteEvidence) result" where
  "DuplicateVoteEvidenceFromProto pb =
     (case pb of
        None \<Rightarrow> Inl (Err ErrNilEvidence)
      | Some p \<Rightarrow>
          and_then (lift_fault ErrInvalidVoteA (VoteFromProto (dve_VoteA p))) (\<lambda>a.
          and_then (lift_fault ErrInvalidVoteB (VoteFromProto (dve_VoteB p))) (\<lambda>b.
          let dve = \<lparr>dve_VoteA = Some a, dve_VoteB = Some b\<rparr>
          in and_then (DuplicateVoteEvidence_ValidateBasic dve) (\<lambda>_. Inr dve))))"

section \<open>Amnesia\<close>

definition NewPotentialAmnesiaEvidence :: "Vote option \<Rightarrow> Vote option \<Rightarrow> PotentialAmnesiaEvidence option" where
  "NewPotentialAmnesiaEvidence voteA voteB =
     (case (voteA, voteB) of
        (Some a, Some b) \<Rightarrow>
          if v_Timestamp a < v_Timestamp b then Some \<lparr>pae_VoteA = voteA, pae_VoteB = voteB, pae_HeightStamp = 0\<rparr>
          else Some \<lparr>pae_VoteA = voteB, pae_VoteB = voteA, pae_HeightStamp = 0\<rparr>
      | _ \<Rightarrow> None)"

definition PotentialAmnesiaEvidence_Height :: "PotentialAmnesiaEvidence \<Rightarrow> (evidence_error, int64) result" where
  "PotentialAmnesiaEvidence_Height e = and_then (deref (pae_VoteA e)) (\<lambda>a. Inr (v_Height a))"

definition PotentialAmnesiaEvidence_Time :: "PotentialAmnesiaEvidence \<Rightarrow> (evidence_error, timestamp) result" where
  "PotentialAmnesiaEvidence_Time e = and_then (deref (pae_VoteB e)) (\<lambda>b. Inr (v_Timestamp b))"

definition PotentialAmnesiaEvidence_Address :: "PotentialAmnesiaEvidence \<Rightarrow> (evidence_error, bytes) result" where
  "PotentialAmnesiaEvidence_Address e = and_then (deref (pae_VoteA e)) (\<lambda>a. Inr (v_ValidatorAddress a))"

definition PotentialAmnesiaEvidence_Verify :: "crypto \<Rightarrow> bytes \<Rightarrow> bytes \<Rightarrow> PotentialAmnesiaEvidence \<Rightarrow> (evidence_error, unit) result" where
  "PotentialAmnesiaEvidence_Verify cr chainID pubKey e =
     and_then (deref (pae_VoteA e)) (\<lambda>a.
       if cr_Address cr pubKey \<noteq> v_ValidatorAddress a then Inl (Err ErrPubKeyMismatch)
       else and_then (deref (pae_VoteB e)) (\<lambda>b.
         and_then (verify_vote cr chainID pubKey a) (\<lambda>ok.
         if \<not> ok then Inl (Err ErrEvidenceSignature)
         else and_then (verify_vote cr chainID pubKey b) (\<lambda>ok.
           if \<not> ok then Inl (Err ErrEvidenceSignature) else Inr ()))))"

definition PotentialAmnesiaEvidence_Equal :: "PotentialAmnesiaEvidence \<Rightarrow> PotentialAmnesiaEvidence \<Rightarrow> (evidence_error, bool) result" where
  "PotentialAmnesiaEvidence_Equal e e2 =
     and_then (deref (pae_VoteA e)) (\<lambda>a. and_then (deref (pae_VoteA e2)) (\<lambda>a2.
     if v_Height a \<noteq> v_Height a2 \<or> v_Round a \<noteq> v_Round a2 then Inr False
     else and_then (deref (pae_VoteB e)) (\<lambda>b. and_then (deref (pae_VoteB e2)) (\<lambda>b2.
       Inr (v_Round b = v_Round b2 \<and> v_ValidatorAddress a = v_ValidatorAddress a2)))))"

definition PotentialAmnesiaEvidence_ValidateBasic :: "PotentialAmnesiaEvidence \<Rightarrow> (evidence_error, unit) result" where
  "PotentialAmnesiaEvidence_ValidateBasic e =
     (case (pae_VoteA e, pae_VoteB e) of
        (Some a, Some b) \<Rightarrow>
          and_then (lift_fault ErrInvalidVoteA (Vote_ValidateBasic a)) (\<lambda>_.
          and_then (lift_fault ErrInvalidVoteB (Vote_ValidateBasic b)) (\<lambda>_.
            if v_Height a \<noteq> v_Height b \<or> v_Type a \<noteq> v_Type b then Inl (Err ErrStepMismatch)
            else if v_Timestamp a > v_Timestamp b then Inl (Err ErrTimeOrder)
            else if v_ValidatorAddress a \<noteq> v_ValidatorAddress b then Inl (Err ErrAddressMismatch)
            else if v_ValidatorIndex a \<noteq> v_ValidatorIndex b then Inl (Err ErrIndexMismatch)
            else if BlockID_Equals (v_BlockID a) (v_BlockID b) then Inl (Err ErrSameBlockID)
            else Inr ()))
      | _ \<Rightarrow> Inl (Err ErrEmptyVotes))"

definition Primed :: "int64 \<Rightarrow> int64 \<Rightarrow> PotentialAmnesiaEvidence \<Rightarrow> (evidence_error, bool) result" where
  "Primed trialPeriod currentHeight e =
     and_then (deref (pae_VoteA e)) (\<lambda>a. and_then (deref (pae_VoteB e)) (\<lambda>b.
       if v_Round a > v_Round b then Inr True
       else if pae_HeightStamp e > 0 then Inr (wrap64 (pae_HeightStamp e + trialPeriod) \<le> currentHeight)
       else Inr False))"

definition PotentialAmnesiaEvidenceFromProto :: "PotentialAmnesiaEvidence option \<Rightarrow> (evidence_error, PotentialAmnesiaEvidence) result" where
  "PotentialAmnesiaEvidenceFromProto pb =
     (let field = (\<lambda>f. case pb of None \<Rightarrow> None | Some p \<Rightarrow> f p) in
     and_then (lift_fault ErrInvalidVoteA (VoteFromProto (field pae_VoteA))) (\<lambda>a.
     and_then (lift_fault ErrInvalidVoteB (VoteFromProto (field pae_VoteB))) (\<lambda>b.
     let e = \<lparr>pae_VoteA = Some a, pae_VoteB = Some b, pae_HeightStamp = (case pb of None \<Rightarrow> 0 | Some p \<Rightarrow> pae_HeightStamp p)\<rparr>
     in and_then (PotentialAmnesiaEvidence_ValidateBasic e) (\<lambda>_. Inr e))))"

subsection \<open>Proofs of lock change\<close>

definition NewPOLC :: "Vote option list option \<Rightarrow> bytes option \<Rightarrow> ProofOfLockChange" where
  "NewPOLC votes pubKey = \<lparr>polc_Votes = votes, polc_PubKey = pubKey\<rparr>"

definition NewEmptyPOLC :: ProofOfLockChange where
  "NewEmptyPOLC = \<lparr>polc_Votes = None, polc_PubKey = None\<rparr>"

definition POLC_IsAbsent :: "ProofOfLockChange \<Rightarrow> bool" where
  "POLC_IsAbsent e \<longleftrightarrow> polc_Votes e = None \<and> polc_PubKey e = None"

definition first_vote :: "ProofOfLockChange \<Rightarrow> (evidence_error, Vote) result" where
  "first_vote e =
     (case polc_Votes e of
        Some (v # _) \<Rightarrow> deref v
      | _ \<Rightarrow> Inl (Panic ''index out of range''))"

definition POLC_Height :: "ProofOfLockChange \<Rightarrow> (evidence_error, int64) result" where
  "POLC_Height e = and_then (first_vote e) (\<lambda>v. Inr (v_Height v))"

definition POLC_Round :: "ProofOfLockChange \<Rightarrow> (evidence_error, int32) result" where
  "POLC_Round e = and_then (first_vote e) (\<lambda>v. Inr (v_Round v))"

definition POLC_BlockID :: "ProofOfLockChange \<Rightarrow> (evidence_error, BlockID) result" where
  "POLC_BlockID e = and_then (first_vote e) (\<lambda>v. Inr (v_BlockID v))"

fun latest_time :: "timestamp \<Rightarrow> Vote option list \<Rightarrow> (evidence_error, timestamp) result" where
  "latest_time latest [] = Inr latest"
| "latest_time latest (v # vs) =
     and_then (deref v) (\<lambda>v. latest_time (if v_Timestamp v > latest then v_Timestamp v else latest) vs)"

definition POLC_Time :: "ProofOfLockChange \<Rightarrow> (evidence_error, timestamp) result" where
  "POLC_Time e = and_then (first_vote e) (\<lambda>v. latest_time (v_Timestamp v) (case polc_Votes e of None \<Rightarrow> [] | Some vs \<Rightarrow> vs))"

definition POLC_Address :: "crypto \<Rightarrow> ProofOfLockChange \<Rightarrow> (evidence_error, bytes) result" where
  "POLC_Address cr e = and_then (deref (polc_PubKey e)) (\<lambda>pk. Inr (cr_Address cr pk))"

text \<open>\<^verbatim>\<open>Equal\<close> compares the address, the height and the round, in this order.\<close>

definition POLC_Equal :: "crypto \<Rightarrow> ProofOfLockChange \<Rightarrow> ProofOfLockChange \<Rightarrow> (evidence_error, bool) result" where
  "POLC_Equal cr e e2 =
     and_then (POLC_Address cr e) (\<lambda>x. and_then (POLC_Address cr e2) (\<lambda>x2. if x \<noteq> x2 then Inr False
     else and_then (POLC_Height e) (\<lambda>h. and_then (POLC_Height e2) (\<lambda>h2. if h \<noteq> h2 then Inr False
     else and_then (POLC_Round e) (\<lambda>r. and_then (POLC_Round e2) (\<lambda>r2. Inr (r = r2)))))))"

fun votes_for :: "BlockID \<Rightarrow> VoteSet \<Rightarrow> nat list \<Rightarrow> (vote_error, Vote option list) result" where
  "votes_for blockID voteSet [] = Inr []"
| "votes_for blockID voteSet (valIdx # rest) =
     and_then (VoteSet_GetByIndex (Some voteSet) (int valIdx)) (\<lambda>vote.
     and_then (votes_for blockID voteSet rest) (\<lambda>votes.
       case vote of
         Some v \<Rightarrow> if BlockID_Equals (v_BlockID v) blockID then Inr (Some v # votes) else Inr votes
       | None \<Rightarrow> Inr votes))"

text \<open>Appending to a nil slice: no vote leaves it nil.\<close>

definition newPOLCFromVoteSet :: "VoteSet option \<Rightarrow> bytes option \<Rightarrow> BlockID \<Rightarrow> (vote_error, ProofOfLockChange option) result" where
  "newPOLCFromVoteSet voteSet pubKey blockID =
     (case voteSet of
        None \<Rightarrow> Inr None
      | Some vs \<Rightarrow>
          and_then (votes_for blockID vs [0..<ValidatorSet_Size (vst_valSet vs)]) (\<lambda>votes.
            Inr (Some (NewPOLC (if votes = [] then None else Some votes) pubKey))))"

fun check_duplicates :: "Vote \<Rightarrow> Vote option list \<Rightarrow> (evidence_error, unit) result" where
  "check_duplicates vote [] = Inr ()"
| "check_duplicates vote (other # rest) =
     and_then (deref other) (\<lambda>w. if v_ValidatorAddress vote = v_ValidatorAddress w then Inl (Err ErrDuplicateVotes)
       else check_duplicates vote rest)"

fun check_polc_votes :: "crypto \<Rightarrow> bytes \<Rightarrow> Vote \<Rightarrow> nat \<Rightarrow> Vote option list \<Rightarrow> (evidence_error, unit) result" where
  "check_polc_votes cr pk first idx [] = Inr ()"
| "check_polc_votes cr pk first idx (vote # rest) =
     (case vote of
        None \<Rightarrow> Inl (Err (ErrNilVote idx))
      | Some v \<Rightarrow>
          and_then (lift_fault (ErrInvalidVote idx) (Vote_ValidateBasic v)) (\<lambda>_.
            if v_Height v \<noteq> v_Height first then Inl (Err (ErrPOLCVoteHeight idx))
            else if v_Round v \<noteq> v_Round first then Inl (Err (ErrPOLCVoteRound idx))
            else if v_Type v \<noteq> v_Type first then Inl (Err (ErrPOLCVoteType idx))
            else if \<not> BlockID_Equals (v_BlockID v) (v_BlockID first) then Inl (Err ErrPOLCVoteBlock)
            else if v_ValidatorAddress v = cr_Address cr pk then Inl (Err ErrOwnVote)
            else and_then (check_duplicates v rest) (\<lambda>_. check_polc_votes cr pk first (Suc idx) rest)))"

definition POLC_ValidateBasic :: "crypto \<Rightarrow> ProofOfLockChange option \<Rightarrow> (evidence_error, unit) result" where
  "POLC_ValidateBasic cr polc =
     (case polc of
        None \<Rightarrow> Inl (Err ErrEmptyPOLC)
      | Some e \<Rightarrow>
          if POLC_IsAbsent e then Inr ()
          else case polc_PubKey e of
            None \<Rightarrow> Inl (Err ErrMissingPubKey)
          | Some pk \<Rightarrow>
              if polc_Votes e = None \<or> polc_Votes e = Some [] then Inl (Err ErrMissingVotes)
              else and_then (first_vote e) (\<lambda>first.
                if v_Round first = 0 then Inl (Err ErrFirstRoundPOLC)
                else check_polc_votes cr pk first 0 (case polc_Votes e of None \<Rightarrow> [] | Some vs \<Rightarrow> vs)))"

definition NewPOLCFromVoteSet :: "crypto \<Rightarrow> VoteSet option \<Rightarrow> bytes option \<Rightarrow> BlockID \<Rightarrow> (evidence_error, ProofOfLockChange option) result" where
  "NewPOLCFromVoteSet cr voteSet pubKey blockID =
     and_then (lift_fault (\<lambda>_. ErrNotInSet) (newPOLCFromVoteSet voteSet pubKey blockID)) (\<lambda>polc.
     and_then (POLC_ValidateBasic cr polc) (\<lambda>_. Inr polc))"

text \<open>The votes of the proof against the validators: every validator with the address of the vote must verify it.\<close>

fun tally_vote :: "crypto \<Rightarrow> bytes \<Rightarrow> Vote \<Rightarrow> bool \<times> int64 \<Rightarrow> Validator list \<Rightarrow> (evidence_error, bool \<times> int64) result" where
  "tally_vote cr chainID vote (found, tallied) [] = Inr (found, tallied)"
| "tally_vote cr chainID vote (found, tallied) (val # rest) =
     (if val_Address val = v_ValidatorAddress vote then
        and_then (deref (val_PubKey val)) (\<lambda>pk.
        and_then (verify_vote cr chainID pk vote) (\<lambda>ok.
          if \<not> ok then Inl (Err ErrEvidenceSignature)
          else tally_vote cr chainID vote (True, wrap64 (tallied + val_VotingPower val)) rest))
      else tally_vote cr chainID vote (found, tallied) rest)"

fun tally_votes :: "crypto \<Rightarrow> bytes \<Rightarrow> Validator list \<Rightarrow> int64 \<Rightarrow> Vote option list \<Rightarrow> (evidence_error, int64) result" where
  "tally_votes cr chainID vals tallied [] = Inr tallied"
| "tally_votes cr chainID vals tallied (vote # rest) =
     and_then (deref vote) (\<lambda>v.
     and_then (tally_vote cr chainID v (False, tallied) vals) (\<lambda>(found, tallied).
       if \<not> found then Inl (Err ErrNotInSet) else tally_votes cr chainID vals tallied rest))"

definition ValidateVotes :: "crypto \<Rightarrow> ValidatorSet \<Rightarrow> bytes \<Rightarrow> ProofOfLockChange \<Rightarrow> (evidence_error, unit) result" where
  "ValidateVotes cr valSet chainID e =
     (if POLC_IsAbsent e then Inl (Err ErrEmptyPOLC)
      else and_then (lift_fault (\<lambda>_. ErrPOLCPowerOverflow) (TotalVotingPower valSet)) (\<lambda>(tvp, _).
        let votingPowerNeeded = wrap64 (tvp * 2) sdiv 3 in
        and_then (tally_votes cr chainID (vs_Validators valSet) 0 (case polc_Votes e of None \<Rightarrow> [] | Some vs \<Rightarrow> vs)) (\<lambda>tallied.
          if tallied \<le> votingPowerNeeded then Inl (Err ErrPOLCPower) else Inr ())))"

fun votes_from_proto :: "Vote option list \<Rightarrow> (evidence_error, Vote option list) result" where
  "votes_from_proto [] = Inr []"
| "votes_from_proto (v # vs) =
     and_then (lift_fault (ErrInvalidVote 0) (VoteFromProto v)) (\<lambda>x. and_then (votes_from_proto vs) (\<lambda>xs. Inr (Some x # xs)))"

text \<open>The message for a key holds \<open>None\<close> unless it is an ed25519 key.\<close>

record tmproto_ProofOfLockChange =
  pbp_Votes :: "Vote option list option"
  pbp_PubKey :: "bytes option option"

definition PubKeySize :: nat where
  "PubKeySize = 32"

definition PubKeyFromProto :: "bytes option \<Rightarrow> (evidence_error, bytes) result" where
  "PubKeyFromProto k =
     (case k of
        Some pk \<Rightarrow> if length pk \<noteq> PubKeySize then Inl (Err ErrPubKeySize) else Inr pk
      | None \<Rightarrow> Inl (Err ErrKeyType))"

definition POLC_ToProto :: "ProofOfLockChange \<Rightarrow> (evidence_error, tmproto_ProofOfLockChange) result" where
  "POLC_ToProto e =
     (if POLC_IsAbsent e then Inr \<lparr>pbp_Votes = None, pbp_PubKey = None\<rparr>
      else case polc_Votes e of
        None \<Rightarrow> Inl (Err ErrMissingVotes)
      | Some vs \<Rightarrow>
          (case polc_PubKey e of
             None \<Rightarrow> Inl (Err ErrKeyType)
           | Some pk \<Rightarrow> Inr \<lparr>pbp_Votes = Some vs, pbp_PubKey = Some (Some pk)\<rparr>))"

definition ProofOfLockChangeFromProto :: "crypto \<Rightarrow> tmproto_ProofOfLockChange option \<Rightarrow> (evidence_error, ProofOfLockChange) result" where
  "ProofOfLockChangeFromProto cr pb =
     (case pb of
        None \<Rightarrow> Inl (Err ErrEmptyPOLC)
      | Some p \<Rightarrow>
          if pbp_PubKey p = None \<and> pbp_Votes p = None then Inr NewEmptyPOLC
          else case pbp_Votes p of
            None \<Rightarrow> Inl (Err ErrMissingVotes)
          | Some votes \<Rightarrow>
              and_then (votes_from_proto votes) (\<lambda>vs.
                case pbp_PubKey p of
                  None \<Rightarrow> Inl (Err ErrMissingPubKey)
                | Some k \<Rightarrow>
                    and_then (PubKeyFromProto k) (\<lambda>pk.
                    let e = \<lparr>polc_Votes = Some vs, polc_PubKey = Some pk\<rparr>
                    in and_then (POLC_ValidateBasic cr (Some e)) (\<lambda>_. Inr e))))"

subsection \<open>Amnesia evidence\<close>

definition NewAmnesiaEvidence :: "PotentialAmnesiaEvidence option \<Rightarrow> ProofOfLockChange option \<Rightarrow> AmnesiaEvidence" where
  "NewAmnesiaEvidence pe polc = \<lparr>ae_PotentialAmnesiaEvidence = pe, ae_Polc = polc\<rparr>"

definition AmnesiaEvidence_Equal :: "AmnesiaEvidence \<Rightarrow> AmnesiaEvidence \<Rightarrow> (evidence_error, bool) result" where
  "AmnesiaEvidence_Equal e e2 =
     and_then (deref (ae_PotentialAmnesiaEvidence e)) (\<lambda>p. and_then (deref (ae_PotentialAmnesiaEvidence e2)) (\<lambda>p2.
       PotentialAmnesiaEvidence_Equal p p2))"

definition AmnesiaEvidence_ValidateBasic :: "crypto \<Rightarrow> AmnesiaEvidence \<Rightarrow> (evidence_error, unit) result" where
  "AmnesiaEvidence_ValidateBasic cr e =
     (case (ae_Polc e, ae_PotentialAmnesiaEvidence e) of
        (Some polc, Some pe) \<Rightarrow>
          and_then (PotentialAmnesiaEvidence_ValidateBasic pe) (\<lambda>_.
            if POLC_IsAbsent polc then Inr ()
            else and_then (POLC_ValidateBasic cr (Some polc)) (\<lambda>_.
              and_then (PotentialAmnesiaEvidence_Address pe) (\<lambda>pa. and_then (POLC_Address cr polc) (\<lambda>a.
              if pa \<noteq> a then Inl (Err ErrAddressMismatch)
              else and_then (PotentialAmnesiaEvidence_Height pe) (\<lambda>ph. and_then (POLC_Height polc) (\<lambda>h.
              if ph \<noteq> h then Inl (Err ErrHeightMismatch)
              else and_then (deref (pae_VoteA pe)) (\<lambda>va. and_then (deref (pae_VoteB pe)) (\<lambda>vb. and_then (POLC_Round polc) (\<lambda>r.
              if r \<le> v_Round va \<or> r > v_Round vb then Inl (Err ErrPOLCRound)
              else and_then (POLC_BlockID polc) (\<lambda>bid.
              if \<not> BlockID_Equals bid (v_BlockID vb) \<and> \<not> BlockID_IsZero bid then Inl (Err ErrPOLCBlock)
              else and_then (POLC_Time polc) (\<lambda>t.
              if t > v_Timestamp vb then Inl (Err ErrPOLCTime) else Inr ())))))))))))
      | _ \<Rightarrow> Inl (Err ErrAmnesiaMissing))"

definition ViolatedConsensus :: "AmnesiaEvidence \<Rightarrow> (evidence_error, bool) result" where
  "ViolatedConsensus e =
     and_then (deref (ae_PotentialAmnesiaEvidence e)) (\<lambda>pe.
     and_then (deref (pae_VoteA pe)) (\<lambda>va. and_then (deref (pae_VoteB pe)) (\<lambda>vb.
       if v_Round va > v_Round vb then Inr True
       else and_then (deref (ae_Polc e)) (\<lambda>polc. Inr (POLC_IsAbsent polc)))))"

record tmproto_AmnesiaEvidence =
  pba_PotentialAmnesiaEvidence :: "PotentialAmnesiaEvidence option"
  pba_Polc :: "tmproto_ProofOfLockChange option"

definition AmnesiaEvidenceFromProto :: "crypto \<Rightarrow> tmproto_AmnesiaEvidence option \<Rightarrow> (evidence_error, AmnesiaEvidence) result" where
  "AmnesiaEvidenceFromProto cr pb =
     (case pb of
        None \<Rightarrow> Inl (Err ErrNilEvidence)
      | Some p \<Rightarrow>
          and_then (PotentialAmnesiaEvidenceFromProto (pba_PotentialAmnesiaEvidence p)) (\<lambda>pe.
          and_then (ProofOfLockChangeFromProto cr (pba_Polc p)) (\<lambda>polc.
          let e = \<lparr>ae_PotentialAmnesiaEvidence = Some pe, ae_Polc = Some polc\<rparr>
          in and_then (AmnesiaEvidence_ValidateBasic cr e) (\<lambda>_. Inr e))))"

section \<open>Phantom and lunatic validators\<close>

definition PhantomValidatorEvidence_Verify :: "crypto \<Rightarrow> bytes \<Rightarrow> bytes \<Rightarrow> PhantomValidatorEvidence \<Rightarrow> (evidence_error, unit) result" where
  "PhantomValidatorEvidence_Verify cr chainID pubKey e =
     and_then (deref (pve_Vote e)) (\<lambda>v. and_then (verify_vote cr chainID pubKey v) (\<lambda>ok.
       if \<not> ok then Inl (Err ErrEvidenceSignature) else Inr ()))"

definition PhantomValidatorEvidence_Equal :: "PhantomValidatorEvidence \<Rightarrow> PhantomValidatorEvidence \<Rightarrow> (evidence_error, bool) result" where
  "PhantomValidatorEvidence_Equal e e2 =
     and_then (deref (pve_Vote e)) (\<lambda>v. and_then (deref (pve_Vote e2)) (\<lambda>v2.
       Inr (v_Height v = v_Height v2 \<and> v_ValidatorAddress v = v_ValidatorAddress v2)))"

definition PhantomValidatorEvidence_ValidateBasic :: "PhantomValidatorEvidence \<Rightarrow> (evidence_error, unit) result" where
  "PhantomValidatorEvidence_ValidateBasic e =
     (case pve_Vote e of
        None \<Rightarrow> Inl (Err ErrEmptyVotes)
      | Some v \<Rightarrow>
          and_then (lift_fault (ErrInvalidVote 0) (Vote_ValidateBasic v)) (\<lambda>_.
            if \<not> BlockID_IsComplete (v_BlockID v) then Inl (Err ErrExpectedBlockVote)
            else if pve_LastHeightValidatorWasInSet e \<le> 0 then Inl (Err ErrLastHeight)
            else Inr ()))"

definition PhantomValidatorEvidenceFromProto :: "PhantomValidatorEvidence option \<Rightarrow> (evidence_error, PhantomValidatorEvidence) result" where
  "PhantomValidatorEvidenceFromProto pb =
     (case pb of
        None \<Rightarrow> Inl (Err ErrNilEvidence)
      | Some p \<Rightarrow>
          and_then (lift_fault (ErrInvalidVote 0) (VoteFromProto (pve_Vote p))) (\<lambda>v.
          let e = p\<lparr>pve_Vote := Some v\<rparr> in and_then (PhantomValidatorEvidence_ValidateBasic e) (\<lambda>_. Inr e)))"

definition LunaticValidatorEvidence_Time :: "LunaticValidatorEvidence \<Rightarrow> (evidence_error, timestamp) result" where
  "LunaticValidatorEvidence_Time e =
     and_then (deref (lve_Header e)) (\<lambda>h. and_then (deref (lve_Vote e)) (\<lambda>v. Inr (maxTime (h_Time h) (v_Timestamp v))))"

text \<open>\<^verbatim>\<open>copy(dst, src)\<close> into the first bytes of a zeroed buffer.\<close>

definition padded :: "nat \<Rightarrow> bytes \<Rightarrow> bytes" where
  "padded n b = take n (b @ replicate n 0)"

definition LunaticValidatorEvidence_Hash :: "crypto \<Rightarrow> (bytes \<Rightarrow> bytes) \<Rightarrow> LunaticValidatorEvidence \<Rightarrow> (evidence_error, bytes) result" where
  "LunaticValidatorEvidence_Hash cr H e =
     and_then (deref (lve_Vote e)) (\<lambda>v.
       Inr (H (padded (tmhash_Size - 1) (case lve_Header e of None \<Rightarrow> [] | Some h \<Rightarrow> Header_Hash cr H h) @ [0] @
         padded AddressSize (v_ValidatorAddress v))))"

definition LunaticValidatorEvidence_Verify :: "crypto \<Rightarrow> bytes \<Rightarrow> bytes \<Rightarrow> LunaticValidatorEvidence \<Rightarrow> (evidence_error, unit) result" where
  "LunaticValidatorEvidence_Verify cr chainID pubKey e =
     and_then (deref (lve_Header e)) (\<lambda>h.
       if chainID \<noteq> h_ChainID h then Inl (Err ErrAltChain)
       else and_then (deref (lve_Vote e)) (\<lambda>v. and_then (verify_vote cr chainID pubKey v) (\<lambda>ok.
         if \<not> ok then Inl (Err ErrEvidenceSignature) else Inr ())))"

definition LunaticValidatorEvidence_Equal :: "crypto \<Rightarrow> (bytes \<Rightarrow> bytes) \<Rightarrow> LunaticValidatorEvidence \<Rightarrow> LunaticValidatorEvidence \<Rightarrow> (evidence_error, bool) result" where
  "LunaticValidatorEvidence_Equal cr H e e2 =
     (let hash = (\<lambda>h. case h of None \<Rightarrow> [] | Some h \<Rightarrow> Header_Hash cr H h) in
      if hash (lve_Header e) \<noteq> hash (lve_Header e2) then Inr False
      else and_then (deref (lve_Vote e)) (\<lambda>v. and_then (deref (lve_Vote e2)) (\<lambda>v2.
        Inr (v_ValidatorAddress v = v_ValidatorAddress v2))))"

definition header_field :: "string \<Rightarrow> (Header \<Rightarrow> bytes) option" where
  "header_field f =
     (if f = ''ValidatorsHash'' then Some h_ValidatorsHash
      else if f = ''NextValidatorsHash'' then Some h_NextValidatorsHash
      else if f = ''ConsensusHash'' then Some h_ConsensusHash
      else if f = ''AppHash'' then Some h_AppHash
      else if f = ''ResultsHash'' then Some h_ResultsHash
      else None)"

definition LunaticValidatorEvidence_ValidateBasic :: "crypto \<Rightarrow> (bytes \<Rightarrow> bytes) \<Rightarrow> LunaticValidatorEvidence \<Rightarrow> (evidence_error, unit) result" where
  "LunaticValidatorEvidence_ValidateBasic cr H e =
     (case lve_Header e of
        None \<Rightarrow> Inl (Err ErrMissingHeaderH1)
      | Some h \<Rightarrow>
          (case lve_Vote e of
             None \<Rightarrow> Inl (Err ErrEmptyVotes)
           | Some v \<Rightarrow>
               and_then (lift_fault ErrEvidenceHeader (Header_ValidateBasic h)) (\<lambda>_.
               and_then (lift_fault (ErrInvalidVote 0) (Vote_ValidateBasic v)) (\<lambda>_.
                 if \<not> BlockID_IsComplete (v_BlockID v) then Inl (Err ErrExpectedBlockVote)
                 else if h_Height h \<noteq> v_Height v then Inl (Err ErrHeightMismatch)
                 else if header_field (lve_InvalidHeaderField e) = None then Inl (Err ErrUnknownField)
                 else if Header_Hash cr H h \<noteq> bid_Hash (v_BlockID v) then Inl (Err ErrNotForHeader)
                 else Inr ()))))"

definition VerifyHeader :: "Header option \<Rightarrow> LunaticValidatorEvidence \<Rightarrow> (evidence_error, unit) result" where
  "VerifyHeader committedHeader e =
     (case committedHeader of
        None \<Rightarrow> Inl (Err ErrMissingHeaderH1)
      | Some c \<Rightarrow>
          (case header_field (lve_InvalidHeaderField e) of
             None \<Rightarrow> Inl (Err ErrUnknownField)
           | Some f \<Rightarrow> and_then (deref (lve_Header e)) (\<lambda>h. if f c = f h then Inl (Err ErrFieldMatches) else Inr ())))"

definition LunaticValidatorEvidenceFromProto :: "crypto \<Rightarrow> (bytes \<Rightarrow> bytes) \<Rightarrow> LunaticValidatorEvidence option \<Rightarrow> (evidence_error, LunaticValidatorEvidence) result" where
  "LunaticValidatorEvidenceFromProto cr H pb =
     (case pb of
        None \<Rightarrow> Inl (Err ErrNilEvidence)
      | Some p \<Rightarrow>
          and_then (lift_fault ErrEvidenceHeader (HeaderFromProto (lve_Header p))) (\<lambda>h.
          and_then (lift_fault (ErrInvalidVote 0) (VoteFromProto (lve_Vote p))) (\<lambda>v.
          let e = p\<lparr>lve_Header := Some h, lve_Vote := Some v\<rparr>
          in and_then (LunaticValidatorEvidence_ValidateBasic cr H e) (\<lambda>_. Inr e))))"

section \<open>Conflicting headers\<close>

text \<open>A signed header embeds the pointer to its header, whose hash is nil for a nil header.\<close>

definition SignedHeader_Hash :: "crypto \<Rightarrow> (bytes \<Rightarrow> bytes) \<Rightarrow> SignedHeader \<Rightarrow> bytes" where
  "SignedHeader_Hash cr H sh = (case sh_Header sh of None \<Rightarrow> [] | Some h \<Rightarrow> Header_Hash cr H h)"

definition ConflictingHeadersEvidence_Height :: "ConflictingHeadersEvidence \<Rightarrow> (evidence_error, int64) result" where
  "ConflictingHeadersEvidence_Height ev =
     and_then (deref (che_H1 ev)) (\<lambda>sh. and_then (deref (sh_Header sh)) (\<lambda>h. Inr (h_Height h)))"

definition ConflictingHeadersEvidence_Time :: "ConflictingHeadersEvidence \<Rightarrow> (evidence_error, timestamp) result" where
  "ConflictingHeadersEvidence_Time ev =
     and_then (deref (che_H1 ev)) (\<lambda>s1. and_then (deref (sh_Header s1)) (\<lambda>h1.
     and_then (deref (che_H2 ev)) (\<lambda>s2. and_then (deref (sh_Header s2)) (\<lambda>h2. Inr (maxTime (h_Time h1) (h_Time h2))))))"

definition ConflictingHeadersEvidence_Hash :: "crypto \<Rightarrow> (bytes \<Rightarrow> bytes) \<Rightarrow> ConflictingHeadersEvidence \<Rightarrow> (evidence_error, bytes) result" where
  "ConflictingHeadersEvidence_Hash cr H ev =
     and_then (deref (che_H1 ev)) (\<lambda>s1. and_then (deref (che_H2 ev)) (\<lambda>s2.
       Inr (H (padded (tmhash_Size - 1) (SignedHeader_Hash cr H s1) @ [0] @ padded tmhash_Size (SignedHeader_Hash cr H s2)))))"

definition ConflictingHeadersEvidence_Equal :: "crypto \<Rightarrow> (bytes \<Rightarrow> bytes) \<Rightarrow> ConflictingHeadersEvidence \<Rightarrow> ConflictingHeadersEvidence \<Rightarrow> (evidence_error, bool) result" where
  "ConflictingHeadersEvidence_Equal cr H ev e2 =
     and_then (deref (che_H1 ev)) (\<lambda>s1. and_then (deref (che_H1 e2)) (\<lambda>t1.
       if SignedHeader_Hash cr H s1 \<noteq> SignedHeader_Hash cr H t1 then Inr False
       else and_then (deref (che_H2 ev)) (\<lambda>s2. and_then (deref (che_H2 e2)) (\<lambda>t2.
         Inr (SignedHeader_Hash cr H s2 = SignedHeader_Hash cr H t2)))))"

text \<open>The chain of each header is read before the header is checked to be there.\<close>

definition ConflictingHeadersEvidence_ValidateBasic :: "crypto \<Rightarrow> (bytes \<Rightarrow> bytes) \<Rightarrow> ConflictingHeadersEvidence \<Rightarrow> (evidence_error, unit) result" where
  "ConflictingHeadersEvidence_ValidateBasic cr H ev =
     (case (che_H1 ev, che_H2 ev) of
        (None, _) \<Rightarrow> Inl (Err ErrMissingHeaderH1)
      | (Some _, None) \<Rightarrow> Inl (Err ErrMissingHeaderH2)
      | (Some s1, Some s2) \<Rightarrow>
          and_then (deref (sh_Header s1)) (\<lambda>h1.
          and_then (lift_fault ErrEvidenceHeader (SignedHeader_ValidateBasic cr H (h_ChainID h1) s1)) (\<lambda>_.
          and_then (deref (sh_Header s2)) (\<lambda>h2.
          and_then (lift_fault ErrEvidenceHeader (SignedHeader_ValidateBasic cr H (h_ChainID h2) s2)) (\<lambda>_. Inr ())))))"

type_synonym tmproto_SignedHeader = "Header option \<times> tmproto_Commit option"

definition ConflictingHeadersEvidenceFromProto :: "crypto \<Rightarrow> (bytes \<Rightarrow> bytes) \<Rightarrow> (tmproto_SignedHeader option \<times> tmproto_SignedHeader option) option \<Rightarrow> (evidence_error, ConflictingHeadersEvidence) result" where
  "ConflictingHeadersEvidenceFromProto cr H pb =
     (case pb of
        None \<Rightarrow> Inl (Err ErrNilEvidence)
      | Some (p1, p2) \<Rightarrow>
          and_then (lift_fault ErrEvidenceHeader (SignedHeaderFromProto p1)) (\<lambda>h1.
          and_then (lift_fault ErrEvidenceHeader (SignedHeaderFromProto p2)) (\<lambda>h2.
          let ev = \<lparr>che_H1 = Some h1, che_H2 = Some h2\<rparr>
          in and_then (ConflictingHeadersEvidence_ValidateBasic cr H ev) (\<lambda>_. Inr ev))))"

definition VerifyComposite :: "crypto \<Rightarrow> (bytes \<Rightarrow> bytes) \<Rightarrow> Header option \<Rightarrow> ValidatorSet \<Rightarrow> ConflictingHeadersEvidence \<Rightarrow> (evidence_error, unit) result" where
  "VerifyComposite cr H committedHeader valSet ev =
     (let hash = (case committedHeader of None \<Rightarrow> [] | Some h \<Rightarrow> Header_Hash cr H h) in
      and_then (deref (che_H1 ev)) (\<lambda>s1.
      and_then
        (if hash = SignedHeader_Hash cr H s1 then deref (che_H2 ev)
         else and_then (deref (che_H2 ev)) (\<lambda>s2.
           if hash = SignedHeader_Hash cr H s2 then Inr s1 else Inl (Err ErrNotCommitted)))
        (\<lambda>alt.
      and_then (deref committedHeader) (\<lambda>ch.
      and_then (deref (sh_Header alt)) (\<lambda>ah.
        if h_ChainID ch \<noteq> h_ChainID ah then Inl (Err ErrAltChain)
        else if h_Height ch \<noteq> h_Height ah then Inl (Err ErrAltHeight)
        else and_then (deref (sh_Commit alt)) (\<lambda>commit.
          if length (c_Signatures commit) > ValidatorSet_Size valSet * 2 then Inl (Err ErrTooManySignatures)
          else and_then (lift_fault ErrAltPower
              (VerifyCommitLightTrusting cr (h_ChainID ah) commit \<lparr>fr_Numerator = 1, fr_Denominator = 3\<rparr> valSet)) (\<lambda>_. Inr ())))))))"

subsection \<open>Splitting two conflicting headers\<close>

definition commit_vote :: "Commit \<Rightarrow> nat \<Rightarrow> (evidence_error, Vote) result" where
  "commit_vote commit i = lift_fault (ErrInvalidVote i) (GetVote commit (wrap32 (int i)))"

fun phantoms :: "(bytes \<rightharpoonup> int64) \<Rightarrow> ValidatorSet \<Rightarrow> Commit \<Rightarrow> nat \<Rightarrow> CommitSig list \<Rightarrow> (evidence_error, Evidence list) result" where
  "phantoms valToLastHeight valSet commit i [] = Inr []"
| "phantoms valToLastHeight valSet commit i (sig # rest) =
     (if Absent sig then phantoms valToLastHeight valSet commit (Suc i) rest
      else case valToLastHeight (cs_ValidatorAddress sig) of
        None \<Rightarrow> phantoms valToLastHeight valSet commit (Suc i) rest
      | Some lastHeight \<Rightarrow>
          if HasAddress (cs_ValidatorAddress sig) valSet then phantoms valToLastHeight valSet commit (Suc i) rest
          else and_then (commit_vote commit i) (\<lambda>vote.
            and_then (phantoms valToLastHeight valSet commit (Suc i) rest) (\<lambda>evs.
            Inr (PhantomValidator \<lparr>pve_Vote = Some vote, pve_LastHeightValidatorWasInSet = lastHeight\<rparr> # evs))))"

definition invalid_field :: "Header \<Rightarrow> Header \<Rightarrow> string" where
  "invalid_field committed alternative =
     (if h_ValidatorsHash committed \<noteq> h_ValidatorsHash alternative then ''ValidatorsHash''
      else if h_NextValidatorsHash committed \<noteq> h_NextValidatorsHash alternative then ''NextValidatorsHash''
      else if h_ConsensusHash committed \<noteq> h_ConsensusHash alternative then ''ConsensusHash''
      else if h_AppHash committed \<noteq> h_AppHash alternative then ''AppHash''
      else if h_ResultsHash committed \<noteq> h_ResultsHash alternative then ''ResultsHash''
      else [])"

fun lunatics :: "Header \<Rightarrow> string \<Rightarrow> Commit \<Rightarrow> nat \<Rightarrow> CommitSig list \<Rightarrow> (evidence_error, Evidence list) result" where
  "lunatics header invalidField commit i [] = Inr []"
| "lunatics header invalidField commit i (sig # rest) =
     (if Absent sig then lunatics header invalidField commit (Suc i) rest
      else and_then (commit_vote commit i) (\<lambda>vote.
        and_then (lunatics header invalidField commit (Suc i) rest) (\<lambda>evs.
        Inr (LunaticValidator \<lparr>lve_Header = Some header, lve_Vote = Some vote, lve_InvalidHeaderField = invalidField\<rparr> # evs))))"

definition pair_evidence :: "Commit \<Rightarrow> Commit \<Rightarrow> nat \<Rightarrow> nat \<Rightarrow> (evidence_error, Evidence) result" where
  "pair_evidence commit1 commit2 i j =
     and_then (commit_vote commit1 i) (\<lambda>firstVote. and_then (commit_vote commit2 j) (\<lambda>secondVote.
       if c_Round commit1 = c_Round commit2
       then Inr (DuplicateVote \<lparr>dve_VoteA = Some firstVote, dve_VoteB = Some secondVote\<rparr>)
       else and_then (deref (NewPotentialAmnesiaEvidence (Some firstVote) (Some secondVote))) (\<lambda>newEv.
         and_then (deref (pae_VoteA newEv)) (\<lambda>a. and_then (deref (pae_VoteB newEv)) (\<lambda>b.
           if v_Round a > v_Round b then Inr (Amnesia (NewAmnesiaEvidence (Some newEv) (Some NewEmptyPOLC)))
           else Inr (PotentialAmnesia newEv))))))"

text \<open>
  The two nested loops over the signatures of the two commits. The inner loop leaves the outer one's
  index alone when it runs out of signatures of the second commit, and the outer loop then starts over
  with the same indices: the recursion is on that same state, and the value is \<open>None\<close> where it does not end.
\<close>

partial_function (option) split_loop :: "ValidatorSet \<Rightarrow> Commit \<Rightarrow> Commit \<Rightarrow> nat \<Rightarrow> nat \<Rightarrow> Evidence list \<Rightarrow> (evidence_error, Evidence list) result option" where
  "split_loop valSet commit1 commit2 i j evList =
     (if length (c_Signatures commit1) \<le> i then Some (Inr evList)
      else let sigA = c_Signatures commit1 ! i in
      if Absent sigA \<or> snd (GetByAddress (cs_ValidatorAddress sigA) valSet) = None
      then split_loop valSet commit1 commit2 (Suc i) j evList
      else if length (c_Signatures commit2) \<le> j then split_loop valSet commit1 commit2 i j evList
      else let sigB = c_Signatures commit2 ! j in
      if Absent sigB then split_loop valSet commit1 commit2 i (Suc j) evList
      else if cs_ValidatorAddress sigA = cs_ValidatorAddress sigB
      then (case pair_evidence commit1 commit2 i j of
              Inl e \<Rightarrow> Some (Inl e)
            | Inr ev \<Rightarrow> split_loop valSet commit1 commit2 (Suc i) (Suc j) (evList @ [ev]))
      else if cs_ValidatorAddress sigA > cs_ValidatorAddress sigB then split_loop valSet commit1 commit2 (Suc i) j evList
      else split_loop valSet commit1 commit2 i (Suc j) evList)"

definition Split :: "crypto \<Rightarrow> (bytes \<Rightarrow> bytes) \<Rightarrow> Header \<Rightarrow> ValidatorSet \<Rightarrow> (bytes \<rightharpoonup> int64) \<Rightarrow> ConflictingHeadersEvidence \<Rightarrow> (evidence_error, Evidence list) result option" where
  "Split cr H committedHeader valSet valToLastHeight ev =
     (case and_then (deref (che_H1 ev)) (\<lambda>s1.
       and_then (if Header_Hash cr H committedHeader = SignedHeader_Hash cr H s1 then deref (che_H2 ev) else Inr s1) (\<lambda>alt.
       and_then (deref (sh_Commit alt)) (\<lambda>altCommit.
       and_then (phantoms valToLastHeight valSet altCommit 0 (c_Signatures altCommit)) (\<lambda>evs.
       and_then (deref (sh_Header alt)) (\<lambda>ah. Inr (altCommit, ah, evs)))))) of
       Inl e \<Rightarrow> Some (Inl e)
     | Inr (altCommit, ah, evs) \<Rightarrow>
         let invalidField = invalid_field committedHeader ah in
         if invalidField \<noteq> []
         then Some (and_then (lunatics ah invalidField altCommit 0 (c_Signatures altCommit)) (\<lambda>ls. Inr (evs @ ls)))
         else (case and_then (deref (che_H1 ev)) (\<lambda>s1. and_then (deref (sh_Commit s1)) (\<lambda>c1.
                 and_then (deref (che_H2 ev)) (\<lambda>s2. and_then (deref (sh_Commit s2)) (\<lambda>c2. Inr (c1, c2))))) of
                 Inl e \<Rightarrow> Some (Inl e)
               | Inr (c1, c2) \<Rightarrow> split_loop valSet c1 c2 0 0 evs))"

section \<open>Evidence of any kind\<close>

text \<open>Amnesia evidence inherits from the potential amnesia evidence it embeds.\<close>

definition Evidence_Height :: "Evidence \<Rightarrow> (evidence_error, int64) result" where
  "Evidence_Height evidence =
     (case evidence of
        DuplicateVote e \<Rightarrow> DuplicateVoteEvidence_Height e
      | ConflictingHeaders e \<Rightarrow> ConflictingHeadersEvidence_Height e
      | PhantomValidator e \<Rightarrow> and_then (deref (pve_Vote e)) (\<lambda>v. Inr (v_Height v))
      | LunaticValidator e \<Rightarrow> and_then (deref (lve_Header e)) (\<lambda>h. Inr (h_Height h))
      | PotentialAmnesia e \<Rightarrow> PotentialAmnesiaEvidence_Height e
      | Amnesia e \<Rightarrow> and_then (deref (ae_PotentialAmnesiaEvidence e)) PotentialAmnesiaEvidence_Height)"

definition Evidence_Time :: "Evidence \<Rightarrow> (evidence_error, timestamp) result" where
  "Evidence_Time evidence =
     (case evidence of
        DuplicateVote e \<Rightarrow> DuplicateVoteEvidence_Time e
      | ConflictingHeaders e \<Rightarrow> ConflictingHeadersEvidence_Time e
      | PhantomValidator e \<Rightarrow> and_then (deref (pve_Vote e)) (\<lambda>v. Inr (v_Timestamp v))
      | LunaticValidator e \<Rightarrow> LunaticValidatorEvidence_Time e
      | PotentialAmnesia e \<Rightarrow> PotentialAmnesiaEvidence_Time e
      | Amnesia e \<Rightarrow> and_then (deref (ae_PotentialAmnesiaEvidence e)) PotentialAmnesiaEvidence_Time)"

definition Evidence_Address :: "Evidence \<Rightarrow> (evidence_error, bytes) result" where
  "Evidence_Address evidence =
     (case evidence of
        DuplicateVote e \<Rightarrow> DuplicateVoteEvidence_Address e
      | ConflictingHeaders e \<Rightarrow> Inl (Panic ''use ConflictingHeadersEvidence#Split to split evidence into individual pieces'')
      | PhantomValidator e \<Rightarrow> and_then (deref (pve_Vote e)) (\<lambda>v. Inr (v_ValidatorAddress v))
      | LunaticValidator e \<Rightarrow> and_then (deref (lve_Vote e)) (\<lambda>v. Inr (v_ValidatorAddress v))
      | PotentialAmnesia e \<Rightarrow> PotentialAmnesiaEvidence_Address e
      | Amnesia e \<Rightarrow> and_then (deref (ae_PotentialAmnesiaEvidence e)) PotentialAmnesiaEvidence_Address)"

definition Evidence_Verify :: "crypto \<Rightarrow> bytes \<Rightarrow> bytes \<Rightarrow> Evidence \<Rightarrow> (evidence_error, unit) result" where
  "Evidence_Verify cr chainID pubKey evidence =
     (case evidence of
        DuplicateVote e \<Rightarrow> DuplicateVoteEvidence_Verify cr chainID pubKey e
      | ConflictingHeaders e \<Rightarrow> Inl (Panic ''use ConflictingHeadersEvidence#VerifyComposite to verify composite evidence'')
      | PhantomValidator e \<Rightarrow> PhantomValidatorEvidence_Verify cr chainID pubKey e
      | LunaticValidator e \<Rightarrow> LunaticValidatorEvidence_Verify cr chainID pubKey e
      | PotentialAmnesia e \<Rightarrow> PotentialAmnesiaEvidence_Verify cr chainID pubKey e
      | Amnesia e \<Rightarrow> and_then (deref (ae_PotentialAmnesiaEvidence e)) (PotentialAmnesiaEvidence_Verify cr chainID pubKey))"

definition Evidence_ValidateBasic :: "crypto \<Rightarrow> (bytes \<Rightarrow> bytes) \<Rightarrow> Evidence \<Rightarrow> (evidence_error, unit) result" where
  "Evidence_ValidateBasic cr H evidence =
     (case evidence of
        DuplicateVote e \<Rightarrow> DuplicateVoteEvidence_ValidateBasic e
      | ConflictingHeaders e \<Rightarrow> ConflictingHeadersEvidence_ValidateBasic cr H e
      | PhantomValidator e \<Rightarrow> PhantomValidatorEvidence_ValidateBasic e
      | LunaticValidator e \<Rightarrow> LunaticValidatorEvidence_ValidateBasic cr H e
      | PotentialAmnesia e \<Rightarrow> PotentialAmnesiaEvidence_ValidateBasic e
      | Amnesia e \<Rightarrow> AmnesiaEvidence_ValidateBasic cr e)"

text \<open>The encodings of generated code: of a vote, and of evidence; \<open>None\<close> where it fails.\<close>

record encoders =
  enc_Vote :: "Vote option \<Rightarrow> bytes option"
  enc_Evidence :: "Evidence \<Rightarrow> bytes option"

definition must_marshal :: "bytes option \<Rightarrow> (evidence_error, bytes) result" where
  "must_marshal bz = (case bz of None \<Rightarrow> Inl (Panic ''marshal'') | Some b \<Rightarrow> Inr b)"

definition Evidence_Bytes :: "encoders \<Rightarrow> Evidence \<Rightarrow> (evidence_error, bytes) result" where
  "Evidence_Bytes enc evidence = must_marshal (enc_Evidence enc evidence)"

definition PotentialAmnesiaEvidence_Hash :: "encoders \<Rightarrow> (bytes \<Rightarrow> bytes) \<Rightarrow> PotentialAmnesiaEvidence \<Rightarrow> (evidence_error, bytes) result" where
  "PotentialAmnesiaEvidence_Hash enc H e =
     and_then (must_marshal (enc_Vote enc (pae_VoteA e))) (\<lambda>v1.
     and_then (must_marshal (enc_Vote enc (pae_VoteB e))) (\<lambda>v2. Inr (H (v1 @ v2))))"

definition Evidence_Hash :: "encoders \<Rightarrow> crypto \<Rightarrow> (bytes \<Rightarrow> bytes) \<Rightarrow> Evidence \<Rightarrow> (evidence_error, bytes) result" where
  "Evidence_Hash enc cr H evidence =
     (case evidence of
        DuplicateVote e \<Rightarrow> and_then (Evidence_Bytes enc evidence) (\<lambda>bz. Inr (H bz))
      | ConflictingHeaders e \<Rightarrow> ConflictingHeadersEvidence_Hash cr H e
      | PhantomValidator e \<Rightarrow> and_then (Evidence_Bytes enc evidence) (\<lambda>bz. Inr (H bz))
      | LunaticValidator e \<Rightarrow> LunaticValidatorEvidence_Hash cr H e
      | PotentialAmnesia e \<Rightarrow> PotentialAmnesiaEvidence_Hash enc H e
      | Amnesia e \<Rightarrow> and_then (deref (ae_PotentialAmnesiaEvidence e)) (PotentialAmnesiaEvidence_Hash enc H))"

definition Evidence_Equal :: "encoders \<Rightarrow> crypto \<Rightarrow> (bytes \<Rightarrow> bytes) \<Rightarrow> Evidence \<Rightarrow> Evidence \<Rightarrow> (evidence_error, bool) result" where
  "Evidence_Equal enc cr H ev ev2 =
     (case (ev, ev2) of
        (DuplicateVote e, DuplicateVote e2) \<Rightarrow>
          and_then (Evidence_Bytes enc ev) (\<lambda>bz. and_then (Evidence_Bytes enc ev2) (\<lambda>evbz. Inr (H bz = H evbz)))
      | (ConflictingHeaders e, ConflictingHeaders e2) \<Rightarrow> ConflictingHeadersEvidence_Equal cr H e e2
      | (PhantomValidator e, PhantomValidator e2) \<Rightarrow> PhantomValidatorEvidence_Equal e e2
      | (LunaticValidator e, LunaticValidator e2) \<Rightarrow> LunaticValidatorEvidence_Equal cr H e e2
      | (PotentialAmnesia e, PotentialAmnesia e2) \<Rightarrow> PotentialAmnesiaEvidence_Equal e e2
      | (Amnesia e, Amnesia e2) \<Rightarrow> AmnesiaEvidence_Equal e e2
      | _ \<Rightarrow> Inr False)"

fun evidence_bytes :: "encoders \<Rightarrow> Evidence list \<Rightarrow> (evidence_error, bytes list) result" where
  "evidence_bytes enc [] = Inr []"
| "evidence_bytes enc (ev # evl) =
     and_then (Evidence_Bytes enc ev) (\<lambda>bz. and_then (evidence_bytes enc evl) (\<lambda>bzs. Inr (bz # bzs)))"

definition EvidenceList_Hash :: "encoders \<Rightarrow> (bytes \<Rightarrow> bytes) \<Rightarrow> Evidence list \<Rightarrow> (evidence_error, bytes) result" where
  "EvidenceList_Hash enc H evl = and_then (evidence_bytes enc evl) (\<lambda>evidenceBzs. Inr (HashFromByteSlices H evidenceBzs))"

fun EvidenceList_Has :: "encoders \<Rightarrow> crypto \<Rightarrow> (bytes \<Rightarrow> bytes) \<Rightarrow> Evidence \<Rightarrow> Evidence list \<Rightarrow> (evidence_error, bool) result" where
  "EvidenceList_Has enc cr H evidence [] = Inr False"
| "EvidenceList_Has enc cr H evidence (ev # evl) =
     and_then (Evidence_Equal enc cr H ev evidence) (\<lambda>eq. if eq then Inr True else EvidenceList_Has enc cr H evidence evl)"

text \<open>The message for evidence is one of six messages, or none that this version knows.\<close>

datatype tmproto_Evidence =
    PbDuplicateVote "DuplicateVoteEvidence option"
  | PbConflictingHeaders "(tmproto_SignedHeader option \<times> tmproto_SignedHeader option) option"
  | PbLunaticValidator "LunaticValidatorEvidence option"
  | PbPotentialAmnesia "PotentialAmnesiaEvidence option"
  | PbAmnesia "tmproto_AmnesiaEvidence option"
  | PbPhantomValidator "PhantomValidatorEvidence option"
  | PbUnknown

definition EvidenceFromProto :: "crypto \<Rightarrow> (bytes \<Rightarrow> bytes) \<Rightarrow> tmproto_Evidence option \<Rightarrow> (evidence_error, Evidence) result" where
  "EvidenceFromProto cr H evidence =
     (case evidence of
        None \<Rightarrow> Inl (Err ErrNilEvidence)
      | Some (PbDuplicateVote e) \<Rightarrow> and_then (DuplicateVoteEvidenceFromProto e) (\<lambda>e. Inr (DuplicateVote e))
      | Some (PbConflictingHeaders e) \<Rightarrow> and_then (ConflictingHeadersEvidenceFromProto cr H e) (\<lambda>e. Inr (ConflictingHeaders e))
      | Some (PbLunaticValidator e) \<Rightarrow> and_then (LunaticValidatorEvidenceFromProto cr H e) (\<lambda>e. Inr (LunaticValidator e))
      | Some (PbPotentialAmnesia e) \<Rightarrow> and_then (PotentialAmnesiaEvidenceFromProto e) (\<lambda>e. Inr (PotentialAmnesia e))
      | Some (PbAmnesia e) \<Rightarrow> and_then (AmnesiaEvidenceFromProto cr e) (\<lambda>e. Inr (Amnesia e))
      | Some (PbPhantomValidator e) \<Rightarrow> and_then (PhantomValidatorEvidenceFromProto e) (\<lambda>e. Inr (PhantomValidator e))
      | Some PbUnknown \<Rightarrow> Inl (Err ErrEvidenceNotRecognized))"

section \<open>Honest signers are not convicted\<close>

lemma deref_Inr [simp]: "deref p = Inr x \<longleftrightarrow> p = Some x"
  by (auto simp: deref_def split: option.splits)

lemma guard_Inr [simp]: "(if c then Inl e else r) = Inr x \<longleftrightarrow> \<not> c \<and> r = Inr x"
  by auto

lemma verify_vote_Inr:
  "verify_vote cr chainID pk v = Inr ok \<longleftrightarrow>
     (\<exists>b. VoteSignBytes cr chainID v = Inr b \<and> ok = cr_VerifyBytes cr pk b (v_Signature v))"
  by (auto simp: verify_vote_def and_then_Inr_iff)

lemma DuplicateVoteEvidence_Verify_iff:
  "DuplicateVoteEvidence_Verify cr chainID pk dve = Inr () \<longleftrightarrow>
     (\<exists>a b ba bb. dve = \<lparr>dve_VoteA = Some a, dve_VoteB = Some b\<rparr> \<and>
        v_Height a = v_Height b \<and> v_Round a = v_Round b \<and> v_Type a = v_Type b \<and>
        v_ValidatorAddress a = v_ValidatorAddress b \<and> v_ValidatorIndex a = v_ValidatorIndex b \<and> v_BlockID a \<noteq> v_BlockID b \<and>
        cr_Address cr pk = v_ValidatorAddress a \<and>
        VoteSignBytes cr chainID a = Inr ba \<and> cr_VerifyBytes cr pk ba (v_Signature a) \<and>
        VoteSignBytes cr chainID b = Inr bb \<and> cr_VerifyBytes cr pk bb (v_Signature b))"
  by (cases dve) (auto simp: DuplicateVoteEvidence_Verify_def and_then_Inr_iff verify_vote_Inr)

lemma VoteSignBytes_not_proposal:
  assumes "VoteSignBytes cr chainID v = Inr b" "v_Type v \<in> {PrevoteType, PrecommitType}"
  shows "ProposalSignBytes cr chainID p \<noteq> Inr b"
proof
  assume "ProposalSignBytes cr chainID p = Inr b"
  then obtain cp d where p: "CanonicalProposal_marshal (cr_TimeBytes cr) cp = Inr d" "cpr_Type cp = 32" "b = len_prefixed d"
    by (auto simp: ProposalSignBytes_def CanonicalizeProposal_def and_then_Inr_iff MarshalDelimited_Inr ProposalType_def)
  obtain cv c where v: "CanonicalVote_marshal (cr_TimeBytes cr) cv = Inr c" "b = len_prefixed c" "cv_Type cv = v_Type v"
    using VoteSignBytes_canonical [OF assms(1)] by blast
  have "c = d" using p(3) v(2) delimited.enc_inject by auto
  then show False using vote_not_proposal [OF v(1) _ p(2)] p(1) v(3) assms(2) by (auto simp: PrevoteType_def PrecommitType_def)
qed

definition of_message :: "pv_env \<Rightarrow> bytes \<Rightarrow> release \<Rightarrow> bool" where
  "of_message env chainID e \<longleftrightarrow>
     (\<exists>v. e = vote_release env chainID v \<and> v_Type v \<in> {PrevoteType, PrecommitType} \<and> int64_range (v_Height v) \<and> int64_range (v_Round v)) \<or>
     (\<exists>p. e = proposal_release env chainID p)"

lemma signed_vote_of_message:
  assumes "signVote env w now chainID v pv fs = Inr (v', pv', fs')" "vote_fits env chainID v"
  shows "of_message env chainID (vote_release env chainID v')"
proof -
  have v': "v' = v\<lparr>v_Timestamp := v_Timestamp v', v_Signature := v_Signature v'\<rparr>" "v_Type v \<in> {PrevoteType, PrecommitType}"
    using signVote_result [OF assms(1)] by blast+
  have "v_Type v' = v_Type v" "v_Height v' = v_Height v" "v_Round v' = v_Round v" by (subst v'(1), simp)+
  moreover have "int64_range (v_Height v)" "int64_range (v_Round v)"
    using assms(2) by (auto simp: vote_fits_def fits_def int64_range_iff int32_range_iff int_limits)
  ultimately show ?thesis using v'(2) unfolding of_message_def by (intro disjI1 exI [of _ v']) simp
qed

lemma releases_of_messages:
  assumes "signer_reachable env chainID k f s" "e \<in> set (sg_released s)"
  shows "of_message env chainID e"
  using assms
proof (induction arbitrary: e rule: signer_reachable.induct)
  case (signer_vote s v w now v' pv fs)
  from signer_vote.prems have "e = vote_release env chainID v' \<or> e \<in> set (sg_released s)" by simp
  then show ?case using signed_vote_of_message [OF signer_vote.hyps(3,2)] signer_vote.IH by blast
next
  case (signer_proposal s p w now p' pv fs)
  from signer_proposal.prems have "e = proposal_release env chainID p' \<or> e \<in> set (sg_released s)" by simp
  then show ?case using signer_proposal.IH unfolding of_message_def by blast
qed simp_all

lemma released_vote_step:
  assumes "signer_reachable env chainID k f s" "e \<in> set (sg_released s)" "fst (snd e) = Inr b"
    and "time_encoding (cr_TimeBytes (env_crypto env))"
    and "VoteSignBytes (env_crypto env) chainID v = Inr b" "v_Type v \<in> {PrevoteType, PrecommitType}"
    and "int64_range (v_Height v)" "int64_range (v_Round v)"
  shows "fst e = (v_Height v, v_Round v, if v_Type v = PrevoteType then stepPrevote else stepPrecommit)"
  using releases_of_messages [OF assms(1,2)] unfolding of_message_def
proof (elim disjE exE conjE)
  fix w assume w: "e = vote_release env chainID w" "v_Type w \<in> {PrevoteType, PrecommitType}" "int64_range (v_Height w)" "int64_range (v_Round w)"
  have t: "int64_range (v_Type w)" "int64_range (v_Type v)"
    using w(2) assms(6) by (auto simp: PrevoteType_def PrecommitType_def int64_range_iff int_limits)
  have "VoteSignBytes (env_crypto env) chainID w = Inr b" using w(1) assms(3) by (simp add: vote_release_def)
  from VoteSignBytes_inject [OF assms(4) t(2,1) assms(7) w(3) assms(8) w(4) assms(5) this]
  show ?thesis using w(1) by (simp add: vote_release_def)
next
  fix p assume "e = proposal_release env chainID p"
  then have "ProposalSignBytes (env_crypto env) chainID p = Inr b" using assms(3) by (simp add: proposal_release_def)
  then show ?thesis using VoteSignBytes_not_proposal [OF assms(5,6)] by blast
qed

lemma time_decoding_encoding: "time_decoding tb tof \<Longrightarrow> time_encoding tb"
  by (auto simp: time_decoding_def time_encoding_def) (metis option.inject)

text \<open>
  C4: A validator that signs with the file signer, whatever it is asked to sign and however often it crashes and restarts,
  is never convicted of a double vote: if no signature of its key verifies but for bytes the signer released,
  no duplicate vote evidence that passes \<^verbatim>\<open>ValidateBasic\<close> passes \<^verbatim>\<open>Verify\<close> for its key.
\<close>

theorem honest_never_convicted:
  assumes "time_decoding (cr_TimeBytes (env_crypto env)) (env_TimeOf env)" "signer_reachable env chainID keyPath statePath s"
    and unforgeable: "\<forall>m g. cr_VerifyBytes (env_crypto env) pubKey m g \<longrightarrow> (\<exists>e \<in> set (sg_released s). fst (snd e) = Inr m)"
    and "DuplicateVoteEvidence_ValidateBasic dve = Inr ()"
    and "\<forall>v. dve_VoteA dve = Some v \<or> dve_VoteB dve = Some v \<longrightarrow> int64_range (v_Height v) \<and> int64_range (v_Round v)"
  shows "DuplicateVoteEvidence_Verify (env_crypto env) chainID pubKey dve \<noteq> Inr ()"
proof
  assume "DuplicateVoteEvidence_Verify (env_crypto env) chainID pubKey dve = Inr ()"
  then obtain a b ba bb where dve: "dve = \<lparr>dve_VoteA = Some a, dve_VoteB = Some b\<rparr>"
    and same: "v_Height a = v_Height b" "v_Round a = v_Round b" "v_Type a = v_Type b" "v_BlockID a \<noteq> v_BlockID b"
    and a: "VoteSignBytes (env_crypto env) chainID a = Inr ba" "cr_VerifyBytes (env_crypto env) pubKey ba (v_Signature a)"
    and b: "VoteSignBytes (env_crypto env) chainID b = Inr bb" "cr_VerifyBytes (env_crypto env) pubKey bb (v_Signature b)"
    unfolding DuplicateVoteEvidence_Verify_iff by blast
  have ty: "v_Type a \<in> {PrevoteType, PrecommitType}"
    using assms(4) Vote_ValidateBasic_type [of a]
    by (auto simp: dve DuplicateVoteEvidence_ValidateBasic_def and_then_Inr_iff PrevoteType_def PrecommitType_def)
  have r: "int64_range (v_Height a)" "int64_range (v_Round a)" using assms(5) dve by simp_all
  note enc = time_decoding_encoding [OF assms(1)]
  obtain ea eb where e: "ea \<in> set (sg_released s)" "fst (snd ea) = Inr ba" "eb \<in> set (sg_released s)" "fst (snd eb) = Inr bb"
    using unforgeable a(2) b(2) by blast
  have "fst ea = fst eb"
    using released_vote_step [OF assms(2) e(1,2) enc a(1) ty r] released_vote_step [OF assms(2) e(3,4) enc b(1)] ty r same(1-3) by simp
  then have "ea = eb"
    using signer_reachable_inv [OF assms(2,1)] e(1,3) by (auto simp: signer_inv_def log_ok_def)
  then have bb: "VoteSignBytes (env_crypto env) chainID b = Inr ba" using e b(1) by simp
  have "int64_range (v_Type a)" using ty by (auto simp: PrevoteType_def PrecommitType_def int64_range_iff int_limits)
  then have "v_BlockID a = v_BlockID b" using VoteSignBytes_inject [OF enc _ _ _ _ _ _ a(1) bb] r same(1-3) by simp
  then show False using same(4) by simp
qed

definition strict_env :: pv_env where
  "strict_env = demo_env\<lparr>env_crypto := demo_crypto\<lparr>cr_VerifyBytes := (\<lambda>pk m g. VoteSignBytes demo_crypto [] (nil_vote 5) = Inr m)\<rparr>\<rparr>"

lemma strict_sign_bytes: "VoteSignBytes (env_crypto strict_env) = VoteSignBytes (env_crypto demo_env)"
  by (intro ext) (simp add: VoteSignBytes_def strict_env_def demo_env_def)

theorem honest_never_convicted_witness:
  "\<exists>s e dve. time_decoding (cr_TimeBytes (env_crypto strict_env)) (env_TimeOf strict_env) \<and>
     signer_reachable strict_env [] ''key'' ''state'' s \<and> sg_released s = [e] \<and>
     DuplicateVoteEvidence_ValidateBasic dve = Inr () \<and> DuplicateVoteEvidence_Verify (env_crypto strict_env) [] [1] dve \<noteq> Inr ()"
proof -
  have t: "time_decoding (cr_TimeBytes (env_crypto strict_env)) (env_TimeOf strict_env)"
    using demo_env_time by (simp add: strict_env_def demo_env_def)
  obtain b where b: "VoteSignBytes (env_crypto strict_env) [] (nil_vote 5) = Inr b"
    using nil_vote_bytes(1) [of 5] by (auto simp: strict_sign_bytes int64_range_iff int_limits)
  have f: "vote_fits strict_env [] (nil_vote 5)"
    using nil_vote_bytes(2) [of 5] by (simp add: vote_fits_def strict_sign_bytes int64_range_iff int_limits)
  have "env_Sign strict_env = (\<lambda>k m. Some (k @ m))" by (simp add: strict_env_def demo_env_def)
  from nil_vote_signed [OF this b] obtain s v pv fs pv' where s: "signer_reachable strict_env [] ''key'' ''state'' s" "sg_released s = []"
    and v: "signVote strict_env True 0 [] (nil_vote 5) (sg_pv s) (sg_files s) = Inr (v, pv, fs)" "v = (nil_vote 5)\<lparr>v_Signature := [1] @ b\<rparr>"
    by blast
  define s' where "s' = s\<lparr>sg_pv := pv, sg_files := fs, sg_released := vote_release strict_env [] v # sg_released s\<rparr>"
  have r: "signer_reachable strict_env [] ''key'' ''state'' s'" unfolding s'_def by (rule signer_vote [OF s(1) f v(1)])
  have rel: "sg_released s' = [vote_release strict_env [] v]" by (simp add: s'_def s(2))
  have "VoteSignBytes (env_crypto strict_env) [] v = Inr b" using b by (simp add: v(2) VoteSignBytes_def CanonicalizeVote_def)
  then have "fst (snd (vote_release strict_env [] v)) = Inr b" by (simp add: vote_release_def)
  moreover have "m = b" if "cr_VerifyBytes (env_crypto strict_env) [1] m g" for m g
    using that b by (simp add: strict_env_def) (simp add: VoteSignBytes_def)
  ultimately have u: "\<forall>m g. cr_VerifyBytes (env_crypto strict_env) [1] m g \<longrightarrow> (\<exists>e \<in> set (sg_released s'). fst (snd e) = Inr m)"
    using rel by auto
  let ?dve = "\<lparr>dve_VoteA = Some (demo_precommit 1 1 0), dve_VoteB = Some (demo_precommit 2 1 0)\<rparr>"
  have "\<not> BlockID_Key (demo_BlockID 2) \<le> BlockID_Key (demo_BlockID 1)" by code_simp
  then have basic: "DuplicateVoteEvidence_ValidateBasic ?dve = Inr ()"
    using demo_precommit_valid by (simp add: DuplicateVoteEvidence_ValidateBasic_def) (simp add: demo_precommit_def)
  have "\<forall>v. dve_VoteA ?dve = Some v \<or> dve_VoteB ?dve = Some v \<longrightarrow> int64_range (v_Height v) \<and> int64_range (v_Round v)"
    by (auto simp: demo_precommit_def int64_range_iff int_limits)
  from honest_never_convicted [OF t r u basic this] show ?thesis
    by (intro exI [of _ s'] exI [of _ "vote_release strict_env [] v"] exI [of _ ?dve] conjI t r rel basic)
qed

section \<open>Splitting may not end\<close>

lemma split_loop_stuck:
  assumes p: "p < length (c_Signatures commit1)" "\<not> Absent (c_Signatures commit1 ! p)"
      "snd (GetByAddress (cs_ValidatorAddress (c_Signatures commit1 ! p)) valSet) \<noteq> None"
    and later: "\<forall>sigB \<in> set (c_Signatures commit2). Absent sigB \<or> cs_ValidatorAddress (c_Signatures commit1 ! p) < cs_ValidatorAddress sigB"
    and pairs: "\<forall>i j. i < length (c_Signatures commit1) \<and> j < length (c_Signatures commit2) \<longrightarrow> (\<exists>ev. pair_evidence commit1 commit2 i j = Inr ev)"
    and "i \<le> p"
  shows "split_loop valSet commit1 commit2 i j evList = None"
proof -
  let ?P = "\<lambda>vs c1 c2 i j evs r. vs = valSet \<and> c1 = commit1 \<and> c2 = commit2 \<longrightarrow> \<not> i \<le> p"
  have "?P valSet commit1 commit2 i j evList r" if "split_loop valSet commit1 commit2 i j evList = Some r" for r
  proof (rule split_loop.raw_induct [where P = ?P, OF _ that], intro impI notI, elim conjE)
    fix f vs c1 c2 i j evs r
    assume IH: "\<And>vs c1 c2 i j evs r. f vs c1 c2 i j evs = Some r \<Longrightarrow> ?P vs c1 c2 i j evs r"
      and eq: "vs = valSet" "c1 = commit1" "c2 = commit2" "i \<le> p"
      and def: "(if length (c_Signatures c1) \<le> i then Some (Inr evs)
        else let sigA = c_Signatures c1 ! i in
        if Absent sigA \<or> snd (GetByAddress (cs_ValidatorAddress sigA) vs) = None then f vs c1 c2 (Suc i) j evs
        else if length (c_Signatures c2) \<le> j then f vs c1 c2 i j evs
        else let sigB = c_Signatures c2 ! j in
        if Absent sigB then f vs c1 c2 i (Suc j) evs
        else if cs_ValidatorAddress sigA = cs_ValidatorAddress sigB
        then (case pair_evidence c1 c2 i j of Inl e \<Rightarrow> Some (Inl e) | Inr ev \<Rightarrow> f vs c1 c2 (Suc i) (Suc j) (evs @ [ev]))
        else if cs_ValidatorAddress sigA > cs_ValidatorAddress sigB then f vs c1 c2 (Suc i) j evs
        else f vs c1 c2 i (Suc j) evs) = Some r"
    have i: "i < length (c_Signatures commit1)" using eq p(1) by simp
    then have i_in: "length (c_Signatures commit1) \<le> i \<longleftrightarrow> False" by simp
    have rec: "f valSet commit1 commit2 i' j' evs' \<noteq> Some r'" if "i' \<le> p" for i' j' evs' r'
      using IH that by blast
    have body: "(if Absent (c_Signatures commit1 ! i) \<or> snd (GetByAddress (cs_ValidatorAddress (c_Signatures commit1 ! i)) valSet) = None
        then f valSet commit1 commit2 (Suc i) j evs
        else if length (c_Signatures commit2) \<le> j then f valSet commit1 commit2 i j evs
        else if Absent (c_Signatures commit2 ! j) then f valSet commit1 commit2 i (Suc j) evs
        else if cs_ValidatorAddress (c_Signatures commit1 ! i) = cs_ValidatorAddress (c_Signatures commit2 ! j)
        then (case pair_evidence commit1 commit2 i j of Inl e \<Rightarrow> Some (Inl e) | Inr ev \<Rightarrow> f valSet commit1 commit2 (Suc i) (Suc j) (evs @ [ev]))
        else if cs_ValidatorAddress (c_Signatures commit1 ! i) > cs_ValidatorAddress (c_Signatures commit2 ! j)
        then f valSet commit1 commit2 (Suc i) j evs else f valSet commit1 commit2 i (Suc j) evs) = Some r"
      using def unfolding eq(1-3) Let_def i_in if_False .
    show False
    proof (cases "i = p")
      case True
      then show False using body rec p(2,3) later nth_mem [of j "c_Signatures commit2"] eq(4)
        by (auto split: if_splits dest: order.strict_implies_not_eq order.asym)
    next
      case False
      then have "Suc i \<le> p" using eq(4) by simp
      obtain ev where "j < length (c_Signatures commit2) \<Longrightarrow> pair_evidence commit1 commit2 i j = Inr ev" using pairs i by blast
      then show False using body by (simp add: rec \<open>Suc i \<le> p\<close> eq(4) split: if_splits)
    qed
  qed
  then show ?thesis using assms(6) by (cases "split_loop valSet commit1 commit2 i j evList") auto
qed

lemma CommitSig_flags: "CommitSig_ValidateBasic cs = Inr () \<Longrightarrow> \<exists>b. CommitSig_BlockID cs blockID = Inr b"
  by (auto simp: CommitSig_ValidateBasic_def CommitSig_BlockID_def split: if_splits)

definition regular :: "Commit \<Rightarrow> bool" where
  "regular c \<longleftrightarrow> int (length (c_Signatures c)) \<le> MaxInt32 \<and> (\<forall>cs \<in> set (c_Signatures c). CommitSig_ValidateBasic cs = Inr ())"

lemma commit_vote_regular:
  assumes "regular c" "i < length (c_Signatures c)"
  shows "\<exists>v. commit_vote c i = Inr v"
proof -
  have "wrap32 (int i) = int i" using assms by (intro wrap32_id) (simp add: regular_def int32_range_iff int_limits)
  moreover obtain b where "CommitSig_BlockID (c_Signatures c ! i) (c_BlockID c) = Inr b"
    using CommitSig_flags assms nth_mem unfolding regular_def by blast
  ultimately show ?thesis using assms by (simp add: commit_vote_def GetVote_def Let_def)
qed

lemma pair_evidence_regular:
  assumes "regular c" "regular d" "i < length (c_Signatures c)" "j < length (c_Signatures d)"
  shows "\<exists>ev. pair_evidence c d i j = Inr ev"
proof -
  obtain v w where "commit_vote c i = Inr v" "commit_vote d j = Inr w" using commit_vote_regular assms by blast
  then show ?thesis by (simp add: pair_evidence_def NewPotentialAmnesiaEvidence_def deref_def)
qed

lemma phantoms_regular:
  assumes "regular c" "i + length sigs \<le> length (c_Signatures c)"
  shows "\<exists>evs. phantoms m vals c i sigs = Inr evs"
  using assms(2)
proof (induction sigs arbitrary: i)
  case (Cons sig sigs)
  obtain v where "commit_vote c i = Inr v" using commit_vote_regular [OF assms(1), of i] Cons.prems by auto
  moreover obtain evs where "phantoms m vals c (Suc i) sigs = Inr evs" using Cons.IH [of "Suc i"] Cons.prems by auto
  ultimately show ?case by (auto split: option.split)
qed simp

text \<open>
  C40: \<^verbatim>\<open>Split\<close> does not terminate on some evidence: if the two headers agree with the committed one in the fields
  that depend on the application, and a validator of the set signed the first header whose address is
  below the address of every signer of the second (in particular if nobody signed the second), the loop over the
  signatures of the second commit ends without advancing the loop around it, which then runs forever.
\<close>

theorem Split_diverges:
  assumes "sh_Header s1 = Some h1" "sh_Header s2 = Some h2" "sh_Commit s1 = Some c1" "sh_Commit s2 = Some c2"
    and "regular c1" "regular c2" "invalid_field committed h1 = []" "invalid_field committed h2 = []"
    and "p < length (c_Signatures c1)" "\<not> Absent (c_Signatures c1 ! p)"
      "snd (GetByAddress (cs_ValidatorAddress (c_Signatures c1 ! p)) valSet) \<noteq> None"
    and "\<forall>sigB \<in> set (c_Signatures c2). Absent sigB \<or> cs_ValidatorAddress (c_Signatures c1 ! p) < cs_ValidatorAddress sigB"
  shows "Split cr H committed valSet lastHeights \<lparr>che_H1 = Some s1, che_H2 = Some s2\<rparr> = None"
proof -
  have stuck: "split_loop valSet c1 c2 0 0 evs = None" for evs
    using split_loop_stuck [OF assms(9-12)] pair_evidence_regular [OF assms(5,6)] by blast
  obtain e1 e2 where "phantoms lastHeights valSet c1 0 (c_Signatures c1) = Inr e1" "phantoms lastHeights valSet c2 0 (c_Signatures c2) = Inr e2"
    using phantoms_regular [of _ 0] assms(5,6) by fastforce
  then show ?thesis using assms(1-4,7,8) stuck by (simp add: Split_def deref_def)
qed

theorem Split_diverges_witness:
  "Split demo_crypto demo_hash (demo_header None) committee Map.empty
     \<lparr>che_H1 = Some \<lparr>sh_Header = Some (demo_header (Some [1])), sh_Commit = Some (NewCommit 3 0 (demo_BlockID 1)
        [\<lparr>cs_BlockIDFlag = BlockIDFlagCommit, cs_ValidatorAddress = replicate 20 3, cs_Timestamp = 9, cs_Signature = replicate 20 3\<rparr>])\<rparr>,
      che_H2 = Some \<lparr>sh_Header = Some (demo_header None), sh_Commit = Some (NewCommit 3 0 (demo_BlockID 2) [NewCommitSigAbsent])\<rparr>\<rparr> = None"
  by (rule Split_diverges [where p = 0])
    (simp add: NewCommit_def regular_def invalid_field_def demo_header_def Absent_def NewCommitSigAbsent_def block_id_flags
      GetByAddress_def committee_def demo_member_def int_limits CommitSig_ValidateBasic_def AddressSize_def MaxSignatureSize_def)+

section \<open>Conflicting votes make evidence\<close>

text \<open>Votes in a vote set come from calls of \<^verbatim>\<open>AddVote\<close>.\<close>

definition kept_votes :: "VoteSet \<Rightarrow> Vote set" where
  "kept_votes vs = {v. Some v \<in> set (vst_votes vs)} \<union> {v. \<exists>k bv. vst_votesByBlock vs k = Some bv \<and> Some v \<in> set (bv_votes bv)}"

lemma kept_by_block: "vst_votesByBlock vs k = Some bv \<Longrightarrow> Some v \<in> set (bv_votes bv) \<Longrightarrow> v \<in> kept_votes vs"
  by (auto simp: kept_votes_def)

lemma set_update_votes: "Some v \<in> set (xs[i := Some x]) \<Longrightarrow> v = x \<or> Some v \<in> set xs"
  using set_update_subset_insert [of xs i "Some x"] by auto

lemma set_copy_votes: "Some v \<in> set (copy_votes xs ys) \<Longrightarrow> Some v \<in> set xs \<or> Some v \<in> set ys"
  by (auto simp: copy_votes_def dest: set_zip_leftD set_zip_rightD split: if_splits)

lemma record_vote_kept:
  assumes "record_vote vs vote k p = Inr (c, vs')"
  shows "kept_votes vs' \<subseteq> insert vote (kept_votes vs)" "vst_votesByBlock vs' = vst_votesByBlock vs"
proof -
  have "(vst_votes vs' = vst_votes vs \<or> (\<exists>i. vst_votes vs' = (vst_votes vs)[i := Some vote])) \<and> vst_votesByBlock vs' = vst_votesByBlock vs"
  proof (cases "at_index (vst_votes vs) (v_ValidatorIndex vote)")
    case (Inr e)
    then show ?thesis
      using assms by (cases e; cases "vst_maj23 vs") (auto simp: record_vote_def Let_def and_then_Inr_iff split: if_split_asm)
  qed (use assms in \<open>simp add: record_vote_def Let_def\<close>)
  then show "kept_votes vs' \<subseteq> insert vote (kept_votes vs)" "vst_votesByBlock vs' = vst_votesByBlock vs"
    by (auto simp: kept_votes_def dest: set_update_votes)
qed

lemma tally_block_kept:
  assumes "tally_block vs vote k p bv = Inr vs'" "\<And>v. Some v \<in> set (bv_votes bv) \<Longrightarrow> v \<in> kept_votes vs"
  shows "kept_votes vs' \<subseteq> insert vote (kept_votes vs)"
proof -
  obtain bv' where add: "blockVotes_addVerifiedVote bv vote p = Inr bv'"
    and vs': "vst_votesByBlock vs' = (vst_votesByBlock vs)(k \<mapsto> bv')"
      "vst_votes vs' = vst_votes vs \<or> vst_votes vs' = copy_votes (bv_votes bv') (vst_votes vs)"
    using assms(1) by (auto simp: tally_block_def Let_def and_then_Inr_iff split: if_splits)
  have bv': "v = vote \<or> v \<in> kept_votes vs" if "Some v \<in> set (bv_votes bv')" for v
    using add that assms(2)
    by (auto simp: blockVotes_addVerifiedVote_def Let_def and_then_Inr_iff dest!: set_update_votes split: if_splits)
  have "v = vote \<or> v \<in> kept_votes vs" if "Some v \<in> set (vst_votes vs')" for v
    using that vs'(2) bv' [of v] set_copy_votes [of v "bv_votes bv'" "vst_votes vs"] by (auto simp: kept_votes_def)
  moreover have "v = vote \<or> v \<in> kept_votes vs" if "vst_votesByBlock vs' k' = Some bw" "Some v \<in> set (bv_votes bw)" for v k' bw
    using that vs'(1) bv' kept_by_block by (auto split: if_splits)
  ultimately show ?thesis unfolding kept_votes_def [of vs'] by blast
qed

lemma addVerifiedVote_kept:
  assumes "addVerifiedVote vs vote k p = Inr (added, c, vs')"
  shows "kept_votes vs' \<subseteq> insert vote (kept_votes vs)"
proof -
  obtain w where r: "record_vote vs vote k p = Inr (c, w)"
    and t: "vs' = w \<or> (\<exists>bv. tally_block w vote k p bv = Inr vs' \<and> (vst_votesByBlock w k = Some bv \<or> bv = newBlockVotes False (vst_size w)))"
    using assms by (auto simp: addVerifiedVote_def and_then_Inr_iff split: option.splits if_splits)
  have "kept_votes vs' \<subseteq> insert vote (kept_votes w)"
    using t tally_block_kept kept_by_block by (fastforce simp: newBlockVotes_def)
  then show ?thesis using record_vote_kept(1) [OF r] by blast
qed

lemma addVote_kept:
  assumes "addVote cr vs (Some v) = Inr (added, err, vs')"
  shows "kept_votes vs' \<subseteq> insert v (kept_votes vs)"
proof (cases "\<exists>i. addressed vs i v")
  case False
  then show ?thesis using addVote_not_addressed [OF False, of cr] assms by auto
next
  case True
  then obtain i where "addressed vs i v" by blast
  from assms [unfolded addVote_addressed [OF this]] show ?thesis
    by (auto simp: and_then_Inr_iff dest: addVerifiedVote_kept split: option.splits sum.splits fault.splits if_splits)
qed

lemma reachable_votes_votable:
  assumes "vote_set_reachable cr chainID h r t vals vs"
  shows "\<forall>v \<in> kept_votes vs. votable cr v"
  using assms
proof (induction rule: vote_set_reachable.induct)
  case (vote_set_new vs)
  then show ?case by (auto simp: NewVoteSet_def kept_votes_def split: if_splits)
next
  case (vote_set_add vs v added err vs')
  then show ?case using addVote_kept [of cr vs v added err vs'] by (auto simp: AddVote_def)
next
  case (vote_set_peer vs peer b perr vs')
  have "kept_votes vs' \<subseteq> kept_votes vs"
    using vote_set_peer.hyps(2)
    by (auto simp: SetPeerMaj23_def Let_def kept_votes_def newBlockVotes_def split: option.splits if_splits)
  then show ?case using vote_set_peer.IH by blast
qed

lemma conflict_addressed:
  assumes "addVote cr vs (Some vote) = Inr (added, Some (ErrVoteConflictingVotes c w), vs')"
  shows "\<exists>i. addressed vs i vote"
proof (rule ccontr)
  assume n: "\<not> (\<exists>i. addressed vs i vote)"
  have "\<exists>err. addVote cr vs (Some vote) = Inr (False, Some err, vs) \<and>
      err \<in> {ErrVoteInvalidValidatorIndex, ErrVoteInvalidValidatorAddress, ErrVoteUnexpectedStep}"
  proof (cases "0 \<le> v_ValidatorIndex vote \<and> v_ValidatorIndex vote < int (vst_size vs)")
    case True
    then obtain i where "v_ValidatorIndex vote = int i" "i < vst_size vs" by (metis nonneg_int_cases of_nat_less_iff)
    with n show ?thesis by (auto simp: addVote_def Let_def GetByIndex_def addressed_def ValidatorSet_Size_def)
  next
    case False
    then show ?thesis by (auto simp: addVote_def Let_def GetByIndex_def ValidatorSet_Size_def)
  qed
  with assms show False by auto
qed

lemma conflict_origin:
  assumes inv: "vote_set_inv cr vs" and "proper_BlockID (v_BlockID vote)"
    and add: "addVote cr vs (Some vote) = Inr (added, Some (ErrVoteConflictingVotes c w), vs')"
  shows "w = vote \<and> (\<exists>i < vst_size vs. vst_votes vs ! i = Some c \<and> vote_ok cr vs i c \<and> vote_ok cr vs i vote) \<and>
    BlockID_Key (v_BlockID c) \<noteq> BlockID_Key (v_BlockID vote)"
proof -
  obtain i where i: "addressed vs i vote" "i < vst_size vs" using conflict_addressed [OF add] by (auto simp: addressed_def)
  let ?k = "BlockID_Key (v_BlockID vote)"
  obtain existing where ex: "getVote vs (int i) ?k = Inr existing" using getVote_total [OF inv i(2)] by blast
  have ver: "Vote_Verify cr (vst_chainID vs) pk vote \<noteq> Inl (Err (ErrVoteConflictingVotes c w))" for pk
    by (auto simp: Vote_Verify_def and_then_def lift_fault_def split: sum.splits fault.splits if_splits)
  obtain pk where pk: "val_PubKey (vs_Validators (vst_valSet vs) ! i) = Some pk" "existing = None" "Vote_Verify cr (vst_chainID vs) pk vote = Inr ()"
    using add addVote_addressed [OF i(1), of cr] ex ver by (auto split: option.splits if_splits sum.splits fault.splits)
  have ok: "vote_ok cr vs i vote" using vote_ok_addressed [OF i(2)] i(1) pk(1,3) assms(2) by blast
  obtain added' vs'' where "addVerifiedVote vs vote ?k (power_of (vst_valSet vs) i) = Inr (added', vst_votes vs ! i, vs'')"
    using addVerifiedVote_inv [OF inv i(2) ok] ex pk(2) by blast
  then have c: "vst_votes vs ! i = Some c" "w = vote"
    using add addVote_addressed [OF i(1), of cr] ex pk by (auto split: option.splits if_splits)
  have "length (vst_votes vs) = vst_size vs" "vote_ok cr vs i c" using inv i(2) c(1) by (auto simp: inv_upto_def slots_ok_def)
  moreover have "BlockID_Key (v_BlockID c) \<noteq> ?k" using ex pk(2) c(1) calculation(1) i(2) by (auto simp: getVote_def)
  ultimately show ?thesis using c ok i(2) by blast
qed

lemma Vote_Verify_iff:
  "Vote_Verify cr chainID pk v = Inr () \<longleftrightarrow> cr_Address cr pk = v_ValidatorAddress v \<and>
     (\<exists>b. VoteSignBytes cr chainID v = Inr b \<and> cr_VerifyBytes cr pk b (v_Signature v))"
  by (auto simp: Vote_Verify_def and_then_Inr_iff)

text \<open>
  C5: A vote set that reports conflicting votes gives valid evidence: whenever \<^verbatim>\<open>AddVote\<close> on a reachable vote set fails with
  \<^verbatim>\<open>ErrVoteConflictingVotes\<close>, \<^verbatim>\<open>NewDuplicateVoteEvidence\<close> on its two votes passes \<^verbatim>\<open>ValidateBasic\<close>, and
  passes \<^verbatim>\<open>Verify\<close> for the key of the validator whose votes they are.
\<close>

theorem conflict_evidence_valid:
  assumes "vote_set_reachable cr chainID h r t vals vs" "vset_wf vals" "vset_keys vals" "votable cr vote"
    and "AddVote cr (Some vs) (Some vote) = Inr (added, Some (ErrVoteConflictingVotes a b), vs')"
  shows "\<exists>dve i pk. NewDuplicateVoteEvidence (Some a) (Some b) = Some dve \<and> i < ValidatorSet_Size vals \<and> v_ValidatorIndex vote = int i \<and>
    val_PubKey (vs_Validators vals ! i) = Some pk \<and>
    DuplicateVoteEvidence_ValidateBasic dve = Inr () \<and> DuplicateVoteEvidence_Verify cr chainID pk dve = Inr ()"
proof -
  have inv: "vote_set_inv cr vs" and vs: "vst_valSet vs = vals" "vst_chainID vs = chainID" using reachable_inv [OF assms(1-3)] by simp_all
  have add: "addVote cr vs (Some vote) = Inr (added, Some (ErrVoteConflictingVotes a b), vs')" using assms(5) by (simp add: AddVote_def)
  obtain i where i: "i < vst_size vs" "vst_votes vs ! i = Some a" "vote_ok cr vs i a" "vote_ok cr vs i vote"
    and b: "b = vote" and key: "BlockID_Key (v_BlockID a) \<noteq> BlockID_Key (v_BlockID vote)"
    using conflict_origin [OF inv votable_facts(1) [OF assms(4)] add] by blast
  have "Some a \<in> set (vst_votes vs)" using inv i(1,2) nth_mem [of i "vst_votes vs"] by (simp add: inv_upto_def slots_ok_def)
  then have basic: "Vote_ValidateBasic a = Inr ()" "Vote_ValidateBasic vote = Inr ()"
    using reachable_votes_votable [OF assms(1)] assms(4) by (auto simp: kept_votes_def votable_def)
  obtain pk where pk: "val_PubKey (vs_Validators vals ! i) = Some pk" "Vote_Verify cr chainID pk a = Inr ()" "Vote_Verify cr chainID pk vote = Inr ()"
    using i(3,4) vs by (auto simp: vote_ok_def)
  have ne: "v_BlockID a \<noteq> v_BlockID vote" using key by auto
  have same: "v_Height a = v_Height vote" "v_Round a = v_Round vote" "v_Type a = v_Type vote" "v_ValidatorAddress a = v_ValidatorAddress vote"
      "v_ValidatorIndex a = v_ValidatorIndex vote" "v_ValidatorIndex vote = int i"
    using i(3,4) by (auto simp: vote_ok_def)
  obtain dve where dve: "NewDuplicateVoteEvidence (Some a) (Some vote) = Some dve"
      "dve = \<lparr>dve_VoteA = Some a, dve_VoteB = Some vote\<rparr> \<and> BlockID_Key (v_BlockID a) < BlockID_Key (v_BlockID vote) \<or>
       dve = \<lparr>dve_VoteA = Some vote, dve_VoteB = Some a\<rparr> \<and> BlockID_Key (v_BlockID vote) < BlockID_Key (v_BlockID a)"
    using less_linear [of "BlockID_Key (v_BlockID a)" "BlockID_Key (v_BlockID vote)"] key
    by (cases "BlockID_Key (v_BlockID a) < BlockID_Key (v_BlockID vote)") (auto simp: NewDuplicateVoteEvidence_def)
  have "DuplicateVoteEvidence_ValidateBasic dve = Inr ()" using dve(2) basic by (auto simp: DuplicateVoteEvidence_ValidateBasic_def)
  moreover have "DuplicateVoteEvidence_Verify cr chainID pk dve = Inr ()"
    using dve(2) pk(2,3) same ne by (auto simp: DuplicateVoteEvidence_Verify_iff Vote_Verify_iff)
  ultimately show ?thesis using dve(1) i(1) pk(1) same(6) b vs(1) by blast
qed

lemma addVote_conflict:
  assumes "vote_set_inv cr vs" "i < vst_size vs" "vote_ok cr vs i v" "vst_votes vs ! i = Some e"
    and "getVote vs (int i) (BlockID_Key (v_BlockID v)) = Inr None"
  shows "\<exists>added vs'. addVote cr vs (Some v) = Inr (added, Some (ErrVoteConflictingVotes e v), vs')"
proof -
  have ad: "addressed vs i v" and pk: "\<exists>pk. val_PubKey (vs_Validators (vst_valSet vs) ! i) = Some pk \<and> Vote_Verify cr (vst_chainID vs) pk v = Inr ()"
    using vote_ok_addressed [OF assms(2)] assms(3) by blast+
  obtain added vs' where "addVerifiedVote vs v (BlockID_Key (v_BlockID v)) (power_of (vst_valSet vs) i) = Inr (added, Some e, vs')"
    using addVerifiedVote_inv [OF assms(1-3,5)] assms(4) by auto
  then show ?thesis using addVote_addressed [OF ad, of cr] pk assms(5) by auto
qed

lemma getVote_other:
  assumes "vote_set_inv cr vs" "conflict_free vs" "i < vst_size vs" "vst_votes vs ! i = Some e" "BlockID_Key (v_BlockID e) \<noteq> k"
  shows "getVote vs (int i) k = Inr None"
proof -
  have "length (vst_votes vs) = vst_size vs" using assms(1) by (simp add: inv_upto_def slots_ok_def)
  moreover have "length (bv_votes bv) = vst_size vs \<and> bv_votes bv ! i = None" if "vst_votesByBlock vs k = Some bv" for bv
    using block_ok_length [OF inv_block [OF assms(1) that]] inv_block [OF assms(1) that] that assms(2-5)
    by (cases "bv_votes bv ! i") (auto simp: conflict_free_def block_ok_def)
  ultimately show ?thesis using assms(3-5) by (auto simp: getVote_def blockVotes_getByIndex_def split: option.splits)
qed

theorem conflict_evidence_valid_witness:
  "\<exists>vs vs' added dve. demo_reachable vs \<and>
     AddVote demo_crypto (Some vs) (Some (demo_precommit 1 1 2)) =
       Inr (added, Some (ErrVoteConflictingVotes (demo_precommit 2 1 2) (demo_precommit 1 1 2)), vs') \<and>
     NewDuplicateVoteEvidence (Some (demo_precommit 2 1 2)) (Some (demo_precommit 1 1 2)) = Some dve \<and>
     DuplicateVoteEvidence_Verify demo_crypto [116] (replicate 20 1) dve = Inr ()"
proof -
  have com: "vs_Validators committee ! 2 = demo_member 1 10" by (simp add: committee_def)
  obtain w where w: "NewVoteSet [116] 5 0 PrecommitType committee = Inr w" "vst_votes w = [None, None, None]"
    by (simp add: NewVoteSet_def committee_facts numeral_3_eq_3)
  have cf: "conflict_free w" using w(1) by (auto simp: NewVoteSet_def conflict_free_def)
  obtain vs where vs: "demo_reachable vs" "conflict_free vs" "vst_votes vs = [None, None, Some (demo_precommit 2 1 2)]"
    using demo_step [OF vote_set_new [OF w(1)] cf _ com, of 2] w(2) by auto
  note i = reachable_inv [OF vs(1) committee_facts(1,2)]
  have ok: "vote_ok demo_crypto vs 2 (demo_precommit 1 1 2)" using demo_vote_ok [OF _ _ _ _ _ _ com, of vs 1] i by simp
  have "BlockID_Key (v_BlockID (demo_precommit 2 1 2)) \<noteq> BlockID_Key (v_BlockID (demo_precommit 1 1 2))" by code_simp
  then have "getVote vs (int 2) (BlockID_Key (v_BlockID (demo_precommit 1 1 2))) = Inr None"
    using getVote_other [of demo_crypto vs 2 "demo_precommit 2 1 2"] vs(2,3) i committee_facts(3) by simp
  then obtain added vs' where add: "AddVote demo_crypto (Some vs) (Some (demo_precommit 1 1 2)) =
       Inr (added, Some (ErrVoteConflictingVotes (demo_precommit 2 1 2) (demo_precommit 1 1 2)), vs')"
    using addVote_conflict [of demo_crypto vs 2 "demo_precommit 1 1 2"] i ok vs(3) committee_facts(3) by (auto simp: AddVote_def)
  from conflict_evidence_valid [OF vs(1) committee_facts(1,2) demo_votable add]
  obtain dve where "NewDuplicateVoteEvidence (Some (demo_precommit 2 1 2)) (Some (demo_precommit 1 1 2)) = Some dve"
      "DuplicateVoteEvidence_Verify demo_crypto [116] (replicate 20 1) dve = Inr ()"
    using com by (auto simp: demo_precommit_def demo_member_def)
  with vs(1) add show ?thesis by blast
qed

end
