(* ===== verification/Blocks.thy ===== *)
theory Blocks
  imports Evidence
begin

text \<open>
  Blocks of \<^verbatim>\<open>types/block.go\<close>: the data and the evidence of a block with their memoised hashes, validation, the
  block hash, part sets of a block, the protobuf messages of blocks and evidence, and the bounds on the size of the
  data. The mutex of a block is left out; the methods that remember a hash return the updated value.
  Generated encoders are the arguments \<open>enc\<close> (evidence) and \<open>marshal\<close> (a block message).
\<close>

section \<open>Evidence in a block\<close>

record EvidenceData =
  ed_Evidence :: "Evidence list"
  ed_hash :: "bytes option"

definition EvidenceData_Hash :: "encoders \<Rightarrow> (bytes \<Rightarrow> bytes) \<Rightarrow> EvidenceData \<Rightarrow> (evidence_error, bytes option \<times> EvidenceData) result" where
  "EvidenceData_Hash enc H data =
     and_then (case ed_hash data of
         None \<Rightarrow> if ed_Evidence data = [] then Inr None else and_then (EvidenceList_Hash enc H (ed_Evidence data)) (\<lambda>h. Inr (Some h))
       | Some h \<Rightarrow> Inr (Some h))
       (\<lambda>h. Inr (h, data\<lparr>ed_hash := h\<rparr>))"

text \<open>Messages for evidence; a proof of lock change that cannot be encoded is replaced by an empty one.\<close>

definition SignedHeader_ToProto :: "SignedHeader \<Rightarrow> tmproto_SignedHeader" where
  "SignedHeader_ToProto sh = (sh_Header sh, map_option Commit_ToProto (sh_Commit sh))"

definition AmnesiaEvidence_ToProto :: "AmnesiaEvidence \<Rightarrow> (evidence_error, tmproto_AmnesiaEvidence) result" where
  "AmnesiaEvidence_ToProto e =
     and_then (deref (ae_PotentialAmnesiaEvidence e)) (\<lambda>pe.
     and_then (deref (ae_Polc e)) (\<lambda>polc.
       Inr \<lparr>pba_PotentialAmnesiaEvidence = Some pe,
            pba_Polc = Some (case POLC_ToProto polc of Inl _ \<Rightarrow> \<lparr>pbp_Votes = None, pbp_PubKey = None\<rparr> | Inr p \<Rightarrow> p)\<rparr>))"

definition EvidenceToProto :: "Evidence \<Rightarrow> (evidence_error, tmproto_Evidence) result" where
  "EvidenceToProto evidence =
     (case evidence of
        DuplicateVote e \<Rightarrow> Inr (PbDuplicateVote (Some e))
      | ConflictingHeaders e \<Rightarrow> Inr (PbConflictingHeaders (Some (map_option SignedHeader_ToProto (che_H1 e), map_option SignedHeader_ToProto (che_H2 e))))
      | LunaticValidator e \<Rightarrow> Inr (PbLunaticValidator (Some e))
      | PhantomValidator e \<Rightarrow> Inr (PbPhantomValidator (Some e))
      | PotentialAmnesia e \<Rightarrow> Inr (PbPotentialAmnesia (Some e))
      | Amnesia e \<Rightarrow> and_then (AmnesiaEvidence_ToProto e) (\<lambda>p. Inr (PbAmnesia (Some p))))"

record tmproto_EvidenceData =
  ped_Evidence :: "tmproto_Evidence list"
  ped_Hash :: "bytes option"

fun evidence_to_proto :: "Evidence list \<Rightarrow> (evidence_error, tmproto_Evidence list) result" where
  "evidence_to_proto [] = Inr []"
| "evidence_to_proto (e # es) = and_then (EvidenceToProto e) (\<lambda>p. and_then (evidence_to_proto es) (\<lambda>ps. Inr (p # ps)))"

definition EvidenceData_ToProto :: "EvidenceData \<Rightarrow> (evidence_error, tmproto_EvidenceData) result" where
  "EvidenceData_ToProto data =
     and_then (evidence_to_proto (ed_Evidence data)) (\<lambda>eviBzs. Inr \<lparr>ped_Evidence = eviBzs, ped_Hash = ed_hash data\<rparr>)"

fun evidence_from_proto :: "crypto \<Rightarrow> (bytes \<Rightarrow> bytes) \<Rightarrow> tmproto_Evidence list \<Rightarrow> (evidence_error, Evidence list) result" where
  "evidence_from_proto cr H [] = Inr []"
| "evidence_from_proto cr H (p # ps) =
     and_then (EvidenceFromProto cr H (Some p)) (\<lambda>e. and_then (evidence_from_proto cr H ps) (\<lambda>es. Inr (e # es)))"

definition EvidenceData_FromProto :: "crypto \<Rightarrow> (bytes \<Rightarrow> bytes) \<Rightarrow> tmproto_EvidenceData \<Rightarrow> (evidence_error, EvidenceData) result" where
  "EvidenceData_FromProto cr H eviData =
     and_then (evidence_from_proto cr H (ped_Evidence eviData)) (\<lambda>eviBzs. Inr \<lparr>ed_Evidence = eviBzs, ed_hash = ped_Hash eviData\<rparr>)"

section \<open>Blocks\<close>

record Block =
  b_Header :: Header
  b_Data :: Data
  b_Evidence :: EvidenceData
  b_LastCommit :: "Commit option"

fun check_evidence :: "crypto \<Rightarrow> (bytes \<Rightarrow> bytes) \<Rightarrow> nat \<Rightarrow> Evidence list \<Rightarrow> (block_error, unit) result" where
  "check_evidence cr H i [] = Inr ()"
| "check_evidence cr H i (ev # evs) =
     (case ev of
        ConflictingHeaders _ \<Rightarrow> Inl (Err (ErrFoundEvidence i))
      | PotentialAmnesia _ \<Rightarrow> Inl (Err (ErrFoundEvidence i))
      | _ \<Rightarrow> and_then (lift_fault (\<lambda>_. ErrInvalidBlockEvidence i) (Evidence_ValidateBasic cr H ev)) (\<lambda>_. check_evidence cr H (Suc i) evs))"

definition Block_ValidateBasic :: "encoders \<Rightarrow> crypto \<Rightarrow> (bytes \<Rightarrow> bytes) \<Rightarrow> Block option \<Rightarrow> (block_error, Block) result" where
  "Block_ValidateBasic enc cr H block =
     (case block of
        None \<Rightarrow> Inl (Err ErrNilBlock)
      | Some b \<Rightarrow>
          and_then (Header_ValidateBasic (b_Header b)) (\<lambda>_.
          case b_LastCommit b of
            None \<Rightarrow> Inl (Err ErrNilLastCommit)
          | Some lc \<Rightarrow>
              and_then (if h_Height (b_Header b) > 1 then lift_fault ErrWrongCommit (Commit_ValidateBasic lc) else Inr ()) (\<lambda>_.
              and_then (lift_fault ErrWrongCommit (Commit_Hash cr H lc)) (\<lambda>(lch, lc).
                if raw (h_LastCommitHash (b_Header b)) \<noteq> lch then Inl (Err ErrWrongLastCommitHash)
                else let (dh, data) = Data_Hash H (b_Data b) in
                if raw (h_DataHash (b_Header b)) \<noteq> raw dh then Inl (Err ErrWrongDataHash)
                else and_then (check_evidence cr H 0 (ed_Evidence (b_Evidence b))) (\<lambda>_.
                  and_then (lift_fault (\<lambda>_. ErrWrongEvidenceHash) (EvidenceData_Hash enc H (b_Evidence b))) (\<lambda>(eh, evidence).
                    if raw (h_EvidenceHash (b_Header b)) \<noteq> raw eh then Inl (Err ErrWrongEvidenceHash)
                    else Inr (b\<lparr>b_LastCommit := Some lc, b_Data := data, b_Evidence := evidence\<rparr>)))))))"

text \<open>\<^verbatim>\<open>fillHeader\<close> and \<^verbatim>\<open>Hash\<close>: computing a hash for the first time remembers it in the block; a commit keeps the hash that its method returns.\<close>

definition fillHeader :: "encoders \<Rightarrow> crypto \<Rightarrow> (bytes \<Rightarrow> bytes) \<Rightarrow> Commit \<Rightarrow> Block \<Rightarrow> (block_error, Block) result" where
  "fillHeader enc cr H lastCommit b =
     and_then (if h_LastCommitHash (b_Header b) = None
       then and_then (lift_fault ErrWrongCommit (Commit_Hash cr H lastCommit)) (\<lambda>(_, lc).
         Inr (b\<lparr>b_Header := (b_Header b)\<lparr>h_LastCommitHash := c_hash lc\<rparr>, b_LastCommit := Some lc\<rparr>))
       else Inr b) (\<lambda>b.
     and_then (if h_DataHash (b_Header b) = None
       then let (dh, data) = Data_Hash H (b_Data b) in Inr (b\<lparr>b_Header := (b_Header b)\<lparr>h_DataHash := dh\<rparr>, b_Data := data\<rparr>)
       else Inr b) (\<lambda>b.
     if h_EvidenceHash (b_Header b) = None
     then and_then (lift_fault (\<lambda>_. ErrWrongEvidenceHash) (EvidenceData_Hash enc H (b_Evidence b))) (\<lambda>(eh, evidence).
       Inr (b\<lparr>b_Header := (b_Header b)\<lparr>h_EvidenceHash := eh\<rparr>, b_Evidence := evidence\<rparr>))
     else Inr b))"

definition Block_Hash :: "encoders \<Rightarrow> crypto \<Rightarrow> (bytes \<Rightarrow> bytes) \<Rightarrow> Block option \<Rightarrow> (block_error, bytes \<times> Block option) result" where
  "Block_Hash enc cr H block =
     (case block of
        None \<Rightarrow> Inr ([], None)
      | Some b \<Rightarrow>
          (case b_LastCommit b of
             None \<Rightarrow> Inr ([], Some b)
           | Some lc \<Rightarrow> and_then (fillHeader enc cr H lc b) (\<lambda>b. Inr (Header_Hash cr H (b_Header b), Some b))))"

definition Block_HashesTo :: "encoders \<Rightarrow> crypto \<Rightarrow> (bytes \<Rightarrow> bytes) \<Rightarrow> bytes \<Rightarrow> Block option \<Rightarrow> (block_error, bool \<times> Block option) result" where
  "Block_HashesTo enc cr H hash block =
     (if hash = [] \<or> block = None then Inr (False, block)
      else and_then (Block_Hash enc cr H block) (\<lambda>(h, block). Inr (h = hash, block)))"

subsection \<open>Messages and part sets\<close>

record tmproto_Block =
  pbk_Header :: Header
  pbk_Data :: tmproto_Data
  pbk_Evidence :: tmproto_EvidenceData
  pbk_LastCommit :: "tmproto_Commit option"

definition Block_ToProto :: "Block option \<Rightarrow> (block_error, tmproto_Block) result" where
  "Block_ToProto block =
     (case block of
        None \<Rightarrow> Inl (Err ErrNilBlock)
      | Some b \<Rightarrow>
          and_then (lift_fault (\<lambda>_. ErrWrongEvidenceHash) (EvidenceData_ToProto (b_Evidence b))) (\<lambda>pe.
          Inr \<lparr>pbk_Header = b_Header b, pbk_Data = Data_ToProto (b_Data b), pbk_Evidence = pe,
               pbk_LastCommit = map_option Commit_ToProto (b_LastCommit b)\<rparr>))"

definition MakePartSet :: "(tmproto_Block \<Rightarrow> bytes option) \<Rightarrow> (bytes \<Rightarrow> bytes) \<Rightarrow> nat \<Rightarrow> Block option \<Rightarrow> (part_error, PartSet option) result" where
  "MakePartSet marshal H partSize block =
     (case block of
        None \<Rightarrow> Inr None
      | Some b \<Rightarrow>
          (case Block_ToProto block of
             Inl _ \<Rightarrow> Inl (Panic ''ToProto'')
           | Inr pbb \<Rightarrow>
               (case marshal pbb of
                  None \<Rightarrow> Inl (Panic ''Marshal'')
                | Some bz \<Rightarrow> and_then (NewPartSetFromData H bz partSize) (\<lambda>ps. Inr (Some ps)))))"

text \<open>The error of decoding the evidence is dropped; the evidence is then empty.\<close>

definition BlockFromProto :: "encoders \<Rightarrow> crypto \<Rightarrow> (bytes \<Rightarrow> bytes) \<Rightarrow> tmproto_Block option \<Rightarrow> (block_error, Block) result" where
  "BlockFromProto enc cr H pb =
     (case pb of
        None \<Rightarrow> Inl (Err ErrNilBlock)
      | Some bp \<Rightarrow>
          and_then (HeaderFromProto (Some (pbk_Header bp))) (\<lambda>h.
          and_then (DataFromProto (Some (pbk_Data bp))) (\<lambda>data.
          and_then (case EvidenceData_FromProto cr H (pbk_Evidence bp) of
              Inl (Panic s) \<Rightarrow> Inl (Panic s)
            | Inl (Err _) \<Rightarrow> Inr \<lparr>ed_Evidence = [], ed_hash = None\<rparr>
            | Inr e \<Rightarrow> Inr e) (\<lambda>evidence.
          and_then (case pbk_LastCommit bp of
              None \<Rightarrow> Inr None
            | Some c \<Rightarrow> and_then (lift_fault ErrWrongCommit (CommitFromProto (Some c))) (\<lambda>lc. Inr (Some lc))) (\<lambda>lc.
          Block_ValidateBasic enc cr H (Some \<lparr>b_Header = h, b_Data = data, b_Evidence = evidence, b_LastCommit = lc\<rparr>))))))"

subsection \<open>Bounds on the data\<close>

definition MaxHeaderBytes :: int64 where "MaxHeaderBytes = 626"
definition MaxOverheadForBlock :: int64 where "MaxOverheadForBlock = 11"
definition MaxVoteBytes :: int64 where "MaxVoteBytes = 209"
definition MaxEvidenceBytes :: int64 where "MaxEvidenceBytes = 444"

definition MaxDataBytes :: "int64 \<Rightarrow> int64 \<Rightarrow> int64 \<Rightarrow> (block_error, int64) result" where
  "MaxDataBytes maxBytes valsCount evidenceCount =
     (let maxDataBytes = wrap64 (wrap64 (wrap64 (wrap64 (maxBytes - MaxOverheadForBlock) - MaxHeaderBytes) -
          wrap64 (valsCount * MaxVoteBytes)) - wrap64 (evidenceCount * MaxEvidenceBytes))
      in if maxDataBytes < 0 then Inl (Panic ''Negative MaxDataBytes'') else Inr maxDataBytes)"

definition MaxDataBytesUnknownEvidence :: "int64 \<Rightarrow> int64 \<Rightarrow> int64 \<Rightarrow> (block_error, int64) result" where
  "MaxDataBytesUnknownEvidence maxBytes valsCount maxNumEvidence =
     (let maxEvidenceBytes = wrap64 (maxNumEvidence * MaxEvidenceBytes);
          maxDataBytes = wrap64 (wrap64 (wrap64 (wrap64 (maxBytes - MaxOverheadForBlock) - MaxHeaderBytes) -
          wrap64 (valsCount * MaxVoteBytes)) - maxEvidenceBytes)
      in if maxDataBytes < 0 then Inl (Panic ''Negative MaxDataBytesUnknownEvidence'') else Inr maxDataBytes)"

section \<open>The hash of a block and its content\<close>

lemma HashFromByteSlices_Nil [simp]: "HashFromByteSlices H [] = []"
  by (simp add: HashFromByteSlices.simps [of H "[]"])

lemma Data_Hash_raw: "d_hash data = None \<Longrightarrow> raw (fst (Data_Hash H data)) = Txs_Hash H (d_Txs data)"
  by (simp add: Data_Hash_def Txs_Hash_def Let_def)

lemma EvidenceData_Hash_Inr:
  "EvidenceData_Hash enc H data = Inr (eh, data') \<Longrightarrow> data' = data\<lparr>ed_hash := eh\<rparr> \<and> (ed_hash data = None \<longrightarrow> EvidenceList_Hash enc H (ed_Evidence data) = Inr (raw eh))"
  by (auto simp: EvidenceData_Hash_def EvidenceList_Hash_def and_then_Inr_iff split: option.splits if_splits)

lemma Commit_Hash_Inr:
  "Commit_Hash cr H c = Inr (h, c') \<Longrightarrow> raw (c_hash c') = h \<and> (\<exists>m. c' = c\<lparr>c_hash := m\<rparr>) \<and>
     (c_hash c = None \<longrightarrow> (\<exists>bs. marshal_sigs cr (c_Signatures c) = Inr bs \<and> h = HashFromByteSlices H bs))"
  by (cases c) (auto simp: Commit_Hash_def and_then_Inr_iff Let_def split: option.splits if_splits)

text \<open>What a block that passes validation satisfies.\<close>

lemma Block_ValidateBasic_Inr:
  assumes "Block_ValidateBasic enc cr H (Some b) = Inr b'"
  obtains lc lc' eh evs where "b_LastCommit b = Some lc" "Commit_Hash cr H lc = Inr (raw (h_LastCommitHash (b_Header b)), lc')"
    "raw (h_DataHash (b_Header b)) = raw (fst (Data_Hash H (b_Data b)))"
    "EvidenceData_Hash enc H (b_Evidence b) = Inr (eh, evs)" "raw (h_EvidenceHash (b_Header b)) = raw eh"
    "Header_ValidateBasic (b_Header b) = Inr ()"
    "b' = b\<lparr>b_LastCommit := Some lc', b_Data := snd (Data_Hash H (b_Data b)), b_Evidence := evs\<rparr>"
  using assms
  by (auto simp: Block_ValidateBasic_def and_then_Inr_iff Let_def Data_Hash_def split: option.splits if_splits)

lemma Header_Hash_plain: "plain_header h = plain_header k \<Longrightarrow> Header_Hash cr H h = Header_Hash cr H k"
  by (cases h; cases k) (simp add: plain_header_def Header_Hash_def header_fields_def split: option.splits)

lemma Block_Hash_validated:
  assumes "Block_ValidateBasic enc cr H (Some b) = Inr b'"
  shows "\<exists>b''. Block_Hash enc cr H (Some b) = Inr (Header_Hash cr H (b_Header b), Some b'')"
proof (rule Block_ValidateBasic_Inr [OF assms])
  fix lc lc' eh evs
  assume lc: "b_LastCommit b = Some lc" "Commit_Hash cr H lc = Inr (raw (h_LastCommitHash (b_Header b)), lc')"
    and data: "raw (h_DataHash (b_Header b)) = raw (fst (Data_Hash H (b_Data b)))"
    and ev: "EvidenceData_Hash enc H (b_Evidence b) = Inr (eh, evs)" "raw (h_EvidenceHash (b_Header b)) = raw eh"
  obtain dh dat where dh: "Data_Hash H (b_Data b) = (dh, dat)" by fastforce
  have r: "raw (c_hash lc') = raw (h_LastCommitHash (b_Header b))" using Commit_Hash_Inr [OF lc(2)] by simp
  obtain b'' where b'': "fillHeader enc cr H lc b = Inr b''" "plain_header (b_Header b'') = plain_header (b_Header b)"
    using lc(2) r data ev dh
    by (cases "h_LastCommitHash (b_Header b)"; cases "h_DataHash (b_Header b)"; cases "h_EvidenceHash (b_Header b)")
      (simp_all add: fillHeader_def plain_header_def)
  have "Header_Hash cr H (b_Header b'') = Header_Hash cr H (b_Header b)" by (rule Header_Hash_plain [OF b''(2)])
  then show ?thesis using lc(1) b''(1) by (simp add: Block_Hash_def)
qed

text \<open>The strings that are hashed for the content of a block.\<close>

definition content_inputs :: "encoders \<Rightarrow> crypto \<Rightarrow> (bytes \<Rightarrow> bytes) \<Rightarrow> Block \<Rightarrow> bytes set" where
  "content_inputs enc cr H b =
     set (header_inputs cr H (b_Header b)) \<union> set (d_Txs (b_Data b)) \<union> set (tree_inputs H (map H (d_Txs (b_Data b)))) \<union>
     (case evidence_bytes enc (ed_Evidence (b_Evidence b)) of Inl _ \<Rightarrow> {} | Inr bs \<Rightarrow> set (tree_inputs H bs)) \<union>
     (case b_LastCommit b of None \<Rightarrow> {} | Some lc \<Rightarrow>
       (case marshal_sigs cr (c_Signatures lc) of Inl _ \<Rightarrow> {} | Inr bs \<Rightarrow> set (tree_inputs H bs)))"

text \<open>A block as it is built: no hash is remembered yet.\<close>

definition fresh_block :: "Block \<Rightarrow> bool" where
  "fresh_block b \<longleftrightarrow> d_hash (b_Data b) = None \<and> ed_hash (b_Evidence b) = None \<and> (\<forall>lc. b_LastCommit b = Some lc \<longrightarrow> c_hash lc = None)"

text \<open>
  Headers are compared up to the difference between nil and empty hashes. Evidence is the same when the
  generated encoder tells the evidence of the two blocks apart.
\<close>

definition same_content :: "encoders \<Rightarrow> Block \<Rightarrow> Block \<Rightarrow> bool" where
  "same_content enc a b \<longleftrightarrow> plain_header (b_Header a) = plain_header (b_Header b) \<and> d_Txs (b_Data a) = d_Txs (b_Data b) \<and>
     evidence_bytes enc (ed_Evidence (b_Evidence a)) = evidence_bytes enc (ed_Evidence (b_Evidence b)) \<and>
     (inj_on (enc_Evidence enc) (set (ed_Evidence (b_Evidence a)) \<union> set (ed_Evidence (b_Evidence b))) \<longrightarrow>
        ed_Evidence (b_Evidence a) = ed_Evidence (b_Evidence b)) \<and>
     (\<exists>la lb. b_LastCommit a = Some la \<and> b_LastCommit b = Some lb \<and> c_Signatures la = c_Signatures lb)"

lemma CommitSig_marshal_inject:
  assumes "time_encoding (cr_TimeBytes cr)"
    and a: "CommitSig_marshal cr (CommitSig_ToProto a) = Inr d" and b: "CommitSig_marshal cr (CommitSig_ToProto b) = Inr d"
  shows "a = b"
proof -
  obtain ta tb where t: "cr_TimeBytes cr (cs_Timestamp a) = Some ta" "cr_TimeBytes cr (cs_Timestamp b) = Some tb"
    using a b by (auto simp: CommitSig_marshal_def CommitSig_ToProto_def split: option.splits)
  define rest where "rest t c = ([0x1a] @ len_prefixed t @ bytes_field 0x22 c :: bytes)" for t c
  have st: "\<not> starts_with u (rest t c)" if "u \<noteq> 0x1a" for u t c using that by (simp add: rest_def starts_with_append)
  have eq: "varint_field 0x08 (uint64_of (int (unat (cs_BlockIDFlag a)))) @ bytes_field 0x12 (cs_ValidatorAddress a) @ rest ta (cs_Signature a) =
      varint_field 0x08 (uint64_of (int (unat (cs_BlockIDFlag b)))) @ bytes_field 0x12 (cs_ValidatorAddress b) @ rest tb (cs_Signature b)"
    using a b t by (simp add: CommitSig_marshal_def CommitSig_ToProto_def rest_def)
  from varint_field_read [OF eq] have fl: "uint64_of (int (unat (cs_BlockIDFlag a))) = uint64_of (int (unat (cs_BlockIDFlag b)))"
    and e1: "bytes_field 0x12 (cs_ValidatorAddress a) @ rest ta (cs_Signature a) = bytes_field 0x12 (cs_ValidatorAddress b) @ rest tb (cs_Signature b)"
    by (auto simp: starts_with_append(3-) st)
  from bytes_field_read [OF e1] have ad: "cs_ValidatorAddress a = cs_ValidatorAddress b" and e2: "rest ta (cs_Signature a) = rest tb (cs_Signature b)"
    by (auto simp: st)
  have flag: "uint (cs_BlockIDFlag c) < 2 ^ LENGTH(8)" for c :: CommitSig by (rule unsigned_less)
  have "int64_range (int (unat (cs_BlockIDFlag c)))" for c :: CommitSig
    using flag [of c] order_trans [OF _ unsigned_greater_eq [of "cs_BlockIDFlag c"], of "- 9223372036854775808 :: int"]
    by (simp add: int64_range_iff int_limits)
  then have "cs_BlockIDFlag a = cs_BlockIDFlag b" using uint64_of_inject [OF _ _ fl] by (simp add: word_uint_eq_iff)
  moreover have "cs_Timestamp a = cs_Timestamp b" "cs_Signature a = cs_Signature b"
    using time_chain_read [OF e2 [unfolded rest_def]] t assms(1) by (auto simp: time_encoding_def)
  ultimately show ?thesis using ad by simp
qed

lemma marshal_sigs_inject:
  assumes "time_encoding (cr_TimeBytes cr)" "marshal_sigs cr xs = Inr bs" "marshal_sigs cr ys = Inr bs"
  shows "xs = ys"
  using assms(2,3)
proof (induction xs arbitrary: ys bs)
  case Nil
  then show ?case by (cases ys) (auto simp: and_then_Inr_iff)
next
  case (Cons x xs)
  then obtain y ys' where y: "ys = y # ys'" by (cases ys) (auto simp: and_then_Inr_iff)
  then show ?case
    using Cons.prems Cons.IH [of _ ys'] CommitSig_marshal_inject [OF assms(1), of x _ y] by (auto simp: and_then_Inr_iff or_panic_Inr)
qed

lemma evidence_bytes_map: "evidence_bytes enc evs = Inr bs \<longleftrightarrow> map (enc_Evidence enc) evs = map Some bs"
  by (induction evs arbitrary: bs) (auto simp: and_then_Inr_iff Evidence_Bytes_def must_marshal_def split: option.splits)

lemma evidence_bytes_inject:
  assumes "evidence_bytes enc xs = Inr bs" "evidence_bytes enc ys = Inr bs" "inj_on (enc_Evidence enc) (set xs \<union> set ys)"
  shows "xs = ys"
  using assms by (intro map_inj_on [of "enc_Evidence enc"]) (simp_all add: evidence_bytes_map)

lemma fresh_roots:
  assumes "Block_ValidateBasic enc cr H (Some b) = Inr b'" "fresh_block b"
  shows "raw (h_DataHash (b_Header b)) = HashFromByteSlices H (map H (d_Txs (b_Data b)))"
    and "\<exists>bs. evidence_bytes enc (ed_Evidence (b_Evidence b)) = Inr bs \<and> raw (h_EvidenceHash (b_Header b)) = HashFromByteSlices H bs"
    and "\<exists>lc bs. b_LastCommit b = Some lc \<and> marshal_sigs cr (c_Signatures lc) = Inr bs \<and> raw (h_LastCommitHash (b_Header b)) = HashFromByteSlices H bs"
proof -
  obtain lc lc' eh evs where v: "b_LastCommit b = Some lc" "Commit_Hash cr H lc = Inr (raw (h_LastCommitHash (b_Header b)), lc')"
    "raw (h_DataHash (b_Header b)) = raw (fst (Data_Hash H (b_Data b)))"
    "EvidenceData_Hash enc H (b_Evidence b) = Inr (eh, evs)" "raw (h_EvidenceHash (b_Header b)) = raw eh"
    using Block_ValidateBasic_Inr [OF assms(1)] by metis
  have f: "d_hash (b_Data b) = None" "ed_hash (b_Evidence b) = None" "c_hash lc = None" using assms(2) v(1) by (auto simp: fresh_block_def)
  show "raw (h_DataHash (b_Header b)) = HashFromByteSlices H (map H (d_Txs (b_Data b)))"
    using v(3) Data_Hash_raw [OF f(1), of H] by (simp add: Txs_Hash_def)
  show "\<exists>bs. evidence_bytes enc (ed_Evidence (b_Evidence b)) = Inr bs \<and> raw (h_EvidenceHash (b_Header b)) = HashFromByteSlices H bs"
    using EvidenceData_Hash_Inr [OF v(4)] f(2) v(5) by (auto simp: EvidenceList_Hash_def and_then_Inr_iff)
  show "\<exists>lc bs. b_LastCommit b = Some lc \<and> marshal_sigs cr (c_Signatures lc) = Inr bs \<and> raw (h_LastCommitHash (b_Header b)) = HashFromByteSlices H bs"
    using Commit_Hash_Inr [OF v(2)] f(3) v(1) by auto
qed

lemma block_content_inject:
  assumes H: "\<forall>x. length (H x) = tmhash_Size" and time: "time_encoding (cr_TimeBytes cr)"
    and range: "int64_range (h_Height (b_Header a))" "int64_range (h_Height (b_Header b))"
    and a: "Block_ValidateBasic enc cr H (Some a) = Inr a'" "fresh_block a" and b: "Block_ValidateBasic enc cr H (Some b) = Inr b'" "fresh_block b"
    and eq: "Header_Hash cr H (b_Header a) = Header_Hash cr H (b_Header b)" "Header_Hash cr H (b_Header a) \<noteq> []"
    and inj: "inj_on H (content_inputs enc cr H a \<union> content_inputs enc cr H b)"
  shows "same_content enc a b"
proof -
  have hdr: "plain_header (b_Header a) = plain_header (b_Header b)"
    by (rule Header_Hash_inject [OF H time range eq], rule inj_on_subset [OF inj]) (auto simp: content_inputs_def)
  have roots: "raw (h_DataHash (b_Header a)) = raw (h_DataHash (b_Header b))" "raw (h_EvidenceHash (b_Header a)) = raw (h_EvidenceHash (b_Header b))"
      "raw (h_LastCommitHash (b_Header a)) = raw (h_LastCommitHash (b_Header b))"
    using arg_cong [OF hdr, of h_DataHash] arg_cong [OF hdr, of h_EvidenceHash] arg_cong [OF hdr, of h_LastCommitHash]
    by (simp_all add: plain_header_def)
  have root: "xs = ys" if "HashFromByteSlices H xs = HashFromByteSlices H ys"
    "set (tree_inputs H xs) \<subseteq> content_inputs enc cr H a" "set (tree_inputs H ys) \<subseteq> content_inputs enc cr H b" for xs ys
    by (rule HashFromByteSlices_inject [OF _ that(1) inj_on_subset [OF inj]]) (use H that(2,3) in auto)
  have "map H (d_Txs (b_Data a)) = map H (d_Txs (b_Data b))"
    by (rule root) (use fresh_roots(1) [OF a] fresh_roots(1) [OF b] roots(1) in \<open>simp_all add: content_inputs_def\<close>, auto)
  then have txs: "d_Txs (b_Data a) = d_Txs (b_Data b)"
    by (rule map_inj_on [OF _ inj_on_subset [OF inj]]) (auto simp: content_inputs_def)
  obtain ea eb where e: "evidence_bytes enc (ed_Evidence (b_Evidence a)) = Inr ea" "raw (h_EvidenceHash (b_Header a)) = HashFromByteSlices H ea"
      "evidence_bytes enc (ed_Evidence (b_Evidence b)) = Inr eb" "raw (h_EvidenceHash (b_Header b)) = HashFromByteSlices H eb"
    using fresh_roots(2) [OF a] fresh_roots(2) [OF b] by blast
  have "ea = eb" by (rule root) (use e roots(2) in \<open>auto simp: content_inputs_def\<close>)
  obtain la ca lb cb where c: "b_LastCommit a = Some la" "marshal_sigs cr (c_Signatures la) = Inr ca" "raw (h_LastCommitHash (b_Header a)) = HashFromByteSlices H ca"
      "b_LastCommit b = Some lb" "marshal_sigs cr (c_Signatures lb) = Inr cb" "raw (h_LastCommitHash (b_Header b)) = HashFromByteSlices H cb"
    using fresh_roots(3) [OF a] fresh_roots(3) [OF b] by blast
  have "ca = cb" by (rule root) (use c roots(3) in \<open>auto simp: content_inputs_def\<close>)
  then have "c_Signatures la = c_Signatures lb" using c marshal_sigs_inject [OF time] by simp
  moreover have "inj_on (enc_Evidence enc) (set (ed_Evidence (b_Evidence a)) \<union> set (ed_Evidence (b_Evidence b))) \<Longrightarrow>
      ed_Evidence (b_Evidence a) = ed_Evidence (b_Evidence b)"
    using e \<open>ea = eb\<close> evidence_bytes_inject by simp
  ultimately show ?thesis using hdr txs e \<open>ea = eb\<close> c by (simp add: same_content_def)
qed

text \<open>
  C26: The hash of a block binds the content of a block as it is built, with none of its hashes memoised yet (property C27 shows
  that this is needed: a decoded block carries the hash of its transactions from the message). Take two such blocks
  that pass \<^verbatim>\<open>ValidateBasic\<close> and have the same non-empty block hash, for a hash function with 32 byte results
  and an injective encoding of times. Then they have the same header up to nil and empty hashes, the same transactions, the
  same signatures in the last commit and the same encodings of evidence, and also the same evidence if the generated
  encoder gives different evidence of these blocks different bytes; or two different strings hashed for them collide.
\<close>

theorem Block_Hash_binds:
  assumes "\<forall>x. length (H x) = tmhash_Size" "time_encoding (cr_TimeBytes cr)"
    and "int64_range (h_Height (b_Header a))" "int64_range (h_Height (b_Header b))"
    and "Block_ValidateBasic enc cr H (Some a) = Inr a'" "fresh_block a" "Block_ValidateBasic enc cr H (Some b) = Inr b'" "fresh_block b"
    and "Block_Hash enc cr H (Some a) = Inr (h, a'')" "Block_Hash enc cr H (Some b) = Inr (h, b'')" "h \<noteq> []"
  shows "same_content enc a b \<or>
    (\<exists>x \<in> content_inputs enc cr H a \<union> content_inputs enc cr H b. \<exists>y \<in> content_inputs enc cr H a \<union> content_inputs enc cr H b. x \<noteq> y \<and> H x = H y)"
proof -
  have "Header_Hash cr H (b_Header a) = h" "Header_Hash cr H (b_Header b) = h"
    using Block_Hash_validated [OF assms(5)] Block_Hash_validated [OF assms(7)] assms(9,10) by auto
  then have "inj_on H (content_inputs enc cr H a \<union> content_inputs enc cr H b) \<Longrightarrow> same_content enc a b"
    using block_content_inject [OF assms(1-8)] assms(11) by simp
  then show ?thesis by (meson inj_onI)
qed

lemma Block_ValidateBasic_data:
  assumes "Block_ValidateBasic enc cr H (Some b) = Inr b1"
  shows "\<exists>b2. Block_ValidateBasic enc cr H (Some (b\<lparr>b_Data := \<lparr>d_Txs = txs, d_hash = Some (raw (h_DataHash (b_Header b)))\<rparr>\<rparr>)) = Inr b2 \<and>
    d_Txs (b_Data b2) = txs \<and> b_Header b2 = b_Header b \<and> b_Header b1 = b_Header b"
proof (cases "b_LastCommit b")
  case (Some lc)
  then show ?thesis using assms by (fastforce simp: Block_ValidateBasic_def Data_Hash_def and_then_Inr_iff Let_def)
qed (use assms in \<open>simp add: Block_ValidateBasic_def and_then_Inr_iff\<close>)

lemma BlockFromProto_data:
  assumes "BlockFromProto enc cr H (Some bp) = Inr b"
  shows "\<exists>c h. BlockFromProto enc cr H (Some bp) = Block_ValidateBasic enc cr H (Some c) \<and> h_DataHash (b_Header c) = h_DataHash (pbk_Header bp) \<and>
    (\<forall>pd. BlockFromProto enc cr H (Some (bp\<lparr>pbk_Data := pd\<rparr>)) = Block_ValidateBasic enc cr H (Some (c\<lparr>b_Data := \<lparr>d_Txs = pd_Txs pd, d_hash = pd_Hash pd\<rparr>\<rparr>)))"
proof -
  obtain h where h: "HeaderFromProto (Some (pbk_Header bp)) = Inr h" using assms by (auto simp: BlockFromProto_def and_then_Inr_iff)
  obtain ev where ev: "(case EvidenceData_FromProto cr H (pbk_Evidence bp) of Inl (Panic s) \<Rightarrow> Inl (Panic s)
      | Inl (Err _) \<Rightarrow> Inr \<lparr>ed_Evidence = [], ed_hash = None\<rparr> | Inr e \<Rightarrow> Inr e) = (Inr ev :: (block_error, EvidenceData) result)"
    using assms by (auto simp: BlockFromProto_def and_then_Inr_iff)
  obtain lc where lc: "(case pbk_LastCommit bp of None \<Rightarrow> Inr None
      | Some c \<Rightarrow> and_then (lift_fault ErrWrongCommit (CommitFromProto (Some c))) (\<lambda>lc. Inr (Some lc))) = Inr lc"
    using assms by (auto simp: BlockFromProto_def and_then_Inr_iff)
  have "h_DataHash h = h_DataHash (pbk_Header bp)" using h by (auto simp: HeaderFromProto_def and_then_Inr_iff Let_def)
  then show ?thesis
    by (intro exI [of _ "\<lparr>b_Header = h, b_Data = \<lparr>d_Txs = pd_Txs (pbk_Data bp), d_hash = pd_Hash (pbk_Data bp)\<rparr>, b_Evidence = ev, b_LastCommit = lc\<rparr>"])
      (simp add: BlockFromProto_def h ev lc DataFromProto_def)
qed

text \<open>
  C27: A block that is decoded from a message is not bound by its hash: the decoder takes the hash of the transactions from the
  message. Whatever transactions take the place of those of a block that decodes, the message with the hash of
  the header next to them decodes too, into a block with the same header and the same hash.
\<close>

theorem wire_txs_not_bound:
  assumes "BlockFromProto enc cr H (Some bp) = Inr b" "raw (h_DataHash (pbk_Header bp)) = dataHash"
  shows "\<exists>b'. BlockFromProto enc cr H (Some (bp\<lparr>pbk_Data := \<lparr>pd_Txs = txs, pd_Hash = Some dataHash\<rparr>\<rparr>)) = Inr b' \<and>
    d_Txs (b_Data b') = txs \<and> b_Header b' = b_Header b"
proof -
  obtain c where c: "Block_ValidateBasic enc cr H (Some c) = Inr b" "h_DataHash (b_Header c) = h_DataHash (pbk_Header bp)"
    and d: "\<And>pd. BlockFromProto enc cr H (Some (bp\<lparr>pbk_Data := pd\<rparr>)) = Block_ValidateBasic enc cr H (Some (c\<lparr>b_Data := \<lparr>d_Txs = pd_Txs pd, d_hash = pd_Hash pd\<rparr>\<rparr>))"
    using BlockFromProto_data [OF assms(1)] assms(1) by auto
  show ?thesis unfolding d using Block_ValidateBasic_data [OF c(1), of txs] c(2) assms(2) by auto
qed

definition demo_txs :: "bytes list" where
  "demo_txs = [[1]]"

definition demo_block :: "bytes option \<Rightarrow> Block" where
  "demo_block lch = \<lparr>b_Header = (demo_header (Some (Txs_Hash demo_hash demo_txs)))\<lparr>h_Height := 1, h_LastCommitHash := lch,
       h_ValidatorsHash := replicate 32 7, h_NextValidatorsHash := replicate 32 7, h_ProposerAddress := replicate 20 1\<rparr>,
     b_Data = \<lparr>d_Txs = demo_txs, d_hash = None\<rparr>, b_Evidence = \<lparr>ed_Evidence = [], ed_hash = None\<rparr>,
     b_LastCommit = Some (NewCommit 0 0 nil_BlockID [])\<rparr>"

definition demo_message :: tmproto_Block where
  "demo_message = \<lparr>pbk_Header = b_Header (demo_block None), pbk_Data = \<lparr>pd_Txs = demo_txs, pd_Hash = None\<rparr>,
     pbk_Evidence = \<lparr>ped_Evidence = [], ped_Hash = None\<rparr>, pbk_LastCommit = Some (Commit_ToProto (NewCommit 0 0 nil_BlockID []))\<rparr>"

definition no_encoders :: encoders where
  "no_encoders = \<lparr>enc_Vote = (\<lambda>_. None), enc_Evidence = (\<lambda>_. None)\<rparr>"

lemma demo_block_valid:
  assumes "raw lch = []"
  shows "Header_ValidateBasic (b_Header (demo_block lch)) = Inr ()" "\<exists>b. Block_ValidateBasic no_encoders demo_crypto demo_hash (Some (demo_block lch)) = Inr b"
proof -
  have len: "length (Txs_Hash demo_hash demo_txs) = 32"
    unfolding Txs_Hash_def using hash_lengths(1) [of demo_hash "map demo_hash demo_txs"] demo_hash_size
    by (simp add: demo_txs_def tmhash_Size_def)
  have id: "BlockID_ValidateBasic nil_BlockID = Inr ()" by code_simp
  have data: "Data_Hash demo_hash \<lparr>d_Txs = demo_txs, d_hash = None\<rparr> =
      (Some (Txs_Hash demo_hash demo_txs), \<lparr>d_Txs = demo_txs, d_hash = Some (Txs_Hash demo_hash demo_txs)\<rparr>)"
    by (simp add: Data_Hash_def demo_txs_def Let_def)
  have commit: "Commit_Hash demo_crypto demo_hash (NewCommit 0 0 nil_BlockID []) = Inr ([], NewCommit 0 0 nil_BlockID [])"
    by (simp add: Commit_Hash_def NewCommit_def)
  show h: "Header_ValidateBasic (b_Header (demo_block lch)) = Inr ()"
    using assms by (simp add: demo_block_def demo_header_def id Header_ValidateBasic_def MaxChainIDLen_def ValidateHash_def len tmhash_Size_def AddressSize_def)
  show "\<exists>b. Block_ValidateBasic no_encoders demo_crypto demo_hash (Some (demo_block lch)) = Inr b"
    using assms h by (simp add: Block_ValidateBasic_def) (simp add: demo_block_def demo_header_def commit data EvidenceData_Hash_def)
qed

theorem Block_Hash_binds_witness:
  "\<exists>h a b. h \<noteq> [] \<and> Block_Hash no_encoders demo_crypto demo_hash (Some (demo_block None)) = Inr (h, a) \<and>
     Block_Hash no_encoders demo_crypto demo_hash (Some (demo_block (Some []))) = Inr (h, b) \<and>
     (same_content no_encoders (demo_block None) (demo_block (Some [])) \<or> (\<exists>x y. x \<noteq> y \<and> demo_hash x = demo_hash y))"
proof -
  let ?h = "Header_Hash demo_crypto demo_hash (b_Header (demo_block None))"
  have eq: "Header_Hash demo_crypto demo_hash (b_Header (demo_block (Some []))) = ?h"
    by (rule Header_Hash_plain) (simp add: plain_header_def demo_block_def)
  have ne: "?h \<noteq> []"
  proof -
    obtain p where p: "cr_TimeBytes demo_crypto (h_Time (b_Header (demo_block None))) = Some p"
      by (auto simp: demo_crypto_def demo_block_def demo_header_def demo_time_def int64_range_iff int_limits)
    have "length (HashFromByteSlices demo_hash (header_fields (b_Header (demo_block None)) p)) = tmhash_Size"
      by (rule hash_lengths(1)) (use demo_hash_size in \<open>simp_all add: header_fields_def\<close>)
    moreover have "h_ValidatorsHash (b_Header (demo_block None)) \<noteq> []" by (simp add: demo_block_def)
    ultimately show ?thesis using p by (auto simp: Header_Hash_def tmhash_Size_def)
  qed
  obtain a' b' where v: "Block_ValidateBasic no_encoders demo_crypto demo_hash (Some (demo_block None)) = Inr a'"
      "Block_ValidateBasic no_encoders demo_crypto demo_hash (Some (demo_block (Some []))) = Inr b'"
    using demo_block_valid [of None] demo_block_valid [of "Some []"] by auto
  obtain a b where h: "Block_Hash no_encoders demo_crypto demo_hash (Some (demo_block None)) = Inr (?h, a)"
      "Block_Hash no_encoders demo_crypto demo_hash (Some (demo_block (Some []))) = Inr (?h, b)"
    using Block_Hash_validated [OF v(1)] Block_Hash_validated [OF v(2)] unfolding eq by blast
  have r: "int64_range (h_Height (b_Header (demo_block x)))" for x by (simp add: demo_block_def int64_range_iff int_limits)
  have f: "fresh_block (demo_block x)" for x by (simp add: demo_block_def fresh_block_def NewCommit_def)
  have t: "time_encoding (cr_TimeBytes demo_crypto)" using demo_time_encoding by (simp add: demo_crypto_def)
  from Block_Hash_binds [OF demo_hash_size t r r v(1) f v(2) f h ne] h ne show ?thesis by meson
qed

theorem wire_txs_not_bound_witness:
  "\<exists>b. BlockFromProto no_encoders demo_crypto demo_hash
      (Some (demo_message\<lparr>pbk_Data := \<lparr>pd_Txs = [[2], [3]], pd_Hash = Some (Txs_Hash demo_hash demo_txs)\<rparr>\<rparr>)) = Inr b \<and>
    d_Txs (b_Data b) = [[2], [3]]"
proof -
  have id: "BlockIDFromProto (Some nil_BlockID) = Inr nil_BlockID" by code_simp
  have hdr: "HeaderFromProto (Some (b_Header (demo_block None))) = Inr (b_Header (demo_block None))"
  proof -
    have "h_LastBlockID (b_Header (demo_block None)) = nil_BlockID" by (simp add: demo_block_def demo_header_def)
    moreover have e: "(b_Header (demo_block None))\<lparr>h_LastBlockID := nil_BlockID\<rparr> = b_Header (demo_block None)" by (simp add: demo_block_def demo_header_def)
    ultimately show ?thesis using demo_block_valid(1) [of None] id by (simp add: HeaderFromProto_def Let_def e)
  qed
  have commit: "CommitFromProto (Some (Commit_ToProto (NewCommit 0 0 nil_BlockID []))) = Inr (NewCommit 0 0 nil_BlockID [])"
    by (simp add: CommitFromProto_def Commit_ToProto_def NewCommit_def id BitArray_ToProto_def Commit_ValidateBasic_def Let_def)
  have "BlockFromProto no_encoders demo_crypto demo_hash (Some demo_message) = Block_ValidateBasic no_encoders demo_crypto demo_hash (Some (demo_block None))"
    by (simp add: BlockFromProto_def demo_message_def hdr commit DataFromProto_def EvidenceData_FromProto_def) (simp add: demo_block_def)
  then obtain b where b: "BlockFromProto no_encoders demo_crypto demo_hash (Some demo_message) = Inr b" using demo_block_valid(2) [of None] by auto
  have "raw (h_DataHash (pbk_Header demo_message)) = Txs_Hash demo_hash demo_txs" by (simp add: demo_message_def demo_block_def demo_header_def)
  from wire_txs_not_bound [OF b this, of "[[2], [3]]"] show ?thesis by blast
qed

end
