(* ===== verification/Height_Vote_Set.thy ===== *)
theory Height_Vote_Set
  imports Evidence
begin

text \<open>
  \<^verbatim>\<open>consensus/types/height_vote_set.go\<close>: the vote sets of all rounds of one height. A height vote set tracks the rounds up to
  its own and, for each peer, at most two rounds ahead. The invariant says that every round has two vote sets for its
  step over the validators of the height, each in the state that the vote set invariant describes; the lemmas on
  the operations say what they add to the votes kept, and that a majority once found stays.
\<close>

section \<open>Operations\<close>

record RoundVoteSet =
  rvs_Prevotes :: VoteSet
  rvs_Precommits :: VoteSet

record HeightVoteSet =
  hvs_chainID :: bytes
  hvs_height :: int64
  hvs_valSet :: ValidatorSet
  hvs_round :: int32
  hvs_roundVoteSets :: "int32 \<rightharpoonup> RoundVoteSet"
  hvs_peerCatchupRounds :: "bytes \<rightharpoonup> int32 list"

datatype hvs_error =
    ErrGotVoteFromUnwantedRound
  | ErrInvalidVoteType
  | ErrVoteSet vote_error

definition addRound :: "int32 \<Rightarrow> HeightVoteSet \<Rightarrow> (hvs_error, HeightVoteSet) result" where
  "addRound rnd hvs =
     (if hvs_roundVoteSets hvs rnd \<noteq> None then Inl (Panic ''addRound() for an existing round'')
      else and_then (lift_fault ErrVoteSet (NewVoteSet (hvs_chainID hvs) (hvs_height hvs) rnd PrevoteType (hvs_valSet hvs))) (\<lambda>prevotes.
        and_then (lift_fault ErrVoteSet (NewVoteSet (hvs_chainID hvs) (hvs_height hvs) rnd PrecommitType (hvs_valSet hvs))) (\<lambda>precommits.
        Inr (hvs\<lparr>hvs_roundVoteSets := (hvs_roundVoteSets hvs)(rnd \<mapsto> \<lparr>rvs_Prevotes = prevotes, rvs_Precommits = precommits\<rparr>)\<rparr>))))"

definition Reset :: "int64 \<Rightarrow> ValidatorSet \<Rightarrow> HeightVoteSet \<Rightarrow> (hvs_error, HeightVoteSet) result" where
  "Reset height valSet hvs =
     and_then (addRound 0 (hvs\<lparr>hvs_height := height, hvs_valSet := valSet, hvs_roundVoteSets := Map.empty, hvs_peerCatchupRounds := Map.empty\<rparr>))
       (\<lambda>hvs. Inr (hvs\<lparr>hvs_round := 0\<rparr>))"

definition NewHeightVoteSet :: "bytes \<Rightarrow> int64 \<Rightarrow> ValidatorSet \<Rightarrow> (hvs_error, HeightVoteSet) result" where
  "NewHeightVoteSet chainID height valSet =
     Reset height valSet \<lparr>hvs_chainID = chainID, hvs_height = 0, hvs_valSet = valSet, hvs_round = 0,
       hvs_roundVoteSets = Map.empty, hvs_peerCatchupRounds = Map.empty\<rparr>"

text \<open>The loop of \<^verbatim>\<open>SetRound\<close> counts up to the round, which is below the largest \<^verbatim>\<open>int32\<close>.\<close>

fun add_rounds :: "int32 list \<Rightarrow> HeightVoteSet \<Rightarrow> (hvs_error, HeightVoteSet) result" where
  "add_rounds [] hvs = Inr hvs"
| "add_rounds (r # rs) hvs =
     (if hvs_roundVoteSets hvs r \<noteq> None then add_rounds rs hvs else and_then (addRound r hvs) (add_rounds rs))"

definition SetRound :: "int32 \<Rightarrow> HeightVoteSet \<Rightarrow> (hvs_error, HeightVoteSet) result" where
  "SetRound rnd hvs =
     and_then (lift_fault (\<lambda>_. ErrInvalidVoteType) (SafeSubInt32 (hvs_round hvs) 1)) (\<lambda>newRound.
       if hvs_round hvs \<noteq> 0 \<and> rnd < newRound then Inl (Panic ''SetRound() must increment hvs.round'')
       else and_then (add_rounds [newRound..rnd] hvs) (\<lambda>hvs. Inr (hvs\<lparr>hvs_round := rnd\<rparr>)))"

definition getVoteSet :: "int32 \<Rightarrow> SignedMsgType \<Rightarrow> HeightVoteSet \<Rightarrow> (hvs_error, VoteSet option) result" where
  "getVoteSet rnd voteType hvs =
     (case hvs_roundVoteSets hvs rnd of
        None \<Rightarrow> Inr None
      | Some rvs \<Rightarrow>
          if voteType = PrevoteType then Inr (Some (rvs_Prevotes rvs))
          else if voteType = PrecommitType then Inr (Some (rvs_Precommits rvs))
          else Inl (Panic ''Unexpected vote type''))"

definition put_vote_set :: "int32 \<Rightarrow> SignedMsgType \<Rightarrow> VoteSet \<Rightarrow> HeightVoteSet \<Rightarrow> HeightVoteSet" where
  "put_vote_set rnd voteType vs hvs =
     (case hvs_roundVoteSets hvs rnd of
        None \<Rightarrow> hvs
      | Some rvs \<Rightarrow> hvs\<lparr>hvs_roundVoteSets := (hvs_roundVoteSets hvs)(rnd \<mapsto>
          (if voteType = PrevoteType then rvs\<lparr>rvs_Prevotes := vs\<rparr> else rvs\<lparr>rvs_Precommits := vs\<rparr>))\<rparr>)"

definition HeightVoteSet_AddVote :: "crypto \<Rightarrow> Vote \<Rightarrow> bytes \<Rightarrow> HeightVoteSet \<Rightarrow> (hvs_error, bool \<times> hvs_error option \<times> HeightVoteSet) result" where
  "HeightVoteSet_AddVote cr vote peerID hvs =
     (if \<not> IsVoteTypeValid (v_Type vote) then Inr (False, None, hvs)
      else and_then (getVoteSet (v_Round vote) (v_Type vote) hvs) (\<lambda>voteSet.
        and_then
          (case voteSet of
             Some vs \<Rightarrow> Inr (Some vs, hvs)
           | None \<Rightarrow>
               let rndz = (case hvs_peerCatchupRounds hvs peerID of None \<Rightarrow> [] | Some rs \<Rightarrow> rs) in
               if length rndz < 2
               then and_then (addRound (v_Round vote) hvs) (\<lambda>hvs.
                 and_then (getVoteSet (v_Round vote) (v_Type vote) hvs) (\<lambda>voteSet.
                 Inr (voteSet, hvs\<lparr>hvs_peerCatchupRounds := (hvs_peerCatchupRounds hvs)(peerID \<mapsto> rndz @ [v_Round vote])\<rparr>)))
               else Inr (None, hvs))
          (\<lambda>(voteSet, hvs).
            case voteSet of
              None \<Rightarrow> Inr (False, Some ErrGotVoteFromUnwantedRound, hvs)
            | Some vs \<Rightarrow>
                and_then (lift_fault ErrVoteSet (AddVote cr (Some vs) (Some vote))) (\<lambda>(added, err, vs).
                  Inr (added, map_option ErrVoteSet err, put_vote_set (v_Round vote) (v_Type vote) vs hvs)))))"

definition Prevotes :: "int32 \<Rightarrow> HeightVoteSet \<Rightarrow> VoteSet option" where
  "Prevotes rnd hvs = map_option rvs_Prevotes (hvs_roundVoteSets hvs rnd)"

definition Precommits :: "int32 \<Rightarrow> HeightVoteSet \<Rightarrow> VoteSet option" where
  "Precommits rnd hvs = map_option rvs_Precommits (hvs_roundVoteSets hvs rnd)"

fun pol_info :: "int32 list \<Rightarrow> HeightVoteSet \<Rightarrow> int32 \<times> BlockID" where
  "pol_info [] hvs = (-1, nil_BlockID)"
| "pol_info (r # rs) hvs =
     (case TwoThirdsMajority (Prevotes r hvs) of (polBlockID, ok) \<Rightarrow> if ok then (r, polBlockID) else pol_info rs hvs)"

definition POLInfo :: "HeightVoteSet \<Rightarrow> int32 \<times> BlockID" where
  "POLInfo hvs = pol_info (rev [0..hvs_round hvs]) hvs"

definition HeightVoteSet_SetPeerMaj23 :: "int32 \<Rightarrow> SignedMsgType \<Rightarrow> bytes \<Rightarrow> BlockID \<Rightarrow> HeightVoteSet \<Rightarrow> (hvs_error, hvs_error option \<times> HeightVoteSet) result" where
  "HeightVoteSet_SetPeerMaj23 rnd voteType peerID blockID hvs =
     (if \<not> IsVoteTypeValid voteType then Inr (Some ErrInvalidVoteType, hvs)
      else and_then (getVoteSet rnd voteType hvs) (\<lambda>voteSet.
        case voteSet of
          None \<Rightarrow> Inr (None, hvs)
        | Some vs \<Rightarrow>
            and_then (lift_fault ErrVoteSet (SetPeerMaj23 (Some vs) peerID blockID)) (\<lambda>(err, vs).
              Inr (map_option ErrVoteSet err, put_vote_set rnd voteType vs hvs))))"

section \<open>The invariant\<close>

definition set_of :: "SignedMsgType \<Rightarrow> RoundVoteSet \<Rightarrow> VoteSet" where
  "set_of t rvs = (if t = PrevoteType then rvs_Prevotes rvs else rvs_Precommits rvs)"

definition votes_at :: "int32 \<Rightarrow> SignedMsgType \<Rightarrow> HeightVoteSet \<Rightarrow> VoteSet option" where
  "votes_at rnd t hvs = map_option (set_of t) (hvs_roundVoteSets hvs rnd)"

lemma votes_at_Prevotes: "votes_at rnd PrevoteType hvs = Prevotes rnd hvs"
  by (cases "hvs_roundVoteSets hvs rnd") (simp_all add: votes_at_def Prevotes_def set_of_def)

lemma votes_at_Precommits: "votes_at rnd PrecommitType hvs = Precommits rnd hvs"
  by (cases "hvs_roundVoteSets hvs rnd") (simp_all add: votes_at_def Precommits_def set_of_def PrevoteType_def PrecommitType_def)

lemma getVoteSet_valid: "t \<in> {PrevoteType, PrecommitType} \<Longrightarrow> getVoteSet rnd t hvs = Inr (votes_at rnd t hvs)"
  by (auto simp: getVoteSet_def votes_at_def set_of_def PrevoteType_def PrecommitType_def split: option.split)

definition vote_set_for :: "crypto \<Rightarrow> HeightVoteSet \<Rightarrow> int32 \<Rightarrow> SignedMsgType \<Rightarrow> VoteSet \<Rightarrow> bool" where
  "vote_set_for cr hvs rnd t vs \<longleftrightarrow> vote_set_inv cr vs \<and> vst_chainID vs = hvs_chainID hvs \<and> vst_height vs = hvs_height hvs \<and>
     vst_round vs = rnd \<and> vst_signedMsgType vs = t \<and> vst_valSet vs = hvs_valSet hvs"

definition hvs_inv :: "crypto \<Rightarrow> HeightVoteSet \<Rightarrow> bool" where
  "hvs_inv cr hvs \<longleftrightarrow> hvs_height hvs \<noteq> 0 \<and> vset_wf (hvs_valSet hvs) \<and> vset_keys (hvs_valSet hvs) \<and>
     (\<forall>rnd t vs. t \<in> {PrevoteType, PrecommitType} \<and> votes_at rnd t hvs = Some vs \<longrightarrow> vote_set_for cr hvs rnd t vs)"

definition hvs_votes :: "HeightVoteSet \<Rightarrow> Vote set" where
  "hvs_votes hvs = {v. \<exists>rnd t vs. t \<in> {PrevoteType, PrecommitType} \<and> votes_at rnd t hvs = Some vs \<and> v \<in> kept_votes vs}"

definition majority_at :: "int32 \<Rightarrow> SignedMsgType \<Rightarrow> HeightVoteSet \<Rightarrow> BlockID option" where
  "majority_at rnd t hvs = (case votes_at rnd t hvs of None \<Rightarrow> None | Some vs \<Rightarrow> vst_maj23 vs)"

lemma TwoThirdsMajority_at:
  "TwoThirdsMajority (Prevotes rnd hvs) = (b, True) \<longleftrightarrow> majority_at rnd PrevoteType hvs = Some b"
  "TwoThirdsMajority (Precommits rnd hvs) = (b, True) \<longleftrightarrow> majority_at rnd PrecommitType hvs = Some b"
  by (auto simp: TwoThirdsMajority_def majority_at_def votes_at_Prevotes votes_at_Precommits split: option.splits)

text \<open>What every operation keeps: the step, the majorities, and the votes up to new ones.\<close>

definition hvs_step :: "crypto \<Rightarrow> Vote set \<Rightarrow> HeightVoteSet \<Rightarrow> HeightVoteSet \<Rightarrow> bool" where
  "hvs_step cr new hvs hvs' \<longleftrightarrow> hvs_inv cr hvs' \<and> hvs_chainID hvs' = hvs_chainID hvs \<and> hvs_height hvs' = hvs_height hvs \<and>
     hvs_valSet hvs' = hvs_valSet hvs \<and> dom (hvs_roundVoteSets hvs) \<subseteq> dom (hvs_roundVoteSets hvs') \<and> hvs_votes hvs' \<subseteq> hvs_votes hvs \<union> new \<and>
     (\<forall>rnd t b. t \<in> {PrevoteType, PrecommitType} \<and> majority_at rnd t hvs = Some b \<longrightarrow> majority_at rnd t hvs' = Some b)"

lemma hvs_stepD:
  assumes "hvs_step cr new hvs hvs'"
  shows "hvs_inv cr hvs'" "hvs_chainID hvs' = hvs_chainID hvs" "hvs_height hvs' = hvs_height hvs" "hvs_valSet hvs' = hvs_valSet hvs"
    "dom (hvs_roundVoteSets hvs) \<subseteq> dom (hvs_roundVoteSets hvs')" "hvs_votes hvs' \<subseteq> hvs_votes hvs \<union> new"
    "t \<in> {PrevoteType, PrecommitType} \<Longrightarrow> majority_at rnd t hvs = Some b \<Longrightarrow> majority_at rnd t hvs' = Some b"
  using assms by (simp_all only: hvs_step_def)

lemma hvs_step_refl: "hvs_inv cr hvs \<Longrightarrow> hvs_step cr {} hvs hvs"
  by (simp add: hvs_step_def)

lemma hvs_step_trans:
  assumes "hvs_step cr a x y" "hvs_step cr b y z"
  shows "hvs_step cr (a \<union> b) x z"
  unfolding hvs_step_def
proof (intro conjI allI impI)
  note x = hvs_stepD [OF assms(1)] and y = hvs_stepD [OF assms(2)]
  show "hvs_inv cr z" "hvs_chainID z = hvs_chainID x" "hvs_height z = hvs_height x" "hvs_valSet z = hvs_valSet x"
    using x(2-4) y(1-4) by simp_all
  show "dom (hvs_roundVoteSets x) \<subseteq> dom (hvs_roundVoteSets z)" by (rule subset_trans [OF x(5) y(5)])
  show "hvs_votes z \<subseteq> hvs_votes x \<union> (a \<union> b)" using x(6) y(6) by blast
  show "majority_at rnd t z = Some c" if "t \<in> {PrevoteType, PrecommitType} \<and> majority_at rnd t x = Some c" for rnd t c
    using that by (blast intro: x(7) y(7))
qed


section \<open>The operations\<close>

lemma hvs_step_update:
  assumes inv: "hvs_inv cr hvs"
    and same: "hvs_chainID hvs' = hvs_chainID hvs" "hvs_height hvs' = hvs_height hvs" "hvs_valSet hvs' = hvs_valSet hvs"
    and sets: "dom (hvs_roundVoteSets hvs) \<subseteq> dom (hvs_roundVoteSets hvs')"
      "\<And>rnd t vs. t \<in> {PrevoteType, PrecommitType} \<Longrightarrow> votes_at rnd t hvs' = Some vs \<Longrightarrow> votes_at rnd t hvs \<noteq> Some vs \<Longrightarrow>
         vote_set_for cr hvs rnd t vs \<and> kept_votes vs \<subseteq> hvs_votes hvs \<union> new \<and> (majority_at rnd t hvs \<noteq> None \<longrightarrow> vst_maj23 vs = majority_at rnd t hvs)"
  shows "hvs_step cr new hvs hvs'"
proof -
  have old: "vote_set_for cr hvs rnd t vs \<and> kept_votes vs \<subseteq> hvs_votes hvs \<union> new \<and> (majority_at rnd t hvs \<noteq> None \<longrightarrow> vst_maj23 vs = majority_at rnd t hvs)"
    if "t \<in> {PrevoteType, PrecommitType}" "votes_at rnd t hvs' = Some vs" for rnd t vs
  proof (cases "votes_at rnd t hvs = Some vs")
    case True
    then have "kept_votes vs \<subseteq> hvs_votes hvs" using that(1) unfolding hvs_votes_def by blast
    then show ?thesis using True that(1) inv by (auto simp: hvs_inv_def majority_at_def)
  qed (use sets(2) that in blast)
  have "vote_set_for cr hvs' = vote_set_for cr hvs" by (intro ext) (simp add: vote_set_for_def same)
  then have "hvs_inv cr hvs'" using inv old by (simp add: hvs_inv_def same)
  moreover have "hvs_votes hvs' \<subseteq> hvs_votes hvs \<union> new"
    unfolding hvs_votes_def [of hvs'] using old by blast
  moreover have "majority_at rnd t hvs' = Some b" if "t \<in> {PrevoteType, PrecommitType}" "majority_at rnd t hvs = Some b" for rnd t b
  proof -
    note maj = that
    obtain vs where "votes_at rnd t hvs' = Some vs"
      using maj(2) sets(1) by (fastforce simp: majority_at_def votes_at_def split: option.splits)
    with old [OF maj(1) this] maj(2) show ?thesis by (simp add: majority_at_def)
  qed
  ultimately show ?thesis by (simp add: hvs_step_def same sets(1))
qed

lemma NewVoteSet_for:
  assumes "hvs_height hvs \<noteq> 0" "vset_wf (hvs_valSet hvs)"
  obtains vs where "NewVoteSet (hvs_chainID hvs) (hvs_height hvs) rnd t (hvs_valSet hvs) = Inr vs" "vote_set_for cr hvs rnd t vs" "kept_votes vs = {}"
proof -
  obtain vs where vs: "NewVoteSet (hvs_chainID hvs) (hvs_height hvs) rnd t (hvs_valSet hvs) = Inr vs" using assms by (simp add: NewVoteSet_def)
  with NewVoteSet_inv [OF assms(2) vs] assms(1) have "vote_set_for cr hvs rnd t vs" "kept_votes vs = {}"
    by (auto simp: vote_set_for_def NewVoteSet_def kept_votes_def)
  with vs that show ?thesis by blast
qed

lemma addRound_eq:
  assumes "hvs_height hvs \<noteq> 0" "vset_wf (hvs_valSet hvs)" "hvs_roundVoteSets hvs rnd = None"
  obtains rvs where "addRound rnd hvs = Inr (hvs\<lparr>hvs_roundVoteSets := (hvs_roundVoteSets hvs)(rnd \<mapsto> rvs)\<rparr>)"
    "\<And>t. t \<in> {PrevoteType, PrecommitType} \<Longrightarrow> vote_set_for cr hvs rnd t (set_of t rvs) \<and> kept_votes (set_of t rvs) = {}"
proof -
  obtain p where p: "NewVoteSet (hvs_chainID hvs) (hvs_height hvs) rnd PrevoteType (hvs_valSet hvs) = Inr p"
      "vote_set_for cr hvs rnd PrevoteType p" "kept_votes p = {}" by (rule NewVoteSet_for [OF assms(1,2)])
  obtain c where c: "NewVoteSet (hvs_chainID hvs) (hvs_height hvs) rnd PrecommitType (hvs_valSet hvs) = Inr c"
      "vote_set_for cr hvs rnd PrecommitType c" "kept_votes c = {}" by (rule NewVoteSet_for [OF assms(1,2)])
  have ne: "PrecommitType \<noteq> PrevoteType" by (simp add: PrevoteType_def PrecommitType_def)
  show ?thesis
    by (rule that [of "\<lparr>rvs_Prevotes = p, rvs_Precommits = c\<rparr>"]) (use p c ne assms(3) in \<open>auto simp: addRound_def set_of_def\<close>)
qed

lemma addRound_step:
  assumes inv: "hvs_inv cr hvs" and new: "hvs_roundVoteSets hvs rnd = None"
  obtains hvs' where "addRound rnd hvs = Inr hvs'" "hvs_step cr {} hvs hvs'" "hvs_round hvs' = hvs_round hvs"
    "dom (hvs_roundVoteSets hvs') = insert rnd (dom (hvs_roundVoteSets hvs))"
proof -
  have "hvs_height hvs \<noteq> 0" "vset_wf (hvs_valSet hvs)" using inv by (simp_all add: hvs_inv_def)
  then obtain rvs where rvs: "addRound rnd hvs = Inr (hvs\<lparr>hvs_roundVoteSets := (hvs_roundVoteSets hvs)(rnd \<mapsto> rvs)\<rparr>)"
      "\<And>t. t \<in> {PrevoteType, PrecommitType} \<Longrightarrow> vote_set_for cr hvs rnd t (set_of t rvs) \<and> kept_votes (set_of t rvs) = {}"
    by (rule addRound_eq [OF _ _ new, of cr]) blast
  have no: "majority_at rnd t hvs = None" for t using new by (simp add: majority_at_def votes_at_def)
  have "hvs_step cr {} hvs (hvs\<lparr>hvs_roundVoteSets := (hvs_roundVoteSets hvs)(rnd \<mapsto> rvs)\<rparr>)"
  proof (rule hvs_step_update [OF inv])
    fix r t vs
    assume t: "t \<in> {PrevoteType, PrecommitType}" "votes_at r t (hvs\<lparr>hvs_roundVoteSets := (hvs_roundVoteSets hvs)(rnd \<mapsto> rvs)\<rparr>) = Some vs"
      "votes_at r t hvs \<noteq> Some vs"
    then have "r = rnd" "vs = set_of t rvs" by (auto simp: votes_at_def split: if_splits)
    with rvs(2) [OF t(1)] no show "vote_set_for cr hvs r t vs \<and> kept_votes vs \<subseteq> hvs_votes hvs \<union> {} \<and>
      (majority_at r t hvs \<noteq> None \<longrightarrow> vst_maj23 vs = majority_at r t hvs)" by simp
  qed auto
  with rvs(1) show ?thesis by (intro that [OF rvs(1)]) auto
qed

lemma NewHeightVoteSet_inv:
  assumes "height \<noteq> 0" "vset_wf vals" "vset_keys vals"
  obtains hvs where "NewHeightVoteSet chainID height vals = Inr hvs" "hvs_inv cr hvs" "hvs_votes hvs = {}" "hvs_round hvs = 0"
    "hvs_chainID hvs = chainID" "hvs_height hvs = height" "hvs_valSet hvs = vals" "dom (hvs_roundVoteSets hvs) = {0}"
proof -
  let ?h = "\<lparr>hvs_chainID = chainID, hvs_height = height, hvs_valSet = vals, hvs_round = 0,
       hvs_roundVoteSets = Map.empty, hvs_peerCatchupRounds = Map.empty\<rparr>"
  have inv: "hvs_inv cr ?h" and no: "hvs_roundVoteSets ?h 0 = None" and empty: "hvs_votes ?h = {}"
    using assms by (simp_all add: hvs_inv_def votes_at_def hvs_votes_def)
  obtain h where h: "addRound 0 ?h = Inr h" "hvs_step cr {} ?h h" "hvs_round h = hvs_round ?h"
      "dom (hvs_roundVoteSets h) = insert 0 (dom (hvs_roundVoteSets ?h))"
    by (rule addRound_step [OF inv no])
  have "h\<lparr>hvs_round := 0\<rparr> = h" using h(3) by simp
  then have "NewHeightVoteSet chainID height vals = Inr h" using h(1) by (simp add: NewHeightVoteSet_def Reset_def)
  then show ?thesis using h(2,3,4) empty by (intro that) (auto simp: hvs_step_def)
qed

lemma add_rounds_step:
  assumes "hvs_inv cr hvs"
  shows "\<exists>hvs'. add_rounds rs hvs = Inr hvs' \<and> hvs_step cr {} hvs hvs' \<and> hvs_round hvs' = hvs_round hvs \<and>
    dom (hvs_roundVoteSets hvs') = set rs \<union> dom (hvs_roundVoteSets hvs)"
  using assms
proof (induction rs arbitrary: hvs)
  case (Cons r rs)
  show ?case
  proof (cases "hvs_roundVoteSets hvs r")
    case (Some v)
    then show ?thesis using Cons.IH [OF Cons.prems] by (auto simp: insert_absorb domI)
  next
    case None
    obtain h where h: "addRound r hvs = Inr h" "hvs_step cr {} hvs h" "hvs_round h = hvs_round hvs"
      "dom (hvs_roundVoteSets h) = insert r (dom (hvs_roundVoteSets hvs))" by (rule addRound_step [OF Cons.prems None])
    obtain h' where "add_rounds rs h = Inr h'" "hvs_step cr {} h h'" "hvs_round h' = hvs_round h"
        "dom (hvs_roundVoteSets h') = set rs \<union> dom (hvs_roundVoteSets h)"
      using Cons.IH [OF hvs_stepD(1) [OF h(2)]] by blast
    with h None hvs_step_trans [OF h(2), of "{}" h'] show ?thesis by auto
  qed
qed (simp add: hvs_step_refl)

lemma hvs_step_fields [simp]:
  "hvs_step cr new hvs (hvs'\<lparr>hvs_round := r\<rparr>) = hvs_step cr new hvs hvs'"
  "hvs_step cr new hvs (hvs'\<lparr>hvs_peerCatchupRounds := p\<rparr>) = hvs_step cr new hvs hvs'"
proof -
  have "votes_at rnd t (hvs'\<lparr>hvs_round := r\<rparr>) = votes_at rnd t hvs'" "votes_at rnd t (hvs'\<lparr>hvs_peerCatchupRounds := p\<rparr>) = votes_at rnd t hvs'" for rnd t
    by (simp_all add: votes_at_def)
  then show "hvs_step cr new hvs (hvs'\<lparr>hvs_round := r\<rparr>) = hvs_step cr new hvs hvs'"
    "hvs_step cr new hvs (hvs'\<lparr>hvs_peerCatchupRounds := p\<rparr>) = hvs_step cr new hvs hvs'"
    by (simp_all add: hvs_step_def hvs_inv_def vote_set_for_def hvs_votes_def majority_at_def)
qed

lemma SetRound_step:
  assumes "hvs_inv cr hvs" "0 \<le> hvs_round hvs" "hvs_round hvs \<le> MaxInt32" "hvs_round hvs \<le> rnd + 1"
  obtains hvs' where "SetRound rnd hvs = Inr hvs'" "hvs_step cr {} hvs hvs'" "hvs_round hvs' = rnd"
    "{hvs_round hvs - 1..rnd} \<subseteq> dom (hvs_roundVoteSets hvs')"
proof -
  have "SafeSubInt32 (hvs_round hvs) 1 = Inr (hvs_round hvs - 1)" using assms(2,3) by (simp add: SafeSubInt32_def int_limits int32_range_iff)
  moreover obtain h where "add_rounds [hvs_round hvs - 1..rnd] hvs = Inr h" "hvs_step cr {} hvs h"
      "dom (hvs_roundVoteSets h) = set [hvs_round hvs - 1..rnd] \<union> dom (hvs_roundVoteSets hvs)"
    using add_rounds_step [OF assms(1)] by blast
  ultimately show ?thesis
    using assms(4) by (intro that [of "h\<lparr>hvs_round := rnd\<rparr>"]) (auto simp: SetRound_def)
qed

lemma votes_at_put:
  assumes "votes_at rnd t hvs = Some vs" "t \<in> {PrevoteType, PrecommitType}" "u \<in> {PrevoteType, PrecommitType}"
  shows "votes_at r u (put_vote_set rnd t vs' hvs) = (if r = rnd \<and> u = t then Some vs' else votes_at r u hvs)"
  using assms by (auto simp: votes_at_def put_vote_set_def set_of_def PrevoteType_def PrecommitType_def)

lemma put_vote_set_same [simp]:
  "hvs_chainID (put_vote_set rnd t vs hvs) = hvs_chainID hvs" "hvs_height (put_vote_set rnd t vs hvs) = hvs_height hvs"
  "hvs_valSet (put_vote_set rnd t vs hvs) = hvs_valSet hvs" "hvs_round (put_vote_set rnd t vs hvs) = hvs_round hvs"
  "dom (hvs_roundVoteSets (put_vote_set rnd t vs hvs)) = dom (hvs_roundVoteSets hvs)"
  by (auto simp: put_vote_set_def split: option.split)

lemma put_vote_set_step:
  assumes inv: "hvs_inv cr hvs" and t: "t \<in> {PrevoteType, PrecommitType}" and vs: "votes_at rnd t hvs = Some vs"
    and vs': "vote_set_inv cr vs'" "same_step vs' vs" "kept_votes vs' \<subseteq> new \<union> kept_votes vs" "vst_maj23 vs \<noteq> None \<longrightarrow> vst_maj23 vs' = vst_maj23 vs"
  shows "hvs_step cr new hvs (put_vote_set rnd t vs' hvs)"
proof (rule hvs_step_update [OF inv])
  fix r u ws
  assume u: "u \<in> {PrevoteType, PrecommitType}" and ws: "votes_at r u (put_vote_set rnd t vs' hvs) = Some ws" "votes_at r u hvs \<noteq> Some ws"
  then have eq: "r = rnd" "u = t" "ws = vs'" using votes_at_put [OF vs t u, of r vs'] by (auto split: if_splits)
  have "vote_set_for cr hvs rnd t vs" using inv t vs unfolding hvs_inv_def by blast
  with vs'(1,2) have "vote_set_for cr hvs rnd t vs'" by (simp add: vote_set_for_def same_step_def)
  moreover have "kept_votes vs \<subseteq> hvs_votes hvs" using t vs unfolding hvs_votes_def by blast
  ultimately show "vote_set_for cr hvs r u ws \<and> kept_votes ws \<subseteq> hvs_votes hvs \<union> new \<and> (majority_at r u hvs \<noteq> None \<longrightarrow> vst_maj23 ws = majority_at r u hvs)"
    using vs'(3,4) vs unfolding eq by (auto simp: majority_at_def)
qed simp_all

lemma vote_type_valid: "IsVoteTypeValid t \<longleftrightarrow> t \<in> {PrevoteType, PrecommitType}"
  by (auto simp: IsVoteTypeValid_def)

text \<open>A vote goes to the set of its round and type, which may have been created for the peer it came from.\<close>

lemma AddVote_to_set:
  assumes inv: "hvs_inv cr hvs" and v: "votable cr v" "v_Type v \<in> {PrevoteType, PrecommitType}" and vs: "votes_at (v_Round v) (v_Type v) hvs = Some vs"
  obtains added err vs' where "AddVote cr (Some vs) (Some v) = Inr (added, err, vs')"
    "hvs_step cr {v} hvs (put_vote_set (v_Round v) (v_Type v) vs' hvs)"
proof -
  have f: "vote_set_for cr hvs (v_Round v) (v_Type v) vs" using inv v(2) vs unfolding hvs_inv_def by blast
  then have keys: "vote_set_inv cr vs" "vset_keys (vst_valSet vs)" using inv by (simp_all add: vote_set_for_def hvs_inv_def)
  obtain added err vs' where a: "AddVote cr (Some vs) (Some v) = Inr (added, err, vs')" "vote_set_inv cr vs'" "same_step vs' vs"
      "vst_maj23 vs \<noteq> None \<longrightarrow> vst_maj23 vs' = vst_maj23 vs"
    using AddVote_inv [OF keys v(1)] by blast
  have "kept_votes vs' \<subseteq> {v} \<union> kept_votes vs" using a(1) addVote_kept by (force simp: AddVote_def)
  from that [OF a(1) put_vote_set_step [OF inv v(2) vs a(2,3) this a(4)]] show ?thesis .
qed

lemma HeightVoteSet_AddVote_step:
  assumes inv: "hvs_inv cr hvs" and v: "votable cr v"
  obtains added err hvs' where "HeightVoteSet_AddVote cr v peer hvs = Inr (added, err, hvs')" "hvs_step cr {v} hvs hvs'" "hvs_round hvs' = hvs_round hvs"
    "added \<Longrightarrow> votes_at (v_Round v) (v_Type v) hvs' \<noteq> None \<and> v_Type v \<in> {PrevoteType, PrecommitType}"
proof (cases "v_Type v \<in> {PrevoteType, PrecommitType}")
  case False
  then have "HeightVoteSet_AddVote cr v peer hvs = Inr (False, None, hvs)" by (simp add: HeightVoteSet_AddVote_def vote_type_valid)
  with that [OF this] hvs_step_refl [OF inv] show ?thesis by (auto simp: hvs_step_def)
next
  case True
  note get = getVoteSet_valid [OF True]
  show ?thesis
  proof (cases "votes_at (v_Round v) (v_Type v) hvs")
    case (Some vs)
    obtain added err vs' where a: "AddVote cr (Some vs) (Some v) = Inr (added, err, vs')"
        "hvs_step cr {v} hvs (put_vote_set (v_Round v) (v_Type v) vs' hvs)" by (rule AddVote_to_set [OF inv v True Some])
    then show ?thesis using True Some votes_at_put [OF Some True True]
      by (intro that [of added "map_option ErrVoteSet err" "put_vote_set (v_Round v) (v_Type v) vs' hvs"])
        (simp_all add: HeightVoteSet_AddVote_def vote_type_valid get)
  next
    case None
    then have none: "hvs_roundVoteSets hvs (v_Round v) = None" by (simp add: votes_at_def)
    let ?rndz = "case hvs_peerCatchupRounds hvs peer of None \<Rightarrow> [] | Some rs \<Rightarrow> rs"
    show ?thesis
    proof (cases "length ?rndz < 2")
      case False
      then have "HeightVoteSet_AddVote cr v peer hvs = Inr (False, Some ErrGotVoteFromUnwantedRound, hvs)"
        using True None by (simp add: HeightVoteSet_AddVote_def vote_type_valid get)
      with that [OF this] hvs_step_refl [OF inv] show ?thesis by (auto simp: hvs_step_def)
    next
      case few: True
      obtain h where h: "addRound (v_Round v) hvs = Inr h" "hvs_step cr {} hvs h" "hvs_round h = hvs_round hvs"
          "dom (hvs_roundVoteSets h) = insert (v_Round v) (dom (hvs_roundVoteSets hvs))" by (rule addRound_step [OF inv none])
      define g where "g = h\<lparr>hvs_peerCatchupRounds := (hvs_peerCatchupRounds h)(peer \<mapsto> ?rndz @ [v_Round v])\<rparr>"
      have at: "votes_at r t g = votes_at r t h" for r t by (simp add: g_def votes_at_def)
      have g: "hvs_step cr {} hvs g" using h(2) by (simp add: g_def)
      have "v_Round v \<in> dom (hvs_roundVoteSets h)" using h(4) by simp
      then obtain vs where vs: "votes_at (v_Round v) (v_Type v) g = Some vs" unfolding at by (auto simp: votes_at_def)
      obtain added err vs' where a: "AddVote cr (Some vs) (Some v) = Inr (added, err, vs')"
          "hvs_step cr {v} g (put_vote_set (v_Round v) (v_Type v) vs' g)" by (rule AddVote_to_set [OF hvs_stepD(1) [OF g] v True vs])
      have "HeightVoteSet_AddVote cr v peer hvs = Inr (added, map_option ErrVoteSet err, put_vote_set (v_Round v) (v_Type v) vs' g)"
        using True None few h(1) vs a(1) at by (simp add: HeightVoteSet_AddVote_def vote_type_valid get getVoteSet_valid [OF True] g_def [symmetric])
      then show ?thesis using hvs_step_trans [OF g a(2)] True votes_at_put [OF vs True True] h(3)
        by (intro that [of added "map_option ErrVoteSet err" "put_vote_set (v_Round v) (v_Type v) vs' g"]) (simp_all add: g_def)
    qed
  qed
qed

lemma HeightVoteSet_SetPeerMaj23_step:
  assumes inv: "hvs_inv cr hvs"
  obtains err hvs' where "HeightVoteSet_SetPeerMaj23 rnd t peer b hvs = Inr (err, hvs')" "hvs_step cr {} hvs hvs'" "hvs_round hvs' = hvs_round hvs"
proof (cases "t \<in> {PrevoteType, PrecommitType} \<and> votes_at rnd t hvs \<noteq> None")
  case False
  then show ?thesis using hvs_step_refl [OF inv]
    by (intro that [of "if t \<in> {PrevoteType, PrecommitType} then None else Some ErrInvalidVoteType" hvs])
      (auto simp: HeightVoteSet_SetPeerMaj23_def vote_type_valid getVoteSet_valid)
next
  case True
  then obtain vs where t: "t \<in> {PrevoteType, PrecommitType}" and vs: "votes_at rnd t hvs = Some vs" by auto
  have "vote_set_for cr hvs rnd t vs" using inv t vs unfolding hvs_inv_def by blast
  then have "vote_set_inv cr vs" by (simp add: vote_set_for_def)
  then obtain err vs' where s: "SetPeerMaj23 (Some vs) peer b = Inr (err, vs')" "vote_set_inv cr vs'" "same_step vs' vs" "vst_maj23 vs' = vst_maj23 vs"
    using SetPeerMaj23_inv by blast
  have "kept_votes vs' \<subseteq> {} \<union> kept_votes vs"
    using s(1) by (auto simp: SetPeerMaj23_def Let_def kept_votes_def newBlockVotes_def split: option.splits if_splits)
  from put_vote_set_step [OF inv t vs s(2,3) this] s(1,4) t vs show ?thesis
    by (intro that [of "map_option ErrVoteSet err" "put_vote_set rnd t vs' hvs"]) (auto simp: HeightVoteSet_SetPeerMaj23_def vote_type_valid getVoteSet_valid)
qed

section \<open>Majorities\<close>

lemma pol_info_found: "pol_info rs hvs = (r, b) \<Longrightarrow> r \<noteq> -1 \<Longrightarrow> r \<in> set rs \<and> majority_at r PrevoteType hvs = Some b"
  by (induction rs) (auto simp: TwoThirdsMajority_at(1) [symmetric] split: prod.splits if_splits)

lemma POLInfo_found: "POLInfo hvs = (r, b) \<Longrightarrow> r \<noteq> -1 \<Longrightarrow> 0 \<le> r \<and> r \<le> hvs_round hvs \<and> majority_at r PrevoteType hvs = Some b"
  unfolding POLInfo_def by (drule (1) pol_info_found) auto

lemma pol_info_none: "-1 \<notin> set rs \<Longrightarrow> fst (pol_info rs hvs) = -1 \<Longrightarrow> r \<in> set rs \<Longrightarrow> majority_at r PrevoteType hvs = None"
  by (induction rs) (auto simp: TwoThirdsMajority_def votes_at_Prevotes majority_at_def split: option.splits prod.splits if_splits)

lemma POLInfo_none: "fst (POLInfo hvs) = -1 \<Longrightarrow> 0 \<le> r \<Longrightarrow> r \<le> hvs_round hvs \<Longrightarrow> majority_at r PrevoteType hvs = None"
  unfolding POLInfo_def by (rule pol_info_none) auto

text \<open>A recorded majority is backed by verified votes of more than two thirds of the power.\<close>

definition vote_of :: "crypto \<Rightarrow> bytes \<Rightarrow> ValidatorSet \<Rightarrow> nat \<Rightarrow> Vote \<Rightarrow> bool" where
  "vote_of cr chainID vals i v \<longleftrightarrow> (\<exists>pk. val_PubKey (vs_Validators vals ! i) = Some pk \<and> Vote_Verify cr chainID pk v = Inr ())"

lemma majority_quorum:
  assumes inv: "hvs_inv cr hvs" and t: "t \<in> {PrevoteType, PrecommitType}" and m: "majority_at rnd t hvs = Some b"
  obtains s where "s \<subseteq> {..<ValidatorSet_Size (hvs_valSet hvs)}" "2 * all_power (hvs_valSet hvs) < 3 * power_in (hvs_valSet hvs) s"
    "\<And>i. i \<in> s \<Longrightarrow> \<exists>v \<in> hvs_votes hvs. vote_of cr (hvs_chainID hvs) (hvs_valSet hvs) i v \<and> v_Height v = hvs_height hvs \<and> v_Round v = rnd \<and>
       v_Type v = t \<and> v_BlockID v = b"
proof -
  obtain vs where vs: "votes_at rnd t hvs = Some vs" "vst_maj23 vs = Some b" using m by (auto simp: majority_at_def split: option.splits)
  then have f: "vote_set_for cr hvs rnd t vs" using inv t unfolding hvs_inv_def by blast
  then have i: "vote_set_inv cr vs" by (simp add: vote_set_for_def)
  let ?s = "{i. i < vst_size vs \<and> (\<exists>v. vst_votes vs ! i = Some v \<and> v_BlockID v = b)}"
  have size: "vst_size vs = ValidatorSet_Size (hvs_valSet hvs)" using f by (simp add: vote_set_for_def)
  have "2 * all_power (hvs_valSet hvs) < 3 * power_in (hvs_valSet hvs) ?s"
    using block_power_majority [OF i vs(2)] f by (simp add: block_power_def vote_set_for_def)
  moreover have "\<exists>v \<in> hvs_votes hvs. vote_of cr (hvs_chainID hvs) (hvs_valSet hvs) j v \<and> v_Height v = hvs_height hvs \<and> v_Round v = rnd \<and>
       v_Type v = t \<and> v_BlockID v = b" if "j \<in> ?s" for j
  proof -
    obtain v where v: "vst_votes vs ! j = Some v" "v_BlockID v = b" "j < vst_size vs" using \<open>j \<in> ?s\<close> by blast
    have l: "length (vst_votes vs) = vst_size vs" "vote_ok cr vs j v" using i v by (auto simp: inv_upto_def slots_ok_def)
    then have "Some v \<in> set (vst_votes vs)" using v nth_mem by metis
    then have "v \<in> hvs_votes hvs" using vs(1) t unfolding hvs_votes_def kept_votes_def by blast
    with l(2) v f show ?thesis by (intro bexI [of _ v]) (auto simp: vote_ok_def vote_of_def vote_set_for_def)
  qed
  ultimately show ?thesis by (intro that [of ?s]) (auto simp: size)
qed

end
