(* ===== verification/State_Store.thy ===== *)
theory State_Store
  imports Blocks
begin

text \<open>
  The state of the chain and how it is kept: consensus parameters (\<^verbatim>\<open>types/params.go\<close>), the genesis document
  (\<^verbatim>\<open>types/genesis.go\<close>), the state record (\<^verbatim>\<open>state/state.go\<close>) and its database (\<^verbatim>\<open>state/store.go\<close>).

  The database is a third-party key-value store. It is modelled by one map for each family of keys, holding the
  messages that the generated code encodes and decodes; it does not fail and returns what was stored. The zero
  \<^verbatim>\<open>State\<close>, whose validators are nil, is \<open>None\<close>.
\<close>

section \<open>Consensus parameters\<close>

record BlockParams =
  bp_MaxBytes :: int64
  bp_MaxGas :: int64
  bp_TimeIotaMs :: int64

record EvidenceParams =
  ep_MaxAgeNumBlocks :: int64
  ep_MaxAgeDuration :: int64
  ep_MaxNum :: nat
  ep_ProofTrialPeriod :: int64

record ConsensusParams =
  cp_Block :: BlockParams
  cp_Evidence :: EvidenceParams
  cp_PubKeyTypes :: "string list"
  cp_AppVersion :: nat

datatype state_error =
    ErrParams string
  | ErrGenesis string
  | ErrVals vs_error
  | ErrNilValidatorSet
  | ErrNilValidator
  | ErrKey evidence_error
  | ErrUnsupportedKey
  | ErrStateBlockID basic_error
  | ErrNilState
  | ErrNoValSetForHeight int64
  | ErrNoConsensusParamsForHeight int64
  | ErrNoABCIResponsesForHeight int64
  | ErrPrune string
  | ErrInvalid string
  | ErrBlock block_error
  | ErrCommit commit_error
  | ErrEvidence evidence_error
  | ErrParts part_error
  | ErrApp string

definition MaxBlockSizeBytes :: int64 where "MaxBlockSizeBytes = 104857600"
definition MaxEvidencePerBlock :: nat where "MaxEvidencePerBlock = 65535"
definition ABCIPubKeyTypeEd25519 :: string where "ABCIPubKeyTypeEd25519 = ''ed25519''"

definition DefaultConsensusParams :: ConsensusParams where
  "DefaultConsensusParams =
     \<lparr>cp_Block = \<lparr>bp_MaxBytes = 22020096, bp_MaxGas = -1, bp_TimeIotaMs = 1000\<rparr>,
      cp_Evidence = \<lparr>ep_MaxAgeNumBlocks = 100000, ep_MaxAgeDuration = 172800000000000, ep_MaxNum = 50, ep_ProofTrialPeriod = 50000\<rparr>,
      cp_PubKeyTypes = [ABCIPubKeyTypeEd25519], cp_AppVersion = 0\<rparr>"

definition IsValidPubkeyType :: "ConsensusParams \<Rightarrow> string \<Rightarrow> bool" where
  "IsValidPubkeyType params pubkeyType = list_ex (\<lambda>t. t = pubkeyType) (cp_PubKeyTypes params)"

definition ValidateConsensusParams :: "ConsensusParams \<Rightarrow> (state_error, unit) result" where
  "ValidateConsensusParams params =
     (let b = cp_Block params; e = cp_Evidence params in
      if bp_MaxBytes b \<le> 0 then Inl (Err (ErrParams ''block.MaxBytes must be greater than 0''))
      else if bp_MaxBytes b > MaxBlockSizeBytes then Inl (Err (ErrParams ''block.MaxBytes is too big''))
      else if bp_MaxGas b < -1 then Inl (Err (ErrParams ''block.MaxGas must be greater or equal to -1''))
      else if bp_TimeIotaMs b \<le> 0 then Inl (Err (ErrParams ''block.TimeIotaMs must be greater than 0''))
      else if ep_MaxAgeNumBlocks e \<le> 0 then Inl (Err (ErrParams ''MaxAgeNumBlocks must be greater than 0''))
      else if ep_MaxAgeDuration e \<le> 0 then Inl (Err (ErrParams ''MaxAgeDuration must be greater than 0''))
      else if ep_MaxNum e > MaxEvidencePerBlock then Inl (Err (ErrParams ''MaxNumEvidence is greater than upper bound''))
      else if wrap64 (int (ep_MaxNum e) * MaxEvidenceBytes) > bp_MaxBytes b then Inl (Err (ErrParams ''total possible evidence size is bigger than block.MaxBytes''))
      else if ep_ProofTrialPeriod e \<le> 0 then Inl (Err (ErrParams ''ProofTrialPeriod must be greater than 0''))
      else if ep_ProofTrialPeriod e \<ge> ep_MaxAgeNumBlocks e then Inl (Err (ErrParams ''ProofTrialPeriod must be smaller than MaxAgeNumBlocks''))
      else if length (cp_PubKeyTypes params) = 0 then Inl (Err (ErrParams ''no PubKeyTypes''))
      else if list_ex (\<lambda>keyType. keyType \<noteq> ABCIPubKeyTypeEd25519) (cp_PubKeyTypes params) then Inl (Err (ErrParams ''unknown pubkey type''))
      else Inr ())"

definition HashedParams_marshal :: "int64 \<Rightarrow> int64 \<Rightarrow> bytes" where
  "HashedParams_marshal maxBytes maxGas = varint_field 0x08 (uint64_of maxBytes) @ varint_field 0x10 (uint64_of maxGas)"

definition HashConsensusParams :: "(bytes \<Rightarrow> bytes) \<Rightarrow> ConsensusParams \<Rightarrow> bytes" where
  "HashConsensusParams H params = H (HashedParams_marshal (bp_MaxBytes (cp_Block params)) (bp_MaxGas (cp_Block params)))"

text \<open>The parameters that an application sends; the time step is not among them.\<close>

record abcix_ConsensusParams =
  acp_Block :: "(int64 \<times> int64) option"
  acp_Evidence :: "EvidenceParams option"
  acp_PubKeyTypes :: "string list option"
  acp_AppVersion :: "nat option"

definition UpdateConsensusParams :: "ConsensusParams \<Rightarrow> abcix_ConsensusParams option \<Rightarrow> ConsensusParams" where
  "UpdateConsensusParams params params2 =
     (case params2 of
        None \<Rightarrow> params
      | Some p \<Rightarrow>
          let res = (case acp_Block p of None \<Rightarrow> params
             | Some (maxBytes, maxGas) \<Rightarrow> params\<lparr>cp_Block := (cp_Block params)\<lparr>bp_MaxBytes := maxBytes, bp_MaxGas := maxGas\<rparr>\<rparr>);
              res = (case acp_Evidence p of None \<Rightarrow> res
             | Some e \<Rightarrow> res\<lparr>cp_Evidence := (cp_Evidence res)\<lparr>ep_MaxAgeNumBlocks := ep_MaxAgeNumBlocks e,
                 ep_MaxAgeDuration := ep_MaxAgeDuration e, ep_MaxNum := ep_MaxNum e\<rparr>\<rparr>);
              res = (case acp_PubKeyTypes p of None \<Rightarrow> res | Some ts \<Rightarrow> res\<lparr>cp_PubKeyTypes := ts\<rparr>)
          in (case acp_AppVersion p of None \<Rightarrow> res | Some v \<Rightarrow> res\<lparr>cp_AppVersion := v\<rparr>))"

section \<open>The state\<close>

record Version =
  ver_Consensus :: Consensus
  ver_Software :: bytes

record State =
  st_Version :: Version
  st_ChainID :: bytes
  st_LastBlockHeight :: int64
  st_LastBlockID :: BlockID
  st_LastBlockTime :: timestamp
  st_NextValidators :: ValidatorSet
  st_Validators :: ValidatorSet
  st_LastValidators :: ValidatorSet
  st_LastHeightValidatorsChanged :: int64
  st_ConsensusParams :: ConsensusParams
  st_LastHeightConsensusParamsChanged :: int64

definition State_IsEmpty :: "State option \<Rightarrow> bool" where
  "State_IsEmpty state \<longleftrightarrow> state = None"

subsection \<open>Messages for validator sets\<close>

record tmproto_Validator =
  pbv_Address :: bytes
  pbv_PubKey :: "bytes option"
  pbv_VotingPower :: int64
  pbv_ProposerPriority :: int64

record tmproto_ValidatorSet =
  pbvs_Validators :: "tmproto_Validator list"
  pbvs_Proposer :: "tmproto_Validator option"
  pbvs_TotalVotingPower :: int64

definition Validator_ToProto :: "Validator option \<Rightarrow> (state_error, tmproto_Validator) result" where
  "Validator_ToProto v =
     (case v of
        None \<Rightarrow> Inl (Err ErrNilValidator)
      | Some v \<Rightarrow>
          (case val_PubKey v of
             None \<Rightarrow> Inl (Err ErrUnsupportedKey)
           | Some pk \<Rightarrow> Inr \<lparr>pbv_Address = val_Address v, pbv_PubKey = Some pk, pbv_VotingPower = val_VotingPower v,
               pbv_ProposerPriority = val_ProposerPriority v\<rparr>))"

definition ValidatorFromProto :: "tmproto_Validator option \<Rightarrow> (state_error, Validator) result" where
  "ValidatorFromProto vp =
     (case vp of
        None \<Rightarrow> Inl (Err ErrNilValidator)
      | Some p \<Rightarrow>
          and_then (lift_fault ErrKey (PubKeyFromProto (pbv_PubKey p))) (\<lambda>pk.
          Inr \<lparr>val_Address = pbv_Address p, val_PubKey = Some pk, val_VotingPower = pbv_VotingPower p,
               val_ProposerPriority = pbv_ProposerPriority p\<rparr>))"

fun all_results :: "('a \<Rightarrow> ('e, 'b) result) \<Rightarrow> 'a list \<Rightarrow> ('e, 'b list) result" where
  "all_results f [] = Inr []"
| "all_results f (x # xs) = and_then (f x) (\<lambda>y. and_then (all_results f xs) (\<lambda>ys. Inr (y # ys)))"

definition ValidatorSet_ToProto :: "ValidatorSet \<Rightarrow> (state_error, tmproto_ValidatorSet) result" where
  "ValidatorSet_ToProto vals =
     (case ValidatorSet_ValidateBasic vals of
        Some e \<Rightarrow> Inl (Err (ErrVals e))
      | None \<Rightarrow>
          and_then (all_results (Validator_ToProto \<circ> Some) (vs_Validators vals)) (\<lambda>ps.
          and_then (Validator_ToProto (vs_Proposer vals)) (\<lambda>p.
          Inr \<lparr>pbvs_Validators = ps, pbvs_Proposer = Some p, pbvs_TotalVotingPower = vs_totalVotingPower vals\<rparr>)))"

definition ValidatorSetFromProto :: "tmproto_ValidatorSet option \<Rightarrow> (state_error, ValidatorSet) result" where
  "ValidatorSetFromProto vp =
     (case vp of
        None \<Rightarrow> Inl (Err ErrNilValidatorSet)
      | Some p \<Rightarrow>
          and_then (all_results (ValidatorFromProto \<circ> Some) (pbvs_Validators p)) (\<lambda>vs.
          and_then (ValidatorFromProto (pbvs_Proposer p)) (\<lambda>q.
          Inr \<lparr>vs_Validators = vs, vs_Proposer = Some q, vs_totalVotingPower = pbvs_TotalVotingPower p\<rparr>)))"

subsection \<open>The message for a state\<close>

record tmstate_State =
  pst_Version :: Version
  pst_ChainID :: bytes
  pst_LastBlockHeight :: int64
  pst_LastBlockID :: BlockID
  pst_LastBlockTime :: timestamp
  pst_NextValidators :: "tmproto_ValidatorSet option"
  pst_Validators :: "tmproto_ValidatorSet option"
  pst_LastValidators :: "tmproto_ValidatorSet option"
  pst_LastHeightValidatorsChanged :: int64
  pst_ConsensusParams :: ConsensusParams
  pst_LastHeightConsensusParamsChanged :: int64

definition State_ToProto :: "State \<Rightarrow> (state_error, tmstate_State) result" where
  "State_ToProto state =
     and_then (ValidatorSet_ToProto (st_Validators state)) (\<lambda>vals.
     and_then (ValidatorSet_ToProto (st_NextValidators state)) (\<lambda>nVals.
     and_then (if st_LastBlockHeight state \<ge> 1 then and_then (ValidatorSet_ToProto (st_LastValidators state)) (\<lambda>l. Inr (Some l)) else Inr None) (\<lambda>lVals.
     Inr \<lparr>pst_Version = st_Version state, pst_ChainID = st_ChainID state, pst_LastBlockHeight = st_LastBlockHeight state,
          pst_LastBlockID = st_LastBlockID state, pst_LastBlockTime = st_LastBlockTime state,
          pst_NextValidators = Some nVals, pst_Validators = Some vals, pst_LastValidators = lVals,
          pst_LastHeightValidatorsChanged = st_LastHeightValidatorsChanged state, pst_ConsensusParams = st_ConsensusParams state,
          pst_LastHeightConsensusParamsChanged = st_LastHeightConsensusParamsChanged state\<rparr>)))"

definition StateFromProto :: "tmstate_State option \<Rightarrow> (state_error, State) result" where
  "StateFromProto pb =
     (case pb of
        None \<Rightarrow> Inl (Err ErrNilState)
      | Some p \<Rightarrow>
          and_then (lift_fault ErrStateBlockID (BlockIDFromProto (Some (pst_LastBlockID p)))) (\<lambda>bi.
          and_then (ValidatorSetFromProto (pst_Validators p)) (\<lambda>vals.
          and_then (ValidatorSetFromProto (pst_NextValidators p)) (\<lambda>nVals.
          and_then (if pst_LastBlockHeight p \<ge> 1 then ValidatorSetFromProto (pst_LastValidators p) else lift_fault ErrVals (NewValidatorSet [])) (\<lambda>lVals.
          Inr \<lparr>st_Version = pst_Version p, st_ChainID = pst_ChainID p, st_LastBlockHeight = pst_LastBlockHeight p,
               st_LastBlockID = bi, st_LastBlockTime = pst_LastBlockTime p, st_NextValidators = nVals, st_Validators = vals,
               st_LastValidators = lVals, st_LastHeightValidatorsChanged = pst_LastHeightValidatorsChanged p,
               st_ConsensusParams = pst_ConsensusParams p, st_LastHeightConsensusParamsChanged = pst_LastHeightConsensusParamsChanged p\<rparr>)))))"

text \<open>\<^verbatim>\<open>Bytes\<close> panics when there is no message; the bytes stand for the message.\<close>

definition or_die :: "string \<Rightarrow> ('e, 'a) result \<Rightarrow> ('e, 'a) result" where
  "or_die s r = (case r of Inl (Err _) \<Rightarrow> Inl (Panic s) | _ \<Rightarrow> r)"

definition State_Bytes :: "State \<Rightarrow> (state_error, tmstate_State) result" where
  "State_Bytes state = or_die ''state.ToProto'' (State_ToProto state)"

definition State_Equals :: "State \<Rightarrow> State \<Rightarrow> (state_error, bool) result" where
  "State_Equals state state2 = and_then (State_Bytes state) (\<lambda>sbz. and_then (State_Bytes state2) (\<lambda>s2bz. Inr (sbz = s2bz)))"

section \<open>Genesis\<close>

record GenesisValidator =
  gv_Address :: bytes
  gv_PubKey :: bytes
  gv_Power :: int64

record GenesisDoc =
  gd_GenesisTime :: timestamp
  gd_ChainID :: bytes
  gd_ConsensusParams :: "ConsensusParams option"
  gd_Validators :: "GenesisValidator list option"
  gd_AppHash :: bytes

definition gd_vals :: "GenesisDoc \<Rightarrow> GenesisValidator list" where
  "gd_vals genDoc = (case gd_Validators genDoc of None \<Rightarrow> [] | Some vs \<Rightarrow> vs)"

text \<open>The zero time is 0; \<open>now\<close> is the clock.\<close>

definition complete_validator :: "crypto \<Rightarrow> GenesisValidator \<Rightarrow> (state_error, GenesisValidator) result" where
  "complete_validator cr v =
     (if gv_Power v = 0 then Inl (Err (ErrGenesis ''validators with no voting power''))
      else if length (gv_Address v) > 0 \<and> cr_Address cr (gv_PubKey v) \<noteq> gv_Address v then Inl (Err (ErrGenesis ''incorrect address''))
      else if length (gv_Address v) = 0 then Inr (v\<lparr>gv_Address := cr_Address cr (gv_PubKey v)\<rparr>)
      else Inr v)"

definition ValidateAndComplete :: "crypto \<Rightarrow> timestamp \<Rightarrow> GenesisDoc \<Rightarrow> (state_error, GenesisDoc) result" where
  "ValidateAndComplete cr now genDoc =
     (if gd_ChainID genDoc = [] then Inl (Err (ErrGenesis ''genesis doc must include non-empty chain_id''))
      else if length (gd_ChainID genDoc) > MaxChainIDLen then Inl (Err (ErrGenesis ''chain_id in genesis doc is too long''))
      else and_then (case gd_ConsensusParams genDoc of
           None \<Rightarrow> Inr DefaultConsensusParams
         | Some p \<Rightarrow> and_then (ValidateConsensusParams p) (\<lambda>_. Inr p)) (\<lambda>params.
       and_then (all_results (complete_validator cr) (gd_vals genDoc)) (\<lambda>vs.
       Inr (genDoc\<lparr>gd_ConsensusParams := Some params, gd_Validators := map_option (\<lambda>_. vs) (gd_Validators genDoc),
              gd_GenesisTime := (if gd_GenesisTime genDoc = 0 then now else gd_GenesisTime genDoc)\<rparr>))))"

definition genesis_set :: "crypto \<Rightarrow> GenesisDoc \<Rightarrow> Validator list" where
  "genesis_set cr genDoc = map (\<lambda>v. NewValidator (cr_Address cr) (gv_PubKey v) (gv_Power v)) (gd_vals genDoc)"

definition ValidatorHash :: "crypto \<Rightarrow> (bytes \<Rightarrow> bytes) \<Rightarrow> GenesisDoc \<Rightarrow> (vs_error, bytes) result" where
  "ValidatorHash cr H genDoc = and_then (NewValidatorSet (genesis_set cr genDoc)) (ValidatorSet_Hash H)"

text \<open>\<open>software\<close> and \<open>block_protocol\<close> are the constants of the \<^verbatim>\<open>version\<close> package.\<close>

definition InitStateVersion :: "nat \<Rightarrow> bytes \<Rightarrow> Version" where
  "InitStateVersion block_protocol software = \<lparr>ver_Consensus = \<lparr>cver_Block = block_protocol, cver_App = 0\<rparr>, ver_Software = software\<rparr>"

definition MakeGenesisState :: "crypto \<Rightarrow> timestamp \<Rightarrow> Version \<Rightarrow> GenesisDoc \<Rightarrow> (state_error, State) result" where
  "MakeGenesisState cr now version genDoc =
     and_then (ValidateAndComplete cr now genDoc) (\<lambda>genDoc.
     and_then (if gd_Validators genDoc = None
         then lift_fault ErrVals (and_then (NewValidatorSet []) (\<lambda>v. and_then (NewValidatorSet []) (\<lambda>n. Inr (v, n))))
         else lift_fault ErrVals (and_then (NewValidatorSet (genesis_set cr genDoc)) (\<lambda>v.
           and_then (NewValidatorSet (genesis_set cr genDoc)) (\<lambda>n. and_then (CopyIncrementProposerPriority 1 n) (\<lambda>n. Inr (v, n)))))) (\<lambda>(validatorSet, nextValidatorSet).
     and_then (lift_fault ErrVals (NewValidatorSet [])) (\<lambda>lastSet.
     case gd_ConsensusParams genDoc of
       Some params \<Rightarrow>
         Inr \<lparr>st_Version = version, st_ChainID = gd_ChainID genDoc, st_LastBlockHeight = 0, st_LastBlockID = nil_BlockID,
              st_LastBlockTime = gd_GenesisTime genDoc, st_NextValidators = nextValidatorSet, st_Validators = validatorSet, st_LastValidators = lastSet,
              st_LastHeightValidatorsChanged = 1, st_ConsensusParams = params, st_LastHeightConsensusParamsChanged = 1\<rparr>
     | None \<Rightarrow> Inl (Panic ''nil pointer dereference''))))"


section \<open>The database\<close>

record ValidatorsInfo =
  vi_ValidatorSet :: "tmproto_ValidatorSet option"
  vi_LastHeightChanged :: int64

record ConsensusParamsInfo =
  pi_ConsensusParams :: ConsensusParams
  pi_LastHeightChanged :: int64

text \<open>A response to \<^verbatim>\<open>DeliverTx\<close>: the deterministic part of it is what is hashed.\<close>

record ResponseDeliverTx =
  dtx_Code :: nat
  dtx_Data :: bytes
  dtx_Log :: bytes
  dtx_Info :: bytes
  dtx_GasWanted :: int64
  dtx_GasUsed :: int64
  dtx_Events :: "bytes list"
  dtx_Codespace :: bytes

record ResponseDeliverBlock =
  rdb_DeliverTxs :: "ResponseDeliverTx option list"
  rdb_ValidatorUpdates :: "(bytes option \<times> int64) list"
  rdb_ConsensusParamUpdates :: "abcix_ConsensusParams option"
  rdb_Events :: "bytes list"

record state_db =
  db_vals :: "int64 \<rightharpoonup> ValidatorsInfo"
  db_params :: "int64 \<rightharpoonup> ConsensusParamsInfo"
  db_abci :: "int64 \<rightharpoonup> ResponseDeliverBlock"
  db_state :: "tmstate_State option"

definition valSetCheckpointInterval :: int64 where
  "valSetCheckpointInterval = 100000"

definition empty_params :: ConsensusParams where
  "empty_params = \<lparr>cp_Block = \<lparr>bp_MaxBytes = 0, bp_MaxGas = 0, bp_TimeIotaMs = 0\<rparr>,
     cp_Evidence = \<lparr>ep_MaxAgeNumBlocks = 0, ep_MaxAgeDuration = 0, ep_MaxNum = 0, ep_ProofTrialPeriod = 0\<rparr>,
     cp_PubKeyTypes = [], cp_AppVersion = 0\<rparr>"

subsection \<open>Validators\<close>

definition lastStoredHeightFor :: "int64 \<Rightarrow> int64 \<Rightarrow> int64" where
  "lastStoredHeightFor height lastHeightChanged =
     (let checkpointHeight = wrap64 (height - height smod valSetCheckpointInterval) in max checkpointHeight lastHeightChanged)"

text \<open>An entry with no set and height 0 is encoded by no bytes at all, which read back as a missing one.\<close>

definition loadValidatorsInfo :: "state_db \<Rightarrow> int64 \<Rightarrow> ValidatorsInfo option" where
  "loadValidatorsInfo db height =
     (case db_vals db height of
        None \<Rightarrow> None
      | Some v \<Rightarrow> if vi_ValidatorSet v = None \<and> vi_LastHeightChanged v = 0 then None else Some v)"

definition LoadValidators :: "state_db \<Rightarrow> int64 \<Rightarrow> (state_error, ValidatorSet) result" where
  "LoadValidators db height =
     (case loadValidatorsInfo db height of
        None \<Rightarrow> Inl (Err (ErrNoValSetForHeight height))
      | Some valInfo \<Rightarrow>
          and_then
            (case vi_ValidatorSet valInfo of
               Some p \<Rightarrow> Inr (Some p)
             | None \<Rightarrow>
                 let lastStoredHeight = lastStoredHeightFor height (vi_LastHeightChanged valInfo) in
                 (case loadValidatorsInfo db lastStoredHeight of
                    None \<Rightarrow> Inl (Panic ''Couldn't find validators'')
                  | Some valInfo2 \<Rightarrow>
                      if vi_ValidatorSet valInfo2 = None then Inl (Panic ''Couldn't find validators'')
                      else and_then (ValidatorSetFromProto (vi_ValidatorSet valInfo2)) (\<lambda>vs.
                        and_then (lift_fault (\<lambda>_. ErrNilState) (SafeConvertInt32 (wrap64 (height - lastStoredHeight)))) (\<lambda>n.
                        and_then (lift_fault ErrVals (IncrementProposerPriority n vs)) (\<lambda>vs.
                        and_then (ValidatorSet_ToProto vs) (\<lambda>vi2. Inr (Some vi2)))))))
            ValidatorSetFromProto)"

definition saveValidatorsInfo :: "state_db \<Rightarrow> int64 \<Rightarrow> int64 \<Rightarrow> ValidatorSet \<Rightarrow> (state_error, state_db) result" where
  "saveValidatorsInfo db height lastHeightChanged valSet =
     (if lastHeightChanged > height then Inl (Panic ''LastHeightChanged cannot be greater than ValidatorsInfo height'')
      else and_then
        (if height = lastHeightChanged \<or> height smod valSetCheckpointInterval = 0
         then and_then (or_die ''ToProto'' (ValidatorSet_ToProto valSet)) (\<lambda>pv. Inr (Some pv))
         else Inr None) (\<lambda>pv.
        Inr (db\<lparr>db_vals := (db_vals db)(height \<mapsto> \<lparr>vi_ValidatorSet = pv, vi_LastHeightChanged = lastHeightChanged\<rparr>)\<rparr>)))"

subsection \<open>Parameters and responses\<close>

definition loadConsensusParamsInfo :: "state_db \<Rightarrow> int64 \<Rightarrow> ConsensusParamsInfo option" where
  "loadConsensusParamsInfo db height = db_params db height"

definition LoadConsensusParams :: "state_db \<Rightarrow> int64 \<Rightarrow> (state_error, ConsensusParams) result" where
  "LoadConsensusParams db height =
     (case loadConsensusParamsInfo db height of
        None \<Rightarrow> Inl (Err (ErrNoConsensusParamsForHeight height))
      | Some paramsInfo \<Rightarrow>
          if pi_ConsensusParams paramsInfo = empty_params
          then (case loadConsensusParamsInfo db (pi_LastHeightChanged paramsInfo) of
                  None \<Rightarrow> Inl (Panic ''Couldn't find consensus params'')
                | Some paramsInfo2 \<Rightarrow> Inr (pi_ConsensusParams paramsInfo2))
          else Inr (pi_ConsensusParams paramsInfo))"

definition saveConsensusParamsInfo :: "state_db \<Rightarrow> int64 \<Rightarrow> int64 \<Rightarrow> ConsensusParams \<Rightarrow> state_db" where
  "saveConsensusParamsInfo db nextHeight changeHeight params =
     db\<lparr>db_params := (db_params db)(nextHeight \<mapsto>
       \<lparr>pi_ConsensusParams = (if changeHeight = nextHeight then params else empty_params), pi_LastHeightChanged = changeHeight\<rparr>)\<rparr>"

definition SaveABCIResponses :: "state_db \<Rightarrow> int64 \<Rightarrow> ResponseDeliverBlock \<Rightarrow> state_db \<times> ResponseDeliverBlock" where
  "SaveABCIResponses db height abciResponses =
     (let r = abciResponses\<lparr>rdb_DeliverTxs := filter (\<lambda>tx. tx \<noteq> None) (rdb_DeliverTxs abciResponses)\<rparr>
      in (db\<lparr>db_abci := (db_abci db)(height \<mapsto> r)\<rparr>, r))"

definition LoadABCIResponses :: "state_db \<Rightarrow> int64 \<Rightarrow> (state_error, ResponseDeliverBlock) result" where
  "LoadABCIResponses db height =
     (case db_abci db height of None \<Rightarrow> Inl (Err (ErrNoABCIResponsesForHeight height)) | Some r \<Rightarrow> Inr r)"

subsection \<open>States\<close>

definition saveState :: "state_db \<Rightarrow> State \<Rightarrow> (state_error, state_db) result" where
  "saveState db state =
     (let nextHeight = wrap64 (st_LastBlockHeight state + 1) in
      and_then (if nextHeight = 1 then saveValidatorsInfo db nextHeight 1 (st_Validators state) else Inr db) (\<lambda>db.
      and_then (saveValidatorsInfo db (wrap64 (nextHeight + 1)) (st_LastHeightValidatorsChanged state) (st_NextValidators state)) (\<lambda>db.
      let db = saveConsensusParamsInfo db nextHeight (st_LastHeightConsensusParamsChanged state) (st_ConsensusParams state) in
      and_then (State_Bytes state) (\<lambda>bz. Inr (db\<lparr>db_state := Some bz\<rparr>)))))"

definition SaveState :: "state_db \<Rightarrow> State \<Rightarrow> (state_error, state_db) result" where
  "SaveState db state = saveState db state"

definition loadState :: "state_db \<Rightarrow> (state_error, State option) result" where
  "loadState db =
     (case db_state db of
        None \<Rightarrow> Inr None
      | Some sp \<Rightarrow> and_then (or_die ''StateFromProto'' (StateFromProto (Some sp))) (\<lambda>sm. Inr (Some sm)))"

definition BootstrapState :: "state_db \<Rightarrow> State \<Rightarrow> (state_error, state_db) result" where
  "BootstrapState db state =
     (let height = st_LastBlockHeight state; h1 = wrap64 (height + 1); h2 = wrap64 (height + 2) in
      and_then (saveValidatorsInfo db height height (st_LastValidators state)) (\<lambda>db.
      and_then (saveValidatorsInfo db h1 h1 (st_Validators state)) (\<lambda>db.
      and_then (saveValidatorsInfo db h2 h2 (st_NextValidators state)) (\<lambda>db.
      let db = saveConsensusParamsInfo db h1 h1 (st_ConsensusParams state) in
      and_then (State_Bytes state) (\<lambda>bz. Inr (db\<lparr>db_state := Some bz\<rparr>))))))"

definition LoadStateFromDBOrGenesisDoc :: "crypto \<Rightarrow> timestamp \<Rightarrow> Version \<Rightarrow> state_db \<Rightarrow> GenesisDoc \<Rightarrow> (state_error, State \<times> state_db) result" where
  "LoadStateFromDBOrGenesisDoc cr now version db genesisDoc =
     and_then (loadState db) (\<lambda>state.
       case state of
         Some s \<Rightarrow> Inr (s, db)
       | None \<Rightarrow>
           and_then (MakeGenesisState cr now version genesisDoc) (\<lambda>s.
           and_then (SaveState db s) (\<lambda>db. Inr (s, db))))"

subsection \<open>Pruning\<close>

text \<open>Writes of a batch reach the database when the batch is written, after every thousand heights and at the end.\<close>

datatype db_write = SetVals int64 ValidatorsInfo | DelVals int64 | SetParams int64 ConsensusParamsInfo | DelParams int64 | DelABCI int64

fun apply_write :: "db_write \<Rightarrow> state_db \<Rightarrow> state_db" where
  "apply_write (SetVals h v) db = db\<lparr>db_vals := (db_vals db)(h \<mapsto> v)\<rparr>"
| "apply_write (DelVals h) db = db\<lparr>db_vals := (db_vals db)(h := None)\<rparr>"
| "apply_write (SetParams h p) db = db\<lparr>db_params := (db_params db)(h \<mapsto> p)\<rparr>"
| "apply_write (DelParams h) db = db\<lparr>db_params := (db_params db)(h := None)\<rparr>"
| "apply_write (DelABCI h) db = db\<lparr>db_abci := (db_abci db)(h := None)\<rparr>"

definition Batch_Write :: "db_write list \<Rightarrow> state_db \<Rightarrow> state_db" where
  "Batch_Write batch db = fold apply_write batch db"

definition prune_vals :: "int64 set \<Rightarrow> state_db \<Rightarrow> int64 \<Rightarrow> (state_error, db_write list) result" where
  "prune_vals keepVals db h =
     (if h \<in> keepVals
      then (case loadValidatorsInfo db h of
              None \<Rightarrow> Inl (Panic ''nil pointer dereference'')
            | Some v \<Rightarrow>
                if vi_ValidatorSet v = None
                then and_then (LoadValidators db h) (\<lambda>vip. and_then (ValidatorSet_ToProto vip) (\<lambda>pvi.
                  Inr [SetVals h (v\<lparr>vi_ValidatorSet := Some pvi, vi_LastHeightChanged := h\<rparr>)]))
                else Inr [])
      else Inr [DelVals h])"

definition prune_params :: "int64 set \<Rightarrow> state_db \<Rightarrow> int64 \<Rightarrow> (state_error, db_write list) result" where
  "prune_params keepParams db h =
     (if h \<in> keepParams
      then (case loadConsensusParamsInfo db h of
              None \<Rightarrow> Inl (Panic ''nil pointer dereference'')
            | Some p \<Rightarrow>
                if pi_ConsensusParams p = empty_params
                then and_then (LoadConsensusParams db h) (\<lambda>cp. Inr [SetParams h (p\<lparr>pi_ConsensusParams := cp, pi_LastHeightChanged := h\<rparr>)])
                else Inr [])
      else Inr [DelParams h])"

fun prune_loop :: "int64 set \<Rightarrow> int64 set \<Rightarrow> int64 list \<Rightarrow> nat \<Rightarrow> db_write list \<Rightarrow> state_db \<Rightarrow> (state_error, state_db) result" where
  "prune_loop keepVals keepParams [] pruned batch db = Inr (Batch_Write batch db)"
| "prune_loop keepVals keepParams (h # hs) pruned batch db =
     and_then (prune_vals keepVals db h) (\<lambda>ws.
     and_then (prune_params keepParams db h) (\<lambda>ps.
       let batch = batch @ ws @ ps @ [DelABCI h]; pruned = Suc pruned in
       if pruned mod 1000 = 0 then prune_loop keepVals keepParams hs pruned [] (Batch_Write batch db)
       else prune_loop keepVals keepParams hs pruned batch db))"

text \<open>The heights to keep are few; the sets are those of the code's two maps. The counter does not reach \<^verbatim>\<open>2^64\<close>.\<close>

definition PruneStates :: "state_db \<Rightarrow> int64 \<Rightarrow> int64 \<Rightarrow> (state_error, state_db) result" where
  "PruneStates db from to' =
     (if from \<le> 0 \<or> to' \<le> 0 then Inl (Err (ErrPrune ''heights must be greater than 0''))
      else if from \<ge> to' then Inl (Err (ErrPrune ''from height must be lower than to height''))
      else (case loadValidatorsInfo db to' of
        None \<Rightarrow> Inl (Err (ErrPrune ''validators not found''))
      | Some valInfo \<Rightarrow>
          (case loadConsensusParamsInfo db to' of
             None \<Rightarrow> Inl (Err (ErrPrune ''consensus params not found''))
           | Some paramsInfo \<Rightarrow>
               let keepVals = (if vi_ValidatorSet valInfo = None
                     then {vi_LastHeightChanged valInfo, lastStoredHeightFor to' (vi_LastHeightChanged valInfo)} else {});
                   keepParams = (if pi_ConsensusParams paramsInfo = empty_params then {pi_LastHeightChanged paramsInfo} else {})
               in prune_loop keepVals keepParams (rev [from..to' - 1]) 0 [] db)))"


section \<open>Sets that can be stored\<close>

definition well_keyed :: "ValidatorSet \<Rightarrow> bool" where
  "well_keyed vals \<longleftrightarrow> (\<forall>v \<in> set (vs_Validators vals). length (val_Address v) = AddressSize \<and> (\<exists>pk. val_PubKey v = Some pk \<and> length pk = PubKeySize))"

definition storable :: "ValidatorSet \<Rightarrow> bool" where
  "storable vals \<longleftrightarrow> vset_wf vals \<and> well_keyed vals \<and> (\<exists>p \<in> set (vs_Validators vals). vs_Proposer vals = Some p)"

lemma storable_ne: "storable vals \<Longrightarrow> vs_Validators vals \<noteq> []"
  by (auto simp: storable_def)

lemma well_keyed_members:
  assumes "members (vs_Validators v) = members (vs_Validators w)"
  shows "well_keyed v = well_keyed w"
proof -
  have "well_keyed u \<longleftrightarrow> (\<forall>(a, k, p) \<in> set (members (vs_Validators u)). length a = AddressSize \<and> (\<exists>pk. k = Some pk \<and> length pk = PubKeySize))" for u
    by (auto simp: well_keyed_def members_def)
  then show ?thesis using assms by simp
qed

lemma all_results_map: "(\<And>x. x \<in> set xs \<Longrightarrow> f x = Inr (g x)) \<Longrightarrow> all_results f xs = Inr (map g xs)"
  by (induction xs) auto

lemma validate_validators_None:
  "(\<And>v. v \<in> set vs \<Longrightarrow> Validator_ValidateBasic (Some v) = None) \<Longrightarrow> validate_validators i vs = None"
  by (induction vs arbitrary: i) auto

lemma storable_roundtrip:
  assumes "storable vals"
  obtains p where "ValidatorSet_ToProto vals = Inr p" "ValidatorSetFromProto (Some p) = Inr vals"
proof -
  let ?p = "\<lambda>v. \<lparr>pbv_Address = val_Address v, pbv_PubKey = val_PubKey v, pbv_VotingPower = val_VotingPower v, pbv_ProposerPriority = val_ProposerPriority v\<rparr>"
  have v: "Validator_ValidateBasic (Some v) = None" "Validator_ToProto (Some v) = Inr (?p v)" "ValidatorFromProto (Some (?p v)) = Inr v"
    if "v \<in> set (vs_Validators vals)" for v
  proof -
    have "0 < val_VotingPower v" using assms that by (simp add: storable_def vset_wf_def validators_wf_def)
    then show "Validator_ValidateBasic (Some v) = None" "Validator_ToProto (Some v) = Inr (?p v)" "ValidatorFromProto (Some (?p v)) = Inr v"
      using assms that by (fastforce simp: storable_def well_keyed_def Validator_ValidateBasic_def Validator_ToProto_def ValidatorFromProto_def PubKeyFromProto_def)+
  qed
  obtain q where q: "q \<in> set (vs_Validators vals)" "vs_Proposer vals = Some q" using assms by (auto simp: storable_def)
  have "validate_validators 0 (vs_Validators vals) = None" using v(1) by (rule validate_validators_None)
  then have "ValidatorSet_ValidateBasic vals = None"
    using v(1) [OF q(1)] q by (auto simp: ValidatorSet_ValidateBasic_def IsNilOrEmpty_def)
  moreover have "all_results (Validator_ToProto \<circ> Some) (vs_Validators vals) = Inr (map ?p (vs_Validators vals))"
    using v(2) by (intro all_results_map) simp
  moreover have "all_results (ValidatorFromProto \<circ> Some) (map ?p vs) = Inr vs" if "set vs \<subseteq> set (vs_Validators vals)" for vs
    using that v(3) by (induction vs) auto
  ultimately show ?thesis
    using v(2,3) [OF q(1)] q(2) by (intro that) (auto simp: ValidatorSet_ToProto_def ValidatorSetFromProto_def)
qed

lemma incrementProposerPriority_total:
  assumes "vset_wf vals" "vs_Validators vals \<noteq> []"
  obtains i vals' where "incrementProposerPriority vals = Inr (vs_Validators vals' ! i, vals')" "i < length (vs_Validators vals')"
    "members (vs_Validators vals') = members (vs_Validators vals)" "vset_wf vals'"
proof -
  define w where "w = map_priorities (\<lambda>v. safeAddClip (val_ProposerPriority v) (val_VotingPower v)) vals"
  have mw: "members (vs_Validators w) = members (vs_Validators vals)" by (simp add: w_def)
  have ww: "vset_wf w" using assms(1) members_wf [OF mw] members_power_sum [OF mw] by (simp add: vset_wf_def w_def)
  have "distinct (map val_Address (vs_Validators w))" "vs_Validators w \<noteq> []"
    using ww assms(2) by (auto simp: vset_wf_def validators_wf_def w_def)
  then obtain i where i: "getValWithMostPriority w = Inr (Some (i, vs_Validators w ! i))" "has_most_priority (vs_Validators w) i"
    using getValWithMostPriority_spec [of w] by auto
  have il: "i < length (vs_Validators w)" using i(2) by (simp add: has_most_priority_def)
  let ?t = "power_sum (vs_Validators w)"
  let ?v = "(vs_Validators w ! i)\<lparr>val_ProposerPriority := safeSubClip (val_ProposerPriority (vs_Validators w ! i)) ?t\<rparr>"
  let ?u = "w\<lparr>vs_totalVotingPower := ?t, vs_Validators := (vs_Validators w)[i := ?v]\<rparr>"
  have mu: "members (vs_Validators ?u) = members (vs_Validators w)" using il by simp
  have "incrementProposerPriority vals = Inr (?v, ?u)"
    using i(1) TotalVotingPower_wf [OF ww] by (simp add: incrementProposerPriority_def w_def [symmetric] Let_def)
  moreover have "vset_wf ?u" using ww members_wf [OF mu] members_power_sum [OF mu] by (simp add: vset_wf_def)
  ultimately show ?thesis using mu mw il by (intro that [of ?u i]) simp_all
qed

lemma increment_times_total:
  assumes "vset_wf vals" "vs_Validators vals \<noteq> []"
  shows "\<exists>p vals'. increment_times k q vals = Inr (p, vals') \<and> members (vs_Validators vals') = members (vs_Validators vals) \<and> vset_wf vals' \<and>
    (0 < k \<longrightarrow> (\<exists>v \<in> set (vs_Validators vals'). p = Some v))"
  using assms
proof (induction k arbitrary: q vals)
  case (Suc k)
  obtain i w where w: "incrementProposerPriority vals = Inr (vs_Validators w ! i, w)" "i < length (vs_Validators w)"
      "members (vs_Validators w) = members (vs_Validators vals)" "vset_wf w"
    by (rule incrementProposerPriority_total [OF Suc.prems])
  have "vs_Validators w \<noteq> []" using w(2) by auto
  from Suc.IH [OF w(4) this, of "Some (vs_Validators w ! i)"] w show ?case by (cases k) auto
qed simp

lemma IncrementProposerPriority_storable:
  assumes "storable vals" "priorities_bounded vals" "0 < n"
  obtains vals' where "IncrementProposerPriority n vals = Inr vals'" "storable vals'" "members (vs_Validators vals') = members (vs_Validators vals)"
proof -
  have wf: "vset_wf vals" "vs_Validators vals \<noteq> []" using assms(1) storable_ne by (auto simp: storable_def)
  obtain w where w: "centre_priorities vals = Inr w" "members (vs_Validators w) = members (vs_Validators vals)"
      "vs_totalVotingPower w = power_sum (vs_Validators vals)"
    using centre_priorities_spec [OF wf assms(2)] by blast
  have "vset_wf w" "vs_Validators w \<noteq> []"
    using wf w(3) members_wf [OF w(2)] members_power_sum [OF w(2)] members_length [OF w(2)] by (auto simp: vset_wf_def)
  then obtain p u where u: "increment_times (nat n) None w = Inr (p, u)" "members (vs_Validators u) = members (vs_Validators w)" "vset_wf u"
      "\<exists>v \<in> set (vs_Validators u). p = Some v"
    using increment_times_total [of w "nat n" None] assms(3) by auto
  have "well_keyed u" using assms(1) well_keyed_members [of u vals] u(2) w(2) by (simp add: storable_def)
  then have "storable (u\<lparr>vs_Proposer := p\<rparr>)" using u(3,4) by (auto simp: storable_def vset_wf_def well_keyed_def)
  then show ?thesis
    using wf(2) assms(3) w(1,2) u(1,2) by (intro that [of "u\<lparr>vs_Proposer := p\<rparr>"]) (auto simp: IncrementProposerPriority_centre IsNilOrEmpty_def)
qed


section \<open>What the database returns\<close>

text \<open>
  \<open>vals_kept db V L n\<close>: for every height up to \<open>n\<close> there is an entry; \<open>V\<close> gives the set of a height and \<open>L\<close> the
  height of the last change before it. The set itself is there at changes and at checkpoints.
\<close>

definition has_set :: "(int64 \<Rightarrow> int64) \<Rightarrow> int64 \<Rightarrow> bool" where
  "has_set L h \<longleftrightarrow> h = L h \<or> h smod valSetCheckpointInterval = 0"

definition vals_kept :: "state_db \<Rightarrow> (int64 \<Rightarrow> ValidatorSet) \<Rightarrow> (int64 \<Rightarrow> int64) \<Rightarrow> int64 \<Rightarrow> bool" where
  "vals_kept db V L n \<longleftrightarrow> n \<le> MaxInt64 \<and> (\<forall>h \<in> {1..n}.
     1 \<le> L h \<and> L h \<le> h \<and> (\<forall>g \<in> {L h..h}. L g = L h \<and> members (vs_Validators (V g)) = members (vs_Validators (V h))) \<and>
     storable (V h) \<and> priorities_bounded (V h) \<and>
     (\<exists>pv. db_vals db h = Some \<lparr>vi_ValidatorSet = pv, vi_LastHeightChanged = L h\<rparr> \<and>
       (if has_set L h then \<exists>p. pv = Some p \<and> ValidatorSetFromProto (Some p) = Inr (V h) else pv = None)))"

lemma vals_keptD:
  assumes "vals_kept db V L n" "1 \<le> h" "h \<le> n"
  shows "1 \<le> L h" "L h \<le> h" "\<And>g. L h \<le> g \<Longrightarrow> g \<le> h \<Longrightarrow> L g = L h \<and> members (vs_Validators (V g)) = members (vs_Validators (V h))"
    "storable (V h)" "priorities_bounded (V h)" "n \<le> MaxInt64"
    "has_set L h \<Longrightarrow> \<exists>p. db_vals db h = Some \<lparr>vi_ValidatorSet = Some p, vi_LastHeightChanged = L h\<rparr> \<and> ValidatorSetFromProto (Some p) = Inr (V h)"
    "\<not> has_set L h \<Longrightarrow> db_vals db h = Some \<lparr>vi_ValidatorSet = None, vi_LastHeightChanged = L h\<rparr>"
proof -
  have "h \<in> {1..n}" using assms(2,3) by simp
  with assms(1) have a: "1 \<le> L h" "L h \<le> h" "\<forall>g \<in> {L h..h}. L g = L h \<and> members (vs_Validators (V g)) = members (vs_Validators (V h))"
      "storable (V h)" "priorities_bounded (V h)"
    and b: "\<exists>pv. db_vals db h = Some \<lparr>vi_ValidatorSet = pv, vi_LastHeightChanged = L h\<rparr> \<and>
       (if has_set L h then \<exists>p. pv = Some p \<and> ValidatorSetFromProto (Some p) = Inr (V h) else pv = None)"
    unfolding vals_kept_def by blast+
  show "1 \<le> L h" "L h \<le> h" "storable (V h)" "priorities_bounded (V h)" by (rule a)+
  show "n \<le> MaxInt64" using assms(1) by (simp add: vals_kept_def)
  show "L g = L h \<and> members (vs_Validators (V g)) = members (vs_Validators (V h))" if "L h \<le> g" "g \<le> h" for g
    using that by (intro bspec [OF a(3)]) simp
  show "\<exists>p. db_vals db h = Some \<lparr>vi_ValidatorSet = Some p, vi_LastHeightChanged = L h\<rparr> \<and> ValidatorSetFromProto (Some p) = Inr (V h)" if "has_set L h"
    using b that by (simp only: if_True) blast
  show "db_vals db h = Some \<lparr>vi_ValidatorSet = None, vi_LastHeightChanged = L h\<rparr>" if "\<not> has_set L h"
    using b that by (simp only: if_False) blast
qed

lemma smod_nonneg: "0 \<le> (h::int) \<Longrightarrow> 0 < k \<Longrightarrow> h smod k = h mod k"
  by (cases "h = 0") (simp_all add: signed_modulo_int_def signed_divide_int_def minus_mult_div_eq_mod sgn_if)

lemma has_set_iff: "0 \<le> h \<Longrightarrow> has_set L h \<longleftrightarrow> h = L h \<or> h = 100000 * (h div 100000)"
  using minus_mod_eq_mult_div [of h 100000] by (auto simp: has_set_def smod_nonneg valSetCheckpointInterval_def)

lemma lastStored_eq:
  assumes "0 \<le> h" "h \<le> MaxInt64"
  shows "lastStoredHeightFor h l = max (100000 * (h div 100000)) l"
proof -
  have m: "h - h mod 100000 = 100000 * (h div 100000)" by (rule minus_mod_eq_mult_div)
  have "0 \<le> 100000 * (h div 100000)" "100000 * (h div 100000) \<le> h" using assms(1) m by auto
  then have "wrap64 (100000 * (h div 100000)) = 100000 * (h div 100000)" using assms(2) by (intro wrap64_idI) (auto simp: int_limits)
  then show ?thesis using assms(1) m by (simp add: lastStoredHeightFor_def Let_def smod_nonneg valSetCheckpointInterval_def)
qed

text \<open>The height whose set is used for a height without one.\<close>

lemma stored_height:
  assumes k: "vals_kept db V L n" "1 \<le> h" "h \<le> n"
  defines "g \<equiv> lastStoredHeightFor h (L h)"
  shows "L h \<le> g" "g \<le> h" "has_set L g" "has_set L h \<Longrightarrow> g = h" "\<not> has_set L h \<Longrightarrow> 1 \<le> h - g \<and> h - g \<le> 99999"
proof -
  have h: "0 \<le> h" "h \<le> MaxInt64" using k vals_keptD(6) [OF k] by auto
  have ge: "g = max (100000 * (h div 100000)) (L h)" unfolding g_def by (rule lastStored_eq [OF h])
  have d: "100000 * (h div 100000) \<le> h" "h < 100000 * (h div 100000) + 100000" "0 \<le> 100000 * (h div 100000)" using h by auto
  show le: "L h \<le> g" "g \<le> h" using vals_keptD(2) [OF k] d(1) by (simp_all add: ge)
  have L: "L g = L h" using vals_keptD(3) [OF k le] by simp
  have "g = L g \<or> g = 100000 * (g div 100000)" using L by (auto simp: ge max_def)
  moreover have "0 \<le> g" using d(3) by (simp add: ge)
  ultimately show "has_set L g" using has_set_iff by blast
  show "g = h" if "has_set L h" using that vals_keptD(2) [OF k] d(1) has_set_iff [OF h(1), of L] by (auto simp: ge)
  show "1 \<le> h - g \<and> h - g \<le> 99999" if "\<not> has_set L h"
    using that vals_keptD(2) [OF k] d has_set_iff [OF h(1), of L] by (auto simp: ge max_def)
qed

lemma loaded_info: "db_vals db h = Some \<lparr>vi_ValidatorSet = pv, vi_LastHeightChanged = l\<rparr> \<Longrightarrow> l \<noteq> 0 \<Longrightarrow>
    loadValidatorsInfo db h = Some \<lparr>vi_ValidatorSet = pv, vi_LastHeightChanged = l\<rparr>"
  by (simp add: loadValidatorsInfo_def)

lemma LoadValidators_kept:
  assumes k: "vals_kept db V L n" "1 \<le> h" "h \<le> n"
  obtains vs where "LoadValidators db h = Inr vs" "storable vs" "members (vs_Validators vs) = members (vs_Validators (V h))"
    "has_set L h \<Longrightarrow> vs = V h"
proof (cases "has_set L h")
  case True
  obtain p where p: "db_vals db h = Some \<lparr>vi_ValidatorSet = Some p, vi_LastHeightChanged = L h\<rparr>" "ValidatorSetFromProto (Some p) = Inr (V h)"
    using vals_keptD(7) [OF k True] by blast
  have "LoadValidators db h = Inr (V h)" using p loaded_info [OF p(1)] vals_keptD(1) [OF k] by (simp add: LoadValidators_def)
  from that [OF this vals_keptD(4) [OF k]] show ?thesis by simp
next
  case False
  let ?g = "lastStoredHeightFor h (L h)"
  note s = stored_height [OF k]
  have g: "1 \<le> ?g" "?g \<le> n" using s(1,2) vals_keptD(1) [OF k] k(3) by auto
  note kg = k(1) g
  have L: "L ?g = L h" "members (vs_Validators (V ?g)) = members (vs_Validators (V h))" using vals_keptD(3) [OF k s(1,2)] by auto
  obtain p where p: "db_vals db ?g = Some \<lparr>vi_ValidatorSet = Some p, vi_LastHeightChanged = L ?g\<rparr>" "ValidatorSetFromProto (Some p) = Inr (V ?g)"
    using vals_keptD(7) [OF kg s(3)] by blast
  have "0 < h - ?g" using s(5) [OF False] by auto
  then obtain w where w: "IncrementProposerPriority (h - ?g) (V ?g) = Inr w" "storable w" "members (vs_Validators w) = members (vs_Validators (V ?g))"
    by (rule IncrementProposerPriority_storable [OF vals_keptD(4) [OF kg] vals_keptD(5) [OF kg]])
  obtain q where q: "ValidatorSet_ToProto w = Inr q" "ValidatorSetFromProto (Some q) = Inr w" by (rule storable_roundtrip [OF w(2)])
  have "wrap64 (h - ?g) = h - ?g" "SafeConvertInt32 (h - ?g) = Inr (h - ?g)"
    using s(5) [OF False] by (auto simp: SafeConvertInt32_def int_limits int32_range_iff intro!: wrap64_idI)
  then have "LoadValidators db h = Inr w"
    using loaded_info [OF vals_keptD(8) [OF k False]] loaded_info [OF p(1)] vals_keptD(1) [OF k] L(1) p(2) w(1) q
    by (simp add: LoadValidators_def Let_def)
  from that [OF this w(2)] w(3) L(2) False show ?thesis by simp
qed


text \<open>The same for the parameters, which are stored at changes only.\<close>

definition params_kept :: "state_db \<Rightarrow> (int64 \<Rightarrow> ConsensusParams) \<Rightarrow> (int64 \<Rightarrow> int64) \<Rightarrow> int64 \<Rightarrow> bool" where
  "params_kept db P M m \<longleftrightarrow> (\<forall>h \<in> {1..m}. 1 \<le> M h \<and> M h \<le> h \<and> (\<forall>g \<in> {M h..h}. M g = M h \<and> P g = P h) \<and> P h \<noteq> empty_params \<and>
     db_params db h = Some \<lparr>pi_ConsensusParams = (if M h = h then P h else empty_params), pi_LastHeightChanged = M h\<rparr>)"

lemma params_keptD:
  assumes "params_kept db P M m" "1 \<le> h" "h \<le> m"
  shows "1 \<le> M h" "M h \<le> h" "\<And>g. M h \<le> g \<Longrightarrow> g \<le> h \<Longrightarrow> M g = M h \<and> P g = P h" "P h \<noteq> empty_params"
    "db_params db h = Some \<lparr>pi_ConsensusParams = (if M h = h then P h else empty_params), pi_LastHeightChanged = M h\<rparr>"
proof -
  have "h \<in> {1..m}" using assms(2,3) by simp
  with assms(1) have a: "\<forall>g \<in> {M h..h}. M g = M h \<and> P g = P h" and b: "1 \<le> M h" "M h \<le> h" "P h \<noteq> empty_params"
      "db_params db h = Some \<lparr>pi_ConsensusParams = (if M h = h then P h else empty_params), pi_LastHeightChanged = M h\<rparr>"
    unfolding params_kept_def by blast+
  show "M g = M h \<and> P g = P h" if "M h \<le> g" "g \<le> h" for g using that by (intro bspec [OF a]) simp
  show "1 \<le> M h" "M h \<le> h" "P h \<noteq> empty_params"
      "db_params db h = Some \<lparr>pi_ConsensusParams = (if M h = h then P h else empty_params), pi_LastHeightChanged = M h\<rparr>" by (rule b)+
qed

lemma LoadConsensusParams_kept:
  assumes k: "params_kept db P M m" "1 \<le> h" "h \<le> m"
  shows "LoadConsensusParams db h = Inr (P h)"
proof -
  have g: "1 \<le> M h" "M h \<le> m" using params_keptD(1,2) [OF k] k(3) by auto
  have "M (M h) = M h" "P (M h) = P h" using params_keptD(3) [OF k, of "M h"] params_keptD(2) [OF k] by auto
  then show ?thesis
    using params_keptD(4,5) [OF k] params_keptD(5) [OF k(1) g] by (auto simp: LoadConsensusParams_def loadConsensusParamsInfo_def)
qed

section \<open>Pruning keeps what is needed\<close>

definition drops :: "int64 set \<Rightarrow> int64 set \<Rightarrow> int64 \<Rightarrow> db_write list" where
  "drops keepVals keepParams h = (if h \<in> keepVals then [] else [DelVals h]) @ (if h \<in> keepParams then [] else [DelParams h]) @ [DelABCI h]"

lemma Batch_Write_append: "Batch_Write (a @ b) db = Batch_Write b (Batch_Write a db)"
  by (simp add: Batch_Write_def)

lemma Batch_Write_drops:
  "db_vals (Batch_Write (concat (map (drops kv kp) hs)) db) h = (if h \<in> set hs \<and> h \<notin> kv then None else db_vals db h)"
  "db_params (Batch_Write (concat (map (drops kv kp) hs)) db) h = (if h \<in> set hs \<and> h \<notin> kp then None else db_params db h)"
  "db_abci (Batch_Write (concat (map (drops kv kp) hs)) db) h = (if h \<in> set hs then None else db_abci db h)"
  "db_state (Batch_Write (concat (map (drops kv kp) hs)) db) = db_state db"
  by (induction hs arbitrary: db) (auto simp: Batch_Write_def drops_def)

definition full_at :: "int64 set \<Rightarrow> int64 set \<Rightarrow> state_db \<Rightarrow> int64 \<Rightarrow> bool" where
  "full_at kv kp db h \<longleftrightarrow>
     (h \<in> kv \<longrightarrow> (\<exists>p l. db_vals db h = Some \<lparr>vi_ValidatorSet = Some p, vi_LastHeightChanged = l\<rparr>)) \<and>
     (h \<in> kp \<longrightarrow> (\<exists>p l. db_params db h = Some \<lparr>pi_ConsensusParams = p, pi_LastHeightChanged = l\<rparr> \<and> p \<noteq> empty_params))"

lemma full_at_drops: "full_at kv kp db h \<Longrightarrow> full_at kv kp (Batch_Write (concat (map (drops kv kp) hs)) db) h"
  by (simp add: full_at_def Batch_Write_drops)

lemma prune_step:
  assumes "full_at kv kp db h"
  shows "prune_vals kv db h = Inr (if h \<in> kv then [] else [DelVals h])" "prune_params kp db h = Inr (if h \<in> kp then [] else [DelParams h])"
  using assms by (auto simp: full_at_def prune_vals_def prune_params_def loadValidatorsInfo_def loadConsensusParamsInfo_def)

lemma prune_loop_eq:
  assumes "\<And>h. h \<in> set hs \<Longrightarrow> full_at kv kp db h"
  shows "prune_loop kv kp hs k (concat (map (drops kv kp) done')) db = Inr (Batch_Write (concat (map (drops kv kp) (done' @ hs))) db)"
  using assms
proof (induction hs arbitrary: k done' db)
  case (Cons h hs)
  have eq: "concat (map (drops kv kp) done') @ (if h \<in> kv then [] else [DelVals h]) @ (if h \<in> kp then [] else [DelParams h]) @ [DelABCI h] =
      concat (map (drops kv kp) (done' @ [h]))" by (simp add: drops_def)
  let ?db = "Batch_Write (concat (map (drops kv kp) (done' @ [h]))) db"
  have flushed: "prune_loop kv kp hs (Suc k) [] ?db = Inr (Batch_Write (concat (map (drops kv kp) hs)) ?db)"
    using Cons.IH [of ?db "Suc k" "[]"] full_at_drops [of kv kp db _ "done' @ [h]"] Cons.prems by simp
  have kept: "prune_loop kv kp hs (Suc k) (concat (map (drops kv kp) (done' @ [h]))) db = Inr (Batch_Write (concat (map (drops kv kp) ((done' @ [h]) @ hs))) db)"
    using Cons.IH [of db "Suc k" "done' @ [h]"] Cons.prems by simp
  have full: "full_at kv kp db h" using Cons.prems by simp
  have "prune_loop kv kp (h # hs) k (concat (map (drops kv kp) done')) db =
      (if Suc k mod 1000 = 0 then prune_loop kv kp hs (Suc k) [] ?db else prune_loop kv kp hs (Suc k) (concat (map (drops kv kp) (done' @ [h]))) db)"
    unfolding prune_loop.simps prune_step [OF full] and_then_simps Let_def eq by (rule refl)
  also have "\<dots> = Inr (Batch_Write (concat (map (drops kv kp) (done' @ h # hs))) db)"
    using flushed kept by (simp add: Batch_Write_append)
  finally show ?case .
qed simp

lemma LoadValidators_cong:
  assumes "db_vals db' h = db_vals db h"
    and "\<And>l. db_vals db h = Some \<lparr>vi_ValidatorSet = None, vi_LastHeightChanged = l\<rparr> \<Longrightarrow>
      db_vals db' (lastStoredHeightFor h l) = db_vals db (lastStoredHeightFor h l)"
  shows "LoadValidators db' h = LoadValidators db h"
proof (cases "db_vals db h")
  case (Some v)
  show ?thesis
  proof (cases "vi_ValidatorSet v")
    case None
    then have "db_vals db' (lastStoredHeightFor h (vi_LastHeightChanged v)) = db_vals db (lastStoredHeightFor h (vi_LastHeightChanged v))"
      using assms(2) [of "vi_LastHeightChanged v"] Some by (cases v) simp
    then show ?thesis using assms(1) Some None by (simp add: LoadValidators_def loadValidatorsInfo_def Let_def)
  qed (use assms(1) Some in \<open>simp add: LoadValidators_def loadValidatorsInfo_def\<close>)
qed (use assms(1) in \<open>simp add: LoadValidators_def loadValidatorsInfo_def\<close>)

text \<open>The heights that a later height depends on are not dropped.\<close>

lemma kept_height:
  assumes k: "vals_kept db V L n" and h: "1 \<le> t" "t \<le> h" "h \<le> n" and no: "\<not> has_set L h"
  shows "t \<le> lastStoredHeightFor h (L h) \<or> \<not> has_set L t \<and> lastStoredHeightFor h (L h) = lastStoredHeightFor t (L t)"
proof (cases "t \<le> lastStoredHeightFor h (L h)")
  case False
  have kh: "1 \<le> h" "h \<le> n" using h by auto
  have kt: "1 \<le> t" "t \<le> n" using h by auto
  have r: "0 \<le> h" "h \<le> MaxInt64" "0 \<le> t" "t \<le> MaxInt64" using kh kt vals_keptD(6) [OF k kh] by auto
  note eh = lastStored_eq [OF r(1,2), of "L h"] and et = lastStored_eq [OF r(3,4), of "L t"]
  have "L h < t" "100000 * (h div 100000) < t" using False by (auto simp: eh)
  then have L: "L t = L h" using vals_keptD(3) [OF k kh, of t] h(2) by simp
  have "t div 100000 \<le> h div 100000" using h(2) by (rule zdiv_mono1) simp
  moreover have "\<not> t div 100000 < h div 100000"
  proof
    assume "t div 100000 < h div 100000"
    then have "100000 * (t div 100000) + 100000 \<le> 100000 * (h div 100000)" by simp
    moreover have "t < 100000 * (t div 100000) + 100000" by simp
    ultimately show False using \<open>100000 * (h div 100000) < t\<close> by simp
  qed
  ultimately have d: "t div 100000 = h div 100000" by simp
  then have "\<not> has_set L t" using L \<open>L h < t\<close> \<open>100000 * (h div 100000) < t\<close> by (auto simp: has_set_iff [OF r(3)])
  moreover have "lastStoredHeightFor h (L h) = lastStoredHeightFor t (L t)" using eh et d L by simp
  ultimately show ?thesis by simp
qed simp


text \<open>
  C10: Pruning keeps what it must. On a database that has the entries of all heights, \<^verbatim>\<open>PruneStates\<close> returns without an
  error. Afterwards the validators and the parameters of every height from \<open>to\<close> on load exactly as before, although their
  entries may refer to heights that were pruned; the validators of a pruned height are gone, unless the entry
  of \<open>to\<close> refers to it, and so are the responses. The latest state is not touched.
\<close>

theorem PruneStates_keeps:
  assumes vals: "vals_kept db V L n" and params: "params_kept db P M m" and r: "1 \<le> from" "from < to'" "to' \<le> n" "to' \<le> m"
  shows "\<exists>db'. PruneStates db from to' = Inr db' \<and>
    (\<forall>h. to' \<le> h \<and> h \<le> n \<longrightarrow> LoadValidators db' h = LoadValidators db h) \<and>
    (\<forall>h. to' \<le> h \<and> h \<le> m \<longrightarrow> LoadConsensusParams db' h = LoadConsensusParams db h) \<and>
    (\<forall>h. from \<le> h \<and> h < to' \<and> h \<noteq> L to' \<and> h \<noteq> lastStoredHeightFor to' (L to') \<longrightarrow>
      LoadValidators db' h = Inl (Err (ErrNoValSetForHeight h)) \<and> LoadABCIResponses db' h = Inl (Err (ErrNoABCIResponsesForHeight h))) \<and>
    loadState db' = loadState db"
proof -
  have t: "1 \<le> to'" using r by simp
  note kt = vals t r(3) and pt = params t r(4)
  note g = stored_height [OF kt]
  define kv where "kv = (if has_set L to' then {} else {L to', lastStoredHeightFor to' (L to')})"
  define kp where "kp = (if M to' = to' then {} else {M to'})"
  have kv1: "1 \<le> h \<and> h \<le> n \<and> has_set L h" if "h \<in> kv" for h
  proof -
    have "has_set L (L to')" using vals_keptD(3) [OF kt, of "L to'"] vals_keptD(2) [OF kt] by (simp add: has_set_def)
    then show ?thesis using that g(1-3) vals_keptD(1,2) [OF kt] r(3) by (auto simp: kv_def split: if_splits)
  qed
  have full: "full_at kv kp db h" for h
  proof -
    have "\<exists>p l. db_params db h = Some \<lparr>pi_ConsensusParams = p, pi_LastHeightChanged = l\<rparr> \<and> p \<noteq> empty_params" if "h \<in> kp"
    proof -
      have h: "h = M to'" using that by (simp add: kp_def split: if_splits)
      then have "1 \<le> h" "h \<le> m" "M h = h" using params_keptD(1,2) [OF pt] params_keptD(3) [OF pt, of h] r(4) by auto
      then show ?thesis using params_keptD(4,5) [OF params, of h] by simp
    qed
    then show ?thesis using vals_keptD(7) [OF vals, of h] kv1 [of h] by (fastforce simp: full_at_def)
  qed
  obtain pv where entry: "db_vals db to' = Some \<lparr>vi_ValidatorSet = pv, vi_LastHeightChanged = L to'\<rparr>" "pv = None \<longleftrightarrow> \<not> has_set L to'"
    using vals_keptD(7,8) [OF kt] by (cases "has_set L to'") auto
  let ?hs = "rev [from..to' - 1]"
  define db' where "db' = Batch_Write (concat (map (drops kv kp) ?hs)) db"
  have dropped: "db_vals db' h = (if h \<in> set ?hs \<and> h \<notin> kv then None else db_vals db h)" "db_params db' h = (if h \<in> set ?hs \<and> h \<notin> kp then None else db_params db h)"
    "db_abci db' h = (if h \<in> set ?hs then None else db_abci db h)" "db_state db' = db_state db" for h
    unfolding db'_def by (rule Batch_Write_drops)+
  have "PruneStates db from to' = prune_loop kv kp ?hs 0 [] db"
    using r vals_keptD(1) [OF kt] entry params_keptD(4,5) [OF pt]
    by (auto simp: PruneStates_def loaded_info loadConsensusParamsInfo_def kv_def kp_def Let_def)
  also have "\<dots> = Inr db'" using prune_loop_eq [of ?hs kv kp db 0 "[]"] full by (simp add: db'_def)
  finally have res: "PruneStates db from to' = Inr db'" .
  have "LoadValidators db' h = LoadValidators db h" if h: "to' \<le> h" "h \<le> n" for h
  proof (rule LoadValidators_cong)
    show "db_vals db' h = db_vals db h" using h(1) by (simp add: dropped)
    fix l assume l: "db_vals db h = Some \<lparr>vi_ValidatorSet = None, vi_LastHeightChanged = l\<rparr>"
    have h1: "1 \<le> h" using h(1) t by simp
    have no: "\<not> has_set L h" using vals_keptD(7) [OF vals h1 h(2)] l by auto
    have "l = L h" using vals_keptD(8) [OF vals h1 h(2) no] l by simp
    then show "db_vals db' (lastStoredHeightFor h l) = db_vals db (lastStoredHeightFor h l)"
      using kept_height [OF vals t h no] by (auto simp: dropped kv_def)
  qed
  moreover have "LoadConsensusParams db' h = LoadConsensusParams db h" if h: "to' \<le> h" "h \<le> m" for h
  proof -
    have h1: "1 \<le> h" using h(1) t by simp
    note hm = params h1 h(2)
    have "db_params db' (M h) = db_params db (M h)"
    proof (cases "to' \<le> M h")
      case False
      then have "M to' = M h" using params_keptD(3) [OF hm, of to'] h(1) by simp
      then show ?thesis using False by (simp add: dropped kp_def)
    qed (simp add: dropped)
    moreover have "db_params db' h = db_params db h" using h(1) by (simp add: dropped)
    ultimately show ?thesis using params_keptD(5) [OF hm] by (simp add: LoadConsensusParams_def loadConsensusParamsInfo_def)
  qed
  moreover have "LoadValidators db' h = Inl (Err (ErrNoValSetForHeight h)) \<and> LoadABCIResponses db' h = Inl (Err (ErrNoABCIResponsesForHeight h))"
    if "from \<le> h" "h < to'" "h \<noteq> L to'" "h \<noteq> lastStoredHeightFor to' (L to')" for h
    using that by (simp add: LoadValidators_def loadValidatorsInfo_def LoadABCIResponses_def dropped kv_def)
  moreover have "loadState db' = loadState db" by (simp add: loadState_def dropped)
  ultimately show ?thesis using res by (intro exI [of _ db']) blast
qed


definition lone_validator :: Validator where
  "lone_validator = \<lparr>val_Address = replicate 20 1, val_PubKey = Some (replicate 32 1), val_VotingPower = 10, val_ProposerPriority = 0\<rparr>"

definition lone_set :: ValidatorSet where
  "lone_set = \<lparr>vs_Validators = [lone_validator], vs_Proposer = Some lone_validator, vs_totalVotingPower = 10\<rparr>"

lemma lone_set_ok: "storable lone_set" "priorities_bounded lone_set"
  by (simp_all add: storable_def vset_wf_def validators_wf_def well_keyed_def priorities_bounded_def lone_set_def lone_validator_def
      AddressSize_def PubKeySize_def MaxTotalVotingPower_eq)

definition lone_db :: "tmproto_ValidatorSet \<Rightarrow> state_db" where
  "lone_db p = \<lparr>db_vals = (\<lambda>h. Some \<lparr>vi_ValidatorSet = (if h = 1 then Some p else None), vi_LastHeightChanged = 1\<rparr>),
     db_params = (\<lambda>h. Some \<lparr>pi_ConsensusParams = (if h = 1 then DefaultConsensusParams else empty_params), pi_LastHeightChanged = 1\<rparr>),
     db_abci = Map.empty, db_state = None\<rparr>"

theorem PruneStates_keeps_witness:
  "\<exists>p db'. vals_kept (lone_db p) (\<lambda>_. lone_set) (\<lambda>_. 1) 4 \<and> params_kept (lone_db p) (\<lambda>_. DefaultConsensusParams) (\<lambda>_. 1) 3 \<and>
     PruneStates (lone_db p) 1 3 = Inr db' \<and> LoadValidators db' 4 = LoadValidators (lone_db p) 4 \<and>
     LoadValidators db' 2 = Inl (Err (ErrNoValSetForHeight 2))"
proof -
  obtain p where p: "ValidatorSetFromProto (Some p) = Inr lone_set" using storable_roundtrip [OF lone_set_ok(1)] by blast
  have "has_set (\<lambda>_. 1) h \<longleftrightarrow> h = 1" if "h \<in> {1, 2, 3, 4}" for h using that by (auto simp: has_set_iff)
  moreover have h: "{1..4::int} = {1, 2, 3, 4}" "{1..3::int} = {1, 2, 3}" by auto
  ultimately have v: "vals_kept (lone_db p) (\<lambda>_. lone_set) (\<lambda>_. 1) 4"
    unfolding vals_kept_def h using lone_set_ok p by (auto simp: lone_db_def int_limits)
  have q: "params_kept (lone_db p) (\<lambda>_. DefaultConsensusParams) (\<lambda>_. 1) 3"
    unfolding params_kept_def h by (auto simp: lone_db_def DefaultConsensusParams_def empty_params_def)
  have "lastStoredHeightFor 3 1 = 1" by (subst lastStored_eq) (auto simp: int_limits)
  with PruneStates_keeps [OF v q, of 1 3] v q show ?thesis by auto
qed

text \<open>
  C11: A genesis document may leave the validators to the application, but the first start with such a document panics: the
  state built from it is saved, and a validator set without validators has no message.
\<close>

theorem genesis_without_validators_panics:
  assumes "MakeGenesisState cr now version genDoc = Inr s" "gd_vals genDoc = []" "db_state db = None"
  shows "\<exists>msg. LoadStateFromDBOrGenesisDoc cr now version db genDoc = Inl (Panic msg)"
proof -
  have "st_Validators s = no_validators \<and> st_LastBlockHeight s = 0"
    using assms(1,2) NewValidatorSet_outcome [of "[]"]
    by (auto simp: MakeGenesisState_def ValidateAndComplete_def genesis_set_def gd_vals_def and_then_Inr_iff CopyIncrementProposerPriority_def
        IncrementProposerPriority_def IsNilOrEmpty_def split: option.splits if_splits)
  moreover have "saveValidatorsInfo db 1 1 no_validators = Inl (Panic ''ToProto'')"
    by (simp add: saveValidatorsInfo_def ValidatorSet_ToProto_def ValidatorSet_ValidateBasic_def IsNilOrEmpty_def or_die_def)
  moreover have "wrap64 1 = 1" by (intro wrap64_idI) (simp_all add: int_limits)
  ultimately have "SaveState db s = Inl (Panic ''ToProto'')" by (simp add: SaveState_def saveState_def Let_def)
  then show ?thesis using assms(1,3) by (simp add: LoadStateFromDBOrGenesisDoc_def loadState_def)
qed

definition app_genesis :: GenesisDoc where
  "app_genesis = \<lparr>gd_GenesisTime = 5, gd_ChainID = [116], gd_ConsensusParams = None, gd_Validators = None, gd_AppHash = []\<rparr>"

theorem genesis_without_validators_panics_witness:
  "\<exists>s msg. MakeGenesisState demo_crypto 7 (InitStateVersion 11 []) app_genesis = Inr s \<and>
     LoadStateFromDBOrGenesisDoc demo_crypto 7 (InitStateVersion 11 []) \<lparr>db_vals = Map.empty, db_params = Map.empty, db_abci = Map.empty, db_state = None\<rparr>
       app_genesis = Inl (Panic msg)"
proof -
  obtain s where "MakeGenesisState demo_crypto 7 (InitStateVersion 11 []) app_genesis = Inr s"
    using NewValidatorSet_outcome [of "[]"]
    by (simp add: MakeGenesisState_def ValidateAndComplete_def app_genesis_def gd_vals_def MaxChainIDLen_def)
  with genesis_without_validators_panics [OF this, of "\<lparr>db_vals = Map.empty, db_params = Map.empty, db_abci = Map.empty, db_state = None\<rparr>"]
  show ?thesis by (auto simp: app_genesis_def gd_vals_def)
qed

end
