(* ===== verification/Execution.thy ===== *)
theory Execution
  imports State_Store
begin

text \<open>
  Validation and execution of blocks: \<^verbatim>\<open>types/time\<close>, \<^verbatim>\<open>state/state.go\<close> (\<^verbatim>\<open>MakeBlock\<close>, \<^verbatim>\<open>MedianTime\<close>), \<^verbatim>\<open>state/validation.go\<close>,
  \<^verbatim>\<open>state/execution.go\<close>, \<^verbatim>\<open>types/protobuf.go\<close> and \<^verbatim>\<open>types/results.go\<close>.

  The application answers requests over a connection: its answers are the fields of \<open>app\<close>. The evidence pool and the
  mempool are used through their interfaces, the fields of \<open>evpool\<close> and \<open>app\<close>. Logging, metrics and events are
  left out, and so are the points where \<^verbatim>\<open>fail.Fail\<close> may stop the process in a test.
\<close>

section \<open>Time\<close>

text \<open>Nanoseconds since the zero time; \<^verbatim>\<open>UnixNano\<close> counts from 1970 and wraps.\<close>

definition UnixNano :: "timestamp \<Rightarrow> int64" where
  "UnixNano t = wrap64 (t - 62135596800000000000)"

text \<open>\<^verbatim>\<open>Time.Sub\<close> saturates.\<close>

definition Time_Sub :: "timestamp \<Rightarrow> timestamp \<Rightarrow> int64" where
  "Time_Sub t u = max MinInt64 (min MaxInt64 (t - u))"

type_synonym WeightedTime = "timestamp \<times> int64"

text \<open>\<^verbatim>\<open>sort.Slice\<close> is not stable; the order of equal times does not change the median.\<close>

definition time_key :: "WeightedTime option \<Rightarrow> bool \<times> int" where
  "time_key w = (case w of None \<Rightarrow> (True, 0) | Some (t, _) \<Rightarrow> (False, UnixNano t))"

fun pick_median :: "int64 \<Rightarrow> WeightedTime option list \<Rightarrow> timestamp" where
  "pick_median median [] = 0"
| "pick_median median (None # ws) = pick_median median ws"
| "pick_median median (Some (t, weight) # ws) = (if median \<le> weight then t else pick_median (wrap64 (median - weight)) ws)"

definition WeightedMedian :: "WeightedTime option list \<Rightarrow> int64 \<Rightarrow> timestamp" where
  "WeightedMedian weightedTimes totalVotingPower = pick_median (totalVotingPower sdiv 2) (sort_key time_key weightedTimes)"

fun weigh :: "ValidatorSet \<Rightarrow> CommitSig list \<Rightarrow> int64 \<Rightarrow> WeightedTime option list \<times> int64" where
  "weigh validators [] tot = ([], tot)"
| "weigh validators (commitSig # rest) tot =
     (let w = (if Absent commitSig then None
               else map_option (\<lambda>val. (cs_Timestamp commitSig, val_VotingPower val)) (snd (GetByAddress (cs_ValidatorAddress commitSig) validators)));
          (ws, tot) = weigh validators rest (case w of None \<Rightarrow> tot | Some (_, p) \<Rightarrow> wrap64 (tot + p))
      in (w # ws, tot))"

definition MedianTime :: "Commit \<Rightarrow> ValidatorSet \<Rightarrow> timestamp" where
  "MedianTime commit validators = (case weigh validators (c_Signatures commit) 0 of (weightedTimes, tot) \<Rightarrow> WeightedMedian weightedTimes tot)"

section \<open>Making a block\<close>

definition types_MakeBlock :: "encoders \<Rightarrow> crypto \<Rightarrow> (bytes \<Rightarrow> bytes) \<Rightarrow> int64 \<Rightarrow> Tx list \<Rightarrow> Commit option \<Rightarrow> Evidence list \<Rightarrow> (block_error, Block) result" where
  "types_MakeBlock enc cr H height txs lastCommit evidence =
     (let header = \<lparr>h_Version = \<lparr>cver_Block = 0, cver_App = 0\<rparr>, h_ChainID = [], h_Height = height, h_Time = 0, h_LastBlockID = nil_BlockID,
            h_LastCommitHash = None, h_DataHash = None, h_ValidatorsHash = [], h_NextValidatorsHash = [], h_ConsensusHash = [],
            h_AppHash = [], h_ResultsHash = [], h_EvidenceHash = None, h_ProposerAddress = []\<rparr>;
          block = \<lparr>b_Header = header, b_Data = \<lparr>d_Txs = txs, d_hash = None\<rparr>, b_Evidence = \<lparr>ed_Evidence = evidence, ed_hash = None\<rparr>, b_LastCommit = lastCommit\<rparr>
      in case lastCommit of None \<Rightarrow> Inl (Panic ''nil pointer dereference'') | Some lc \<Rightarrow> fillHeader enc cr H lc block)"

definition State_MakeBlock :: "encoders \<Rightarrow> (tmproto_Block \<Rightarrow> bytes option) \<Rightarrow> crypto \<Rightarrow> (bytes \<Rightarrow> bytes) \<Rightarrow> int64 \<Rightarrow> Tx list \<Rightarrow> Commit \<Rightarrow> Evidence list \<Rightarrow>
    bytes \<Rightarrow> bytes \<Rightarrow> bytes \<Rightarrow> State \<Rightarrow> (state_error, Block \<times> PartSet option) result" where
  "State_MakeBlock enc marshal cr H height txs commit evidence proposerAddress appHash resultHash state =
     and_then (lift_fault ErrBlock (types_MakeBlock enc cr H height txs (Some commit) evidence)) (\<lambda>block.
     let timestamp = (if height = 1 then st_LastBlockTime state else MedianTime commit (st_LastValidators state)) in
     and_then (lift_fault ErrVals (ValidatorSet_Hash H (st_Validators state))) (\<lambda>valHash.
     and_then (lift_fault ErrVals (ValidatorSet_Hash H (st_NextValidators state))) (\<lambda>nextValHash.
     let block = block\<lparr>b_Header := Header_Populate (ver_Consensus (st_Version state)) (st_ChainID state) timestamp (st_LastBlockID state)
           valHash nextValHash (HashConsensusParams H (st_ConsensusParams state)) appHash resultHash proposerAddress (b_Header block)\<rparr> in
     and_then (lift_fault ErrParts (MakePartSet marshal H BlockPartSizeBytes (Some block))) (\<lambda>parts. Inr (block, parts)))))"

section \<open>Validating a block\<close>

record evpool =
  evp_IsCommitted :: "Evidence \<Rightarrow> bool"
  evp_IsPending :: "Evidence \<Rightarrow> bool"
  evp_AddEvidence :: "Evidence \<Rightarrow> bool"
  evp_Header :: "int64 \<Rightarrow> Header option"

definition ev_result :: "(evidence_error, 'a) result \<Rightarrow> (state_error, 'a) result" where
  "ev_result = lift_fault ErrEvidence"

definition VerifyEvidence :: "crypto \<Rightarrow> state_db \<Rightarrow> State \<Rightarrow> Evidence \<Rightarrow> Header option \<Rightarrow> (state_error, unit) result" where
  "VerifyEvidence cr stateDB state evidence committedHeader =
     (let height = st_LastBlockHeight state; params = cp_Evidence (st_ConsensusParams state) in
      and_then (ev_result (Evidence_Time evidence)) (\<lambda>evTime.
      and_then (ev_result (Evidence_Height evidence)) (\<lambda>evHeight.
      if Time_Sub (st_LastBlockTime state) evTime > ep_MaxAgeDuration params \<and> wrap64 (height - evHeight) > ep_MaxAgeNumBlocks params
      then Inl (Err (ErrInvalid ''evidence is too old''))
      else and_then (case evidence of LunaticValidator e \<Rightarrow> ev_result (VerifyHeader committedHeader e) | _ \<Rightarrow> Inr ()) (\<lambda>_.
        and_then (LoadValidators stateDB evHeight) (\<lambda>valset.
        and_then (ev_result (Evidence_Address evidence)) (\<lambda>addr.
        and_then (case evidence of
            PhantomValidator phve \<Rightarrow>
              (if snd (GetByAddress addr valset) \<noteq> None then Inl (Err (ErrInvalid ''address was a validator''))
               else if wrap64 (height - pve_LastHeightValidatorWasInSet phve) > ep_MaxAgeNumBlocks params then Inl (Err (ErrInvalid ''last time validator was in the set''))
               else and_then (LoadValidators stateDB (pve_LastHeightValidatorWasInSet phve)) (\<lambda>valset.
                 case snd (GetByAddress addr valset) of None \<Rightarrow> Inl (Err (ErrInvalid ''phantom validator not found'')) | Some val \<Rightarrow> Inr val))
          | _ \<Rightarrow>
              and_then (case evidence of
                  Amnesia ae \<Rightarrow> and_then (ev_result (deref (ae_Polc ae))) (\<lambda>polc.
                    if \<not> POLC_IsAbsent polc then ev_result (ValidateVotes cr valset (st_ChainID state) polc) else Inr ())
                | _ \<Rightarrow> Inr ()) (\<lambda>_.
              case snd (GetByAddress addr valset) of None \<Rightarrow> Inl (Err (ErrInvalid ''address was not a validator'')) | Some val \<Rightarrow> Inr val)) (\<lambda>val.
        and_then (ev_result (deref (val_PubKey val))) (\<lambda>pk. ev_result (Evidence_Verify cr (st_ChainID state) pk evidence)))))))))"


fun submitted_twice :: "encoders \<Rightarrow> crypto \<Rightarrow> (bytes \<Rightarrow> bytes) \<Rightarrow> Evidence \<Rightarrow> Evidence list \<Rightarrow> (state_error, bool) result" where
  "submitted_twice enc cr H e [] = Inr False"
| "submitted_twice enc cr H e (e2 # rest) =
     and_then (ev_result (Evidence_Equal enc cr H e e2)) (\<lambda>eq. if eq then Inr True else submitted_twice enc cr H e rest)"

text \<open>Amnesia evidence that this node has not tried yet is added to the pool and the block is refused.\<close>

definition untried :: "Evidence \<Rightarrow> (state_error, PotentialAmnesiaEvidence option) result" where
  "untried e =
     (case e of
        Amnesia ae \<Rightarrow>
          and_then (ev_result (deref (ae_Polc ae))) (\<lambda>polc.
          if \<not> POLC_IsAbsent polc then Inr None
          else and_then (ev_result (deref (ae_PotentialAmnesiaEvidence ae))) (\<lambda>pe.
            and_then (ev_result (deref (pae_VoteA pe))) (\<lambda>a. and_then (ev_result (deref (pae_VoteB pe))) (\<lambda>b.
            Inr (if v_Round a < v_Round b then Some pe else None)))))
      | _ \<Rightarrow> Inr None)"

definition pool_of :: "evpool option \<Rightarrow> (state_error, evpool) result" where
  "pool_of evidencePool = (case evidencePool of None \<Rightarrow> Inl (Panic ''nil pointer dereference'') | Some p \<Rightarrow> Inr p)"

definition validate_one :: "encoders \<Rightarrow> crypto \<Rightarrow> (bytes \<Rightarrow> bytes) \<Rightarrow> evpool option \<Rightarrow> state_db \<Rightarrow> State \<Rightarrow> Evidence \<Rightarrow> Evidence list \<Rightarrow> (state_error, unit) result" where
  "validate_one enc cr H evidencePool stateDB state e rest =
     and_then (submitted_twice enc cr H e rest) (\<lambda>twice.
     if twice then Inl (Err (ErrInvalid ''evidence was submitted twice''))
     else if (case evidencePool of None \<Rightarrow> False | Some p \<Rightarrow> evp_IsCommitted p e) then Inl (Err (ErrInvalid ''evidence was already committed''))
     else if (case evidencePool of None \<Rightarrow> False | Some p \<Rightarrow> evp_IsPending p e) then Inr ()
     else and_then (untried e) (\<lambda>u.
       case u of
         Some pe \<Rightarrow> and_then (pool_of evidencePool) (\<lambda>p.
           if \<not> evp_AddEvidence p (PotentialAmnesia pe) then Inl (Err (ErrInvalid ''unknown amnesia evidence''))
           else Inl (Err (ErrInvalid ''amnesia evidence is new'')))
       | None \<Rightarrow>
           and_then (case e of
               LunaticValidator _ \<Rightarrow> and_then (pool_of evidencePool) (\<lambda>p. and_then (ev_result (Evidence_Height e)) (\<lambda>h.
                 case evp_Header p h of None \<Rightarrow> Inl (Err (ErrInvalid ''no block meta'')) | Some header \<Rightarrow> Inr (Some header)))
             | _ \<Rightarrow> Inr None) (\<lambda>header.
           VerifyEvidence cr stateDB state e header)))"

fun validate_evidence :: "encoders \<Rightarrow> crypto \<Rightarrow> (bytes \<Rightarrow> bytes) \<Rightarrow> evpool option \<Rightarrow> state_db \<Rightarrow> State \<Rightarrow> Evidence list \<Rightarrow> (state_error, unit) result" where
  "validate_evidence enc cr H evidencePool stateDB state [] = Inr ()"
| "validate_evidence enc cr H evidencePool stateDB state (e # rest) =
     and_then (validate_one enc cr H evidencePool stateDB state e rest) (\<lambda>_. validate_evidence enc cr H evidencePool stateDB state rest)"

definition guard :: "bool \<Rightarrow> string \<Rightarrow> (state_error, unit) result" where
  "guard ok s = (if ok then Inr () else Inl (Err (ErrInvalid s)))"

definition check_header :: "(bytes \<Rightarrow> bytes) \<Rightarrow> State \<Rightarrow> Header \<Rightarrow> (state_error, unit) result" where
  "check_header H state h =
     and_then (guard (cver_App (h_Version h) = cver_App (ver_Consensus (st_Version state)) \<and> cver_Block (h_Version h) = cver_Block (ver_Consensus (st_Version state)))
       ''wrong Block.Header.Version'') (\<lambda>_.
     and_then (guard (h_ChainID h = st_ChainID state) ''wrong Block.Header.ChainID'') (\<lambda>_.
     and_then (guard (h_Height h = wrap64 (st_LastBlockHeight state + 1)) ''wrong Block.Header.Height'') (\<lambda>_.
     and_then (guard (BlockID_Equals (h_LastBlockID h) (st_LastBlockID state)) ''wrong Block.Header.LastBlockID'') (\<lambda>_.
     and_then (guard (h_ConsensusHash h = HashConsensusParams H (st_ConsensusParams state)) ''wrong Block.Header.ConsensusHash'') (\<lambda>_.
     and_then (lift_fault ErrVals (ValidatorSet_Hash H (st_Validators state))) (\<lambda>valHash.
     and_then (guard (h_ValidatorsHash h = valHash) ''wrong Block.Header.ValidatorsHash'') (\<lambda>_.
     and_then (lift_fault ErrVals (ValidatorSet_Hash H (st_NextValidators state))) (\<lambda>nextValHash.
     guard (h_NextValidatorsHash h = nextValHash) ''wrong Block.Header.NextValidatorsHash''))))))))"

definition check_commit_and_time :: "crypto \<Rightarrow> State \<Rightarrow> Header \<Rightarrow> Commit \<Rightarrow> (state_error, unit) result" where
  "check_commit_and_time cr state h lastCommit =
     and_then (if h_Height h = 1 then guard (length (c_Signatures lastCommit) = 0) ''block at height 1 can't have LastCommit signatures''
       else lift_fault ErrCommit (VerifyCommit cr (st_ChainID state) (st_LastBlockID state) (wrap64 (h_Height h - 1)) lastCommit (st_LastValidators state))) (\<lambda>_.
     if h_Height h > 1
     then and_then (guard (h_Time h > st_LastBlockTime state) ''block time not greater than last block time'') (\<lambda>_.
       guard (h_Time h = MedianTime lastCommit (st_LastValidators state)) ''invalid block time'')
     else if h_Height h = 1 then guard (h_Time h = st_LastBlockTime state) ''block time is not equal to genesis time''
     else Inr ())"

definition validateBlock :: "encoders \<Rightarrow> crypto \<Rightarrow> (bytes \<Rightarrow> bytes) \<Rightarrow> evpool option \<Rightarrow> state_db \<Rightarrow> State \<Rightarrow> Block option \<Rightarrow> (state_error, Block) result" where
  "validateBlock enc cr H evidencePool stateDB state block =
     and_then (lift_fault ErrBlock (Block_ValidateBasic enc cr H block)) (\<lambda>block.
     let h = b_Header block in
     and_then (check_header H state h) (\<lambda>_.
     and_then (case b_LastCommit block of None \<Rightarrow> Inl (Panic ''nil pointer dereference'') | Some lc \<Rightarrow> check_commit_and_time cr state h lc) (\<lambda>_.
     and_then (guard (length (ed_Evidence (b_Evidence block)) \<le> ep_MaxNum (cp_Evidence (st_ConsensusParams state))) ''evidence overflow'') (\<lambda>_.
     and_then (validate_evidence enc cr H evidencePool stateDB state (ed_Evidence (b_Evidence block))) (\<lambda>_.
     and_then (guard (length (h_ProposerAddress h) = AddressSize) ''ProposerAddress size'') (\<lambda>_.
     and_then (guard (HasAddress (h_ProposerAddress h) (st_Validators state)) ''ProposerAddress is not a validator'') (\<lambda>_.
     Inr block)))))))"

section \<open>Executing a block\<close>

subsection \<open>Requests\<close>

record abcix_Evidence =
  ae_Type :: string
  ae_Validator :: "bytes \<times> int64"
  ae_Height :: int64
  ae_Time :: timestamp
  ae_TotalVotingPower :: int64

record LastCommitInfo =
  lci_Round :: int32
  lci_Votes :: "((bytes \<times> int64) \<times> bool) list"

definition TM2PB_Validator :: "crypto \<Rightarrow> Validator \<Rightarrow> (state_error, bytes \<times> int64) result" where
  "TM2PB_Validator cr val = (case val_PubKey val of None \<Rightarrow> Inl (Panic ''nil pointer dereference'') | Some pk \<Rightarrow> Inr (cr_Address cr pk, val_VotingPower val))"

definition TM2PB_Evidence :: "crypto \<Rightarrow> Evidence \<Rightarrow> ValidatorSet \<Rightarrow> timestamp \<Rightarrow> (state_error, abcix_Evidence) result" where
  "TM2PB_Evidence cr e valSet evTime =
     and_then (ev_result (Evidence_Address e)) (\<lambda>addr.
     case snd (GetByAddress addr valSet) of
       None \<Rightarrow> Inl (Panic ''nil validator'')
     | Some val \<Rightarrow>
         and_then (case e of
             DuplicateVote _ \<Rightarrow> Inr ''duplicate/vote''
           | PhantomValidator _ \<Rightarrow> Inr ''phantom''
           | LunaticValidator _ \<Rightarrow> Inr ''lunatic''
           | PotentialAmnesia _ \<Rightarrow> Inr ''potential_amnesia''
           | _ \<Rightarrow> Inl (Panic ''Unknown evidence type'')) (\<lambda>evType.
         and_then (TM2PB_Validator cr val) (\<lambda>v.
         and_then (ev_result (Evidence_Height e)) (\<lambda>h.
         and_then (lift_fault ErrVals (TotalVotingPower valSet)) (\<lambda>(tvp, _).
         Inr \<lparr>ae_Type = evType, ae_Validator = v, ae_Height = h, ae_Time = evTime, ae_TotalVotingPower = tvp\<rparr>)))))"

definition vote_infos :: "crypto \<Rightarrow> CommitSig list \<Rightarrow> Validator list \<Rightarrow> (state_error, ((bytes \<times> int64) \<times> bool) list) result" where
  "vote_infos cr sigs vals = all_results (\<lambda>(val, commitSig). and_then (TM2PB_Validator cr val) (\<lambda>v. Inr (v, \<not> Absent commitSig))) (zip vals sigs)"

definition byz_val :: "crypto \<Rightarrow> state_db \<Rightarrow> timestamp \<Rightarrow> Evidence \<Rightarrow> (state_error, abcix_Evidence) result" where
  "byz_val cr stateDB evTime e =
     and_then (ev_result (Evidence_Height e)) (\<lambda>h.
     and_then (or_die ''LoadValidators'' (LoadValidators stateDB h)) (\<lambda>valset. TM2PB_Evidence cr e valset evTime))"

definition getBlockValidatorInfo :: "crypto \<Rightarrow> timestamp \<Rightarrow> int64 \<Rightarrow> Commit option \<Rightarrow> Evidence list \<Rightarrow> state_db \<Rightarrow>
    (state_error, LastCommitInfo \<times> abcix_Evidence list) result" where
  "getBlockValidatorInfo cr tm height lastCommit evidence stateDB =
     and_then
       (if height > 1
        then and_then (or_die ''LoadValidators'' (LoadValidators stateDB (wrap64 (height - 1)))) (\<lambda>lastValSet.
          if Commit_Size lastCommit \<noteq> length (vs_Validators lastValSet) then Inl (Panic ''commit size doesn't match valset length'')
          else vote_infos cr (case lastCommit of None \<Rightarrow> [] | Some c \<Rightarrow> c_Signatures c) (vs_Validators lastValSet))
        else Inr (replicate (Commit_Size lastCommit) (([], 0), False))) (\<lambda>voteInfos.
     and_then (all_results (byz_val cr stateDB tm) evidence) (\<lambda>byzVals.
     case lastCommit of
       None \<Rightarrow> Inl (Panic ''nil pointer dereference'')
     | Some c \<Rightarrow> Inr (\<lparr>lci_Round = c_Round c, lci_Votes = voteInfos\<rparr>, byzVals)))"


record RequestBlock =
  rb_Height :: int64
  rb_Hash :: bytes
  rb_Header :: Header
  rb_LastCommitInfo :: LastCommitInfo
  rb_ByzantineValidators :: "abcix_Evidence list"
  rb_Txs :: "Tx list"

record ResponseCheckBlock =
  rcb_Code :: nat
  rcb_AppHash :: bytes
  rcb_DeliverTxs :: "ResponseDeliverTx option list"
  rcb_Events :: "bytes list"

record ResponseCreateBlock =
  rcr_Txs :: "Tx list"
  rcr_InvalidTxs :: "Tx list"
  rcr_AppHash :: bytes
  rcr_Events :: "bytes list"
  rcr_DeliverTxs :: "ResponseDeliverTx option list"

text \<open>
  The answers of the application, \<open>None\<close> for an error of the connection: \<open>app_DeliverBlock\<close> is the response that comes with or without an error.
  \<open>app_FlushAppConn\<close> and \<open>app_MempoolUpdate\<close> say whether the mempool succeeds, \<open>app_PendingEvidence\<close> is the answer of the evidence pool,
  \<open>app_enc_tx\<close> and \<open>app_enc_events\<close> are generated encoders.
\<close>

record app =
  app_DeliverBlock :: "RequestBlock \<Rightarrow> ResponseDeliverBlock option"
  app_CheckBlock :: "RequestBlock \<Rightarrow> ResponseCheckBlock option"
  app_CreateBlock :: "int64 \<Rightarrow> LastCommitInfo \<Rightarrow> abcix_Evidence list \<Rightarrow> ResponseCreateBlock option"
  app_FlushAppConn :: bool
  app_CommitSync :: "(bytes \<times> int64) option"
  app_MempoolUpdate :: bool
  app_PendingEvidence :: "nat \<Rightarrow> Evidence list"
  app_enc_tx :: "ResponseDeliverTx \<Rightarrow> bytes option"
  app_enc_events :: "bytes list \<Rightarrow> bytes option"

subsection \<open>The hash of the results\<close>

definition deterministicResponseDeliverTx :: "ResponseDeliverTx option \<Rightarrow> (state_error, ResponseDeliverTx) result" where
  "deterministicResponseDeliverTx response =
     (case response of
        None \<Rightarrow> Inl (Panic ''nil pointer dereference'')
      | Some r \<Rightarrow> Inr (r\<lparr>dtx_Log := [], dtx_Info := [], dtx_Codespace := []\<rparr>))"

definition NewResults :: "ResponseDeliverTx option list \<Rightarrow> (state_error, ResponseDeliverTx list) result" where
  "NewResults responses = all_results deterministicResponseDeliverTx responses"

definition marshal_or_panic :: "bytes option \<Rightarrow> (state_error, bytes) result" where
  "marshal_or_panic bz = (case bz of None \<Rightarrow> Inl (Panic ''Marshal'') | Some b \<Rightarrow> Inr b)"

definition ABCIResults_Hash :: "app \<Rightarrow> (bytes \<Rightarrow> bytes) \<Rightarrow> ResponseDeliverTx list \<Rightarrow> (state_error, bytes) result" where
  "ABCIResults_Hash ap H a = and_then (all_results (marshal_or_panic \<circ> app_enc_tx ap) a) (\<lambda>bzs. Inr (HashFromByteSlices H bzs))"

definition ABCIResponsesResultsHash :: "app \<Rightarrow> (bytes \<Rightarrow> bytes) \<Rightarrow> bytes list \<Rightarrow> ResponseDeliverTx option list \<Rightarrow> (state_error, bytes) result" where
  "ABCIResponsesResultsHash ap H events deliverTxs =
     and_then (marshal_or_panic (app_enc_events ap events)) (\<lambda>dbeBytes.
     and_then (NewResults deliverTxs) (\<lambda>results.
     and_then (ABCIResults_Hash ap H results) (\<lambda>h. Inr (HashFromByteSlices H [dbeBytes, h]))))"

subsection \<open>Running a block\<close>

text \<open>\<open>request\<close> is what \<^verbatim>\<open>CheckBlock\<close> and \<^verbatim>\<open>execBlockOnProxyApp\<close> send; the block remembers its hash afterwards.\<close>

definition block_request :: "encoders \<Rightarrow> crypto \<Rightarrow> (bytes \<Rightarrow> bytes) \<Rightarrow> state_db \<Rightarrow> Block \<Rightarrow> (state_error, RequestBlock \<times> Block) result" where
  "block_request enc cr H stateDB block =
     and_then (getBlockValidatorInfo cr (h_Time (b_Header block)) (h_Height (b_Header block)) (b_LastCommit block) (ed_Evidence (b_Evidence block)) stateDB)
       (\<lambda>(commitInfo, byzVals).
     and_then (lift_fault ErrBlock (Block_Hash enc cr H (Some block))) (\<lambda>(hash, blk).
       Inr (\<lparr>rb_Height = h_Height (b_Header block), rb_Hash = hash, rb_Header = b_Header block, rb_LastCommitInfo = commitInfo,
             rb_ByzantineValidators = byzVals, rb_Txs = d_Txs (b_Data block)\<rparr>, case blk of None \<Rightarrow> block | Some b \<Rightarrow> b)))"

fun all_ok :: "ResponseDeliverTx option list \<Rightarrow> (state_error, bool) result" where
  "all_ok [] = Inr True"
| "all_ok (None # txs) = Inl (Panic ''nil pointer dereference'')"
| "all_ok (Some tx # txs) = (if dtx_Code tx \<noteq> 0 then Inr False else all_ok txs)"

definition execBlockOnProxyApp :: "encoders \<Rightarrow> crypto \<Rightarrow> (bytes \<Rightarrow> bytes) \<Rightarrow> app \<Rightarrow> state_db \<Rightarrow> Block \<Rightarrow> (state_error, ResponseDeliverBlock \<times> Block) result" where
  "execBlockOnProxyApp enc cr H ap stateDB block =
     and_then (block_request enc cr H stateDB block) (\<lambda>(req, block).
     case app_DeliverBlock ap req of
       None \<Rightarrow> Inl (Panic ''nil pointer dereference'')
     | Some abciResponses \<Rightarrow>
         and_then (all_ok (rdb_DeliverTxs abciResponses)) (\<lambda>ok.
         if ok then Inr (abciResponses, block) else Inl (Panic ''invalid tx found in block'')))"

definition CheckBlock :: "encoders \<Rightarrow> crypto \<Rightarrow> (bytes \<Rightarrow> bytes) \<Rightarrow> app \<Rightarrow> state_db \<Rightarrow> Block \<Rightarrow> (state_error, Block) result" where
  "CheckBlock enc cr H ap stateDB block =
     and_then (block_request enc cr H stateDB block) (\<lambda>(req, block).
     case app_CheckBlock ap req of
       None \<Rightarrow> Inl (Err (ErrApp ''connection''))
     | Some resp \<Rightarrow>
         if rcb_Code resp \<noteq> 0 then Inl (Err (ErrApp ''application error during CheckBlock''))
         else and_then (all_ok (rcb_DeliverTxs resp)) (\<lambda>ok.
           if \<not> ok then Inl (Err (ErrApp ''invalid transaction''))
           else and_then (ABCIResponsesResultsHash ap H (rcb_Events resp) (rcb_DeliverTxs resp)) (\<lambda>resultHash.
             if resultHash \<noteq> h_ResultsHash (b_Header block) then Inl (Err (ErrApp ''resultHash mismatch''))
             else if rcb_AppHash resp \<noteq> h_AppHash (b_Header block) then Inl (Err (ErrApp ''appHash mismatch''))
             else Inr block)))"

subsection \<open>Updating the state\<close>

fun validateValidatorUpdates :: "(bytes option \<times> int64) list \<Rightarrow> ConsensusParams \<Rightarrow> (state_error, unit) result" where
  "validateValidatorUpdates [] params = Inr ()"
| "validateValidatorUpdates ((pubKey, pow) # rest) params =
     (if pow < 0 then Inl (Err (ErrApp ''voting power can't be negative''))
      else if pow = 0 then validateValidatorUpdates rest params
      else and_then (ev_result (PubKeyFromProto pubKey)) (\<lambda>pk.
        if \<not> IsValidPubkeyType params ''ed25519'' then Inl (Err (ErrApp ''pubkey type is unsupported for consensus''))
        else validateValidatorUpdates rest params))"

definition PB2TM_ValidatorUpdates :: "crypto \<Rightarrow> (bytes option \<times> int64) list \<Rightarrow> (state_error, Validator list) result" where
  "PB2TM_ValidatorUpdates cr vals =
     all_results (\<lambda>(pubKey, pow). and_then (ev_result (PubKeyFromProto pubKey)) (\<lambda>pub. Inr (NewValidator (cr_Address cr) pub pow))) vals"

definition updateState :: "State \<Rightarrow> BlockID \<Rightarrow> Header \<Rightarrow> ResponseDeliverBlock \<Rightarrow> Validator list \<Rightarrow> (state_error, State) result" where
  "updateState state blockID header abciResponses validatorUpdates =
     and_then (if validatorUpdates \<noteq> []
       then and_then (lift_fault ErrVals (UpdateWithChangeSet validatorUpdates (st_NextValidators state))) (\<lambda>nValSet.
         Inr (nValSet, wrap64 (wrap64 (h_Height header + 1) + 1)))
       else Inr (st_NextValidators state, st_LastHeightValidatorsChanged state)) (\<lambda>(nValSet, lastHeightValsChanged).
     and_then (lift_fault ErrVals (IncrementProposerPriority 1 nValSet)) (\<lambda>nValSet.
     and_then (case rdb_ConsensusParamUpdates abciResponses of
         None \<Rightarrow> Inr (st_ConsensusParams state, st_LastHeightConsensusParamsChanged state, st_Version state)
       | Some upd \<Rightarrow>
           let nextParams = UpdateConsensusParams (st_ConsensusParams state) (Some upd) in
           and_then (ValidateConsensusParams nextParams) (\<lambda>_.
           Inr (nextParams, wrap64 (h_Height header + 1),
             (st_Version state)\<lparr>ver_Consensus := (ver_Consensus (st_Version state))\<lparr>cver_App := cp_AppVersion nextParams\<rparr>\<rparr>)))
       (\<lambda>(nextParams, lastHeightParamsChanged, nextVersion).
     Inr \<lparr>st_Version = nextVersion, st_ChainID = st_ChainID state, st_LastBlockHeight = h_Height header, st_LastBlockID = blockID,
          st_LastBlockTime = h_Time header, st_NextValidators = nValSet, st_Validators = st_NextValidators state,
          st_LastValidators = st_Validators state, st_LastHeightValidatorsChanged = lastHeightValsChanged,
          st_ConsensusParams = nextParams, st_LastHeightConsensusParamsChanged = lastHeightParamsChanged\<rparr>)))"

definition TxPreCheck :: "State \<Rightarrow> (state_error, int64) result" where
  "TxPreCheck state =
     lift_fault ErrBlock (MaxDataBytesUnknownEvidence (bp_MaxBytes (cp_Block (st_ConsensusParams state))) (int (ValidatorSet_Size (st_Validators state)))
       (int (ep_MaxNum (cp_Evidence (st_ConsensusParams state)))))"

definition BlockExecutor_Commit :: "app \<Rightarrow> State \<Rightarrow> (state_error, bytes \<times> int64) result" where
  "BlockExecutor_Commit ap state =
     (if \<not> app_FlushAppConn ap then Inl (Err (ErrApp ''FlushAppConn''))
      else case app_CommitSync ap of
        None \<Rightarrow> Inl (Err (ErrApp ''CommitSync''))
      | Some (data, retainHeight) \<Rightarrow>
          and_then (TxPreCheck state) (\<lambda>_.
          if app_MempoolUpdate ap then Inr (data, retainHeight) else Inl (Err (ErrApp ''mempool update''))))"

definition ApplyBlock :: "encoders \<Rightarrow> crypto \<Rightarrow> (bytes \<Rightarrow> bytes) \<Rightarrow> app \<Rightarrow> evpool option \<Rightarrow> State \<Rightarrow> BlockID \<Rightarrow> Block option \<Rightarrow> state_db \<Rightarrow>
    (state_error, State \<times> int64 \<times> bytes \<times> state_db) result" where
  "ApplyBlock enc cr H ap evidencePool state blockID block db =
     and_then (validateBlock enc cr H evidencePool db state block) (\<lambda>block.
     and_then (execBlockOnProxyApp enc cr H ap db block) (\<lambda>(abciResponses, block).
     let (db, abciResponses) = SaveABCIResponses db (h_Height (b_Header block)) abciResponses;
         abciValUpdates = rdb_ValidatorUpdates abciResponses in
     and_then (validateValidatorUpdates abciValUpdates (st_ConsensusParams state)) (\<lambda>_.
     and_then (PB2TM_ValidatorUpdates cr abciValUpdates) (\<lambda>validatorUpdates.
     and_then (updateState state blockID (b_Header block) abciResponses validatorUpdates) (\<lambda>state.
     and_then (BlockExecutor_Commit ap state) (\<lambda>(appHash, retainHeight).
     and_then (SaveState db state) (\<lambda>db. Inr (state, retainHeight, appHash, db))))))))"

definition CreateProposalBlock :: "encoders \<Rightarrow> (tmproto_Block \<Rightarrow> bytes option) \<Rightarrow> crypto \<Rightarrow> (bytes \<Rightarrow> bytes) \<Rightarrow> app \<Rightarrow> state_db \<Rightarrow>
    int64 \<Rightarrow> State \<Rightarrow> Commit \<Rightarrow> bytes \<Rightarrow> (state_error, Block \<times> PartSet option) result" where
  "CreateProposalBlock enc marshal cr H ap db height state commit proposerAddr =
     (let evidence = app_PendingEvidence ap (ep_MaxNum (cp_Evidence (st_ConsensusParams state)));
          timestamp = (if height = 1 then st_LastBlockTime state else MedianTime commit (st_LastValidators state)) in
      and_then (getBlockValidatorInfo cr timestamp height (Some commit) evidence db) (\<lambda>(lastCommitInfo, byzVals).
      case app_CreateBlock ap height lastCommitInfo byzVals of
        None \<Rightarrow> Inl (Panic ''CreateBlockSync'')
      | Some resp \<Rightarrow>
          and_then (ABCIResponsesResultsHash ap H (rcr_Events resp) (rcr_DeliverTxs resp)) (\<lambda>resultHash.
          State_MakeBlock enc marshal cr H height (rcr_Txs resp) commit evidence proposerAddr (rcr_AppHash resp) resultHash state)))"


section \<open>Evidence that stops every node\<close>

text \<open>Computations that panic but never return an error.\<close>

definition never_errs :: "('e, 'a) result \<Rightarrow> bool" where
  "never_errs r \<longleftrightarrow> (\<forall>e. r \<noteq> Inl (Err e))"

lemma never_errs_simps [simp]: "never_errs (Inr x)" "never_errs (Inl (Panic s))" "\<not> never_errs (Inl (Err e))"
  by (simp_all add: never_errs_def)

lemma never_errs_and_then: "never_errs r \<Longrightarrow> (\<And>x. r = Inr x \<Longrightarrow> never_errs (k x)) \<Longrightarrow> never_errs (and_then r k)"
  by (auto simp: never_errs_def and_then_def split: sum.splits)

lemma never_errs_lift [simp]: "never_errs (lift_fault f r) = never_errs r"
  by (auto simp: never_errs_def lift_fault_def split: sum.splits fault.splits)

lemma never_errs_ev [simp]: "never_errs (ev_result r) = never_errs r"
  by (simp add: ev_result_def)

lemma never_errs_die [simp]: "never_errs (or_die s r)"
  by (auto simp: never_errs_def or_die_def split: sum.splits fault.splits)

lemma never_errs_deref [simp]: "never_errs (deref p)"
  by (cases p) (simp_all add: deref_def)

lemma never_errs_panic: "never_errs r \<Longrightarrow> (\<And>x. r \<noteq> Inr x) \<Longrightarrow> \<exists>s. r = Inl (Panic s)"
  by (cases r) (auto simp: never_errs_def intro: fault.exhaust)

lemma Evidence_never_errs [simp]: "never_errs (Evidence_Height e)" "never_errs (Evidence_Address e)"
  by (cases e; auto simp: Evidence_Height_def Evidence_Address_def DuplicateVoteEvidence_Height_def DuplicateVoteEvidence_Address_def
      PotentialAmnesiaEvidence_Height_def PotentialAmnesiaEvidence_Address_def ConflictingHeadersEvidence_Height_def
      intro!: never_errs_and_then)+

lemma TotalVotingPower_never_errs [simp]: "never_errs (TotalVotingPower vals)"
proof -
  have "never_errs (sum_voting_power acc vs)" for acc vs by (induction vs arbitrary: acc) (auto simp: Let_def)
  then show ?thesis by (auto simp: TotalVotingPower_def updateTotalVotingPower_def intro!: never_errs_and_then)
qed

lemma TM2PB_never_errs [simp]: "never_errs (TM2PB_Validator cr v)" "never_errs (TM2PB_Evidence cr e vals t)"
  by (auto simp: TM2PB_Validator_def TM2PB_Evidence_def intro!: never_errs_and_then split: option.split Evidence.split)

lemma all_results_never_errs: "(\<And>x. x \<in> set xs \<Longrightarrow> never_errs (f x)) \<Longrightarrow> never_errs (all_results f xs)"
  by (induction xs) (auto intro!: never_errs_and_then)

lemma all_results_Inr: "all_results f xs = Inr ys \<Longrightarrow> x \<in> set xs \<Longrightarrow> \<exists>y. f x = Inr y"
  by (induction xs arbitrary: ys) (auto simp: and_then_Inr_iff)

lemma getBlockValidatorInfo_never_errs: "never_errs (getBlockValidatorInfo cr t h lc es db)"
  by (auto simp: getBlockValidatorInfo_def vote_infos_def byz_val_def intro!: never_errs_and_then all_results_never_errs split: option.split)

lemma getBlockValidatorInfo_panics:
  assumes "e \<in> set es" "\<And>x. byz_val cr db t e \<noteq> Inr x"
  shows "\<exists>s. getBlockValidatorInfo cr t h lc es db = Inl (Panic s)"
proof (rule never_errs_panic [OF getBlockValidatorInfo_never_errs])
  fix x
  show "getBlockValidatorInfo cr t h lc es db \<noteq> Inr x"
    using assms(2) all_results_Inr [OF _ assms(1), of "byz_val cr db t"] by (auto simp: getBlockValidatorInfo_def and_then_Inr_iff)
qed

text \<open>Phantom evidence is about somebody who was not a validator at the height of the vote; amnesia evidence has no type of its own.\<close>

lemma phantom_not_reported:
  assumes "VerifyEvidence cr db state (PhantomValidator p) header = Inr ()"
  shows "byz_val cr db t (PhantomValidator p) \<noteq> Inr x"
  using assms by (auto simp: VerifyEvidence_def byz_val_def TM2PB_Evidence_def and_then_Inr_iff or_die_def Let_def ev_result_def
      split: if_splits option.splits sum.splits fault.splits)

lemma amnesia_not_reported: "byz_val cr db t (Amnesia a) \<noteq> Inr x"
  by (auto simp: byz_val_def TM2PB_Evidence_def and_then_Inr_iff split: option.splits)

lemma validate_evidence_each:
  "validate_evidence enc cr H pool db state es = Inr () \<Longrightarrow> e \<in> set es \<Longrightarrow> \<exists>rest. validate_one enc cr H pool db state e rest = Inr ()"
  by (induction es) (auto simp: and_then_Inr_iff)

lemma validateBlock_evidence:
  assumes "validateBlock enc cr H pool db state (Some b) = Inr b'"
  shows "ed_Evidence (b_Evidence b') = ed_Evidence (b_Evidence b)" "validate_evidence enc cr H pool db state (ed_Evidence (b_Evidence b)) = Inr ()"
proof -
  obtain b1 where b1: "Block_ValidateBasic enc cr H (Some b) = Inr b1" "b' = b1" "validate_evidence enc cr H pool db state (ed_Evidence (b_Evidence b1)) = Inr ()"
    using assms by (auto simp: validateBlock_def and_then_Inr_iff Let_def)
  have "ed_Evidence (b_Evidence b1) = ed_Evidence (b_Evidence b)"
    by (rule Block_ValidateBasic_Inr [OF b1(1)]) (auto dest: EvidenceData_Hash_Inr)
  then show "ed_Evidence (b_Evidence b') = ed_Evidence (b_Evidence b)" "validate_evidence enc cr H pool db state (ed_Evidence (b_Evidence b)) = Inr ()"
    using b1 by simp_all
qed

lemma fatal_evidence:
  assumes ok: "validateBlock enc cr H pool db state (Some b) = Inr b'" and e: "e \<in> set (ed_Evidence (b_Evidence b))"
    and kind: "(\<exists>a. e = Amnesia a) \<or> (\<exists>p. e = PhantomValidator p) \<and> (\<forall>p. pool = Some p \<longrightarrow> \<not> evp_IsPending p e)"
  shows "\<exists>s. getBlockValidatorInfo cr t h lc (ed_Evidence (b_Evidence b')) db = Inl (Panic s)"
proof -
  obtain rest where r: "validate_one enc cr H pool db state e rest = Inr ()"
    using validate_evidence_each [OF validateBlock_evidence(2) [OF ok] e] by blast
  have "byz_val cr db t e \<noteq> Inr x" for x
    using kind
  proof
    assume "(\<exists>p. e = PhantomValidator p) \<and> (\<forall>p. pool = Some p \<longrightarrow> \<not> evp_IsPending p e)"
    then obtain p where p: "e = PhantomValidator p" "\<not> (case pool of None \<Rightarrow> False | Some p \<Rightarrow> evp_IsPending p e)" by (auto split: option.split)
    then have "VerifyEvidence cr db state (PhantomValidator p) None = Inr ()"
      using r by (auto simp: validate_one_def untried_def and_then_Inr_iff split: if_splits)
    then show ?thesis using phantom_not_reported p(1) by blast
  qed (auto simp: amnesia_not_reported)
  with e show ?thesis unfolding validateBlock_evidence(1) [OF ok] by (intro getBlockValidatorInfo_panics)
qed

text \<open>
  C7: Two of the five kinds of evidence that a valid block may carry stop every node. When a block passes validation and
  carries amnesia evidence, or evidence of a phantom validator that the pool did not know before, then asking the application about the block
  panics, and so does applying it: \<^verbatim>\<open>TM2PB.Evidence\<close> has no case for the former, and looks the validator up
  in the set that validation has just found it not to be in for the latter.
\<close>

theorem valid_evidence_panics:
  assumes "validateBlock enc cr H pool db state (Some b) = Inr b'" "e \<in> set (ed_Evidence (b_Evidence b))"
    and "(\<exists>a. e = Amnesia a) \<or> (\<exists>p. e = PhantomValidator p) \<and> (\<forall>p. pool = Some p \<longrightarrow> \<not> evp_IsPending p e)"
  shows "(\<exists>s. CheckBlock enc cr H ap db b' = Inl (Panic s)) \<and> (\<exists>s. ApplyBlock enc cr H ap pool state blockID (Some b) db = Inl (Panic s))"
proof -
  obtain s where "getBlockValidatorInfo cr (h_Time (b_Header b')) (h_Height (b_Header b')) (b_LastCommit b') (ed_Evidence (b_Evidence b')) db = Inl (Panic s)"
    using fatal_evidence [OF assms] by blast
  then have "block_request enc cr H db b' = Inl (Panic s)" by (simp add: block_request_def)
  then show ?thesis using assms(1) by (simp add: CheckBlock_def ApplyBlock_def execBlockOnProxyApp_def)
qed


definition lax_crypto :: crypto where
  "lax_crypto = demo_crypto\<lparr>cr_VerifyBytes := \<lambda>pk msg sig. True\<rparr>"

definition former_set :: ValidatorSet where
  "former_set = (let v = lone_validator\<lparr>val_Address := replicate 20 2\<rparr> in \<lparr>vs_Validators = [v], vs_Proposer = Some v, vs_totalVotingPower = 10\<rparr>)"

definition demo_state :: State where
  "demo_state = \<lparr>st_Version = InitStateVersion 11 [], st_ChainID = [116], st_LastBlockHeight = 0, st_LastBlockID = nil_BlockID, st_LastBlockTime = 5,
     st_NextValidators = lone_set, st_Validators = lone_set, st_LastValidators = no_validators, st_LastHeightValidatorsChanged = 1,
     st_ConsensusParams = DefaultConsensusParams, st_LastHeightConsensusParamsChanged = 1\<rparr>"

definition phantom :: Evidence where
  "phantom = PhantomValidator \<lparr>pve_Vote = Some (demo_precommit 1 2 0), pve_LastHeightValidatorWasInSet = 1\<rparr>"

abbreviation zero_hash :: "bytes \<Rightarrow> bytes" where
  "zero_hash \<equiv> \<lambda>_. replicate 32 0"

definition phantom_block :: Block where
  "phantom_block =
     \<lparr>b_Header = \<lparr>h_Version = \<lparr>cver_Block = 11, cver_App = 0\<rparr>, h_ChainID = [116], h_Height = 1, h_Time = 5, h_LastBlockID = nil_BlockID,
        h_LastCommitHash = None, h_DataHash = None, h_ValidatorsHash = replicate 32 0, h_NextValidatorsHash = replicate 32 0,
        h_ConsensusHash = replicate 32 0, h_AppHash = [], h_ResultsHash = [], h_EvidenceHash = Some (replicate 32 0), h_ProposerAddress = replicate 20 1\<rparr>,
      b_Data = \<lparr>d_Txs = [], d_hash = None\<rparr>, b_Evidence = \<lparr>ed_Evidence = [phantom], ed_hash = None\<rparr>,
      b_LastCommit = Some \<lparr>c_Height = 0, c_Round = 0, c_BlockID = nil_BlockID, c_Signatures = [], c_hash = None, c_bitArray = None\<rparr>\<rparr>"

definition byte_encoders :: encoders where
  "byte_encoders = \<lparr>enc_Vote = \<lambda>_. Some [], enc_Evidence = \<lambda>_. Some [1]\<rparr>"

definition two_sets :: "tmproto_ValidatorSet \<Rightarrow> tmproto_ValidatorSet \<Rightarrow> state_db" where
  "two_sets p q = \<lparr>db_vals = [5 \<mapsto> \<lparr>vi_ValidatorSet = Some p, vi_LastHeightChanged = 5\<rparr>, 1 \<mapsto> \<lparr>vi_ValidatorSet = Some q, vi_LastHeightChanged = 1\<rparr>],
     db_params = Map.empty, db_abci = Map.empty, db_state = None\<rparr>"

definition mute_app :: app where
  "mute_app = \<lparr>app_DeliverBlock = (\<lambda>_. None), app_CheckBlock = (\<lambda>_. None), app_CreateBlock = (\<lambda>_ _ _. None), app_FlushAppConn = True, app_CommitSync = None,
     app_MempoolUpdate = True, app_PendingEvidence = (\<lambda>_. []), app_enc_tx = (\<lambda>_. None), app_enc_events = (\<lambda>_. None)\<rparr>"

lemma one_leaf: "HashFromByteSlices H [b] = leafHash H b"
  by (simp add: HashFromByteSlices.simps [of H "[b]"])

lemma phantom_verified:
  assumes "ValidatorSetFromProto (Some p) = Inr lone_set" "ValidatorSetFromProto (Some q) = Inr former_set"
  shows "VerifyEvidence lax_crypto (two_sets p q) demo_state phantom None = Inr ()"
proof -
  obtain bz where bz: "VoteSignBytes lax_crypto [116] (demo_precommit 1 2 0) = Inr bz"
    using demo_sign_bytes [of 1 2 0] by (auto simp: VoteSignBytes_def lax_crypto_def)
  have load: "LoadValidators (two_sets p q) 5 = Inr lone_set" "LoadValidators (two_sets p q) 1 = Inr former_set"
    using assms by (simp_all add: LoadValidators_def loadValidatorsInfo_def two_sets_def)
  have v: "v_Height (demo_precommit 1 2 0) = 5" "v_ValidatorAddress (demo_precommit 1 2 0) = replicate 20 2" "v_Timestamp (demo_precommit 1 2 0) = 9"
    by (simp_all add: demo_precommit_def)
  have get: "snd (GetByAddress (replicate 20 2) lone_set) = None"
      "snd (GetByAddress (replicate 20 2) former_set) = Some (lone_validator\<lparr>val_Address := replicate 20 2\<rparr>)"
    by (simp_all add: GetByAddress_def lone_set_def former_set_def lone_validator_def Let_def numeral_eq_Suc)
  have w: "wrap64 (- 5) = - 5" "wrap64 (- 1) = - 1" by (rule wrap64_idI; simp add: int_limits)+
  show ?thesis
    using bz load v get w
    by (simp add: VerifyEvidence_def phantom_def demo_state_def Evidence_Time_def Evidence_Height_def Evidence_Address_def Evidence_Verify_def
        PhantomValidatorEvidence_Verify_def verify_vote_def deref_def Time_Sub_def int_limits DefaultConsensusParams_def ev_result_def lone_validator_def Let_def)
      (simp add: lax_crypto_def)
qed


lemma phantom_block_valid:
  assumes "ValidatorSetFromProto (Some p) = Inr lone_set" "ValidatorSetFromProto (Some q) = Inr former_set"
  shows "\<exists>b'. validateBlock byte_encoders lax_crypto zero_hash None (two_sets p q) demo_state (Some phantom_block) = Inr b'"
proof -
  have hash: "HashFromByteSlices zero_hash [b] = replicate 32 0" for b by (simp add: one_leaf leafHash_def)
  have vals: "ValidatorSet_Hash zero_hash lone_set = Inr (replicate 32 0)"
    by (simp add: ValidatorSet_Hash_def lone_set_def lone_validator_def Validator_Bytes_def hash)
  have basic: "Evidence_ValidateBasic lax_crypto zero_hash phantom = Inr ()"
    using demo_precommit_valid [of 0 1 2] demo_BlockID_complete [of 1]
    by (simp add: Evidence_ValidateBasic_def phantom_def PhantomValidatorEvidence_ValidateBasic_def demo_precommit_def)
  obtain b' where b': "Block_ValidateBasic byte_encoders lax_crypto zero_hash (Some phantom_block) = Inr b'"
      "b_Header b' = b_Header phantom_block" "ed_Evidence (b_Evidence b') = [phantom]" "\<exists>lc. b_LastCommit b' = Some lc \<and> c_Signatures lc = []"
    using basic
    by (auto simp: Block_ValidateBasic_def phantom_block_def Header_ValidateBasic_def ValidateHash_def BlockID_ValidateBasic_def nil_BlockID_def
        PartSetHeader_ValidateBasic_def MaxChainIDLen_def AddressSize_def tmhash_Size_def Commit_Hash_def Data_Hash_def Let_def EvidenceData_Hash_def
        EvidenceList_Hash_def Evidence_Bytes_def must_marshal_def byte_encoders_def hash lift_fault_def phantom_def split: Evidence.split)
  have one: "validate_one byte_encoders lax_crypto zero_hash None (two_sets p q) demo_state phantom [] = Inr ()"
    using phantom_verified [OF assms] by (simp add: validate_one_def untried_def phantom_def)
  have h: "check_header zero_hash demo_state (b_Header phantom_block) = Inr ()"
  proof -
    have "wrap64 1 = 1" by (intro wrap64_idI) (simp_all add: int_limits)
    then show ?thesis using vals
      by (simp add: check_header_def guard_def demo_state_def phantom_block_def InitStateVersion_def HashConsensusParams_def)
  qed
  show ?thesis
    using b' one h
    by (auto simp: validateBlock_def Let_def check_commit_and_time_def guard_def demo_state_def phantom_block_def DefaultConsensusParams_def AddressSize_def
        HasAddress_def lone_set_def lone_validator_def)
qed

theorem valid_evidence_panics_witness:
  "\<exists>p q b' s. validateBlock byte_encoders lax_crypto zero_hash None (two_sets p q) demo_state (Some phantom_block) = Inr b' \<and>
     phantom \<in> set (ed_Evidence (b_Evidence phantom_block)) \<and>
     ApplyBlock byte_encoders lax_crypto zero_hash mute_app None demo_state nil_BlockID (Some phantom_block) (two_sets p q) = Inl (Panic s)"
proof -
  obtain p where p: "ValidatorSetFromProto (Some p) = Inr lone_set" using storable_roundtrip [OF lone_set_ok(1)] by blast
  have "storable former_set"
    by (simp add: storable_def vset_wf_def validators_wf_def well_keyed_def former_set_def lone_validator_def AddressSize_def PubKeySize_def MaxTotalVotingPower_eq Let_def)
  then obtain q where q: "ValidatorSetFromProto (Some q) = Inr former_set" using storable_roundtrip by blast
  obtain b' where b': "validateBlock byte_encoders lax_crypto zero_hash None (two_sets p q) demo_state (Some phantom_block) = Inr b'"
    using phantom_block_valid [OF p q] by blast
  have e: "phantom \<in> set (ed_Evidence (b_Evidence phantom_block))" by (simp add: phantom_block_def)
  from valid_evidence_panics [OF b' e, of mute_app nil_BlockID] b' e show ?thesis by (auto simp: phantom_def)
qed


section \<open>The time of a block\<close>

definition sig_weight :: "ValidatorSet \<Rightarrow> CommitSig \<Rightarrow> WeightedTime option" where
  "sig_weight vals s = (if Absent s then None
     else map_option (\<lambda>val. (cs_Timestamp s, val_VotingPower val)) (snd (GetByAddress (cs_ValidatorAddress s) vals)))"

definition wt :: "WeightedTime option \<Rightarrow> int" where
  "wt w = (case w of None \<Rightarrow> 0 | Some (_, p) \<Rightarrow> p)"

lemma wt_simps [simp]: "wt None = 0" "wt (Some (t, p)) = p"
  by (simp_all add: wt_def)

lemma weigh_eq:
  assumes "0 \<le> tot" "\<And>s. s \<in> set sigs \<Longrightarrow> 0 \<le> wt (sig_weight vals s)" "tot + (\<Sum>s\<leftarrow>sigs. wt (sig_weight vals s)) \<le> MaxInt64"
  shows "weigh vals sigs tot = (map (sig_weight vals) sigs, tot + (\<Sum>s\<leftarrow>sigs. wt (sig_weight vals s)))"
  using assms
proof (induction sigs arbitrary: tot)
  case (Cons s sigs)
  let ?w = "sig_weight vals s"
  have nn: "0 \<le> wt ?w" "0 \<le> (\<Sum>s\<leftarrow>sigs. wt (sig_weight vals s))" using Cons.prems(2) by (auto intro!: sum_list_nonneg)
  have "tot + wt ?w \<le> MaxInt64" using Cons.prems(3) nn by simp
  then have "(case ?w of None \<Rightarrow> tot | Some (_, p) \<Rightarrow> wrap64 (tot + p)) = tot + wt ?w"
    using Cons.prems(1) nn(1) by (cases ?w) (auto intro!: wrap64_idI simp: int_limits)
  moreover have "weigh vals sigs (tot + wt ?w) = (map (sig_weight vals) sigs, tot + wt ?w + (\<Sum>s\<leftarrow>sigs. wt (sig_weight vals s)))"
    using Cons.prems nn by (intro Cons.IH) auto
  ultimately show ?case by (simp add: sig_weight_def [symmetric] Let_def del: GetByAddress_find)
qed simp

lemma pick_lone:
  assumes "Some (t, p) \<in> set ws" "set ws \<subseteq> {None, Some (t, p)}" "m \<le> p"
  shows "pick_median m ws = t"
  using assms
proof (induction ws)
  case (Cons w ws)
  then show ?case by (cases w) auto
qed simp

text \<open>The address of a commit signature is not signed and not checked.\<close>

definition same_votes :: "Commit \<Rightarrow> Commit \<Rightarrow> bool" where
  "same_votes c d \<longleftrightarrow> c_Height c = c_Height d \<and> c_Round c = c_Round d \<and> c_BlockID c = c_BlockID d \<and>
     list_all2 (\<lambda>s s'. cs_BlockIDFlag s = cs_BlockIDFlag s' \<and> cs_Timestamp s = cs_Timestamp s' \<and> cs_Signature s = cs_Signature s') (c_Signatures c) (c_Signatures d)"

lemma same_votes_sign_bytes:
  assumes "same_votes c d"
  shows "Commit_VoteSignBytes cr c chainID i = Commit_VoteSignBytes cr d chainID i"
proof (cases "0 \<le> i \<and> i < int (length (c_Signatures c))")
  case True
  then have "nat i < length (c_Signatures c)" by (auto simp: nat_less_iff)
  then have "cs_BlockIDFlag (c_Signatures c ! nat i) = cs_BlockIDFlag (c_Signatures d ! nat i)" "cs_Timestamp (c_Signatures c ! nat i) = cs_Timestamp (c_Signatures d ! nat i)"
      "length (c_Signatures c) = length (c_Signatures d)"
    using assms by (auto simp: same_votes_def list_all2_conv_all_nth)
  then show ?thesis using True assms
    by (auto simp: Commit_VoteSignBytes_def GetVote_def Let_def CommitSig_BlockID_def same_votes_def and_then_def VoteSignBytes_def CanonicalizeVote_def split: sum.splits)
next
  case False
  have "length (c_Signatures c) = length (c_Signatures d)" using assms by (auto simp: same_votes_def dest: list_all2_lengthD)
  then show ?thesis using False by (auto simp: Commit_VoteSignBytes_def GetVote_def)
qed

lemma same_votes_verify_sig: "same_votes c d \<Longrightarrow> cs_Signature x = cs_Signature y \<Longrightarrow> verify_sig cr chainID c v k x = verify_sig cr chainID d v k y"
  by (simp add: verify_sig_def same_votes_sign_bytes cong: option.case_cong)

lemma same_votes_tally:
  assumes c: "same_votes c d"
    and "list_all2 (\<lambda>s s'. cs_BlockIDFlag s = cs_BlockIDFlag s' \<and> cs_Timestamp s = cs_Timestamp s' \<and> cs_Signature s = cs_Signature s') xs ys"
  shows "tally_all cr chainID c vals k n xs = tally_all cr chainID d vals k n ys"
  using assms(2)
proof (induction xs ys arbitrary: k n rule: list_all2_induct)
  case (Cons x xs y ys)
  then show ?case using same_votes_verify_sig [OF c, of x y] by (simp add: Absent_def ForBlock_def Let_def)
qed simp

lemma same_votes_verify: "same_votes c d \<Longrightarrow> VerifyCommit cr chainID b h c vals = VerifyCommit cr chainID b h d vals"
  using same_votes_tally [of c d "c_Signatures c" "c_Signatures d"]
  by (auto simp: VerifyCommit_def check_commit_def same_votes_def dest: list_all2_lengthD)

definition readdress :: "nat \<Rightarrow> bytes \<Rightarrow> Commit \<Rightarrow> Commit" where
  "readdress i a c = c\<lparr>c_Signatures := map (\<lambda>j. let s = c_Signatures c ! j in if j = i \<or> Absent s then s else s\<lparr>cs_ValidatorAddress := a\<rparr>) [0..<length (c_Signatures c)],
     c_hash := None\<rparr>"

lemma same_votes_readdress: "same_votes (readdress i a c) c"
  by (auto simp: same_votes_def readdress_def list_all2_conv_all_nth Let_def)

lemma validate_sigs_iff: "validate_sigs k sigs = Inr () \<longleftrightarrow> (\<forall>s \<in> set sigs. CommitSig_ValidateBasic s = Inr ())"
  by (induction sigs arbitrary: k) (auto split: sum.splits fault.splits)

lemma readdress_valid: "length a = AddressSize \<Longrightarrow> Commit_ValidateBasic c = Inr () \<Longrightarrow> Commit_ValidateBasic (readdress i a c) = Inr ()"
  by (auto simp: Commit_ValidateBasic_def readdress_def validate_sigs_iff Let_def CommitSig_ValidateBasic_def Absent_def split: if_splits)

text \<open>
  C8: A proposer chooses the time of its block. Take any commit that a validator set accepts, and one signature in it, say the
  proposer's own. Writing an unknown address into all other signatures gives a commit that is as valid and that the set
  accepts as well, since addresses are neither signed nor compared with the validators; but it makes the median time,
  against which the time of the next block is checked, equal to the timestamp of that one signature.
\<close>

theorem MedianTime_forgeable:
  assumes commit: "VerifyCommit cr chainID blockID h c vals = Inr ()" "Commit_ValidateBasic c = Inr ()" and vals: "vset_wf vals"
    and i: "i < length (c_Signatures c)" "\<not> Absent (c_Signatures c ! i)" "cs_ValidatorAddress (c_Signatures c ! i) = val_Address (vs_Validators vals ! i)"
    and a: "length a = AddressSize" "\<not> HasAddress a vals"
  shows "VerifyCommit cr chainID blockID h (readdress i a c) vals = Inr () \<and> Commit_ValidateBasic (readdress i a c) = Inr () \<and>
    MedianTime (readdress i a c) vals = cs_Timestamp (c_Signatures c ! i)"
proof -
  let ?s = "c_Signatures (readdress i a c)" and ?v = "vs_Validators vals ! i"
  have len: "length ?s = length (c_Signatures c)" by (simp add: readdress_def)
  have size: "length (vs_Validators vals) = length (c_Signatures c)"
    using commit(1) by (auto simp: VerifyCommit_def check_commit_def and_then_Inr_iff ValidatorSet_Size_def split: if_splits)
  then have vi: "?v \<in> set (vs_Validators vals)" using i(1) by simp
  have dist: "distinct (map val_Address (vs_Validators vals))" and pos: "0 < val_VotingPower ?v" "val_VotingPower ?v \<le> MaxTotalVotingPower"
    using vals vi power_le_sum [of "vs_Validators vals" ?v] by (auto simp: vset_wf_def validators_wf_def)
  have found: "find (\<lambda>v. val_Address v = val_Address ?v) (vs_Validators vals) = Some ?v"
    using dist vi i(1) size by (auto simp: find_Some_iff nth_eq_iff_index_eq distinct_conv_nth intro!: exI [of _ i])
  have lost: "find (\<lambda>v. val_Address v = a) (vs_Validators vals) = None"
    using a(2) by (auto simp: HasAddress_def find_None_iff list_ex_iff)
  have w: "sig_weight vals (?s ! j) = (if j = i then Some (cs_Timestamp (c_Signatures c ! i), val_VotingPower ?v) else None)" if "j < length ?s" for j
    using that i found lost by (auto simp: sig_weight_def readdress_def Let_def Absent_def)
  have tot: "(\<Sum>s\<leftarrow>?s. wt (sig_weight vals s)) = val_VotingPower ?v"
  proof -
    have "(\<Sum>s\<leftarrow>?s. wt (sig_weight vals s)) = (\<Sum>j<length ?s. wt (sig_weight vals (?s ! j)))" by (simp add: sum_list_sum_nth atLeast0LessThan)
    also have "\<dots> = (\<Sum>j<length ?s. if j = i then val_VotingPower ?v else 0)" using w by (intro sum.cong) auto
    finally show ?thesis using i(1) len by simp
  qed
  have nn: "0 \<le> wt (sig_weight vals s)" if "s \<in> set ?s" for s
    using that w pos by (auto simp: in_set_conv_nth)
  have weighed: "weigh vals ?s 0 = (map (sig_weight vals) ?s, val_VotingPower ?v)"
    using weigh_eq [of 0 ?s vals] nn tot pos by (simp add: MaxTotalVotingPower_eq int_limits)
  have "pick_median (val_VotingPower ?v sdiv 2) (sort_key time_key (map (sig_weight vals) ?s)) = cs_Timestamp (c_Signatures c ! i)"
  proof (rule pick_lone)
    show "Some (cs_Timestamp (c_Signatures c ! i), val_VotingPower ?v) \<in> set (sort_key time_key (map (sig_weight vals) ?s))"
      using w [of i] i(1) len by (auto simp: in_set_conv_nth image_iff intro!: bexI [of _ "?s ! i"])
    show "set (sort_key time_key (map (sig_weight vals) ?s)) \<subseteq> {None, Some (cs_Timestamp (c_Signatures c ! i), val_VotingPower ?v)}"
      using w by (auto simp: in_set_conv_nth split: if_splits)
    show "val_VotingPower ?v sdiv 2 \<le> val_VotingPower ?v" using pos by (simp add: sdiv_nonneg)
  qed
  then have "MedianTime (readdress i a c) vals = cs_Timestamp (c_Signatures c ! i)"
    using weighed by (simp add: MedianTime_def WeightedMedian_def)
  then show ?thesis using same_votes_verify [OF same_votes_readdress] commit readdress_valid [OF a(1)] by simp
qed


definition timed_sig :: "8 word \<Rightarrow> timestamp \<Rightarrow> CommitSig" where
  "timed_sig a t = \<lparr>cs_BlockIDFlag = BlockIDFlagCommit, cs_ValidatorAddress = replicate 20 a, cs_Timestamp = t, cs_Signature = [1]\<rparr>"

definition timed_commit :: Commit where
  "timed_commit = NewCommit 5 0 (demo_BlockID 1) [timed_sig 3 1000, timed_sig 2 9, NewCommitSigAbsent]"

lemma timed_commit_ok:
  "VerifyCommit lax_crypto [116] (demo_BlockID 1) 5 timed_commit committee = Inr ()" "Commit_ValidateBasic timed_commit = Inr ()"
  "MedianTime timed_commit committee = 1000"
proof -
  have "signed_by lax_crypto [116] timed_commit (vs_Validators committee ! i) i" if "i < 3" "\<not> Absent (c_Signatures timed_commit ! i)" for i
  proof -
    have i: "i = 0 \<or> i = 1" using that by (auto simp: timed_commit_def NewCommit_def NewCommitSigAbsent_def Absent_def numeral_3_eq_3 less_Suc_eq numeral_2_eq_2)
    have "\<exists>b. Commit_VoteSignBytes lax_crypto timed_commit [116] (wrap32 (int i)) = Inr b"
      using i BlockIDFromProto_valid [OF IsComplete_valid, of "demo_BlockID 1"] demo_BlockID_complete [of 1]
      by (auto simp: int64_range_iff Commit_VoteSignBytes_def GetVote_def timed_commit_def NewCommit_def timed_sig_def CommitSig_BlockID_def block_id_flags
          int32_range_iff int_limits VoteSignBytes_def CanonicalizeVote_def CanonicalizeBlockID_def or_panic_def MarshalDelimited_def
          CanonicalVote_marshal_def lax_crypto_def demo_crypto_def demo_time_def)
    then show ?thesis using i by (auto simp: signed_by_def lax_crypto_def committee_def demo_member_def)
  qed
  moreover have "for_block timed_commit 0 3 = {0, 1}"
    by (auto simp: for_block_def timed_commit_def NewCommit_def NewCommitSigAbsent_def timed_sig_def ForBlock_def block_id_flags numeral_3_eq_3 less_Suc_eq)
  ultimately show "VerifyCommit lax_crypto [116] (demo_BlockID 1) 5 timed_commit committee = Inr ()"
    using VerifyCommit_iff [OF committee_facts(1)] committee_facts(3,4)
    by (simp add: timed_commit_def NewCommit_def power_of_def) (simp add: committee_def demo_member_def)
  show "Commit_ValidateBasic timed_commit = Inr ()"
    using IsComplete_valid [of "demo_BlockID 1"] demo_BlockID_complete [of 1]
    by (simp add: Commit_ValidateBasic_def timed_commit_def NewCommit_def validate_sigs_iff CommitSig_ValidateBasic_def timed_sig_def NewCommitSigAbsent_def
        block_id_flags AddressSize_def MaxSignatureSize_def BlockID_IsZero_def demo_BlockID_def PartSetHeader_IsZero_def)
  show "MedianTime timed_commit committee = 1000"
    by (simp add: MedianTime_def timed_commit_def NewCommit_def timed_sig_def NewCommitSigAbsent_def Absent_def block_id_flags committee_def demo_member_def
        WeightedMedian_def time_key_def UnixNano_def wrap_int_def numeral_eq_Suc)
qed


theorem MedianTime_forgeable_witness:
  "VerifyCommit lax_crypto [116] (demo_BlockID 1) 5 timed_commit committee = Inr () \<and> MedianTime timed_commit committee = 1000 \<and>
   VerifyCommit lax_crypto [116] (demo_BlockID 1) 5 (readdress 1 (replicate 20 7) timed_commit) committee = Inr () \<and>
   MedianTime (readdress 1 (replicate 20 7) timed_commit) committee = 9"
proof -
  have c: "1 < length (c_Signatures timed_commit)" "\<not> Absent (c_Signatures timed_commit ! 1)"
      "cs_ValidatorAddress (c_Signatures timed_commit ! 1) = val_Address (vs_Validators committee ! 1)" "cs_Timestamp (c_Signatures timed_commit ! 1) = 9"
    by (simp_all add: timed_commit_def NewCommit_def timed_sig_def Absent_def block_id_flags committee_def demo_member_def)
  have a: "length (replicate 20 7 :: bytes) = AddressSize" "\<not> HasAddress (replicate 20 7) committee"
    by (simp_all add: AddressSize_def HasAddress_def committee_def demo_member_def)
  from MedianTime_forgeable [OF timed_commit_ok(1,2) committee_facts(1) c(1-3) a] c(4) timed_commit_ok show ?thesis by simp
qed

subsection \<open>The median of honest commits\<close>

text \<open>The place where the loop stops.\<close>

lemma nonzero_filter: "(\<Sum>w\<leftarrow>filter (\<lambda>w. w \<noteq> None) ws. wt w) = (\<Sum>w\<leftarrow>ws. wt w)"
proof (induction ws)
  case (Cons w ws)
  then show ?case by (cases w) simp_all
qed simp

lemma pick_median_split:
  assumes "0 \<le> m" "m \<le> (\<Sum>w\<leftarrow>ws. wt w)" "(\<Sum>w\<leftarrow>ws. wt w) \<le> MaxInt64" "\<And>t p. Some (t, p) \<in> set ws \<Longrightarrow> 0 < p" "\<exists>w \<in> set ws. w \<noteq> None"
  shows "\<exists>as t p bs. ws = as @ Some (t, p) # bs \<and> pick_median m ws = t \<and> m \<le> (\<Sum>w\<leftarrow>as. wt w) + p \<and> ((\<Sum>w\<leftarrow>as. wt w) < m \<or> (\<Sum>w\<leftarrow>as. wt w) = 0)"
  using assms
proof (induction ws arbitrary: m)
  case (Cons w ws)
  have nn: "0 \<le> (\<Sum>w\<leftarrow>ws. wt w)"
  proof (rule sum_list_nonneg)
    fix x assume "x \<in> set (map wt ws)"
    then obtain y where y: "y \<in> set ws" "x = wt y" by auto
    have "0 \<le> wt y"
    proof (cases y)
      case (Some e)
      then show ?thesis using Cons.prems(4) [of "fst e" "snd e"] y(1) by (cases e) auto
    qed simp
    then show "0 \<le> x" using y(2) by simp
  qed
  show ?case
  proof (cases w)
    case None
    have "\<exists>as t p bs. ws = as @ Some (t, p) # bs \<and> pick_median m ws = t \<and> m \<le> (\<Sum>w\<leftarrow>as. wt w) + p \<and> ((\<Sum>w\<leftarrow>as. wt w) < m \<or> (\<Sum>w\<leftarrow>as. wt w) = 0)"
      using Cons.prems None by (intro Cons.IH) auto
    then obtain as t p bs where "ws = as @ Some (t, p) # bs" "pick_median m ws = t" "m \<le> (\<Sum>w\<leftarrow>as. wt w) + p" "(\<Sum>w\<leftarrow>as. wt w) < m \<or> (\<Sum>w\<leftarrow>as. wt w) = 0" by blast
    then show ?thesis using None by (intro exI [of _ "None # as"] exI [of _ t] exI [of _ p] exI [of _ bs]) simp
  next
    case (Some e)
    obtain t p where e: "e = (t, p)" by (cases e)
    have p: "0 < p" using Cons.prems(4) [of t p] Some e by simp
    show ?thesis
    proof (cases "m \<le> p")
      case True
      then show ?thesis using Some e by (intro exI [of _ "[]"] exI [of _ t] exI [of _ p] exI [of _ ws]) simp
    next
      case False
      have wr: "wrap64 (m - p) = m - p" using False p Cons.prems(1-3) Some e by (intro wrap64_idI) (auto simp: int_limits)
      have "ws \<noteq> [] \<and> (\<exists>w \<in> set ws. w \<noteq> None)"
      proof (rule ccontr)
        assume "\<not> (ws \<noteq> [] \<and> (\<exists>w \<in> set ws. w \<noteq> None))"
        then have "filter (\<lambda>w. w \<noteq> None) ws = []" by (cases "ws = []") (simp_all only: filter.simps filter_empty_conv, blast)
        then have "(\<Sum>w\<leftarrow>ws. wt w) = 0" using nonzero_filter [of ws] by simp
        then show False using Cons.prems(2) False Some e by simp
      qed
      then have "\<exists>as t p' bs. ws = as @ Some (t, p') # bs \<and> pick_median (m - p) ws = t \<and> m - p \<le> (\<Sum>w\<leftarrow>as. wt w) + p' \<and>
          ((\<Sum>w\<leftarrow>as. wt w) < m - p \<or> (\<Sum>w\<leftarrow>as. wt w) = 0)"
        using Cons.prems False p Some e by (intro Cons.IH) auto
      then obtain as t' p' bs where "ws = as @ Some (t', p') # bs" "pick_median (m - p) ws = t'" "m - p \<le> (\<Sum>w\<leftarrow>as. wt w) + p'"
          "(\<Sum>w\<leftarrow>as. wt w) < m - p \<or> (\<Sum>w\<leftarrow>as. wt w) = 0" by blast
      then show ?thesis using False Some e wr by (intro exI [of _ "w # as"] exI [of _ t'] exI [of _ p'] exI [of _ bs]) auto
    qed
  qed
qed simp

lemma sum_filter_nth: "(\<Sum>x\<leftarrow>filter P xs. f x) = (\<Sum>i | i < length xs \<and> P (xs ! i). f (xs ! i) :: int)"
proof -
  have "(\<Sum>x\<leftarrow>filter P xs. f x) = (\<Sum>x\<leftarrow>xs. if P x then f x else 0)" by (induction xs) auto
  also have "\<dots> = (\<Sum>i<length xs. if P (xs ! i) then f (xs ! i) else 0)" by (simp add: sum_list_sum_nth atLeast0LessThan)
  also have "\<dots> = (\<Sum>i | i < length xs \<and> P (xs ! i). f (xs ! i))" by (simp add: sum.If_cases Int_def)
  finally show ?thesis .
qed


lemma find_own_address:
  assumes "distinct (map val_Address vs)" "i < length vs"
  shows "find (\<lambda>v. val_Address v = val_Address (vs ! i)) vs = Some (vs ! i)"
  using assms by (auto simp: find_Some_iff distinct_conv_nth intro!: exI [of _ i])

lemma UnixNano_mono: "int64_range (t - 62135596800000000000) \<Longrightarrow> int64_range (u - 62135596800000000000) \<Longrightarrow> UnixNano t \<le> UnixNano u \<longleftrightarrow> t \<le> u"
  by (simp add: UnixNano_def)

text \<open>The weight of the entries from a time on, and up to it, against the median.\<close>

lemma WeightedMedian_weights:
  assumes pos: "\<And>t p. Some (t, p) \<in> set ws \<Longrightarrow> 0 < p \<and> int64_range (t - 62135596800000000000)" and tot: "(\<Sum>w\<leftarrow>ws. wt w) = tot" "tot \<le> MaxInt64" "0 < tot"
  defines "t \<equiv> WeightedMedian ws tot"
  shows "tot < 2 * (\<Sum>w\<leftarrow>filter (\<lambda>w. \<exists>u p. w = Some (u, p) \<and> t \<le> u) ws. wt w)"
    "tot \<le> 2 * (\<Sum>w\<leftarrow>filter (\<lambda>w. \<exists>u p. w = Some (u, p) \<and> u \<le> t) ws. wt w) + 1"
proof -
  let ?ys = "sort_key time_key ws"
  have ms: "mset ?ys = mset ws" by simp
  have sums: "(\<Sum>w\<leftarrow>filter Q ?ys. wt w) = (\<Sum>w\<leftarrow>filter Q ws. wt w)" for Q
    by (metis ms mset_filter mset_map sum_mset_sum_list)
  have all: "(\<Sum>w\<leftarrow>?ys. wt w) = tot" using sums [of "\<lambda>_. True"] tot(1) by simp
  have nn: "0 \<le> wt w" if "w \<in> set ws" for w using pos that by (force simp: wt_def split: option.split prod.split)
  have half: "tot sdiv 2 = tot div 2" using tot(3) by (simp add: sdiv_nonneg)
  have "\<exists>as u p bs. ?ys = as @ Some (u, p) # bs \<and> pick_median (tot div 2) ?ys = u \<and> tot div 2 \<le> (\<Sum>w\<leftarrow>as. wt w) + p \<and>
      ((\<Sum>w\<leftarrow>as. wt w) < tot div 2 \<or> (\<Sum>w\<leftarrow>as. wt w) = 0)"
  proof (rule pick_median_split)
    show "0 \<le> tot div 2" "tot div 2 \<le> (\<Sum>w\<leftarrow>?ys. wt w)" "(\<Sum>w\<leftarrow>?ys. wt w) \<le> MaxInt64" using tot(2,3) all by auto
    show "\<And>t p. Some (t, p) \<in> set ?ys \<Longrightarrow> 0 < p" using pos by simp
    show "\<exists>w \<in> set ?ys. w \<noteq> None"
    proof (rule ccontr)
      assume "\<not> (\<exists>w \<in> set ?ys. w \<noteq> None)"
      then have "filter (\<lambda>w. w \<noteq> None) ?ys = []" by (simp only: filter_empty_conv) blast
      then have "(\<Sum>w\<leftarrow>?ys. wt w) = 0" using nonzero_filter [of ?ys] by simp
      then show False using all tot(3) by simp
    qed
  qed
  then obtain as p bs where ys: "?ys = as @ Some (t, p) # bs" and m: "tot div 2 \<le> (\<Sum>w\<leftarrow>as. wt w) + p"
      "(\<Sum>w\<leftarrow>as. wt w) < tot div 2 \<or> (\<Sum>w\<leftarrow>as. wt w) = 0"
    using half by (auto simp: t_def WeightedMedian_def)
  have sorted: "sorted (map time_key (as @ Some (t, p) # bs))" by (metis ys sorted_sort_key)
  have mem: "set as \<union> {Some (t, p)} \<union> set bs = set ws" using arg_cong [OF ys, of set] by auto
  have rt: "int64_range (t - 62135596800000000000)" using pos mem by blast
  have before: "w = None \<or> (\<exists>u q. w = Some (u, q) \<and> u \<le> t)" if "w \<in> set as" for w
  proof (cases w)
    case (Some e)
    then have "time_key w \<le> time_key (Some (t, p))" using sorted that by (auto simp: sorted_append)
    moreover have "int64_range (fst e - 62135596800000000000)" using pos [of "fst e" "snd e"] that Some mem by auto
    ultimately show ?thesis using Some rt UnixNano_mono [of "fst e" t] by (cases e) (auto simp: time_key_def)
  qed simp
  have after: "w = None \<or> (\<exists>u q. w = Some (u, q) \<and> t \<le> u)" if "w \<in> set bs" for w
  proof (cases w)
    case (Some e)
    then have "time_key (Some (t, p)) \<le> time_key w" using sorted that by (auto simp: sorted_append)
    moreover have "int64_range (fst e - 62135596800000000000)" using pos [of "fst e" "snd e"] that Some mem by auto
    ultimately show ?thesis using Some rt UnixNano_mono [of t "fst e"] by (cases e) (auto simp: time_key_def)
  qed simp
  have keep: "(\<Sum>w\<leftarrow>filter Q ws'. wt w) = (\<Sum>w\<leftarrow>ws'. wt w)" if "\<And>w. w \<in> set ws' \<Longrightarrow> w = None \<or> Q w" for Q ws'
    using that
  proof (induction ws')
    case (Cons w ws')
    have "w = None \<or> Q w" "(\<Sum>w\<leftarrow>filter Q ws'. wt w) = (\<Sum>w\<leftarrow>ws'. wt w)" using Cons by simp_all
    then show ?case by (cases "Q w") auto
  qed simp
  have ge0: "0 \<le> (\<Sum>w\<leftarrow>filter Q ws'. wt w)" if "set ws' \<subseteq> set ws" for Q ws'
    using nn subsetD [OF that] by (auto intro!: sum_list_nonneg)
  let ?up = "\<lambda>w. \<exists>u p. w = Some (u, p) \<and> t \<le> u" and ?dn = "\<lambda>w. \<exists>u p. w = Some (u, p) \<and> u \<le> t"
  have kb: "(\<Sum>w\<leftarrow>filter ?up bs. wt w) = (\<Sum>w\<leftarrow>bs. wt w)" using after by (intro keep) blast
  have ka: "(\<Sum>w\<leftarrow>filter ?dn as. wt w) = (\<Sum>w\<leftarrow>as. wt w)" using before by (intro keep) blast
  have "0 \<le> (\<Sum>w\<leftarrow>filter ?up as. wt w)" "0 \<le> (\<Sum>w\<leftarrow>filter ?dn bs. wt w)" using mem by (intro ge0; blast)+
  then have "(\<Sum>w\<leftarrow>filter ?up ?ys. wt w) \<ge> p + (\<Sum>w\<leftarrow>bs. wt w)" "(\<Sum>w\<leftarrow>filter ?dn ?ys. wt w) \<ge> (\<Sum>w\<leftarrow>as. wt w) + p"
    unfolding ys using ka kb by simp_all
  moreover have "(\<Sum>w\<leftarrow>as. wt w) + p + (\<Sum>w\<leftarrow>bs. wt w) = tot" using all unfolding ys by simp
  ultimately show "tot < 2 * (\<Sum>w\<leftarrow>filter ?up ws. wt w)" "tot \<le> 2 * (\<Sum>w\<leftarrow>filter ?dn ws. wt w) + 1"
    using m tot(3) sums [of ?up] sums [of ?dn] by linarith+
qed

text \<open>
  C9: The median time of a commit with one signature slot per validator, in which every signature that is present carries the address of
  the validator at its position (property C8 shows that this is needed) and a timestamp whose distance in nanoseconds from the Unix epoch fits in
  64 bits. When the signers outside a set of good
  ones hold less than half of the power that signed, some good signer has a timestamp not before the median. When they
  hold less than half by more than one unit, some good signer has one not after it. So less than a third of faulty power cannot move the time
  of a block forward, and can move it back only at the last unit of power.
\<close>

theorem MedianTime_between:
  assumes vals: "vset_wf vals" and len: "length (c_Signatures c) = ValidatorSet_Size vals"
    and addr: "\<forall>i < ValidatorSet_Size vals. \<not> Absent (c_Signatures c ! i) \<longrightarrow>
      cs_ValidatorAddress (c_Signatures c ! i) = val_Address (vs_Validators vals ! i) \<and> int64_range (cs_Timestamp (c_Signatures c ! i) - 62135596800000000000)"
    and good: "good \<subseteq> signers" and signers: "signers = {i. i < ValidatorSet_Size vals \<and> \<not> Absent (c_Signatures c ! i)}"
    and half: "2 * power_in vals (signers - good) < power_in vals signers"
  shows "(\<exists>i \<in> good. MedianTime c vals \<le> cs_Timestamp (c_Signatures c ! i)) \<and>
    (2 * power_in vals (signers - good) + 1 < power_in vals signers \<longrightarrow> (\<exists>i \<in> good. cs_Timestamp (c_Signatures c ! i) \<le> MedianTime c vals))"
proof -
  let ?n = "ValidatorSet_Size vals" and ?ws = "map (sig_weight vals) (c_Signatures c)"
  have vs: "length (vs_Validators vals) = ?n" by (simp add: ValidatorSet_Size_def)
  have dist: "distinct (map val_Address (vs_Validators vals))" using vals by (simp add: vset_wf_def validators_wf_def)
  have w: "?ws ! i = (if i \<in> signers then Some (cs_Timestamp (c_Signatures c ! i), power_of vals i) else None)" if "i < ?n" for i
    using that len addr find_own_address [OF dist, of i] vs by (auto simp: sig_weight_def signers power_of_def)
  have sub: "signers \<subseteq> {..<?n}" by (auto simp: signers)
  have posp: "0 < power_of vals i" if "i < ?n" for i using vals that vs by (auto simp: vset_wf_def validators_wf_def power_of_def)
  have sumQ: "(\<Sum>x\<leftarrow>filter Q ?ws. wt x) = power_in vals {i \<in> signers. Q (Some (cs_Timestamp (c_Signatures c ! i), power_of vals i))}" if "\<not> Q None" for Q
  proof -
    have "(\<Sum>x\<leftarrow>filter Q ?ws. wt x) = (\<Sum>i | i < length ?ws \<and> Q (?ws ! i). wt (?ws ! i))" by (rule sum_filter_nth)
    also have "{i. i < length ?ws \<and> Q (?ws ! i)} = {i \<in> signers. Q (Some (cs_Timestamp (c_Signatures c ! i), power_of vals i))}"
      using w len sub that by (auto split: if_splits)
    also have "(\<Sum>i\<in>\<dots>. wt (?ws ! i)) = power_in vals {i \<in> signers. Q (Some (cs_Timestamp (c_Signatures c ! i), power_of vals i))}"
      using w sub by (intro sum.cong) auto
    finally show ?thesis .
  qed
  define W where "W = power_in vals signers"
  have W: "0 \<le> W" "W \<le> all_power vals" using power_in_le [OF vals sub] by (simp_all add: W_def)
  then have WM: "W \<le> MaxInt64" using all_power_bounds [OF vals] by (auto simp: MaxTotalVotingPower_eq int_limits)
  have bad: "0 \<le> power_in vals (signers - good)" using power_in_le [OF vals, of "signers - good"] sub by auto
  have tot: "(\<Sum>x\<leftarrow>?ws. wt x) = W"
  proof -
    have "(\<Sum>x\<leftarrow>?ws. wt x) = (\<Sum>x\<leftarrow>filter (\<lambda>x. x \<noteq> None) ?ws. wt x)"
      using nonzero_filter [of ?ws] by simp
    then show ?thesis using sumQ [of "\<lambda>x. x \<noteq> None"] by (simp add: W_def)
  qed
  have nn: "0 \<le> wt (sig_weight vals s)" if s: "s \<in> set (c_Signatures c)" for s
  proof -
    obtain i where "i < ?n" "s = c_Signatures c ! i" using s len by (auto simp: in_set_conv_nth)
    then show ?thesis using w [of i] posp [of i] len by (auto simp: less_imp_le split: if_splits)
  qed
  have med: "MedianTime c vals = WeightedMedian ?ws W"
    using weigh_eq [of 0 "c_Signatures c" vals] nn tot WM by (simp add: MedianTime_def comp_def)
  have entries: "0 < p \<and> int64_range (t - 62135596800000000000)" if e: "Some (t, p) \<in> set ?ws" for t p
  proof -
    obtain i where "i < ?n" "?ws ! i = Some (t, p)" using e len unfolding in_set_conv_nth by auto
    then show ?thesis using w [of i] posp [of i] addr by (auto simp: signers split: if_splits)
  qed
  have "0 < W" using half bad by (simp add: W_def)
  note m = WeightedMedian_weights [OF entries tot WM this, folded med]
  let ?t = "MedianTime c vals"
  have later: "W < 2 * power_in vals {i \<in> signers. ?t \<le> cs_Timestamp (c_Signatures c ! i)}"
    using m(1) sumQ [of "\<lambda>w. \<exists>u p. w = Some (u, p) \<and> ?t \<le> u"] by simp
  have earlier: "W \<le> 2 * power_in vals {i \<in> signers. cs_Timestamp (c_Signatures c ! i) \<le> ?t} + 1"
    using m(2) sumQ [of "\<lambda>w. \<exists>u p. w = Some (u, p) \<and> u \<le> ?t"] by simp
  have "power_in vals {i \<in> signers. P i} \<le> power_in vals (signers - good)" if "\<not> (\<exists>i \<in> good. P i)" for P
    using that sub posp by (intro sum_mono2) (auto intro: finite_subset [OF sub] less_imp_le)
  note few = this
  show ?thesis
  proof (intro conjI impI)
    show "\<exists>i \<in> good. ?t \<le> cs_Timestamp (c_Signatures c ! i)"
      using later half few [of "\<lambda>i. ?t \<le> cs_Timestamp (c_Signatures c ! i)"] by (fastforce simp: W_def)
    show "\<exists>i \<in> good. cs_Timestamp (c_Signatures c ! i) \<le> ?t" if "2 * power_in vals (signers - good) + 1 < power_in vals signers"
      using earlier that few [of "\<lambda>i. cs_Timestamp (c_Signatures c ! i) \<le> ?t"] by (fastforce simp: W_def)
  qed
qed


definition dated_commit :: Commit where
  "dated_commit = NewCommit 5 0 (demo_BlockID 1) [timed_sig 3 (62135596800000000000 + 1000), timed_sig 2 (62135596800000000000 + 9), NewCommitSigAbsent]"

theorem MedianTime_between_witness:
  "2 * power_in committee ({0, 1} - {0}) + 1 < power_in committee {0, 1} \<and> MedianTime dated_commit committee = 62135596800000000000 + 1000"
proof -
  have p: "2 * power_in committee ({0, 1} - {0}) < power_in committee {0, 1}" "2 * power_in committee ({0, 1} - {0}) + 1 < power_in committee {0, 1}"
    by (simp_all add: power_of_def committee_def demo_member_def)
  have len: "length (c_Signatures dated_commit) = ValidatorSet_Size committee" by (simp add: dated_commit_def NewCommit_def committee_facts)
  have addr: "\<forall>i < ValidatorSet_Size committee. \<not> Absent (c_Signatures dated_commit ! i) \<longrightarrow>
      cs_ValidatorAddress (c_Signatures dated_commit ! i) = val_Address (vs_Validators committee ! i) \<and>
      int64_range (cs_Timestamp (c_Signatures dated_commit ! i) - 62135596800000000000)"
    unfolding committee_facts(3)
    by (auto simp: dated_commit_def NewCommit_def timed_sig_def NewCommitSigAbsent_def Absent_def committee_def demo_member_def
        numeral_3_eq_3 less_Suc_eq numeral_2_eq_2 int64_range_iff int_limits)
  have signers: "{0, 1} = {i. i < ValidatorSet_Size committee \<and> \<not> Absent (c_Signatures dated_commit ! i)}"
    by (auto simp: committee_facts dated_commit_def NewCommit_def timed_sig_def NewCommitSigAbsent_def Absent_def block_id_flags
        numeral_3_eq_3 less_Suc_eq numeral_2_eq_2)
  from MedianTime_between [OF committee_facts(1) len addr _ signers p(1)] p(2)
  show ?thesis by (auto simp: dated_commit_def NewCommit_def timed_sig_def)
qed

text \<open>At the last unit the bound is lost: of four validators with power 1 each, three sign, and the one that signs the earliest time decides.\<close>

lemma MedianTime_earliest:
  "MedianTime (NewCommit 5 0 (demo_BlockID 1) [timed_sig 1 (62135596800000000000 + 1000), timed_sig 2 (62135596800000000000 + 1000), timed_sig 3 62135596800000000000, NewCommitSigAbsent])
     \<lparr>vs_Validators = map (\<lambda>a. demo_member a 1) [1, 2, 3, 4], vs_Proposer = None, vs_totalVotingPower = 4\<rparr> = 62135596800000000000"
proof -
  have "wrap64 1 = 1" "wrap64 2 = 2" "wrap64 3 = 3" "wrap64 1000 = 1000" "wrap64 0 = 0" by (rule wrap64_idI; simp add: int_limits)+
  then show ?thesis
    by (simp add: MedianTime_def NewCommit_def timed_sig_def NewCommitSigAbsent_def Absent_def block_id_flags demo_member_def
        WeightedMedian_def time_key_def UnixNano_def signed_divide_int_def Let_def)
qed

end
