(* ===== verification/Block_Store.thy ===== *)
theory Block_Store
  imports Execution "HOL-Library.Code_Target_Nat"
begin

text \<open>
  \<^verbatim>\<open>store/store.go\<close> and \<^verbatim>\<open>types/block_meta.go\<close>: the store of blocks by height, each as its meta data, its parts, the commit
  for the block before it and the commit that the node itself has seen. The database is a record of maps with one map for
  each kind of key; it holds messages and does not fail. The generated encoder and decoder of a block message are
  the arguments \<open>marshal\<close> and \<open>unmarshal\<close>. Shown: a saved block is loaded again, by height and by hash, without effect on other heights, and
  pruning removes the blocks below its height and nothing else.
\<close>

section \<open>Meta data of blocks\<close>

record BlockMeta =
  bm_BlockID :: BlockID
  bm_BlockSize :: int
  bm_Header :: Header
  bm_NumTxs :: int

datatype store_error =
    ErrStoreBlock block_error
  | ErrStoreMeta basic_error
  | ErrStoreCommit basic_error
  | ErrStorePart part_error
  | ErrHashesDiffer
  | ErrPruneBlocks string

definition Block_Size :: "(tmproto_Block \<Rightarrow> bytes option) \<Rightarrow> Block \<Rightarrow> int" where
  "Block_Size marshal b =
     (case Block_ToProto (Some b) of
        Inl _ \<Rightarrow> 0
      | Inr pbb \<Rightarrow> (case marshal pbb of None \<Rightarrow> 0 | Some bz \<Rightarrow> int (length bz)))"

definition NewBlockMeta :: "(tmproto_Block \<Rightarrow> bytes option) \<Rightarrow> encoders \<Rightarrow> crypto \<Rightarrow> (bytes \<Rightarrow> bytes) \<Rightarrow> Block \<Rightarrow> PartSet option \<Rightarrow> (store_error, BlockMeta) result" where
  "NewBlockMeta marshal enc cr H block blockParts =
     and_then (lift_fault ErrStoreBlock (Block_Hash enc cr H (Some block))) (\<lambda>(hash, blk).
       let block = (case blk of None \<Rightarrow> block | Some b \<Rightarrow> b) in
       Inr \<lparr>bm_BlockID = \<lparr>bid_Hash = hash, bid_PartSetHeader = PartSet_Header blockParts\<rparr>, bm_BlockSize = Block_Size marshal block,
            bm_Header = b_Header block, bm_NumTxs = int (length (d_Txs (b_Data block)))\<rparr>)"

definition BlockMeta_ValidateBasic :: "crypto \<Rightarrow> (bytes \<Rightarrow> bytes) \<Rightarrow> BlockMeta \<Rightarrow> (store_error, unit) result" where
  "BlockMeta_ValidateBasic cr H bm =
     and_then (lift_fault ErrStoreMeta (BlockID_ValidateBasic (bm_BlockID bm))) (\<lambda>_.
     if bid_Hash (bm_BlockID bm) \<noteq> Header_Hash cr H (bm_Header bm) then Inl (Err ErrHashesDiffer) else Inr ())"

text \<open>The message for the meta data has the same fields, so it is the same record.\<close>

definition BlockMetaFromProto :: "crypto \<Rightarrow> (bytes \<Rightarrow> bytes) \<Rightarrow> BlockMeta \<Rightarrow> (store_error, BlockMeta) result" where
  "BlockMetaFromProto cr H pb =
     and_then (lift_fault ErrStoreMeta (BlockIDFromProto (Some (bm_BlockID pb)))) (\<lambda>bi.
     and_then (lift_fault ErrStoreBlock (HeaderFromProto (Some (bm_Header pb)))) (\<lambda>h.
     let bm = \<lparr>bm_BlockID = bi, bm_BlockSize = bm_BlockSize pb, bm_Header = h, bm_NumTxs = bm_NumTxs pb\<rparr> in
     and_then (BlockMeta_ValidateBasic cr H bm) (\<lambda>_. Inr bm)))"

definition PartFromProto :: "Part \<Rightarrow> (part_error, Part) result" where
  "PartFromProto pb =
     and_then (lift_fault ErrPartWrongProof (Proof_ValidateBasic (pt_Proof pb))) (\<lambda>_.
     and_then (Part_ValidateBasic pb) (\<lambda>_. Inr pb))"

section \<open>The store\<close>

record block_db =
  bdb_meta :: "int64 \<rightharpoonup> BlockMeta"
  bdb_parts :: "int64 \<times> int \<rightharpoonup> Part"
  bdb_commit :: "int64 \<rightharpoonup> tmproto_Commit"
  bdb_seen :: "int64 \<rightharpoonup> tmproto_Commit"
  bdb_hash :: "bytes \<rightharpoonup> int64"
  bdb_state :: "(int64 \<times> int64) option"

record BlockStore =
  bs_db :: block_db
  bs_base :: int64
  bs_height :: int64

definition empty_block_db :: block_db where
  "empty_block_db = \<lparr>bdb_meta = Map.empty, bdb_parts = Map.empty, bdb_commit = Map.empty, bdb_seen = Map.empty, bdb_hash = Map.empty, bdb_state = None\<rparr>"

definition LoadBlockStoreState :: "block_db \<Rightarrow> int64 \<times> int64" where
  "LoadBlockStoreState db =
     (case bdb_state db of
        None \<Rightarrow> (0, 0)
      | Some (base, height) \<Rightarrow> (if height > 0 \<and> base = 0 then 1 else base, height))"

definition SaveBlockStoreState :: "int64 \<times> int64 \<Rightarrow> block_db \<Rightarrow> block_db" where
  "SaveBlockStoreState bsj db = db\<lparr>bdb_state := Some bsj\<rparr>"

definition NewBlockStore :: "block_db \<Rightarrow> BlockStore" where
  "NewBlockStore db = (case LoadBlockStoreState db of (base, height) \<Rightarrow> \<lparr>bs_db = db, bs_base = base, bs_height = height\<rparr>)"

definition BlockStore_Size :: "BlockStore \<Rightarrow> int64" where
  "BlockStore_Size bs = (if bs_height bs = 0 then 0 else wrap64 (wrap64 (bs_height bs - bs_base bs) + 1))"

definition dies :: "string \<Rightarrow> ('d, 'a) result \<Rightarrow> ('e, 'a) result" where
  "dies s r = (case r of Inl (Panic p) \<Rightarrow> Inl (Panic p) | Inl (Err _) \<Rightarrow> Inl (Panic s) | Inr x \<Rightarrow> Inr x)"

lemma dies_Inr_iff [simp]: "dies s r = Inr x \<longleftrightarrow> r = Inr x"
  by (auto simp: dies_def split: sum.splits fault.splits)

lemma dies_Inr [simp]: "dies s (Inr x) = Inr x"
  by simp

definition LoadBlockPart :: "BlockStore \<Rightarrow> int64 \<Rightarrow> int \<Rightarrow> (store_error, Part option) result" where
  "LoadBlockPart bs height index =
     (case bdb_parts (bs_db bs) (height, index) of
        None \<Rightarrow> Inr None
      | Some pbpart \<Rightarrow> and_then (dies ''Error reading block part'' (PartFromProto pbpart)) (\<lambda>part. Inr (Some part)))"

definition LoadBlockMeta :: "crypto \<Rightarrow> (bytes \<Rightarrow> bytes) \<Rightarrow> BlockStore \<Rightarrow> int64 \<Rightarrow> (store_error, BlockMeta option) result" where
  "LoadBlockMeta cr H bs height =
     (case bdb_meta (bs_db bs) height of
        None \<Rightarrow> Inr None
      | Some pbbm \<Rightarrow> and_then (dies ''error from proto blockMeta'' (BlockMetaFromProto cr H pbbm)) (\<lambda>bm. Inr (Some bm)))"

fun load_parts :: "BlockStore \<Rightarrow> int64 \<Rightarrow> int list \<Rightarrow> bytes \<Rightarrow> (store_error, bytes) result" where
  "load_parts bs height [] buf = Inr buf"
| "load_parts bs height (i # is) buf =
     and_then (LoadBlockPart bs height i) (\<lambda>part.
     case part of None \<Rightarrow> Inl (Panic ''nil pointer dereference'') | Some p \<Rightarrow> load_parts bs height is (buf @ pt_Bytes p))"

definition LoadBlock :: "(bytes \<Rightarrow> tmproto_Block option) \<Rightarrow> encoders \<Rightarrow> crypto \<Rightarrow> (bytes \<Rightarrow> bytes) \<Rightarrow> BlockStore \<Rightarrow> int64 \<Rightarrow> (store_error, Block option) result" where
  "LoadBlock unmarshal enc cr H bs height =
     and_then (LoadBlockMeta cr H bs height) (\<lambda>blockMeta.
     case blockMeta of
       None \<Rightarrow> Inr None
     | Some bm \<Rightarrow>
         and_then (load_parts bs height [0..int (psh_Total (bid_PartSetHeader (bm_BlockID bm))) - 1] []) (\<lambda>buf.
         case unmarshal buf of
           None \<Rightarrow> Inl (Panic ''Error reading block'')
         | Some pbb \<Rightarrow> and_then (dies ''error from proto block'' (BlockFromProto enc cr H (Some pbb))) (\<lambda>block. Inr (Some block))))"

definition LoadBlockByHash :: "(bytes \<Rightarrow> tmproto_Block option) \<Rightarrow> encoders \<Rightarrow> crypto \<Rightarrow> (bytes \<Rightarrow> bytes) \<Rightarrow> BlockStore \<Rightarrow> bytes \<Rightarrow> (store_error, Block option) result" where
  "LoadBlockByHash unmarshal enc cr H bs hash =
     (case bdb_hash (bs_db bs) hash of None \<Rightarrow> Inr None | Some height \<Rightarrow> LoadBlock unmarshal enc cr H bs height)"

definition load_commit :: "tmproto_Commit option \<Rightarrow> (store_error, Commit option) result" where
  "load_commit pbc =
     (case pbc of
        None \<Rightarrow> Inr None
      | Some c \<Rightarrow> and_then (dies ''error from proto commit'' (CommitFromProto (Some c))) (\<lambda>commit. Inr (Some commit)))"

definition LoadBlockCommit :: "BlockStore \<Rightarrow> int64 \<Rightarrow> (store_error, Commit option) result" where
  "LoadBlockCommit bs height = load_commit (bdb_commit (bs_db bs) height)"

definition LoadSeenCommit :: "BlockStore \<Rightarrow> int64 \<Rightarrow> (store_error, Commit option) result" where
  "LoadSeenCommit bs height = load_commit (bdb_seen (bs_db bs) height)"

definition BlockStore_saveState :: "BlockStore \<Rightarrow> BlockStore" where
  "BlockStore_saveState bs = bs\<lparr>bs_db := SaveBlockStoreState (bs_base bs, bs_height bs) (bs_db bs)\<rparr>"

definition saveBlockPart :: "int64 \<Rightarrow> int \<Rightarrow> Part option \<Rightarrow> block_db \<Rightarrow> (store_error, block_db) result" where
  "saveBlockPart height index part db =
     (case part of
        None \<Rightarrow> Inl (Panic ''unable to make part into proto'')
      | Some p \<Rightarrow> Inr (db\<lparr>bdb_parts := (bdb_parts db)((height, index) \<mapsto> p)\<rparr>))"

fun save_parts :: "int64 \<Rightarrow> PartSet \<Rightarrow> int list \<Rightarrow> block_db \<Rightarrow> (store_error, block_db) result" where
  "save_parts height blockParts [] db = Inr db"
| "save_parts height blockParts (i # is) db =
     and_then (lift_fault ErrStorePart (GetPart i blockParts)) (\<lambda>part.
     and_then (saveBlockPart height i part db) (save_parts height blockParts is))"

definition SaveBlock :: "(tmproto_Block \<Rightarrow> bytes option) \<Rightarrow> encoders \<Rightarrow> crypto \<Rightarrow> (bytes \<Rightarrow> bytes) \<Rightarrow> Block option \<Rightarrow> PartSet option \<Rightarrow> Commit option \<Rightarrow>
    BlockStore \<Rightarrow> (store_error, BlockStore) result" where
  "SaveBlock marshal enc cr H block blockParts seenCommit bs =
     (case block of
        None \<Rightarrow> Inl (Panic ''BlockStore can only save a non-nil block'')
      | Some b \<Rightarrow>
          and_then (lift_fault ErrStoreBlock (Block_Hash enc cr H (Some b))) (\<lambda>(hash, blk).
          let b = (case blk of None \<Rightarrow> b | Some b \<Rightarrow> b); height = h_Height (b_Header b) in
          if bs_base bs > 0 \<and> height \<noteq> wrap64 (bs_height bs + 1) then Inl (Panic ''BlockStore can only save contiguous blocks'')
          else (case blockParts of
            None \<Rightarrow> Inl (Panic ''nil pointer dereference'')
          | Some ps \<Rightarrow>
              if \<not> PartSet_IsComplete ps then Inl (Panic ''BlockStore can only save complete block part sets'')
              else and_then (NewBlockMeta marshal enc cr H b blockParts) (\<lambda>blockMeta.
                let db = bs_db bs; db = db\<lparr>bdb_meta := (bdb_meta db)(height \<mapsto> blockMeta), bdb_hash := (bdb_hash db)(hash \<mapsto> height)\<rparr> in
                and_then (save_parts height ps [0..int (ps_total ps) - 1] db) (\<lambda>db.
                case (b_LastCommit b, seenCommit) of
                  (Some lc, Some sc) \<Rightarrow>
                    Inr (BlockStore_saveState (bs\<lparr>bs_db := db\<lparr>bdb_commit := (bdb_commit db)(wrap64 (height - 1) \<mapsto> Commit_ToProto lc),
                        bdb_seen := (bdb_seen db)(height \<mapsto> Commit_ToProto sc)\<rparr>,
                      bs_height := height, bs_base := (if bs_base bs = 0 then height else bs_base bs)\<rparr>))
                | _ \<Rightarrow> Inl (Panic ''unable to marshal''))))))"

definition SaveSeenCommit :: "int64 \<Rightarrow> Commit \<Rightarrow> BlockStore \<Rightarrow> BlockStore" where
  "SaveSeenCommit height seenCommit bs =
     bs\<lparr>bs_db := (bs_db bs)\<lparr>bdb_seen := (bdb_seen (bs_db bs))(height \<mapsto> Commit_ToProto seenCommit)\<rparr>\<rparr>"

subsection \<open>Pruning\<close>

text \<open>A batch is the list of its deletions; it is written when a thousand blocks are in it and at the end.\<close>

datatype block_delete = DelMeta int64 | DelHash bytes | DelCommit int64 | DelSeen int64 | DelPart int64 int

fun delete_from :: "block_db \<Rightarrow> block_delete \<Rightarrow> block_db" where
  "delete_from db (DelMeta h) = db\<lparr>bdb_meta := (bdb_meta db)(h := None)\<rparr>"
| "delete_from db (DelHash k) = db\<lparr>bdb_hash := (bdb_hash db)(k := None)\<rparr>"
| "delete_from db (DelCommit h) = db\<lparr>bdb_commit := (bdb_commit db)(h := None)\<rparr>"
| "delete_from db (DelSeen h) = db\<lparr>bdb_seen := (bdb_seen db)(h := None)\<rparr>"
| "delete_from db (DelPart h i) = db\<lparr>bdb_parts := (bdb_parts db)((h, i) := None)\<rparr>"

definition block_flush :: "block_delete list \<Rightarrow> int64 \<Rightarrow> BlockStore \<Rightarrow> BlockStore" where
  "block_flush batch base bs = (let bs = BlockStore_saveState (bs\<lparr>bs_base := base\<rparr>) in bs\<lparr>bs_db := foldl delete_from (bs_db bs) batch\<rparr>)"

definition block_deletes :: "int64 \<Rightarrow> BlockMeta \<Rightarrow> block_delete list" where
  "block_deletes h bm = [DelMeta h, DelHash (bid_Hash (bm_BlockID bm)), DelCommit h, DelSeen h] @
     map (DelPart h) [0..int (psh_Total (bid_PartSetHeader (bm_BlockID bm))) - 1]"

fun prune_blocks :: "crypto \<Rightarrow> (bytes \<Rightarrow> bytes) \<Rightarrow> int64 list \<Rightarrow> nat \<Rightarrow> block_delete list \<Rightarrow> BlockStore \<Rightarrow> (store_error, nat \<times> block_delete list \<times> BlockStore) result" where
  "prune_blocks cr H [] pruned batch bs = Inr (pruned, batch, bs)"
| "prune_blocks cr H (h # hs) pruned batch bs =
     and_then (LoadBlockMeta cr H bs h) (\<lambda>meta.
     case meta of
       None \<Rightarrow> prune_blocks cr H hs pruned batch bs
     | Some bm \<Rightarrow>
         let batch = batch @ block_deletes h bm; pruned = Suc pruned in
         if pruned mod 1000 = 0 then prune_blocks cr H hs pruned [] (block_flush batch h bs)
         else prune_blocks cr H hs pruned batch bs)"

definition PruneBlocks :: "crypto \<Rightarrow> (bytes \<Rightarrow> bytes) \<Rightarrow> int64 \<Rightarrow> BlockStore \<Rightarrow> (store_error, nat \<times> BlockStore) result" where
  "PruneBlocks cr H height bs =
     (if height \<le> 0 then Inl (Err (ErrPruneBlocks ''height must be greater than 0''))
      else if height > bs_height bs then Inl (Err (ErrPruneBlocks ''cannot prune beyond the latest height''))
      else if height < bs_base bs then Inl (Err (ErrPruneBlocks ''it is lower than base height''))
      else and_then (prune_blocks cr H [bs_base bs..height - 1] 0 [] bs) (\<lambda>(pruned, batch, bs).
        Inr (pruned, block_flush batch height bs)))"

section \<open>Saving and loading\<close>

lemma save_parts_fields:
  assumes "save_parts h ps is db = Inr db'"
  shows "bdb_meta db' = bdb_meta db" "bdb_commit db' = bdb_commit db" "bdb_seen db' = bdb_seen db" "bdb_hash db' = bdb_hash db" "bdb_state db' = bdb_state db"
    "\<And>k i. bdb_parts db' (k, i) = (if k = h \<and> i \<in> set is then ps_parts ps ! nat i else bdb_parts db (k, i))"
proof -
  have "bdb_meta db' = bdb_meta db \<and> bdb_commit db' = bdb_commit db \<and> bdb_seen db' = bdb_seen db \<and> bdb_hash db' = bdb_hash db \<and> bdb_state db' = bdb_state db \<and>
      (\<forall>k i. bdb_parts db' (k, i) = (if k = h \<and> i \<in> set is then ps_parts ps ! nat i else bdb_parts db (k, i)))"
    using assms
  proof (induction "is" arbitrary: db)
    case (Cons j js)
    then obtain p where p: "GetPart j ps = Inr (Some p)" "save_parts h ps js (db\<lparr>bdb_parts := (bdb_parts db)((h, j) \<mapsto> p)\<rparr>) = Inr db'"
      by (auto simp: and_then_Inr_iff saveBlockPart_def split: option.splits)
    then have "ps_parts ps ! nat j = Some p" by (auto simp: GetPart_def split: if_splits)
    with Cons.IH [OF p(2)] show ?case by auto
  qed simp
  then show "bdb_meta db' = bdb_meta db" "bdb_commit db' = bdb_commit db" "bdb_seen db' = bdb_seen db" "bdb_hash db' = bdb_hash db" "bdb_state db' = bdb_state db"
    "\<And>k i. bdb_parts db' (k, i) = (if k = h \<and> i \<in> set is then ps_parts ps ! nat i else bdb_parts db (k, i))" by blast+
qed

lemma load_parts_all:
  assumes "\<And>i. i \<in> set is \<Longrightarrow> \<exists>p. bdb_parts (bs_db bs) (h, i) = Some p \<and> PartFromProto p = Inr p \<and> pt_Bytes p = f i"
  shows "load_parts bs h is buf = Inr (buf @ concat (map f is))"
  using assms
proof (induction "is" arbitrary: buf)
  case (Cons i js)
  from Cons.prems [of i] obtain p where "bdb_parts (bs_db bs) (h, i) = Some p" "PartFromProto p = Inr p" "pt_Bytes p = f i" by auto
  with Cons show ?case by (simp add: LoadBlockPart_def)
qed simp

lemma load_parts_cong:
  "(\<And>i. bdb_parts (bs_db bs') (h, i) = bdb_parts (bs_db bs) (h, i)) \<Longrightarrow> load_parts bs' h is buf = load_parts bs h is buf"
  by (induction "is" arbitrary: buf) (simp_all add: LoadBlockPart_def)

lemma LoadBlock_cong:
  assumes "bdb_meta (bs_db bs') k = bdb_meta (bs_db bs) k" "\<And>i. bdb_parts (bs_db bs') (k, i) = bdb_parts (bs_db bs) (k, i)"
  shows "LoadBlock u enc cr H bs' k = LoadBlock u enc cr H bs k"
proof -
  have parts: "load_parts bs' k = load_parts bs k" using load_parts_cong [OF assms(2)] by blast
  show ?thesis unfolding LoadBlock_def LoadBlockMeta_def assms(1) parts ..
qed

lemma BlockMetaFromProto_same: "BlockMetaFromProto cr H pb = Inr bm \<Longrightarrow> bm = pb"
  by (auto simp: BlockMetaFromProto_def BlockIDFromProto_def HeaderFromProto_def Let_def and_then_Inr_iff lift_fault_def split: sum.splits fault.splits)

lemma Block_Hash_same_height:
  assumes "Block_Hash enc cr H (Some b) = Inr (hash, b')"
  obtains c where "b' = Some c" "h_Height (b_Header c) = h_Height (b_Header b)"
proof -
  have "h_Height (b_Header c) = h_Height (b_Header b)" if "fillHeader enc cr H lc b = Inr c" for lc c
    using that by (auto simp: fillHeader_def and_then_Inr_iff Let_def split: if_splits prod.splits)
  then show ?thesis using assms that by (auto simp: Block_Hash_def and_then_Inr_iff split: option.splits)
qed

text \<open>What a successful save leaves in the store.\<close>

lemma SaveBlock_result:
  assumes "SaveBlock marshal enc cr H (Some b) (Some ps) (Some sc) bs = Inr bs'" "h_Height (b_Header b) = h"
  obtains hash b' bm lc db where "Block_Hash enc cr H (Some b) = Inr (hash, b')" "PartSet_IsComplete ps"
    "bid_PartSetHeader (bm_BlockID bm) = PartSet_Header (Some ps)"
    "save_parts h ps [0..int (ps_total ps) - 1] ((bs_db bs)\<lparr>bdb_meta := (bdb_meta (bs_db bs))(h \<mapsto> bm), bdb_hash := (bdb_hash (bs_db bs))(hash \<mapsto> h)\<rparr>) = Inr db"
    "bs' = BlockStore_saveState (bs\<lparr>bs_db := db\<lparr>bdb_commit := (bdb_commit db)(wrap64 (h - 1) \<mapsto> lc), bdb_seen := (bdb_seen db)(h \<mapsto> Commit_ToProto sc)\<rparr>,
       bs_height := h, bs_base := (if bs_base bs = 0 then h else bs_base bs)\<rparr>)"
proof -
  from assms(1) obtain hash b' where hash: "Block_Hash enc cr H (Some b) = Inr (hash, b')"
    by (auto simp: SaveBlock_def and_then_Inr_iff)
  obtain c where c: "b' = Some c" "h_Height (b_Header c) = h" by (rule Block_Hash_same_height [OF hash]) (use assms(2) in simp)
  from assms(1) hash c obtain bm db lc where bm: "NewBlockMeta marshal enc cr H c (Some ps) = Inr bm" and full: "PartSet_IsComplete ps"
    and db: "save_parts h ps [0..int (ps_total ps) - 1] ((bs_db bs)\<lparr>bdb_meta := (bdb_meta (bs_db bs))(h \<mapsto> bm), bdb_hash := (bdb_hash (bs_db bs))(hash \<mapsto> h)\<rparr>) = Inr db"
    and bs': "bs' = BlockStore_saveState (bs\<lparr>bs_db := db\<lparr>bdb_commit := (bdb_commit db)(wrap64 (h - 1) \<mapsto> Commit_ToProto lc), bdb_seen := (bdb_seen db)(h \<mapsto> Commit_ToProto sc)\<rparr>,
       bs_height := h, bs_base := (if bs_base bs = 0 then h else bs_base bs)\<rparr>)"
    by (auto simp: SaveBlock_def and_then_Inr_iff Let_def split: if_splits option.splits)
  have "bid_PartSetHeader (bm_BlockID bm) = PartSet_Header (Some ps)" using bm by (auto simp: NewBlockMeta_def and_then_Inr_iff Let_def)
  with hash full db bs' that show ?thesis by blast
qed

text \<open>
  C29: A block that was saved is loaded again. When a complete part set is saved with a block, its parts and the meta data are valid messages and the bytes
  of its parts decode to a block, then this block is what the store returns for the height and for the hash. Blocks and seen commits of other heights are as before,
  and a store that is opened on the same database is the same store.
\<close>

theorem SaveBlock_LoadBlock:
  assumes save: "SaveBlock marshal enc cr H (Some b) (Some ps) (Some sc) bs = Inr bs'" and h: "0 < h_Height (b_Header b)"
    and ps: "part_set_inv ps" "\<And>p. Some p \<in> set (ps_parts ps) \<Longrightarrow> PartFromProto p = Inr p"
    and meta: "LoadBlockMeta cr H bs' (h_Height (b_Header b)) = Inr m"
    and code: "unmarshal (concat (map (\<lambda>p. pt_Bytes (the p)) (ps_parts ps))) = Some pbb" "BlockFromProto enc cr H (Some pbb) = Inr c"
  shows "LoadBlock unmarshal enc cr H bs' (h_Height (b_Header b)) = Inr (Some c) \<and>
    (\<exists>hash b'. Block_Hash enc cr H (Some b) = Inr (hash, b') \<and> LoadBlockByHash unmarshal enc cr H bs' hash = Inr (Some c)) \<and>
    (\<forall>k. k \<noteq> h_Height (b_Header b) \<longrightarrow> LoadBlock unmarshal enc cr H bs' k = LoadBlock unmarshal enc cr H bs k \<and> LoadSeenCommit bs' k = LoadSeenCommit bs k) \<and>
    NewBlockStore (bs_db bs') = bs'"
proof -
  let ?h = "h_Height (b_Header b)"
  obtain hash b' bm lc db where r: "Block_Hash enc cr H (Some b) = Inr (hash, b')" "PartSet_IsComplete ps" "bid_PartSetHeader (bm_BlockID bm) = PartSet_Header (Some ps)"
    "save_parts ?h ps [0..int (ps_total ps) - 1] ((bs_db bs)\<lparr>bdb_meta := (bdb_meta (bs_db bs))(?h \<mapsto> bm), bdb_hash := (bdb_hash (bs_db bs))(hash \<mapsto> ?h)\<rparr>) = Inr db"
    "bs' = BlockStore_saveState (bs\<lparr>bs_db := db\<lparr>bdb_commit := (bdb_commit db)(wrap64 (?h - 1) \<mapsto> lc), bdb_seen := (bdb_seen db)(?h \<mapsto> Commit_ToProto sc)\<rparr>,
       bs_height := ?h, bs_base := (if bs_base bs = 0 then ?h else bs_base bs)\<rparr>)"
    by (rule SaveBlock_result [OF save refl])
  note f = save_parts_fields [OF r(4)]
  have db': "bdb_meta (bs_db bs') = (bdb_meta (bs_db bs))(?h \<mapsto> bm)" "bdb_hash (bs_db bs') = (bdb_hash (bs_db bs))(hash \<mapsto> ?h)"
      "bdb_seen (bs_db bs') = (bdb_seen (bs_db bs))(?h \<mapsto> Commit_ToProto sc)" "bdb_parts (bs_db bs') = bdb_parts db"
    using f by (simp_all add: r(5) BlockStore_saveState_def SaveBlockStoreState_def)
  have len: "length (ps_parts ps) = ps_total ps" using ps(1) by (simp add: part_set_inv_def)
  have part: "\<exists>p. bdb_parts (bs_db bs') (?h, i) = Some p \<and> PartFromProto p = Inr p \<and> pt_Bytes p = pt_Bytes (the (ps_parts ps ! nat i))"
    if "i \<in> set [0..int (ps_total ps) - 1]" for i
  proof -
    have i: "0 \<le> i" "nat i < length (ps_parts ps)" using that len by auto
    then obtain p where p: "ps_parts ps ! nat i = Some p" using r(2) IsComplete_iff [OF ps(1)] by (metis nth_mem not_None_eq)
    then have "PartFromProto p = Inr p" using ps(2) i(2) by (metis nth_mem)
    then show ?thesis using p f(6) that db'(4) by simp
  qed
  have "map (\<lambda>i. pt_Bytes (the (ps_parts ps ! nat i))) [0..int (ps_total ps) - 1] = map (\<lambda>p. pt_Bytes (the p)) (ps_parts ps)"
    using len by (intro nth_equalityI) simp_all
  with load_parts_all [of "[0..int (ps_total ps) - 1]" bs' ?h "\<lambda>i. pt_Bytes (the (ps_parts ps ! nat i))" "[]", OF part] have bytes: "load_parts bs' ?h [0..int (ps_total ps) - 1] [] = Inr (concat (map (\<lambda>p. pt_Bytes (the p)) (ps_parts ps)))"
    by simp
  have "m = Some bm" using meta db'(1) BlockMetaFromProto_same by (auto simp: LoadBlockMeta_def and_then_Inr_iff)
  then have load: "LoadBlock unmarshal enc cr H bs' ?h = Inr (Some c)" using meta r(3) bytes code by (simp add: LoadBlock_def PartSet_Header_def)
  moreover have "LoadBlockByHash unmarshal enc cr H bs' hash = Inr (Some c)" using load db'(2) by (simp add: LoadBlockByHash_def)
  moreover have "LoadBlock unmarshal enc cr H bs' k = LoadBlock unmarshal enc cr H bs k \<and> LoadSeenCommit bs' k = LoadSeenCommit bs k" if "k \<noteq> ?h" for k
    using that db' f(6) by (intro conjI LoadBlock_cong) (simp_all add: LoadSeenCommit_def)
  moreover have "NewBlockStore (bs_db bs') = bs'"
    using h by (simp add: r(5) BlockStore_saveState_def SaveBlockStoreState_def NewBlockStore_def LoadBlockStoreState_def)
  ultimately show ?thesis using r(1) by blast
qed

text \<open>A block of one part.\<close>

definition one_part :: Part where
  "one_part = \<lparr>pt_Index = 0, pt_Bytes = [1], pt_Proof = \<lparr>pf_Total = 1, pf_Index = 0, pf_LeafHash = replicate 32 0, pf_Aunts = []\<rparr>\<rparr>"

definition no_parts :: PartSet where
  "no_parts = NewPartSetFromHeader \<lparr>psh_Total = 1, psh_Hash = replicate 32 0\<rparr>"

definition one_part_set :: PartSet where
  "one_part_set = (case AddPart zero_hash one_part no_parts of Inr (_, ps) \<Rightarrow> ps | Inl _ \<Rightarrow> no_parts)"

definition stored_block :: Block where
  "stored_block = (case State_MakeBlock byte_encoders (\<lambda>_. Some [1]) lax_crypto zero_hash 1 [] (NewCommit 0 0 nil_BlockID []) [] (replicate 20 1) [] [] demo_state of
     Inr (b, _) \<Rightarrow> b | Inl _ \<Rightarrow> phantom_block)"

definition stored_unmarshal :: "bytes \<Rightarrow> tmproto_Block option" where
  "stored_unmarshal bz = (if bz = [1] then (case Block_ToProto (Some stored_block) of Inr p \<Rightarrow> Some p | Inl _ \<Rightarrow> None) else None)"

definition try_store :: "(store_error, BlockStore) result" where
  "try_store = SaveBlock (\<lambda>_. Some [1]) byte_encoders lax_crypto zero_hash (Some stored_block) (Some one_part_set) (Some demo_commit) (NewBlockStore empty_block_db)"

definition succeeds :: "('e, 'a) result \<Rightarrow> bool" where
  "succeeds r \<longleftrightarrow> (case r of Inl _ \<Rightarrow> False | Inr _ \<Rightarrow> True)"

lemma succeedsE: "succeeds r \<Longrightarrow> (\<And>x. r = Inr x \<Longrightarrow> P) \<Longrightarrow> P"
  by (cases r) (auto simp: succeeds_def)

lemma stored_facts:
  "AddPart zero_hash one_part no_parts = Inr (True, one_part_set)" "ps_parts one_part_set = [Some one_part]" "PartFromProto one_part = Inr one_part"
  "h_Height (b_Header stored_block) = 1" "succeeds (and_then try_store (\<lambda>bs. LoadBlockMeta lax_crypto zero_hash bs 1))"
  "case stored_unmarshal [1] of None \<Rightarrow> False | Some p \<Rightarrow> succeeds (BlockFromProto byte_encoders lax_crypto zero_hash (Some p))"
  "case try_store of Inl _ \<Rightarrow> False | Inr bs \<Rightarrow> (case PruneBlocks lax_crypto zero_hash 2 (bs\<lparr>bs_height := 2\<rparr>) of Inr (n, _) \<Rightarrow> n = 1 | Inl _ \<Rightarrow> False)"
  by code_simp+

theorem SaveBlock_LoadBlock_witness:
  "\<exists>bs c. try_store = Inr bs \<and> LoadBlock stored_unmarshal byte_encoders lax_crypto zero_hash bs 1 = Inr (Some c) \<and> NewBlockStore (bs_db bs) = bs"
proof -
  from stored_facts(5) obtain bs m where bs: "try_store = Inr bs" and m: "LoadBlockMeta lax_crypto zero_hash bs 1 = Inr m"
    by (auto elim!: succeedsE simp: and_then_Inr_iff)
  from stored_facts(6) obtain p c where c: "stored_unmarshal [1] = Some p" "BlockFromProto byte_encoders lax_crypto zero_hash (Some p) = Inr c"
    by (auto elim!: succeedsE split: option.splits)
  have "part_set_inv one_part_set"
    using AddPart_keeps_inv [OF NewPartSetFromHeader_inv stored_facts(1) [unfolded no_parts_def]] by simp
  then show ?thesis
    using SaveBlock_LoadBlock [OF bs [unfolded try_store_def], of m stored_unmarshal p c] stored_facts(2-4) bs m c by (auto simp: one_part_def)
qed

section \<open>What pruning removes\<close>

text \<open>The height that a deletion concerns; an index entry by hash has none.\<close>

fun at_height :: "int64 \<Rightarrow> block_delete \<Rightarrow> bool" where
  "at_height k (DelMeta h) = (h = k)"
| "at_height k (DelHash _) = False"
| "at_height k (DelCommit h) = (h = k)"
| "at_height k (DelSeen h) = (h = k)"
| "at_height k (DelPart h _) = (h = k)"

definition same_at :: "int64 \<Rightarrow> block_db \<Rightarrow> block_db \<Rightarrow> bool" where
  "same_at k db db' \<longleftrightarrow> bdb_meta db' k = bdb_meta db k \<and> bdb_commit db' k = bdb_commit db k \<and> bdb_seen db' k = bdb_seen db k \<and>
     (\<forall>i. bdb_parts db' (k, i) = bdb_parts db (k, i))"

lemma same_at_refl [simp]: "same_at k db db"
  by (simp add: same_at_def)

lemma same_at_trans: "same_at k a b \<Longrightarrow> same_at k b c \<Longrightarrow> same_at k a c"
  by (simp add: same_at_def)

lemma deletes_elsewhere: "(\<And>d. d \<in> set ds \<Longrightarrow> \<not> at_height k d) \<Longrightarrow> same_at k db (foldl delete_from db ds)"
proof (induction ds arbitrary: db)
  case (Cons d ds)
  have "same_at k db (delete_from db d)" using Cons.prems [of d] by (cases d) (auto simp: same_at_def)
  then show ?case using Cons.IH [of "delete_from db d"] Cons.prems same_at_trans by fastforce
qed simp

lemma deleted_meta: "DelMeta k \<in> set ds \<or> bdb_meta db k = None \<Longrightarrow> bdb_meta (foldl delete_from db ds) k = None"
proof (induction ds arbitrary: db)
  case (Cons d ds)
  have "DelMeta k \<in> set ds \<or> bdb_meta (delete_from db d) k = None" using Cons.prems by (cases d) auto
  then show ?case using Cons.IH by simp
qed simp

lemma block_deletes_at: "d \<in> set (block_deletes h bm) \<Longrightarrow> at_height k d \<Longrightarrow> k = h"
  by (auto simp: block_deletes_def)

text \<open>The database once the pending deletions are written.\<close>

abbreviation flushed :: "block_delete list \<Rightarrow> BlockStore \<Rightarrow> block_db" where
  "flushed batch bs \<equiv> foldl delete_from (bs_db bs) batch"

lemma flush_same: "same_at k (flushed batch bs) (flushed [] (block_flush batch h bs))"
proof -
  have "same_at k (foldl delete_from db batch) (foldl delete_from (db\<lparr>bdb_state := s\<rparr>) batch)" for db s
  proof (induction batch arbitrary: db)
    case (Cons d ds)
    have "delete_from (db\<lparr>bdb_state := s\<rparr>) d = (delete_from db d)\<lparr>bdb_state := s\<rparr>" by (cases d) simp_all
    then show ?case using Cons by simp
  qed (simp add: same_at_def)
  then show ?thesis by (simp add: block_flush_def BlockStore_saveState_def SaveBlockStoreState_def Let_def)
qed

lemma prune_blocks_spec:
  assumes "prune_blocks cr H hs n batch bs = Inr (n', batch', bs')" "distinct hs" "\<And>d k. d \<in> set batch \<Longrightarrow> k \<in> set hs \<Longrightarrow> \<not> at_height k d"
  shows "bs_height bs' = bs_height bs \<and> (\<forall>k. k \<notin> set hs \<longrightarrow> same_at k (flushed batch bs) (flushed batch' bs')) \<and>
    (\<forall>k \<in> set hs. bdb_meta (flushed batch' bs') k = None)"
  using assms
proof (induction hs arbitrary: n batch bs)
  case (Cons h hs)
  have old: "same_at h (bs_db bs) (flushed batch bs)" using Cons.prems(3) by (intro deletes_elsewhere) auto
  from Cons.prems(1) obtain meta where meta: "LoadBlockMeta cr H bs h = Inr meta" by (auto simp: and_then_Inr_iff)
  show ?case
  proof (cases meta)
    case None
    then have "bdb_meta (flushed batch bs) h = None"
      using meta old by (auto simp: LoadBlockMeta_def and_then_Inr_iff same_at_def split: option.splits)
    moreover have "prune_blocks cr H hs n batch bs = Inr (n', batch', bs')" using Cons.prems(1) meta None by simp
    ultimately show ?thesis using Cons.IH [of n batch bs] Cons.prems(2,3) by (auto simp: same_at_def)
  next
    case (Some bm)
    let ?b = "batch @ block_deletes h bm"
    have gone: "bdb_meta (flushed ?b bs) h = None" by (rule deleted_meta) (simp add: block_deletes_def)
    have rest: "same_at k (flushed batch bs) (flushed ?b bs)" if "k \<noteq> h" for k
      using that block_deletes_at by (auto intro!: deletes_elsewhere)
    have clear: "\<not> at_height k d" if "d \<in> set ?b" "k \<in> set hs" for d k
      using that Cons.prems(2,3) block_deletes_at [of d h bm k] by auto
    have go: ?thesis if "prune_blocks cr H hs (Suc n) batch1 bs1 = Inr (n', batch', bs')" "bs_height bs1 = bs_height bs" "set batch1 \<subseteq> set ?b"
        "\<And>k. same_at k (flushed ?b bs) (flushed batch1 bs1)" for batch1 bs1
    proof -
      have ih: "bs_height bs' = bs_height bs1" "\<And>k. k \<notin> set hs \<Longrightarrow> same_at k (flushed batch1 bs1) (flushed batch' bs')"
          "\<And>k. k \<in> set hs \<Longrightarrow> bdb_meta (flushed batch' bs') k = None"
        using Cons.IH [OF that(1)] Cons.prems(2) clear that(3) by auto
      have "same_at k (flushed batch bs) (flushed batch' bs')" if "k \<notin> set (h # hs)" for k
        using that rest [of k] \<open>\<And>k. same_at k (flushed ?b bs) (flushed batch1 bs1)\<close> [of k] ih(2) [of k] same_at_trans by (metis list.set_intros)
      moreover have "bdb_meta (flushed batch' bs') h = None"
        using gone that(4) [of h] ih(2) [of h] Cons.prems(2) by (simp add: same_at_def)
      ultimately show ?thesis using ih that(2) by auto
    qed
    show ?thesis
    proof (cases "Suc n mod 1000 = 0")
      case True
      then have "prune_blocks cr H hs (Suc n) [] (block_flush ?b h bs) = Inr (n', batch', bs')" using Cons.prems(1) meta Some by (simp add: Let_def)
      then show ?thesis by (rule go) (use flush_same [of _ bs ?b h] in \<open>simp_all add: block_flush_def BlockStore_saveState_def Let_def\<close>)
    next
      case False
      then have "prune_blocks cr H hs (Suc n) ?b bs = Inr (n', batch', bs')" using Cons.prems(1) meta Some by (simp add: Let_def)
      then show ?thesis by (rule go) simp_all
    qed
  qed
qed simp

text \<open>
  C30: Pruning. When blocks are pruned up to a height, the store starts at that height, on disk as well, every block, commit and seen commit from that height on is
  loaded as before, and no block below it is left.
\<close>

theorem PruneBlocks_exact:
  assumes "PruneBlocks cr H height bs = Inr (n, bs')"
  shows "bs_base bs' = height \<and> bs_height bs' = bs_height bs \<and> NewBlockStore (bs_db bs') = bs' \<and>
    (\<forall>k. height \<le> k \<longrightarrow> LoadBlock unmarshal enc cr H bs' k = LoadBlock unmarshal enc cr H bs k \<and> LoadBlockCommit bs' k = LoadBlockCommit bs k \<and>
       LoadSeenCommit bs' k = LoadSeenCommit bs k) \<and>
    (\<forall>k. bs_base bs \<le> k \<and> k < height \<longrightarrow> LoadBlock unmarshal enc cr H bs' k = Inr None)"
proof -
  have pos: "0 < height" using assms by (simp add: PruneBlocks_def split: if_splits)
  obtain batch bs1 where p: "prune_blocks cr H [bs_base bs..height - 1] 0 [] bs = Inr (n, batch, bs1)" "bs' = block_flush batch height bs1"
    using assms by (auto simp: PruneBlocks_def and_then_Inr_iff split: if_splits)
  have spec: "bs_height bs1 = bs_height bs" "\<And>k. k \<notin> {bs_base bs..height - 1} \<Longrightarrow> same_at k (bs_db bs) (flushed batch bs1)"
      "\<And>k. k \<in> {bs_base bs..height - 1} \<Longrightarrow> bdb_meta (flushed batch bs1) k = None"
    using prune_blocks_spec [OF p(1)] by auto
  have last: "same_at k (flushed batch bs1) (bs_db bs')" for k using flush_same [of k bs1 batch height] p(2) by simp
  have state: "bdb_state (foldl delete_from db ds) = bdb_state db" for db ds
  proof (induction ds arbitrary: db)
    case (Cons d ds)
    then show ?case by (cases d) simp_all
  qed simp
  have "bs_base bs' = height" "bs_height bs' = bs_height bs" using p(2) spec(1) by (simp_all add: block_flush_def BlockStore_saveState_def Let_def)
  moreover have "NewBlockStore (bs_db bs') = bs'"
    using p(2) pos by (simp add: NewBlockStore_def LoadBlockStoreState_def block_flush_def BlockStore_saveState_def SaveBlockStoreState_def Let_def state)
  moreover have "LoadBlock unmarshal enc cr H bs' k = LoadBlock unmarshal enc cr H bs k \<and> LoadBlockCommit bs' k = LoadBlockCommit bs k \<and>
       LoadSeenCommit bs' k = LoadSeenCommit bs k" if "height \<le> k" for k
  proof -
    have "same_at k (bs_db bs) (bs_db bs')" using that spec(2) [of k] last [of k] same_at_trans by auto
    then show ?thesis by (intro conjI LoadBlock_cong) (simp_all add: same_at_def LoadBlockCommit_def LoadSeenCommit_def)
  qed
  moreover have "LoadBlock unmarshal enc cr H bs' k = Inr None" if "bs_base bs \<le> k" "k < height" for k
    using that spec(3) [of k] last [of k] by (simp add: LoadBlock_def LoadBlockMeta_def same_at_def)
  ultimately show ?thesis by blast
qed

theorem PruneBlocks_exact_witness:
  "\<exists>bs bs'. try_store = Inr bs \<and> PruneBlocks lax_crypto zero_hash 2 (bs\<lparr>bs_height := 2\<rparr>) = Inr (1, bs') \<and> bs_base bs' = 2 \<and>
     LoadBlock stored_unmarshal byte_encoders lax_crypto zero_hash bs' 1 = Inr None"
proof -
  from stored_facts(7) obtain bs bs' where r: "try_store = Inr bs" "PruneBlocks lax_crypto zero_hash 2 (bs\<lparr>bs_height := 2\<rparr>) = Inr (1, bs')"
    by (auto split: sum.splits prod.splits)
  from r(1) stored_facts(4) have "bs_base bs \<le> 1"
    unfolding try_store_def by (elim SaveBlock_result [OF _ refl]) (simp add: BlockStore_saveState_def NewBlockStore_def LoadBlockStoreState_def empty_block_db_def)
  with r PruneBlocks_exact [OF r(2), of stored_unmarshal byte_encoders] show ?thesis by auto
qed

end
