(* ===== verification/Consensus_State.thy ===== *)
theory Consensus_State
  imports Execution Height_Vote_Set Block_Store Priv_Validator
begin

text \<open>
  The consensus state machine of \<^verbatim>\<open>consensus/state.go\<close> with the round state of \<^verbatim>\<open>consensus/types/round_state.go\<close> and the timeouts
  of \<^verbatim>\<open>config/config.go\<close>: one definition for each function that is called from \<^verbatim>\<open>receiveRoutine\<close>, over a record that extends the round
  state as the struct of the code embeds it.

  The three pointers to part sets may be equal, and adding a part through one of them is seen through the
  others; they are positions in \<open>cs_partSets\<close>, the part sets that were created so far. Blocks come out of the
  decoder with their hashes filled in, so they are values. The messages to the node itself, the
  timeouts that were asked for, the calls of the evidence pool and the records of the log are lists that grow at
  the end; a handler that takes a message off the queue does so before it runs. A panic ends the routine that
  handles messages, so no state is returned for it, and the deferred functions are run where the function returns.
  The signer is the file signer, which always knows its public key. Events, metrics and logging are
  left out, except for the panics of \<^verbatim>\<open>recordMetrics\<close> and of a log call that reads a field of a nil part.

  The validator set of the round state and that of \<open>cs_state\<close> are one object in the code until \<^verbatim>\<open>enterNewRound\<close> copies it; here they
  are two values. Two methods write through the shared pointer: \<^verbatim>\<open>GetProposer\<close> fills in a proposer that is nil, which no
  set made by \<^verbatim>\<open>NewValidatorSet\<close>, \<^verbatim>\<open>IncrementProposerPriority\<close> or \<^verbatim>\<open>ValidatorSetFromProto\<close> has unless it is empty, and \<^verbatim>\<open>TotalVotingPower\<close>
  fills in a total that is 0. Both store what the members of the set determine, so the value that is
  not updated gives the same answers.

  The environment of a call has the generated encoders, the application, the evidence pool as block validation sees it, the configuration,
  and the clock as the sequence of its readings.
\<close>

section \<open>State\<close>

type_synonym RoundStepType = nat

definition RoundStepNewHeight :: RoundStepType where "RoundStepNewHeight = 1"
definition RoundStepNewRound :: RoundStepType where "RoundStepNewRound = 2"
definition RoundStepPropose :: RoundStepType where "RoundStepPropose = 3"
definition RoundStepPrevote :: RoundStepType where "RoundStepPrevote = 4"
definition RoundStepPrevoteWait :: RoundStepType where "RoundStepPrevoteWait = 5"
definition RoundStepPrecommit :: RoundStepType where "RoundStepPrecommit = 6"
definition RoundStepPrecommitWait :: RoundStepType where "RoundStepPrecommitWait = 7"
definition RoundStepCommit :: RoundStepType where "RoundStepCommit = 8"

lemmas round_steps = RoundStepNewHeight_def RoundStepNewRound_def RoundStepPropose_def RoundStepPrevote_def RoundStepPrevoteWait_def
  RoundStepPrecommit_def RoundStepPrecommitWait_def RoundStepCommit_def

type_synonym part_ptr = "nat option"

record RoundState =
  rs_Height :: int64
  rs_Round :: int32
  rs_Step :: RoundStepType
  rs_StartTime :: timestamp
  rs_CommitTime :: timestamp
  rs_Validators :: ValidatorSet
  rs_Proposal :: "Proposal option"
  rs_ProposalBlock :: "Block option"
  rs_ProposalBlockParts :: part_ptr
  rs_LockedRound :: int32
  rs_LockedBlock :: "Block option"
  rs_LockedBlockParts :: part_ptr
  rs_ValidRound :: int32
  rs_ValidBlock :: "Block option"
  rs_ValidBlockParts :: part_ptr
  rs_Votes :: "HeightVoteSet option"
  rs_CommitRound :: int32
  rs_LastCommit :: "VoteSet option"
  rs_LastValidators :: ValidatorSet
  rs_TriggeredTimeoutPrecommit :: bool

datatype Message =
    ProposalMessage Proposal
  | BlockPartMessage int64 int32 "Part option"
  | VoteMessage Vote

type_synonym msgInfo = "Message \<times> bytes"

record timeoutInfo =
  ti_Duration :: int64
  ti_Height :: int64
  ti_Round :: int32
  ti_Step :: RoundStepType

datatype WALMessage =
    EventDataRoundState int64 int32 RoundStepType
  | WALMsgInfo msgInfo
  | WALTimeoutInfo timeoutInfo
  | EndHeightMessage int64

datatype pool_call =
    AddEvidence Evidence
  | AddPOLC "ProofOfLockChange option"

record ConsensusState = RoundState +
  cs_state :: "State option"
  cs_db :: state_db
  cs_blockStore :: BlockStore
  cs_privValidator :: "(FilePV \<times> pv_files) option"
  cs_internalMsgQueue :: "msgInfo list"
  cs_timeouts :: "timeoutInfo list"
  cs_evpool :: "pool_call list"
  cs_wal :: "WALMessage list"
  cs_nSteps :: nat
  cs_partSets :: "PartSet list"
  cs_ticks :: nat

record ConsensusConfig =
  cfg_TimeoutPropose :: int64
  cfg_TimeoutProposeDelta :: int64
  cfg_TimeoutPrevote :: int64
  cfg_TimeoutPrevoteDelta :: int64
  cfg_TimeoutPrecommit :: int64
  cfg_TimeoutPrecommitDelta :: int64
  cfg_TimeoutCommit :: int64
  cfg_SkipTimeoutCommit :: bool
  cfg_CreateEmptyBlocks :: bool
  cfg_CreateEmptyBlocksInterval :: int64

record node_env =
  ne_enc :: encoders
  ne_marshal :: "tmproto_Block \<Rightarrow> bytes option"
  ne_unmarshal :: "bytes \<Rightarrow> tmproto_Block option"
  ne_H :: "bytes \<Rightarrow> bytes"
  ne_pv :: pv_env
  ne_write_ok :: bool
  ne_app :: app
  ne_pool :: "evpool option"
  ne_config :: ConsensusConfig
  ne_clock :: "nat \<Rightarrow> timestamp"

abbreviation ne_crypto :: "node_env \<Rightarrow> crypto" where
  "ne_crypto E \<equiv> env_crypto (ne_pv E)"

datatype cs_error =
    ErrInvalidProposalSignature
  | ErrInvalidProposalPOLRound
  | ErrAddingVote
  | ErrCsVotes hvs_error
  | ErrCsState state_error
  | ErrCsPart part_error
  | ErrCsBlock block_error
  | ErrCsStore store_error
  | ErrCsBasic basic_error
  | ErrUnmarshal

type_synonym 'a cs_result = "(cs_error, 'a) result"

section \<open>Configuration\<close>

definition WaitForTxs :: "ConsensusConfig \<Rightarrow> bool" where
  "WaitForTxs cfg \<longleftrightarrow> \<not> cfg_CreateEmptyBlocks cfg \<or> cfg_CreateEmptyBlocksInterval cfg > 0"

definition cfg_Propose :: "ConsensusConfig \<Rightarrow> int32 \<Rightarrow> int64" where
  "cfg_Propose cfg rnd = wrap64 (cfg_TimeoutPropose cfg + wrap64 (cfg_TimeoutProposeDelta cfg * rnd))"

definition cfg_Prevote :: "ConsensusConfig \<Rightarrow> int32 \<Rightarrow> int64" where
  "cfg_Prevote cfg rnd = wrap64 (cfg_TimeoutPrevote cfg + wrap64 (cfg_TimeoutPrevoteDelta cfg * rnd))"

definition cfg_Precommit :: "ConsensusConfig \<Rightarrow> int32 \<Rightarrow> int64" where
  "cfg_Precommit cfg rnd = wrap64 (cfg_TimeoutPrecommit cfg + wrap64 (cfg_TimeoutPrecommitDelta cfg * rnd))"

definition cfg_Commit :: "ConsensusConfig \<Rightarrow> timestamp \<Rightarrow> timestamp" where
  "cfg_Commit cfg t = t + cfg_TimeoutCommit cfg"

section \<open>Small functions\<close>

definition must :: "'a option \<Rightarrow> ('e, 'a) result" where
  "must p = (case p of None \<Rightarrow> Inl (Panic ''nil pointer dereference'') | Some x \<Rightarrow> Inr x)"

lemma must_simps [simp]: "must (Some x) = Inr x" "must p = Inr y \<longleftrightarrow> p = Some y"
  by (auto simp: must_def split: option.splits)

text \<open>Reading the clock.\<close>

definition Now :: "node_env \<Rightarrow> ConsensusState \<Rightarrow> timestamp \<times> ConsensusState" where
  "Now E cs = (ne_clock E (cs_ticks cs), cs\<lparr>cs_ticks := Suc (cs_ticks cs)\<rparr>)"

definition part_set :: "ConsensusState \<Rightarrow> part_ptr \<Rightarrow> PartSet option" where
  "part_set cs p = map_option (\<lambda>i. cs_partSets cs ! i) p"

definition new_parts :: "PartSetHeader \<Rightarrow> ConsensusState \<Rightarrow> ConsensusState" where
  "new_parts header cs = cs\<lparr>rs_ProposalBlockParts := Some (length (cs_partSets cs)), cs_partSets := cs_partSets cs @ [NewPartSetFromHeader header]\<rparr>"

definition block_hash :: "node_env \<Rightarrow> Block option \<Rightarrow> bytes cs_result" where
  "block_hash E block = and_then (dies ''Hash'' (Block_Hash (ne_enc E) (ne_crypto E) (ne_H E) block)) (\<lambda>(h, _). Inr h)"

definition hashes_to :: "node_env \<Rightarrow> bytes \<Rightarrow> Block option \<Rightarrow> bool cs_result" where
  "hashes_to E hash block = and_then (dies ''Hash'' (Block_HashesTo (ne_enc E) (ne_crypto E) (ne_H E) hash block)) (\<lambda>(ok, _). Inr ok)"

text \<open>\<^verbatim>\<open>ValidateBlock\<close> of the block executor: \<open>False\<close> when it returns an error.\<close>

definition valid_block :: "node_env \<Rightarrow> Block option \<Rightarrow> ConsensusState \<Rightarrow> bool cs_result" where
  "valid_block E block cs =
     and_then (must (cs_state cs)) (\<lambda>state.
     case validateBlock (ne_enc E) (ne_crypto E) (ne_H E) (ne_pool E) (cs_db cs) state block of
       Inl (Panic s) \<Rightarrow> Inl (Panic s)
     | Inl (Err _) \<Rightarrow> Inr False
     | Inr _ \<Rightarrow> Inr True)"

definition updateRoundStep :: "int32 \<Rightarrow> RoundStepType \<Rightarrow> ConsensusState \<Rightarrow> ConsensusState" where
  "updateRoundStep rnd step cs = cs\<lparr>rs_Round := rnd, rs_Step := step\<rparr>"

definition scheduleTimeout :: "int64 \<Rightarrow> int64 \<Rightarrow> int32 \<Rightarrow> RoundStepType \<Rightarrow> ConsensusState \<Rightarrow> ConsensusState" where
  "scheduleTimeout duration height rnd step cs =
     cs\<lparr>cs_timeouts := cs_timeouts cs @ [\<lparr>ti_Duration = duration, ti_Height = height, ti_Round = rnd, ti_Step = step\<rparr>]\<rparr>"

definition scheduleRound0 :: "node_env \<Rightarrow> ConsensusState \<Rightarrow> ConsensusState" where
  "scheduleRound0 E cs =
     (case Now E cs of (now, cs) \<Rightarrow> scheduleTimeout (Time_Sub (rs_StartTime cs) now) (rs_Height cs) 0 RoundStepNewHeight cs)"

definition sendInternalMessage :: "Message \<Rightarrow> ConsensusState \<Rightarrow> ConsensusState" where
  "sendInternalMessage msg cs = cs\<lparr>cs_internalMsgQueue := cs_internalMsgQueue cs @ [(msg, [])]\<rparr>"

definition newStep :: "ConsensusState \<Rightarrow> ConsensusState" where
  "newStep cs = cs\<lparr>cs_wal := cs_wal cs @ [EventDataRoundState (rs_Height cs) (rs_Round cs) (rs_Step cs)], cs_nSteps := Suc (cs_nSteps cs)\<rparr>"

definition prevotes_of :: "int32 \<Rightarrow> ConsensusState \<Rightarrow> VoteSet option cs_result" where
  "prevotes_of rnd cs = and_then (must (rs_Votes cs)) (\<lambda>votes. Inr (Prevotes rnd votes))"

definition precommits_of :: "int32 \<Rightarrow> ConsensusState \<Rightarrow> VoteSet option cs_result" where
  "precommits_of rnd cs = and_then (must (rs_Votes cs)) (\<lambda>votes. Inr (Precommits rnd votes))"

section \<open>A new height\<close>

definition reconstructLastCommit :: "node_env \<Rightarrow> State \<Rightarrow> ConsensusState \<Rightarrow> ConsensusState cs_result" where
  "reconstructLastCommit E state cs =
     and_then (lift_fault ErrCsStore (LoadSeenCommit (cs_blockStore cs) (st_LastBlockHeight state))) (\<lambda>seenCommit.
     case seenCommit of
       None \<Rightarrow> Inl (Panic ''Failed to reconstruct LastCommit: seen commit not found'')
     | Some c \<Rightarrow>
         and_then (dies ''Failed to reconstruct LastCommit'' (CommitToVoteSet (ne_crypto E) (st_ChainID state) c (st_LastValidators state))) (\<lambda>lastPrecommits.
         if \<not> HasTwoThirdsMajority (Some lastPrecommits) then Inl (Panic ''Failed to reconstruct LastCommit: Does not have +2/3 maj'')
         else Inr (cs\<lparr>rs_LastCommit := Some lastPrecommits\<rparr>)))"

definition last_commit_for :: "State \<Rightarrow> ConsensusState \<Rightarrow> VoteSet option cs_result" where
  "last_commit_for state cs =
     (if st_LastBlockHeight state = 0 then Inr None
      else if rs_CommitRound cs > -1 \<and> rs_Votes cs \<noteq> None
      then and_then (precommits_of (rs_CommitRound cs) cs) (\<lambda>precommits.
        if \<not> HasTwoThirdsMajority precommits then Inl (Panic ''Wanted to form a Commit, but Precommits didn't have 2/3+'')
        else Inr precommits)
      else if rs_LastCommit cs = None then Inl (Panic ''LastCommit cannot be empty in heights > 1'')
      else Inr (rs_LastCommit cs))"

definition updateToState :: "node_env \<Rightarrow> State \<Rightarrow> ConsensusState \<Rightarrow> ConsensusState cs_result" where
  "updateToState E state cs =
     (if rs_CommitRound cs > -1 \<and> 0 < rs_Height cs \<and> rs_Height cs \<noteq> st_LastBlockHeight state
      then Inl (Panic ''updateToState() unexpected state height'')
      else if (case cs_state cs of None \<Rightarrow> False | Some old \<Rightarrow> wrap64 (st_LastBlockHeight old + 1) \<noteq> rs_Height cs)
      then Inl (Panic ''Inconsistent cs.state.LastBlockHeight+1 vs cs.Height'')
      else if (case cs_state cs of None \<Rightarrow> False | Some old \<Rightarrow> st_LastBlockHeight state \<le> st_LastBlockHeight old)
      then Inr (newStep cs)
      else and_then (last_commit_for state cs) (\<lambda>lastCommit.
        let validators = st_Validators state;
            height = wrap64 (st_LastBlockHeight state + 1);
            cs = updateRoundStep 0 RoundStepNewHeight (cs\<lparr>rs_LastCommit := lastCommit, rs_Height := height\<rparr>);
            cs = (if rs_CommitTime cs = 0 then (case Now E cs of (now, cs) \<Rightarrow> cs\<lparr>rs_StartTime := cfg_Commit (ne_config E) now\<rparr>)
                  else cs\<lparr>rs_StartTime := cfg_Commit (ne_config E) (rs_CommitTime cs)\<rparr>) in
        and_then (lift_fault ErrCsVotes (NewHeightVoteSet (st_ChainID state) height validators)) (\<lambda>votes.
        Inr (newStep (cs\<lparr>rs_Validators := validators, rs_Proposal := None, rs_ProposalBlock := None, rs_ProposalBlockParts := None,
          rs_LockedRound := -1, rs_LockedBlock := None, rs_LockedBlockParts := None,
          rs_ValidRound := -1, rs_ValidBlock := None, rs_ValidBlockParts := None, rs_Votes := Some votes, rs_CommitRound := -1,
          rs_LastValidators := st_LastValidators state, rs_TriggeredTimeoutPrecommit := False, cs_state := Some state\<rparr>)))))"

definition no_set :: ValidatorSet where
  "no_set = \<lparr>vs_Validators = [], vs_Proposer = None, vs_totalVotingPower = 0\<rparr>"

definition zero_ConsensusState :: "state_db \<Rightarrow> BlockStore \<Rightarrow> (FilePV \<times> pv_files) option \<Rightarrow> ConsensusState" where
  "zero_ConsensusState db blockStore privValidator =
     \<lparr>rs_Height = 0, rs_Round = 0, rs_Step = 0, rs_StartTime = 0, rs_CommitTime = 0, rs_Validators = no_set, rs_Proposal = None,
      rs_ProposalBlock = None, rs_ProposalBlockParts = None, rs_LockedRound = 0, rs_LockedBlock = None, rs_LockedBlockParts = None,
      rs_ValidRound = 0, rs_ValidBlock = None, rs_ValidBlockParts = None, rs_Votes = None, rs_CommitRound = 0, rs_LastCommit = None,
      rs_LastValidators = no_set, rs_TriggeredTimeoutPrecommit = False, cs_state = None, cs_db = db, cs_blockStore = blockStore,
      cs_privValidator = privValidator, cs_internalMsgQueue = [], cs_timeouts = [], cs_evpool = [], cs_wal = [], cs_nSteps = 0,
      cs_partSets = [], cs_ticks = 0\<rparr>"

text \<open>\<^verbatim>\<open>NewState\<close>, then \<^verbatim>\<open>SetPrivValidator\<close> and the first call of \<^verbatim>\<open>scheduleRound0\<close> in \<^verbatim>\<open>OnStart\<close>.\<close>

definition NewState :: "node_env \<Rightarrow> State \<Rightarrow> state_db \<Rightarrow> BlockStore \<Rightarrow> (FilePV \<times> pv_files) option \<Rightarrow> ConsensusState cs_result" where
  "NewState E state db blockStore privValidator =
     (let cs = zero_ConsensusState db blockStore privValidator in
      and_then (if st_LastBlockHeight state > 0 then reconstructLastCommit E state cs else Inr cs) (\<lambda>cs.
      and_then (updateToState E state cs) (\<lambda>cs. Inr (scheduleRound0 E cs))))"

section \<open>Signing\<close>

definition voteTime :: "node_env \<Rightarrow> State \<Rightarrow> ConsensusState \<Rightarrow> timestamp \<times> ConsensusState" where
  "voteTime E state cs =
     (case Now E cs of (now, cs) \<Rightarrow>
        let timeIota = wrap64 (bp_TimeIotaMs (cp_Block (st_ConsensusParams state)) * 1000000);
            minVoteTime = (case rs_LockedBlock cs of
                Some b \<Rightarrow> h_Time (b_Header b) + timeIota
              | None \<Rightarrow> (case rs_ProposalBlock cs of Some b \<Rightarrow> h_Time (b_Header b) + timeIota | None \<Rightarrow> now))
        in (if now > minVoteTime then now else minVoteTime, cs))"

definition cs_address :: "node_env \<Rightarrow> FilePV \<Rightarrow> bytes" where
  "cs_address E pv = cr_Address (ne_crypto E) (pvk_PubKey (pv_Key pv))"

text \<open>The signature that the signer returns is copied into the vote; the timestamp it may have restored is not.\<close>

definition cs_signVote :: "node_env \<Rightarrow> SignedMsgType \<Rightarrow> bytes \<Rightarrow> PartSetHeader \<Rightarrow> FilePV \<Rightarrow> pv_files \<Rightarrow> ConsensusState \<Rightarrow> (Vote option \<times> ConsensusState) cs_result" where
  "cs_signVote E msgType hash header pv fs cs =
     and_then (must (cs_state cs)) (\<lambda>state.
     let addr = cs_address E pv;
         valIdx = fst (GetByAddress addr (rs_Validators cs)) in
     case voteTime E state cs of (timestamp, cs) \<Rightarrow>
     let vote = \<lparr>v_Type = msgType, v_Height = rs_Height cs, v_Round = rs_Round cs, v_BlockID = \<lparr>bid_Hash = hash, bid_PartSetHeader = header\<rparr>,
           v_Timestamp = timestamp, v_ValidatorAddress = addr, v_ValidatorIndex = valIdx, v_Signature = []\<rparr> in
     case signVote (ne_pv E) (ne_write_ok E) (ne_clock E (cs_ticks cs)) (st_ChainID state) vote pv fs of
       Inl (Panic s) \<Rightarrow> Inl (Panic s)
     | Inl (Err _) \<Rightarrow> Inr (None, cs)
     | Inr (v, pv, fs) \<Rightarrow> Inr (Some (vote\<lparr>v_Signature := v_Signature v\<rparr>), cs\<lparr>cs_privValidator := Some (pv, fs)\<rparr>))"

definition signAddVote :: "node_env \<Rightarrow> SignedMsgType \<Rightarrow> bytes \<Rightarrow> PartSetHeader \<Rightarrow> ConsensusState \<Rightarrow> ConsensusState cs_result" where
  "signAddVote E msgType hash header cs =
     (case cs_privValidator cs of
        None \<Rightarrow> Inr cs
      | Some (pv, fs) \<Rightarrow>
          if \<not> HasAddress (cs_address E pv) (rs_Validators cs) then Inr cs
          else and_then (cs_signVote E msgType hash header pv fs cs) (\<lambda>(vote, cs).
            Inr (case vote of None \<Rightarrow> cs | Some v \<Rightarrow> sendInternalMessage (VoteMessage v) cs)))"

definition nil_header :: PartSetHeader where
  "nil_header = \<lparr>psh_Total = 0, psh_Hash = []\<rparr>"

section \<open>Proposing\<close>

definition isProposer :: "bytes \<Rightarrow> ConsensusState \<Rightarrow> (bool \<times> ConsensusState) cs_result" where
  "isProposer address cs =
     and_then (dies ''GetProposer'' (GetProposer (rs_Validators cs))) (\<lambda>(proposer, vals).
     and_then (must proposer) (\<lambda>p. Inr (val_Address p = address, cs\<lparr>rs_Validators := vals\<rparr>)))"

definition isProposalComplete :: "ConsensusState \<Rightarrow> bool cs_result" where
  "isProposalComplete cs =
     (case (rs_Proposal cs, rs_ProposalBlock cs) of
        (Some p, Some _) \<Rightarrow>
          if p_POLRound p < 0 then Inr True
          else and_then (prevotes_of (p_POLRound p) cs) (\<lambda>prevotes. Inr (HasTwoThirdsMajority prevotes))
      | _ \<Rightarrow> Inr False)"

definition createProposalBlock :: "node_env \<Rightarrow> ConsensusState \<Rightarrow> (Block \<times> PartSet option) option cs_result" where
  "createProposalBlock E cs =
     and_then
       (if rs_Height cs = 1 then Inr (Some (NewCommit 0 0 nil_BlockID []))
        else case rs_LastCommit cs of
          None \<Rightarrow> Inr None
        | Some lc \<Rightarrow> if HasTwoThirdsMajority (Some lc) then and_then (dies ''MakeCommit'' (MakeCommit lc)) (\<lambda>c. Inr (Some c)) else Inr None)
       (\<lambda>commit.
     case commit of
       None \<Rightarrow> Inr None
     | Some c \<Rightarrow>
         (case cs_privValidator cs of
            None \<Rightarrow> Inl (Panic ''entered createProposalBlock with privValidator being nil'')
          | Some (pv, _) \<Rightarrow>
              and_then (must (cs_state cs)) (\<lambda>state.
              and_then (dies ''CreateProposalBlock'' (CreateProposalBlock (ne_enc E) (ne_marshal E) (ne_crypto E) (ne_H E) (ne_app E) (cs_db cs)
                (rs_Height cs) state c (cs_address E pv))) (\<lambda>r. Inr (Some r)))))"

fun send_parts :: "PartSet \<Rightarrow> int list \<Rightarrow> ConsensusState \<Rightarrow> ConsensusState cs_result" where
  "send_parts ps [] cs = Inr cs"
| "send_parts ps (i # is) cs =
     and_then (lift_fault ErrCsPart (GetPart i ps)) (\<lambda>part.
     send_parts ps is (sendInternalMessage (BlockPartMessage (rs_Height cs) (rs_Round cs) part) cs))"

definition defaultDecideProposal :: "node_env \<Rightarrow> int64 \<Rightarrow> int32 \<Rightarrow> ConsensusState \<Rightarrow> ConsensusState cs_result" where
  "defaultDecideProposal E height rnd cs =
     and_then (case rs_ValidBlock cs of
         Some b \<Rightarrow> Inr (Some (b, part_set cs (rs_ValidBlockParts cs)))
       | None \<Rightarrow> createProposalBlock E cs) (\<lambda>proposed.
     case proposed of
       None \<Rightarrow> Inr cs
     | Some (block, blockParts) \<Rightarrow>
         and_then (block_hash E (Some block)) (\<lambda>hash.
         case Now E cs of (now, cs) \<Rightarrow>
         let proposal = \<lparr>p_Type = ProposalType, p_Height = height, p_Round = rnd, p_POLRound = rs_ValidRound cs,
               p_BlockID = \<lparr>bid_Hash = hash, bid_PartSetHeader = PartSet_Header blockParts\<rparr>, p_Timestamp = now, p_Signature = []\<rparr> in
         and_then (must (cs_privValidator cs)) (\<lambda>(pv, fs).
         and_then (must (cs_state cs)) (\<lambda>state.
         case signProposal (ne_pv E) (ne_write_ok E) (ne_clock E (cs_ticks cs)) (st_ChainID state) proposal pv fs of
           Inl (Panic s) \<Rightarrow> Inl (Panic s)
         | Inl (Err _) \<Rightarrow> Inr cs
         | Inr (p, pv, fs) \<Rightarrow>
             let cs = sendInternalMessage (ProposalMessage (proposal\<lparr>p_Signature := p_Signature p\<rparr>)) (cs\<lparr>cs_privValidator := Some (pv, fs)\<rparr>) in
             and_then (must blockParts) (\<lambda>ps. send_parts ps [0..int (ps_total ps) - 1] cs)))))"

section \<open>Prevoting\<close>

definition defaultDoPrevote :: "node_env \<Rightarrow> int64 \<Rightarrow> int32 \<Rightarrow> ConsensusState \<Rightarrow> ConsensusState cs_result" where
  "defaultDoPrevote E height rnd cs =
     (case rs_LockedBlock cs of
        Some b \<Rightarrow> and_then (block_hash E (Some b)) (\<lambda>hash. signAddVote E PrevoteType hash (PartSet_Header (part_set cs (rs_LockedBlockParts cs))) cs)
      | None \<Rightarrow>
          (case rs_ProposalBlock cs of
             None \<Rightarrow> signAddVote E PrevoteType [] nil_header cs
           | Some b \<Rightarrow>
               and_then (valid_block E (Some b) cs) (\<lambda>ok.
               if \<not> ok then signAddVote E PrevoteType [] nil_header cs
               else and_then (block_hash E (Some b)) (\<lambda>hash.
                 signAddVote E PrevoteType hash (PartSet_Header (part_set cs (rs_ProposalBlockParts cs))) cs))))"

definition enterPrevote :: "node_env \<Rightarrow> int64 \<Rightarrow> int32 \<Rightarrow> ConsensusState \<Rightarrow> ConsensusState cs_result" where
  "enterPrevote E height rnd cs =
     (if rs_Height cs \<noteq> height \<or> rnd < rs_Round cs \<or> (rs_Round cs = rnd \<and> RoundStepPrevote \<le> rs_Step cs) then Inr cs
      else and_then (defaultDoPrevote E height rnd cs) (\<lambda>cs. Inr (newStep (updateRoundStep rnd RoundStepPrevote cs))))"

definition propose :: "node_env \<Rightarrow> int64 \<Rightarrow> int32 \<Rightarrow> ConsensusState \<Rightarrow> ConsensusState cs_result" where
  "propose E height rnd cs =
     (case cs_privValidator cs of
        None \<Rightarrow> Inr cs
      | Some (pv, _) \<Rightarrow>
          if \<not> HasAddress (cs_address E pv) (rs_Validators cs) then Inr cs
          else and_then (isProposer (cs_address E pv) cs) (\<lambda>(mine, cs).
            if mine then defaultDecideProposal E height rnd cs else Inr cs))"

definition enterPropose :: "node_env \<Rightarrow> int64 \<Rightarrow> int32 \<Rightarrow> ConsensusState \<Rightarrow> ConsensusState cs_result" where
  "enterPropose E height rnd cs =
     (if rs_Height cs \<noteq> height \<or> rnd < rs_Round cs \<or> (rs_Round cs = rnd \<and> RoundStepPropose \<le> rs_Step cs) then Inr cs
      else and_then (propose E height rnd (scheduleTimeout (cfg_Propose (ne_config E) rnd) height rnd RoundStepPropose cs)) (\<lambda>cs.
        let cs = newStep (updateRoundStep rnd RoundStepPropose cs) in
        and_then (isProposalComplete cs) (\<lambda>complete. if complete then enterPrevote E height (rs_Round cs) cs else Inr cs)))"

definition reset_round :: "int32 \<Rightarrow> ValidatorSet \<Rightarrow> ConsensusState \<Rightarrow> ConsensusState" where
  "reset_round rnd validators cs =
     (let cs = (updateRoundStep rnd RoundStepNewRound cs)\<lparr>rs_Validators := validators\<rparr>
      in if rnd = 0 then cs else cs\<lparr>rs_Proposal := None, rs_ProposalBlock := None, rs_ProposalBlockParts := None\<rparr>)"

text \<open>The event that announces the round names the proposer, which is looked up for it.\<close>

definition start_round :: "node_env \<Rightarrow> int64 \<Rightarrow> int32 \<Rightarrow> HeightVoteSet \<Rightarrow> ConsensusState \<Rightarrow> ConsensusState cs_result" where
  "start_round E height rnd votes cs =
     and_then (isProposer [] (cs\<lparr>rs_Votes := Some votes, rs_TriggeredTimeoutPrecommit := False\<rparr>)) (\<lambda>(_, cs).
     if WaitForTxs (ne_config E) \<and> rnd = 0 \<and> height > 1
     then Inr (if cfg_CreateEmptyBlocksInterval (ne_config E) > 0
       then scheduleTimeout (cfg_CreateEmptyBlocksInterval (ne_config E)) height rnd RoundStepNewRound cs else cs)
     else enterPropose E height rnd cs)"

definition enterNewRound :: "node_env \<Rightarrow> int64 \<Rightarrow> int32 \<Rightarrow> ConsensusState \<Rightarrow> ConsensusState cs_result" where
  "enterNewRound E height rnd cs =
     (if rs_Height cs \<noteq> height \<or> rnd < rs_Round cs \<or> (rs_Round cs = rnd \<and> rs_Step cs \<noteq> RoundStepNewHeight) then Inr cs
      else case Now E cs of (_, cs) \<Rightarrow>
        and_then
          (if rs_Round cs < rnd
           then and_then (dies ''SafeSubInt32'' (SafeSubInt32 rnd (rs_Round cs))) (\<lambda>d. dies ''IncrementProposerPriority'' (IncrementProposerPriority d (rs_Validators cs)))
           else Inr (rs_Validators cs)) (\<lambda>validators.
        let cs = reset_round rnd validators cs in
        and_then (dies ''SafeAddInt32'' (SafeAddInt32 rnd 1)) (\<lambda>r1.
        and_then (must (rs_Votes cs)) (\<lambda>votes.
        and_then (lift_fault ErrCsVotes (SetRound r1 votes)) (\<lambda>votes. start_round E height rnd votes cs)))))"

definition enterPrevoteWait :: "node_env \<Rightarrow> int64 \<Rightarrow> int32 \<Rightarrow> ConsensusState \<Rightarrow> ConsensusState cs_result" where
  "enterPrevoteWait E height rnd cs =
     (if rs_Height cs \<noteq> height \<or> rnd < rs_Round cs \<or> (rs_Round cs = rnd \<and> RoundStepPrevoteWait \<le> rs_Step cs) then Inr cs
      else and_then (prevotes_of rnd cs) (\<lambda>prevotes.
        and_then (dies ''HasTwoThirdsAny'' (HasTwoThirdsAny prevotes)) (\<lambda>any.
        if \<not> any then Inl (Panic ''enterPrevoteWait, but Prevotes does not have any +2/3 votes'')
        else Inr (newStep (updateRoundStep rnd RoundStepPrevoteWait
          (scheduleTimeout (cfg_Prevote (ne_config E) rnd) height rnd RoundStepPrevoteWait cs))))))"

section \<open>Precommitting\<close>

definition unlock :: "ConsensusState \<Rightarrow> ConsensusState" where
  "unlock cs = cs\<lparr>rs_LockedRound := -1, rs_LockedBlock := None, rs_LockedBlockParts := None\<rparr>"

definition precommit :: "node_env \<Rightarrow> int64 \<Rightarrow> int32 \<Rightarrow> ConsensusState \<Rightarrow> ConsensusState cs_result" where
  "precommit E height rnd cs =
     and_then (must (rs_Votes cs)) (\<lambda>votes.
     case TwoThirdsMajority (Prevotes rnd votes) of (blockID, ok) \<Rightarrow>
     if \<not> ok then signAddVote E PrecommitType [] nil_header cs
     else if fst (POLInfo votes) < rnd then Inl (Panic ''This POLRound should be different'')
     else if bid_Hash blockID = [] then signAddVote E PrecommitType [] nil_header (if rs_LockedBlock cs = None then cs else unlock cs)
     else and_then (hashes_to E (bid_Hash blockID) (rs_LockedBlock cs)) (\<lambda>locked.
       if locked then signAddVote E PrecommitType (bid_Hash blockID) (bid_PartSetHeader blockID) (cs\<lparr>rs_LockedRound := rnd\<rparr>)
       else and_then (hashes_to E (bid_Hash blockID) (rs_ProposalBlock cs)) (\<lambda>proposed.
         if proposed
         then and_then (valid_block E (rs_ProposalBlock cs) cs) (\<lambda>valid.
           if \<not> valid then Inl (Panic ''enterPrecommit: +2/3 prevoted for an invalid block'')
           else signAddVote E PrecommitType (bid_Hash blockID) (bid_PartSetHeader blockID)
             (cs\<lparr>rs_LockedRound := rnd, rs_LockedBlock := rs_ProposalBlock cs, rs_LockedBlockParts := rs_ProposalBlockParts cs\<rparr>))
         else
           let cs = unlock cs;
               cs = (if PartSet_HasHeader (part_set cs (rs_ProposalBlockParts cs)) (bid_PartSetHeader blockID) then cs
                     else new_parts (bid_PartSetHeader blockID) (cs\<lparr>rs_ProposalBlock := None\<rparr>))
           in signAddVote E PrecommitType [] nil_header cs)))"

definition enterPrecommit :: "node_env \<Rightarrow> int64 \<Rightarrow> int32 \<Rightarrow> ConsensusState \<Rightarrow> ConsensusState cs_result" where
  "enterPrecommit E height rnd cs =
     (if rs_Height cs \<noteq> height \<or> rnd < rs_Round cs \<or> (rs_Round cs = rnd \<and> RoundStepPrecommit \<le> rs_Step cs) then Inr cs
      else and_then (precommit E height rnd cs) (\<lambda>cs. Inr (newStep (updateRoundStep rnd RoundStepPrecommit cs))))"

definition savePOLC :: "node_env \<Rightarrow> int32 \<Rightarrow> BlockID \<Rightarrow> ConsensusState \<Rightarrow> ConsensusState cs_result" where
  "savePOLC E rnd blockID cs =
     (if rnd = 0 then Inr cs
      else and_then (must (cs_privValidator cs)) (\<lambda>(pv, _).
        and_then (prevotes_of rnd cs) (\<lambda>prevotes.
        case NewPOLCFromVoteSet (ne_crypto E) prevotes (Some (pvk_PubKey (pv_Key pv))) blockID of
          Inl (Panic s) \<Rightarrow> Inl (Panic s)
        | Inl (Err _) \<Rightarrow> Inr cs
        | Inr polc \<Rightarrow> Inr (cs\<lparr>cs_evpool := cs_evpool cs @ [AddPOLC polc]\<rparr>))))"

definition enterPrecommitWait :: "node_env \<Rightarrow> int64 \<Rightarrow> int32 \<Rightarrow> ConsensusState \<Rightarrow> ConsensusState cs_result" where
  "enterPrecommitWait E height rnd cs =
     (if rs_Height cs \<noteq> height \<or> rnd < rs_Round cs \<or> (rs_Round cs = rnd \<and> rs_TriggeredTimeoutPrecommit cs) then Inr cs
      else and_then (precommits_of rnd cs) (\<lambda>precommits.
        and_then (dies ''HasTwoThirdsAny'' (HasTwoThirdsAny precommits)) (\<lambda>any.
        if \<not> any then Inl (Panic ''enterPrecommitWait, but Precommits does not have any +2/3 votes'')
        else Inr (newStep ((scheduleTimeout (cfg_Precommit (ne_config E) rnd) height rnd RoundStepPrecommitWait cs)
          \<lparr>rs_TriggeredTimeoutPrecommit := True\<rparr>)))))"

section \<open>Committing\<close>

definition pruneBlocks :: "node_env \<Rightarrow> int64 \<Rightarrow> ConsensusState \<Rightarrow> ConsensusState cs_result" where
  "pruneBlocks E retainHeight cs =
     (let base = bs_base (cs_blockStore cs) in
      if retainHeight \<le> base then Inr cs
      else case PruneBlocks (ne_crypto E) (ne_H E) retainHeight (cs_blockStore cs) of
        Inl (Panic s) \<Rightarrow> Inl (Panic s)
      | Inl (Err _) \<Rightarrow> Inr cs
      | Inr (_, blockStore) \<Rightarrow>
          let cs = cs\<lparr>cs_blockStore := blockStore\<rparr> in
          (case PruneStates (cs_db cs) base retainHeight of
             Inl (Panic s) \<Rightarrow> Inl (Panic s)
           | Inl (Err _) \<Rightarrow> Inr cs
           | Inr db \<Rightarrow> Inr (cs\<lparr>cs_db := db\<rparr>)))"

definition recordMetrics :: "node_env \<Rightarrow> int64 \<Rightarrow> Block \<Rightarrow> ConsensusState \<Rightarrow> unit cs_result" where
  "recordMetrics E height block cs =
     and_then (dies ''TotalVotingPower'' (TotalVotingPower (rs_Validators cs))) (\<lambda>_.
     if height > 1 \<and> Commit_Size (b_LastCommit block) \<noteq> length (vs_Validators (rs_LastValidators cs))
     then Inl (Panic ''commit size doesn't match valset length'')
     else and_then (dies ''Address'' (all_results Evidence_Address (ed_Evidence (b_Evidence block)))) (\<lambda>_.
       if height > 1 then and_then (dies ''LoadBlockMeta'' (LoadBlockMeta (ne_crypto E) (ne_H E) (cs_blockStore cs) (wrap64 (height - 1)))) (\<lambda>_. Inr ())
       else Inr ()))"

text \<open>
  The part of \<^verbatim>\<open>finalizeCommit\<close> after its checks. When \<^verbatim>\<open>ApplyBlock\<close> returns an error, the responses of the application
  that it may have saved before are not in the database of the result; nothing reads them until the block is applied again, which writes them again.
\<close>

definition commit_block :: "node_env \<Rightarrow> int64 \<Rightarrow> Block \<Rightarrow> PartSet option \<Rightarrow> VoteSet option \<Rightarrow> ConsensusState \<Rightarrow> ConsensusState cs_result" where
  "commit_block E height block blockParts precommits cs =
     and_then
       (if bs_height (cs_blockStore cs) < h_Height (b_Header block)
        then and_then (must precommits) (\<lambda>pc.
          and_then (dies ''MakeCommit'' (MakeCommit pc)) (\<lambda>seenCommit.
          lift_fault ErrCsStore (SaveBlock (ne_marshal E) (ne_enc E) (ne_crypto E) (ne_H E) (Some block) blockParts (Some seenCommit) (cs_blockStore cs))))
        else Inr (cs_blockStore cs)) (\<lambda>blockStore.
     let cs = cs\<lparr>cs_blockStore := blockStore, cs_wal := cs_wal cs @ [EndHeightMessage height]\<rparr> in
     and_then (block_hash E (Some block)) (\<lambda>hash.
     and_then (must (cs_state cs)) (\<lambda>state.
     case ApplyBlock (ne_enc E) (ne_crypto E) (ne_H E) (ne_app E) (ne_pool E) state
         \<lparr>bid_Hash = hash, bid_PartSetHeader = PartSet_Header blockParts\<rparr> (Some block) (cs_db cs) of
       Inl (Panic s) \<Rightarrow> Inl (Panic s)
     | Inl (Err _) \<Rightarrow> Inr cs
     | Inr (stateCopy, retainHeight, _, db) \<Rightarrow>
         let cs = cs\<lparr>cs_db := db\<rparr> in
         and_then (if retainHeight > 0 then pruneBlocks E retainHeight cs else Inr cs) (\<lambda>cs.
         and_then (recordMetrics E height block cs) (\<lambda>_.
         and_then (updateToState E stateCopy cs) (\<lambda>cs. Inr (scheduleRound0 E cs)))))))"

definition finalizeCommit :: "node_env \<Rightarrow> int64 \<Rightarrow> ConsensusState \<Rightarrow> ConsensusState cs_result" where
  "finalizeCommit E height cs =
     (if rs_Height cs \<noteq> height \<or> rs_Step cs \<noteq> RoundStepCommit then Inr cs
      else and_then (precommits_of (rs_CommitRound cs) cs) (\<lambda>precommits.
        case TwoThirdsMajority precommits of (blockID, ok) \<Rightarrow>
        let blockParts = part_set cs (rs_ProposalBlockParts cs) in
        if \<not> ok then Inl (Panic ''Cannot finalizeCommit, commit does not have two thirds majority'')
        else if \<not> PartSet_HasHeader blockParts (bid_PartSetHeader blockID) then Inl (Panic ''Expected ProposalBlockParts header to be commit header'')
        else and_then (hashes_to E (bid_Hash blockID) (rs_ProposalBlock cs)) (\<lambda>same.
        if \<not> same then Inl (Panic ''Cannot finalizeCommit, ProposalBlock does not hash to commit hash'')
        else and_then (valid_block E (rs_ProposalBlock cs) cs) (\<lambda>valid.
        if \<not> valid then Inl (Panic ''+2/3 committed an invalid block'')
        else and_then (must (rs_ProposalBlock cs)) (\<lambda>block. commit_block E height block blockParts precommits cs)))))"

definition tryFinalizeCommit :: "node_env \<Rightarrow> int64 \<Rightarrow> ConsensusState \<Rightarrow> ConsensusState cs_result" where
  "tryFinalizeCommit E height cs =
     (if rs_Height cs \<noteq> height then Inl (Panic ''tryFinalizeCommit() cs.Height vs height'')
      else and_then (precommits_of (rs_CommitRound cs) cs) (\<lambda>precommits.
        case TwoThirdsMajority precommits of (blockID, ok) \<Rightarrow>
        if \<not> ok \<or> bid_Hash blockID = [] then Inr cs
        else and_then (hashes_to E (bid_Hash blockID) (rs_ProposalBlock cs)) (\<lambda>same.
          if \<not> same then Inr cs else finalizeCommit E height cs)))"

definition prepare_commit :: "node_env \<Rightarrow> int32 \<Rightarrow> ConsensusState \<Rightarrow> ConsensusState cs_result" where
  "prepare_commit E commitRound cs =
     and_then (precommits_of commitRound cs) (\<lambda>precommits.
     case TwoThirdsMajority precommits of (blockID, ok) \<Rightarrow>
     if \<not> ok then Inl (Panic ''RunActionCommit() expects +2/3 precommits'')
     else and_then (hashes_to E (bid_Hash blockID) (rs_LockedBlock cs)) (\<lambda>locked.
       let cs = (if locked then cs\<lparr>rs_ProposalBlock := rs_LockedBlock cs, rs_ProposalBlockParts := rs_LockedBlockParts cs\<rparr> else cs) in
       and_then (hashes_to E (bid_Hash blockID) (rs_ProposalBlock cs)) (\<lambda>same.
       Inr (if same \<or> PartSet_HasHeader (part_set cs (rs_ProposalBlockParts cs)) (bid_PartSetHeader blockID) then cs
            else new_parts (bid_PartSetHeader blockID) (cs\<lparr>rs_ProposalBlock := None\<rparr>)))))"

definition enterCommit :: "node_env \<Rightarrow> int64 \<Rightarrow> int32 \<Rightarrow> ConsensusState \<Rightarrow> ConsensusState cs_result" where
  "enterCommit E height commitRound cs =
     (if rs_Height cs \<noteq> height \<or> RoundStepCommit \<le> rs_Step cs then Inr cs
      else and_then (prepare_commit E commitRound cs) (\<lambda>cs.
        case Now E ((updateRoundStep (rs_Round cs) RoundStepCommit cs)\<lparr>rs_CommitRound := commitRound\<rparr>) of (now, cs) \<Rightarrow>
        tryFinalizeCommit E height (newStep (cs\<lparr>rs_CommitTime := now\<rparr>))))"

section \<open>Messages and timeouts\<close>

definition defaultSetProposal :: "node_env \<Rightarrow> Proposal \<Rightarrow> ConsensusState \<Rightarrow> (cs_error option \<times> ConsensusState) cs_result" where
  "defaultSetProposal E proposal cs =
     (if rs_Proposal cs \<noteq> None then Inr (None, cs)
      else if p_Height proposal \<noteq> rs_Height cs \<or> p_Round proposal \<noteq> rs_Round cs then Inr (None, cs)
      else if p_POLRound proposal < -1 \<or> (p_POLRound proposal \<ge> 0 \<and> p_POLRound proposal \<ge> p_Round proposal) then Inr (Some ErrInvalidProposalPOLRound, cs)
      else and_then (dies ''GetProposer'' (GetProposer (rs_Validators cs))) (\<lambda>(proposer, vals).
        let cs = cs\<lparr>rs_Validators := vals\<rparr> in
        and_then (must proposer) (\<lambda>p.
        and_then (must (val_PubKey p)) (\<lambda>pk.
        and_then (must (cs_state cs)) (\<lambda>state.
        and_then (dies ''ProposalSignBytes'' (ProposalSignBytes (ne_crypto E) (st_ChainID state) proposal)) (\<lambda>bz.
        if \<not> cr_VerifyBytes (ne_crypto E) pk bz (p_Signature proposal) then Inr (Some ErrInvalidProposalSignature, cs)
        else let cs = cs\<lparr>rs_Proposal := Some proposal\<rparr> in
          Inr (None, if rs_ProposalBlockParts cs = None then new_parts (bid_PartSetHeader (p_BlockID proposal)) cs else cs)))))))"

definition ReadAll :: "bytes \<Rightarrow> bytes list \<Rightarrow> bytes" where
  "ReadAll cur rest = fst (PartSetReader_Read cur rest (Suc (length (cur @ concat rest))))"

definition decode_block :: "node_env \<Rightarrow> PartSet \<Rightarrow> ConsensusState \<Rightarrow> Block cs_result" where
  "decode_block E ps cs =
     and_then (lift_fault ErrCsPart (GetReader ps)) (\<lambda>(cur, rest).
     case ne_unmarshal E (ReadAll cur rest) of
       None \<Rightarrow> Inl (Err ErrUnmarshal)
     | Some pbb \<Rightarrow> lift_fault ErrCsBlock (BlockFromProto (ne_enc E) (ne_crypto E) (ne_H E) (Some pbb)))"

definition received_block :: "node_env \<Rightarrow> int64 \<Rightarrow> Block \<Rightarrow> ConsensusState \<Rightarrow> ConsensusState cs_result" where
  "received_block E height block cs =
     (let cs = cs\<lparr>rs_ProposalBlock := Some block\<rparr> in
      and_then (prevotes_of (rs_Round cs) cs) (\<lambda>prevotes.
      case TwoThirdsMajority prevotes of (blockID, hasTwoThirds) \<Rightarrow>
      and_then
        (if hasTwoThirds \<and> \<not> BlockID_IsZero blockID \<and> rs_ValidRound cs < rs_Round cs
         then and_then (hashes_to E (bid_Hash blockID) (rs_ProposalBlock cs)) (\<lambda>same.
           Inr (if same then cs\<lparr>rs_ValidRound := rs_Round cs, rs_ValidBlock := rs_ProposalBlock cs, rs_ValidBlockParts := rs_ProposalBlockParts cs\<rparr> else cs))
         else Inr cs) (\<lambda>cs.
      and_then (if rs_Step cs \<le> RoundStepPropose then isProposalComplete cs else Inr False) (\<lambda>complete.
      if complete
      then and_then (enterPrevote E height (rs_Round cs) cs) (\<lambda>cs.
        if hasTwoThirds then enterPrecommit E height (rs_Round cs) cs else Inr cs)
      else if rs_Step cs = RoundStepCommit then tryFinalizeCommit E height cs
      else Inr cs))))"

definition addProposalBlockPart :: "node_env \<Rightarrow> int64 \<Rightarrow> int32 \<Rightarrow> Part option \<Rightarrow> bytes \<Rightarrow> ConsensusState \<Rightarrow> (bool \<times> cs_error option \<times> ConsensusState) cs_result" where
  "addProposalBlockPart E height rnd part peerID cs =
     (if rs_Height cs \<noteq> height then Inr (False, None, cs)
      else case rs_ProposalBlockParts cs of
        None \<Rightarrow> and_then (must part) (\<lambda>_. Inr (False, None, cs))
      | Some i \<Rightarrow>
          and_then (must part) (\<lambda>pt.
          case AddPart (ne_H E) pt (cs_partSets cs ! i) of
            Inl (Panic s) \<Rightarrow> Inl (Panic s)
          | Inl (Err e) \<Rightarrow> Inr (False, Some (ErrCsPart e), cs)
          | Inr (added, ps) \<Rightarrow>
              let cs = cs\<lparr>cs_partSets := (cs_partSets cs)[i := ps]\<rparr> in
              if \<not> (added \<and> PartSet_IsComplete ps) then Inr (added, None, cs)
              else (case decode_block E ps cs of
                Inl (Panic s) \<Rightarrow> Inl (Panic s)
              | Inl (Err e) \<Rightarrow> Inr (added, Some e, cs)
              | Inr block \<Rightarrow>
                  (case CheckBlock (ne_enc E) (ne_crypto E) (ne_H E) (ne_app E) (cs_db cs) block of
                     Inl (Panic s) \<Rightarrow> Inl (Panic s)
                   | Inl (Err e) \<Rightarrow> Inr (False, Some (ErrCsState e), cs)
                   | Inr block \<Rightarrow> and_then (received_block E height block cs) (\<lambda>cs. Inr (added, None, cs))))))"

definition unlock_on_polka :: "node_env \<Rightarrow> Vote \<Rightarrow> BlockID \<Rightarrow> ConsensusState \<Rightarrow> ConsensusState cs_result" where
  "unlock_on_polka E vote blockID cs =
     (if rs_LockedBlock cs \<noteq> None \<and> rs_LockedRound cs < v_Round vote \<and> v_Round vote \<le> rs_Round cs
      then and_then (hashes_to E (bid_Hash blockID) (rs_LockedBlock cs)) (\<lambda>same.
        if same then Inr cs else savePOLC E (v_Round vote) blockID (unlock cs))
      else Inr cs)"

definition update_valid_block :: "node_env \<Rightarrow> Vote \<Rightarrow> BlockID \<Rightarrow> ConsensusState \<Rightarrow> ConsensusState cs_result" where
  "update_valid_block E vote blockID cs =
     (if bid_Hash blockID \<noteq> [] \<and> rs_ValidRound cs < v_Round vote \<and> v_Round vote = rs_Round cs
      then and_then (hashes_to E (bid_Hash blockID) (rs_ProposalBlock cs)) (\<lambda>same.
        let cs = (if same then cs\<lparr>rs_ValidRound := v_Round vote, rs_ValidBlock := rs_ProposalBlock cs, rs_ValidBlockParts := rs_ProposalBlockParts cs\<rparr>
                  else cs\<lparr>rs_ProposalBlock := None\<rparr>) in
        Inr (if PartSet_HasHeader (part_set cs (rs_ProposalBlockParts cs)) (bid_PartSetHeader blockID) then cs
             else new_parts (bid_PartSetHeader blockID) cs))
      else Inr cs)"

definition added_prevote :: "node_env \<Rightarrow> int64 \<Rightarrow> Vote \<Rightarrow> ConsensusState \<Rightarrow> ConsensusState cs_result" where
  "added_prevote E height vote cs =
     and_then (prevotes_of (v_Round vote) cs) (\<lambda>prevotes.
     case TwoThirdsMajority prevotes of (blockID, ok) \<Rightarrow>
     and_then (if ok then and_then (unlock_on_polka E vote blockID cs) (update_valid_block E vote blockID) else Inr cs) (\<lambda>cs.
     and_then (if rs_Round cs < v_Round vote then dies ''HasTwoThirdsAny'' (HasTwoThirdsAny prevotes) else Inr False) (\<lambda>skip.
     if skip then enterNewRound E height (v_Round vote) cs
     else if rs_Round cs = v_Round vote \<and> RoundStepPrevote \<le> rs_Step cs
     then and_then (isProposalComplete cs) (\<lambda>complete.
       if ok \<and> (complete \<or> bid_Hash blockID = []) then enterPrecommit E height (v_Round vote) cs
       else and_then (dies ''HasTwoThirdsAny'' (HasTwoThirdsAny prevotes)) (\<lambda>any.
         if any then enterPrevoteWait E height (v_Round vote) cs else Inr cs))
     else (case rs_Proposal cs of
         None \<Rightarrow> Inr cs
       | Some p \<Rightarrow>
           if 0 \<le> p_POLRound p \<and> p_POLRound p = v_Round vote
           then and_then (isProposalComplete cs) (\<lambda>complete. if complete then enterPrevote E height (rs_Round cs) cs else Inr cs)
           else Inr cs))))"

definition added_precommit :: "node_env \<Rightarrow> int64 \<Rightarrow> Vote \<Rightarrow> ConsensusState \<Rightarrow> ConsensusState cs_result" where
  "added_precommit E height vote cs =
     and_then (precommits_of (v_Round vote) cs) (\<lambda>precommits.
     case TwoThirdsMajority precommits of (blockID, ok) \<Rightarrow>
     if ok
     then and_then (enterNewRound E height (v_Round vote) cs) (\<lambda>cs.
       and_then (enterPrecommit E height (v_Round vote) cs) (\<lambda>cs.
       if bid_Hash blockID \<noteq> []
       then and_then (enterCommit E height (v_Round vote) cs) (\<lambda>cs.
         if cfg_SkipTimeoutCommit (ne_config E)
         then and_then (must precommits) (\<lambda>pc. and_then (dies ''HasAll'' (VoteSet_HasAll pc)) (\<lambda>all.
           if all then enterNewRound E (rs_Height cs) 0 cs else Inr cs))
         else Inr cs)
       else enterPrecommitWait E height (v_Round vote) cs))
     else and_then (if rs_Round cs \<le> v_Round vote then dies ''HasTwoThirdsAny'' (HasTwoThirdsAny precommits) else Inr False) (\<lambda>any.
       if any
       then and_then (enterNewRound E height (v_Round vote) cs) (enterPrecommitWait E height (v_Round vote))
       else Inr cs))"

definition late_precommit :: "node_env \<Rightarrow> Vote \<Rightarrow> ConsensusState \<Rightarrow> (bool \<times> hvs_error option \<times> ConsensusState) cs_result" where
  "late_precommit E vote cs =
     (if rs_Step cs \<noteq> RoundStepNewHeight then Inr (False, None, cs)
      else and_then (lift_fault (\<lambda>e. ErrCsVotes (ErrVoteSet e)) (AddVote (ne_crypto E) (rs_LastCommit cs) (Some vote))) (\<lambda>(added, err, lastCommit).
        let cs = cs\<lparr>rs_LastCommit := Some lastCommit\<rparr>; err = map_option ErrVoteSet err in
        if \<not> added then Inr (added, err, cs)
        else if cfg_SkipTimeoutCommit (ne_config E)
        then and_then (dies ''HasAll'' (VoteSet_HasAll lastCommit)) (\<lambda>all.
          and_then (if all then enterNewRound E (rs_Height cs) 0 cs else Inr cs) (\<lambda>cs. Inr (added, err, cs)))
        else Inr (added, err, cs)))"

definition cs_addVote :: "node_env \<Rightarrow> Vote \<Rightarrow> bytes \<Rightarrow> ConsensusState \<Rightarrow> (bool \<times> hvs_error option \<times> ConsensusState) cs_result" where
  "cs_addVote E vote peerID cs =
     (if wrap64 (v_Height vote + 1) = rs_Height cs \<and> v_Type vote = PrecommitType then late_precommit E vote cs
      else if v_Height vote \<noteq> rs_Height cs then Inr (False, None, cs)
      else and_then (must (rs_Votes cs)) (\<lambda>votes.
        and_then (lift_fault ErrCsVotes (HeightVoteSet_AddVote (ne_crypto E) vote peerID votes)) (\<lambda>(added, err, votes).
        let height = rs_Height cs; cs = cs\<lparr>rs_Votes := Some votes\<rparr> in
        if \<not> added then Inr (added, err, cs)
        else if v_Type vote = PrevoteType then and_then (added_prevote E height vote cs) (\<lambda>cs. Inr (added, err, cs))
        else if v_Type vote = PrecommitType then and_then (added_precommit E height vote cs) (\<lambda>cs. Inr (added, err, cs))
        else Inl (Panic ''Unexpected vote type''))))"

definition tryAddVote :: "node_env \<Rightarrow> Vote \<Rightarrow> bytes \<Rightarrow> ConsensusState \<Rightarrow> (bool \<times> cs_error option \<times> ConsensusState) cs_result" where
  "tryAddVote E vote peerID cs =
     and_then (cs_addVote E vote peerID cs) (\<lambda>(added, err, cs).
     case err of
       None \<Rightarrow> Inr (added, None, cs)
     | Some (ErrVoteSet (ErrVoteConflictingVotes a b)) \<Rightarrow>
         and_then (must (cs_privValidator cs)) (\<lambda>(pv, _).
         if v_ValidatorAddress vote = cs_address E pv then Inr (added, None, cs)
         else Inr (added, None, case NewDuplicateVoteEvidence (Some a) (Some b) of
             None \<Rightarrow> cs
           | Some dve \<Rightarrow> cs\<lparr>cs_evpool := cs_evpool cs @ [AddEvidence (DuplicateVote dve)]\<rparr>))
     | Some (ErrVoteSet ErrVoteNonDeterministicSignature) \<Rightarrow> Inr (added, None, cs)
     | Some _ \<Rightarrow> Inr (added, Some ErrAddingVote, cs))"

definition handleMsg :: "node_env \<Rightarrow> msgInfo \<Rightarrow> ConsensusState \<Rightarrow> ConsensusState cs_result" where
  "handleMsg E mi cs =
     (case mi of (msg, peerID) \<Rightarrow>
        (case msg of
           ProposalMessage p \<Rightarrow> and_then (defaultSetProposal E p cs) (\<lambda>(_, cs). Inr cs)
         | BlockPartMessage height rnd part \<Rightarrow> and_then (addProposalBlockPart E height rnd part peerID cs) (\<lambda>(_, _, cs). Inr cs)
         | VoteMessage vote \<Rightarrow> and_then (tryAddVote E vote peerID cs) (\<lambda>(_, _, cs). Inr cs)))"

definition handleTimeout :: "node_env \<Rightarrow> timeoutInfo \<Rightarrow> ConsensusState \<Rightarrow> ConsensusState cs_result" where
  "handleTimeout E ti cs =
     (if ti_Height ti \<noteq> rs_Height cs \<or> ti_Round ti < rs_Round cs \<or> (ti_Round ti = rs_Round cs \<and> ti_Step ti < rs_Step cs) then Inr cs
      else if ti_Step ti = RoundStepNewHeight then enterNewRound E (ti_Height ti) 0 cs
      else if ti_Step ti = RoundStepNewRound then enterPropose E (ti_Height ti) 0 cs
      else if ti_Step ti = RoundStepPropose then enterPrevote E (ti_Height ti) (ti_Round ti) cs
      else if ti_Step ti = RoundStepPrevoteWait then enterPrecommit E (ti_Height ti) (ti_Round ti) cs
      else if ti_Step ti = RoundStepPrecommitWait
      then and_then (enterPrecommit E (ti_Height ti) (ti_Round ti) cs) (enterNewRound E (ti_Height ti) (wrap32 (ti_Round ti + 1)))
      else Inl (Panic ''Invalid timeout step''))"

definition handleTxsAvailable :: "node_env \<Rightarrow> ConsensusState \<Rightarrow> ConsensusState cs_result" where
  "handleTxsAvailable E cs =
     (if rs_Round cs \<noteq> 0 then Inr cs
      else if rs_Step cs = RoundStepNewRound then enterPropose E (rs_Height cs) 0 cs
      else Inr cs)"

text \<open>
  One turn of \<^verbatim>\<open>receiveRoutine\<close>. A message to itself is taken from any place of the queue, since a full queue is bypassed by a
  goroutine. The last case is the reactor, which passes on what a peer claims about a majority.
\<close>

datatype input =
    PeerMsg msgInfo
  | OwnMsg nat
  | Tock timeoutInfo
  | TxsAvailable
  | VoteSetMaj23 int64 int32 SignedMsgType bytes BlockID

definition wal_Write :: "WALMessage \<Rightarrow> ConsensusState \<Rightarrow> ConsensusState" where
  "wal_Write m cs = cs\<lparr>cs_wal := cs_wal cs @ [m]\<rparr>"

definition receive :: "node_env \<Rightarrow> input \<Rightarrow> ConsensusState \<Rightarrow> ConsensusState cs_result" where
  "receive E inp cs =
     (case inp of
        PeerMsg mi \<Rightarrow> handleMsg E mi (wal_Write (WALMsgInfo mi) cs)
      | OwnMsg k \<Rightarrow>
          (if length (cs_internalMsgQueue cs) \<le> k then Inr cs
           else let q = cs_internalMsgQueue cs; mi = q ! k in
             handleMsg E mi (wal_Write (WALMsgInfo mi) (cs\<lparr>cs_internalMsgQueue := take k q @ drop (Suc k) q\<rparr>)))
      | Tock ti \<Rightarrow> handleTimeout E ti (wal_Write (WALTimeoutInfo ti) cs)
      | TxsAvailable \<Rightarrow> handleTxsAvailable E cs
      | VoteSetMaj23 height rnd t peerID blockID \<Rightarrow>
          (if rs_Height cs \<noteq> height then Inr cs
           else and_then (must (rs_Votes cs)) (\<lambda>votes.
             and_then (lift_fault ErrCsVotes (HeightVoteSet_SetPeerMaj23 rnd t peerID blockID votes)) (\<lambda>(_, votes). Inr (cs\<lparr>rs_Votes := Some votes\<rparr>)))))"

end
