(* ===== verification/Consensus_Locking.thy ===== *)
theory Consensus_Locking
  imports Consensus_State
begin

text \<open>
  What a node votes for. The lemmas follow one node through the handlers of \<^verbatim>\<open>consensus/state.go\<close> at one height and keep an invariant that
  ties its own votes to its lock and to the majorities it has seen: a precommit for a block has
  a majority of prevotes for it in its round, and a later prevote for something else is
  justified by a later majority of prevotes for something else. Agreement of the nodes rests on this alone.
\<close>

section \<open>Results of handlers\<close>

text \<open>The result satisfies a predicate whenever the call returns.\<close>

definition whenever :: "('a \<Rightarrow> bool) \<Rightarrow> ('e, 'a) result \<Rightarrow> bool" where
  "whenever P r \<longleftrightarrow> (case r of Inl _ \<Rightarrow> True | Inr x \<Rightarrow> P x)"

lemma whenever_simps [simp]:
  "whenever P (Inl e)" "whenever P (Inr x) = P x"
  "whenever P (and_then r k) = whenever (\<lambda>x. whenever P (k x)) r"
  "whenever (\<lambda>_. True) r"
  by (auto simp: whenever_def and_then_def split: sum.splits)

lemma whenever_if [simp]: "whenever P (if c then r else s) \<longleftrightarrow> (c \<longrightarrow> whenever P r) \<and> (\<not> c \<longrightarrow> whenever P s)"
  by simp

lemma whenever_prod [simp]: "whenever P (case x of (a, b) \<Rightarrow> f a b) = (case x of (a, b) \<Rightarrow> whenever P (f a b))"
  by (cases x) simp

lemma wheneverI: "(\<And>x. r = Inr x \<Longrightarrow> P x) \<Longrightarrow> whenever P r"
  by (cases r) auto

lemma whenever_all: "(\<And>x. P x) \<Longrightarrow> whenever P r"
  by (cases r) auto

lemma wheneverD: "whenever P r \<Longrightarrow> r = Inr x \<Longrightarrow> P x"
  by simp

lemma whenever_mono: "whenever P r \<Longrightarrow> (\<And>x. P x \<Longrightarrow> Q x) \<Longrightarrow> whenever Q r"
  by (cases r) auto

lemma whenever_bool: "whenever P r \<longleftrightarrow> (r = Inr True \<longrightarrow> P True) \<and> (r = Inr False \<longrightarrow> P False)"
  by (cases r) (auto, metis (full_types))

lemma whenever_bind: "whenever P r \<Longrightarrow> (\<And>x. P x \<Longrightarrow> whenever Q (k x)) \<Longrightarrow> whenever Q (and_then r k)"
  by (cases r) auto

lemma whenever_lift [simp]: "whenever P (lift_fault f r) = whenever P r" "whenever P (dies s r) = whenever P r"
  by (auto simp: whenever_def lift_fault_def dies_def split: sum.splits fault.splits)

lemma whenever_must [simp]: "whenever P (must p) \<longleftrightarrow> (\<forall>x. p = Some x \<longrightarrow> P x)"
  by (cases p) (auto simp: must_def)

section \<open>The part of the state that matters\<close>

definition voted :: "ConsensusState \<Rightarrow> Vote set" where
  "voted cs = {v. \<exists>p. (VoteMessage v, p) \<in> set (cs_internalMsgQueue cs)}"

definition place :: "ConsensusState \<Rightarrow> int64 \<times> int32 \<times> RoundStepType \<times> int32 \<times> Block option \<times> HeightVoteSet option \<times> timeoutInfo list \<times> State option" where
  "place cs = (rs_Height cs, rs_Round cs, rs_Step cs, rs_LockedRound cs, rs_LockedBlock cs, rs_Votes cs, cs_timeouts cs, cs_state cs)"

definition still :: "ConsensusState \<Rightarrow> ConsensusState \<Rightarrow> bool" where
  "still cs cs' \<longleftrightarrow> place cs' = place cs \<and> voted cs' = voted cs"

lemma still_refl [simp]: "still cs cs"
  by (simp add: still_def)

lemma still_trans: "still a b \<Longrightarrow> still b c \<Longrightarrow> still a c"
  by (simp add: still_def)

text \<open>Updates of fields that do not matter.\<close>

lemma still_fields [simp]:
  "still cs (cs'\<lparr>rs_StartTime := a\<rparr>) = still cs cs'" "still cs (cs'\<lparr>rs_CommitTime := a\<rparr>) = still cs cs'"
  "still cs (cs'\<lparr>rs_Validators := vs\<rparr>) = still cs cs'" "still cs (cs'\<lparr>rs_Proposal := p\<rparr>) = still cs cs'"
  "still cs (cs'\<lparr>rs_ProposalBlock := b\<rparr>) = still cs cs'" "still cs (cs'\<lparr>rs_ProposalBlockParts := q\<rparr>) = still cs cs'"
  "still cs (cs'\<lparr>rs_LockedBlockParts := q\<rparr>) = still cs cs'" "still cs (cs'\<lparr>rs_ValidRound := r\<rparr>) = still cs cs'"
  "still cs (cs'\<lparr>rs_ValidBlock := b\<rparr>) = still cs cs'" "still cs (cs'\<lparr>rs_ValidBlockParts := q\<rparr>) = still cs cs'"
  "still cs (cs'\<lparr>rs_CommitRound := r\<rparr>) = still cs cs'" "still cs (cs'\<lparr>rs_LastCommit := lc\<rparr>) = still cs cs'"
  "still cs (cs'\<lparr>rs_LastValidators := vs\<rparr>) = still cs cs'" "still cs (cs'\<lparr>rs_TriggeredTimeoutPrecommit := t\<rparr>) = still cs cs'"
  "still cs (cs'\<lparr>cs_db := db\<rparr>) = still cs cs'" "still cs (cs'\<lparr>cs_blockStore := bs\<rparr>) = still cs cs'"
  "still cs (cs'\<lparr>cs_privValidator := pv\<rparr>) = still cs cs'" "still cs (cs'\<lparr>cs_evpool := ev\<rparr>) = still cs cs'"
  "still cs (cs'\<lparr>cs_wal := w\<rparr>) = still cs cs'" "still cs (cs'\<lparr>cs_nSteps := n\<rparr>) = still cs cs'"
  "still cs (cs'\<lparr>cs_partSets := ps\<rparr>) = still cs cs'" "still cs (cs'\<lparr>cs_ticks := n\<rparr>) = still cs cs'"
  by (simp_all add: still_def place_def voted_def)

lemma voted_send [simp]:
  "voted (sendInternalMessage (VoteMessage v) cs) = insert v (voted cs)"
  "voted (sendInternalMessage (ProposalMessage p) cs) = voted cs"
  "voted (sendInternalMessage (BlockPartMessage h r q) cs) = voted cs"
  by (auto simp: voted_def sendInternalMessage_def)

lemma place_send [simp]: "place (sendInternalMessage m cs) = place cs"
  by (simp add: place_def sendInternalMessage_def)

lemma still_send [simp]:
  "still cs (sendInternalMessage (ProposalMessage p) cs') = still cs cs'"
  "still cs (sendInternalMessage (BlockPartMessage h r q) cs') = still cs cs'"
  by (simp_all add: still_def)

lemma still_small [simp]:
  "still cs (new_parts hdr cs') = still cs cs'" "still cs (newStep cs') = still cs cs'" "still cs (wal_Write m cs') = still cs cs'"
  "still cs (snd (Now E cs')) = still cs cs'"
  by (simp_all add: new_parts_def newStep_def wal_Write_def Now_def)

lemma Now_still: "Now E cs = (t, cs') \<Longrightarrow> still cs cs'"
  by (auto simp: Now_def)

lemma isProposer_still: "whenever (\<lambda>(m, cs'). still cs cs') (isProposer a cs)"
  by (auto simp: isProposer_def intro!: wheneverI)

lemma send_parts_still: "still x cs \<Longrightarrow> whenever (still x) (send_parts ps is cs)"
  by (induction "is" arbitrary: cs) (auto intro!: wheneverI)

lemma defaultDecideProposal_still: "whenever (still cs) (defaultDecideProposal E h r cs)"
  by (auto simp: defaultDecideProposal_def Now_def Let_def intro!: wheneverI send_parts_still
      split: option.splits prod.splits sum.splits fault.splits)

lemma propose_still: "whenever (still cs) (propose E h r cs)"
proof -
  have "whenever (still cs) (defaultDecideProposal E h r x)" if "still cs x" for x
    by (rule whenever_mono [OF defaultDecideProposal_still]) (rule still_trans [OF that])
  then show ?thesis
    by (auto simp: propose_def intro!: whenever_mono [OF isProposer_still] split: option.splits prod.splits)
qed

lemma savePOLC_still: "whenever (still cs) (savePOLC E r b cs)"
  by (auto simp: savePOLC_def intro!: wheneverI split: prod.splits sum.splits fault.splits)

lemma update_valid_block_still: "whenever (still cs) (update_valid_block E v b cs)"
  by (auto simp: update_valid_block_def Let_def intro!: wheneverI)

lemma prepare_commit_still: "whenever (still cs) (prepare_commit E r cs)"
  by (auto simp: prepare_commit_def Let_def intro!: wheneverI split: prod.splits)

lemma pruneBlocks_still: "whenever (still cs) (pruneBlocks E r cs)"
  by (auto simp: pruneBlocks_def Let_def split: prod.splits sum.splits fault.splits)

lemma defaultSetProposal_still: "whenever (\<lambda>(e, cs'). still cs cs') (defaultSetProposal E p cs)"
  by (auto simp: defaultSetProposal_def Let_def intro!: wheneverI)

lemma voteTime_still: "voteTime E st cs = (t, cs') \<Longrightarrow> still cs cs'"
  by (auto simp: voteTime_def Now_def Let_def split: prod.splits)

text \<open>Signing a vote adds at most this vote, for the height and round of the node.\<close>

abbreviation vhash :: "Vote \<Rightarrow> bytes" where
  "vhash v \<equiv> bid_Hash (v_BlockID v)"

definition votes_for :: "SignedMsgType \<Rightarrow> bytes \<Rightarrow> ConsensusState \<Rightarrow> ConsensusState \<Rightarrow> bool" where
  "votes_for t x cs cs' \<longleftrightarrow> place cs' = place cs \<and>
     (voted cs' = voted cs \<or> (\<exists>v. voted cs' = insert v (voted cs) \<and> v_Type v = t \<and> v_Height v = rs_Height cs \<and> v_Round v = rs_Round cs \<and> vhash v = x))"

lemma place_eqD: "place cs' = place cs \<Longrightarrow> rs_Height cs' = rs_Height cs" "place cs' = place cs \<Longrightarrow> rs_Round cs' = rs_Round cs"
  "place cs' = place cs \<Longrightarrow> rs_Step cs' = rs_Step cs" "place cs' = place cs \<Longrightarrow> rs_LockedRound cs' = rs_LockedRound cs"
  "place cs' = place cs \<Longrightarrow> rs_LockedBlock cs' = rs_LockedBlock cs" "place cs' = place cs \<Longrightarrow> rs_Votes cs' = rs_Votes cs"
  "place cs' = place cs \<Longrightarrow> cs_timeouts cs' = cs_timeouts cs" "place cs' = place cs \<Longrightarrow> cs_state cs' = cs_state cs"
  by (simp_all add: place_def)

lemma signAddVote_votes: "whenever (votes_for t hash cs) (signAddVote E t hash hdr cs)"
proof -
  have "votes_for t hash cs (sendInternalMessage (VoteMessage v) (y\<lparr>cs_privValidator := pv\<rparr>))"
    if "still cs y" "v_Type v = t" "v_Height v = rs_Height y" "v_Round v = rs_Round y" "vhash v = hash" for y v pv
  proof -
    have p: "place y = place cs" "voted y = voted cs" "place (y\<lparr>cs_privValidator := pv\<rparr>) = place y" "voted (y\<lparr>cs_privValidator := pv\<rparr>) = voted y"
      using that(1) by (simp_all add: still_def place_def voted_def)
    show ?thesis using that(2-) p place_eqD [OF p(1)] by (auto simp: votes_for_def)
  qed
  moreover have "votes_for t hash cs y" if "still cs y" for y using that by (simp add: votes_for_def still_def)
  ultimately show ?thesis
    by (auto simp: signAddVote_def cs_signVote_def Let_def split: option.splits prod.splits sum.splits fault.splits dest!: voteTime_still)
qed

section \<open>The invariant\<close>

text \<open>
  One height as a node sees it: the environment it computes hashes in, the votes that may be delivered, the chain, the validators and the height. The last two
  fields bound the rounds of new votes: a vote that is not among \<open>vw_old\<close> is for round \<open>vw_from\<close> or later.
\<close>

record view =
  vw_env :: node_env
  vw_known :: "Vote \<Rightarrow> bool"
  vw_chain :: bytes
  vw_vals :: ValidatorSet
  vw_height :: int64
  vw_old :: "Vote set"
  vw_from :: int32

definition same_world :: "node_env \<Rightarrow> node_env \<Rightarrow> bool" where
  "same_world E F \<longleftrightarrow> ne_enc F = ne_enc E \<and> ne_crypto F = ne_crypto E \<and> ne_H F = ne_H E"

lemma same_world_hash: "same_world E F \<Longrightarrow> block_hash F b = block_hash E b" "same_world E F \<Longrightarrow> hashes_to F x b = hashes_to E x b"
  by (simp_all add: same_world_def block_hash_def hashes_to_def)

text \<open>Votes of more than two thirds of the power.\<close>

definition seen :: "view \<Rightarrow> int32 \<Rightarrow> SignedMsgType \<Rightarrow> BlockID \<Rightarrow> bool" where
  "seen V r t B \<longleftrightarrow> (\<exists>s \<subseteq> {..<ValidatorSet_Size (vw_vals V)}. 2 * all_power (vw_vals V) < 3 * power_in (vw_vals V) s \<and>
     (\<forall>i \<in> s. \<exists>v. vw_known V v \<and> vote_of (ne_crypto (vw_env V)) (vw_chain V) (vw_vals V) i v \<and> v_Height v = vw_height V \<and>
        v_Round v = r \<and> v_Type v = t \<and> v_BlockID v = B))"

definition moved_on :: "view \<Rightarrow> bytes \<Rightarrow> int32 \<Rightarrow> int32 \<Rightarrow> bool" where
  "moved_on V x r r' \<longleftrightarrow> (\<exists>r'' B. r < r'' \<and> r'' \<le> r' \<and> seen V r'' PrevoteType B \<and> bid_Hash B \<noteq> x)"

definition history_ok :: "view \<Rightarrow> Vote set \<Rightarrow> bool" where
  "history_ok V A \<longleftrightarrow>
     (\<forall>p \<in> A. \<forall>c \<in> A. v_Type p = PrevoteType \<and> v_Type c = PrecommitType \<and> vhash c \<noteq> [] \<and> v_Round c < v_Round p \<longrightarrow>
        vhash p = vhash c \<or> moved_on V (vhash c) (v_Round c) (v_Round p)) \<and>
     (\<forall>c \<in> A. v_Type c = PrecommitType \<and> vhash c \<noteq> [] \<longrightarrow> (\<exists>B. seen V (v_Round c) PrevoteType B \<and> bid_Hash B = vhash c)) \<and>
     (\<forall>c \<in> A. \<forall>d \<in> A. v_Type c = PrecommitType \<and> v_Type d = PrecommitType \<and> v_Round c = v_Round d \<longrightarrow> vhash c = vhash d) \<and>
     (\<forall>v \<in> A. v \<notin> vw_old V \<longrightarrow> vw_from V \<le> v_Round v)"

definition tracks :: "view \<Rightarrow> HeightVoteSet \<Rightarrow> bool" where
  "tracks V hvs \<longleftrightarrow> hvs_inv (ne_crypto (vw_env V)) hvs \<and> hvs_chainID hvs = vw_chain V \<and> hvs_height hvs = vw_height V \<and> hvs_valSet hvs = vw_vals V \<and>
     (\<forall>v \<in> hvs_votes hvs. vw_known V v)"

definition locked_on :: "view \<Rightarrow> bytes \<Rightarrow> int32 \<Rightarrow> ConsensusState \<Rightarrow> bool" where
  "locked_on V x r cs \<longleftrightarrow> block_hash (vw_env V) (rs_LockedBlock cs) = Inr x \<and> r \<le> rs_LockedRound cs"

definition position_ok :: "view \<Rightarrow> Vote set \<Rightarrow> ConsensusState \<Rightarrow> bool" where
  "position_ok V A cs \<longleftrightarrow>
     (\<exists>hvs. rs_Votes cs = Some hvs \<and> tracks V hvs) \<and> 0 \<le> rs_Round cs \<and> vw_from V \<le> rs_Round cs \<and>
     (\<forall>v \<in> A. v_Round v \<le> rs_Round cs) \<and>
     (\<forall>c \<in> A. v_Type c = PrecommitType \<and> v_Round c = rs_Round cs \<longrightarrow> RoundStepPrecommit \<le> rs_Step cs) \<and>
     (\<forall>c \<in> A. v_Type c = PrecommitType \<and> vhash c \<noteq> [] \<longrightarrow> locked_on V (vhash c) (v_Round c) cs \<or> moved_on V (vhash c) (v_Round c) (rs_Round cs)) \<and>
     (\<forall>ti \<in> set (cs_timeouts cs). ti_Height ti = vw_height V \<longrightarrow> ti_Round ti \<le> rs_Round cs)"

text \<open>A node that has left the height has applied a block that more than two thirds of the power precommitted.\<close>

definition decided :: "view \<Rightarrow> ConsensusState \<Rightarrow> bool" where
  "decided V cs \<longleftrightarrow> rs_Height cs = wrap64 (vw_height V + 1) \<and>
     (\<exists>st r B. cs_state cs = Some st \<and> seen V r PrecommitType B \<and> bid_Hash B = bid_Hash (st_LastBlockID st) \<and> bid_Hash B \<noteq> [])"

definition own :: "view \<Rightarrow> Vote set \<Rightarrow> ConsensusState \<Rightarrow> Vote set" where
  "own V past cs = {v \<in> past \<union> voted cs. v_Height v = vw_height V}"

definition lock_inv :: "view \<Rightarrow> Vote set \<Rightarrow> ConsensusState \<Rightarrow> bool" where
  "lock_inv V past cs \<longleftrightarrow> history_ok V (own V past cs) \<and>
     (if rs_Height cs = vw_height V then position_ok V (own V past cs) cs else decided V cs)"

lemma voted_fields [simp]:
  "voted (updateRoundStep r st cs) = voted cs" "voted (scheduleTimeout d h r st cs) = voted cs" "voted (cs\<lparr>rs_Votes := x\<rparr>) = voted cs"
  "voted (unlock cs) = voted cs" "voted (cs\<lparr>rs_LockedRound := r\<rparr>) = voted cs" "voted (cs\<lparr>rs_LockedBlock := b\<rparr>) = voted cs"
  "voted (cs\<lparr>rs_LockedBlockParts := q\<rparr>) = voted cs"
  by (simp_all add: voted_def updateRoundStep_def scheduleTimeout_def unlock_def)

lemma own_place: "voted cs' = voted cs \<Longrightarrow> own V past cs' = own V past cs"
  by (simp add: own_def)

lemma position_ok_place:
  assumes "place cs' = place cs"
  shows "position_ok V A cs' = position_ok V A cs"
  using place_eqD [OF assms] by (simp add: position_ok_def locked_on_def)

lemma decided_place:
  assumes "place cs' = place cs"
  shows "decided V cs' = decided V cs"
  using place_eqD [OF assms] by (simp add: decided_def)

lemma lock_inv_still: "still cs cs' \<Longrightarrow> lock_inv V past cs' = lock_inv V past cs"
  using own_place [of cs' cs] position_ok_place [of cs' cs] decided_place [of cs' cs] place_eqD(1) [of cs' cs]
  by (simp add: lock_inv_def still_def)

lemma lock_inv_keep: "lock_inv V past cs \<Longrightarrow> still cs cs' \<Longrightarrow> lock_inv V past cs'"
  by (simp add: lock_inv_still)

lemma whenever_still: "lock_inv V past cs \<Longrightarrow> whenever (still cs) r \<Longrightarrow> whenever (lock_inv V past) r"
  by (erule whenever_mono) (rule lock_inv_keep)

subsection \<open>Majorities\<close>

lemma seen_majority:
  assumes "tracks V hvs" "t \<in> {PrevoteType, PrecommitType}" "majority_at r t hvs = Some B"
  shows "seen V r t B"
proof -
  have inv: "hvs_inv (ne_crypto (vw_env V)) hvs" using assms(1) by (simp add: tracks_def)
  obtain s where "s \<subseteq> {..<ValidatorSet_Size (hvs_valSet hvs)}" "2 * all_power (hvs_valSet hvs) < 3 * power_in (hvs_valSet hvs) s"
      "\<And>i. i \<in> s \<Longrightarrow> \<exists>v \<in> hvs_votes hvs. vote_of (ne_crypto (vw_env V)) (hvs_chainID hvs) (hvs_valSet hvs) i v \<and> v_Height v = hvs_height hvs \<and> v_Round v = r \<and>
       v_Type v = t \<and> v_BlockID v = B"
    by (rule majority_quorum [OF inv assms(2,3)]) blast
  moreover have "hvs_chainID hvs = vw_chain V" "hvs_height hvs = vw_height V" "hvs_valSet hvs = vw_vals V" "\<And>v. v \<in> hvs_votes hvs \<Longrightarrow> vw_known V v"
    using assms(1) by (simp_all add: tracks_def)
  ultimately show ?thesis unfolding seen_def by (intro exI [of _ s]) metis
qed

lemma tracks_step:
  assumes "tracks V hvs" "hvs_step (ne_crypto (vw_env V)) new hvs hvs'" "\<forall>v \<in> new. vw_known V v"
  shows "tracks V hvs'"
  using assms(1,3) hvs_stepD(1-4,6) [OF assms(2)] by (auto simp: tracks_def)

lemma lock_inv_votes:
  assumes "lock_inv V past cs" "rs_Height cs = vw_height V \<Longrightarrow> tracks V hvs"
  shows "lock_inv V past (cs\<lparr>rs_Votes := Some hvs\<rparr>)"
proof -
  have "position_ok V A (cs\<lparr>rs_Votes := Some hvs\<rparr>)" if "tracks V hvs" "position_ok V A cs" for A
    using that by (simp add: position_ok_def locked_on_def)
  moreover have "decided V (cs\<lparr>rs_Votes := Some hvs\<rparr>) = decided V cs" by (simp add: decided_def)
  ultimately show ?thesis using assms own_place [of "cs\<lparr>rs_Votes := Some hvs\<rparr>" cs] by (simp add: lock_inv_def)
qed

lemma seen_mono: "seen V r t B \<Longrightarrow> (\<And>v. vw_known V v \<Longrightarrow> vw_known W v) \<Longrightarrow> vw_env W = vw_env V \<Longrightarrow> vw_chain W = vw_chain V \<Longrightarrow>
    vw_vals W = vw_vals V \<Longrightarrow> vw_height W = vw_height V \<Longrightarrow> seen W r t B"
  unfolding seen_def by metis

subsection \<open>Moving and voting\<close>

lemma block_hash_None [simp]: "block_hash E None = Inr []"
  by (simp add: block_hash_def Block_Hash_def)

lemma history_ok_insert:
  assumes A: "history_ok V A"
    and p: "\<And>c. c \<in> A \<Longrightarrow> v_Type w = PrevoteType \<Longrightarrow> v_Type c = PrecommitType \<Longrightarrow> vhash c \<noteq> [] \<Longrightarrow> v_Round c < v_Round w \<Longrightarrow>
        vhash w = vhash c \<or> moved_on V (vhash c) (v_Round c) (v_Round w)"
    and q: "\<And>c. c \<in> A \<Longrightarrow> v_Type w = PrecommitType \<Longrightarrow> v_Round c \<le> v_Round w"
    and c: "v_Type w = PrecommitType \<Longrightarrow> vhash w \<noteq> [] \<Longrightarrow> \<exists>B. seen V (v_Round w) PrevoteType B \<and> bid_Hash B = vhash w"
    and u: "\<And>c. c \<in> A \<Longrightarrow> v_Type w = PrecommitType \<Longrightarrow> v_Type c = PrecommitType \<Longrightarrow> v_Round c \<noteq> v_Round w"
    and n: "vw_from V \<le> v_Round w"
  shows "history_ok V (insert w A)"
proof -
  have nt: "PrevoteType \<noteq> PrecommitType" by (simp add: PrevoteType_def PrecommitType_def)
  show ?thesis
    unfolding history_ok_def
  proof (intro conjI ballI impI)
    fix a b assume ab: "a \<in> insert w A" "b \<in> insert w A" "v_Type a = PrevoteType \<and> v_Type b = PrecommitType \<and> vhash b \<noteq> [] \<and> v_Round b < v_Round a"
    consider "a \<in> A" "b \<in> A" | "a = w" "b \<in> A" | "b = w" "a \<in> A" using ab nt by auto
    then show "vhash a = vhash b \<or> moved_on V (vhash b) (v_Round b) (v_Round a)"
    proof cases
      case 1
      then show ?thesis using A ab(3) unfolding history_ok_def by blast
    next
      case 2
      then show ?thesis using p ab(3) by simp
    next
      case 3
      then show ?thesis using q ab(3) by (simp add: leD)
    qed
  next
    fix a assume a: "a \<in> insert w A" "v_Type a = PrecommitType \<and> vhash a \<noteq> []"
    show "\<exists>B. seen V (v_Round a) PrevoteType B \<and> bid_Hash B = vhash a"
    proof (cases "a = w")
      case False
      then have "a \<in> A" using a(1) by simp
      then show ?thesis using A a(2) unfolding history_ok_def by blast
    qed (use c a(2) in simp)
  next
    fix a b assume ab: "a \<in> insert w A" "b \<in> insert w A" "v_Type a = PrecommitType \<and> v_Type b = PrecommitType \<and> v_Round a = v_Round b"
    show "vhash a = vhash b"
    proof (cases "a \<in> A \<and> b \<in> A")
      case True
      then show ?thesis using A ab(3) unfolding history_ok_def by blast
    next
      case False
      then show ?thesis using u [of a] u [of b] ab by auto
    qed
  next
    fix a assume "a \<in> insert w A" "a \<notin> vw_old V"
    then show "vw_from V \<le> v_Round a" using A n unfolding history_ok_def by blast
  qed
qed

lemma lock_inv_round:
  assumes inv: "lock_inv V past cs" and r: "rs_Round cs \<le> rnd" "rs_Round cs = rnd \<Longrightarrow> rs_Step cs < RoundStepPrecommit \<or> RoundStepPrecommit \<le> step"
  shows "lock_inv V past (updateRoundStep rnd step cs)"
proof -
  have m: "moved_on V x q rnd" if "moved_on V x q (rs_Round cs)" for x q using that r(1) unfolding moved_on_def by (meson order_trans)
  have "position_ok V A (updateRoundStep rnd step cs)" if p: "position_ok V A cs" for A
    unfolding position_ok_def
  proof (intro conjI ballI impI)
    show "\<exists>hvs. rs_Votes (updateRoundStep rnd step cs) = Some hvs \<and> tracks V hvs" "0 \<le> rs_Round (updateRoundStep rnd step cs)"
      "vw_from V \<le> rs_Round (updateRoundStep rnd step cs)"
      using p r(1) by (auto simp: position_ok_def updateRoundStep_def)
    show "v_Round v \<le> rs_Round (updateRoundStep rnd step cs)" if "v \<in> A" for v
      using that p r(1) by (force simp: position_ok_def updateRoundStep_def)
    show "RoundStepPrecommit \<le> rs_Step (updateRoundStep rnd step cs)"
      if "c \<in> A" "v_Type c = PrecommitType \<and> v_Round c = rs_Round (updateRoundStep rnd step cs)" for c
      using that p r by (force simp: position_ok_def updateRoundStep_def)
    show "locked_on V (vhash c) (v_Round c) (updateRoundStep rnd step cs) \<or> moved_on V (vhash c) (v_Round c) (rs_Round (updateRoundStep rnd step cs))"
      if "c \<in> A" "v_Type c = PrecommitType \<and> vhash c \<noteq> []" for c
      using that p m by (auto simp: position_ok_def updateRoundStep_def locked_on_def)
    show "ti_Round ti \<le> rs_Round (updateRoundStep rnd step cs)" if "ti \<in> set (cs_timeouts (updateRoundStep rnd step cs))" "ti_Height ti = vw_height V" for ti
      using that p r(1) by (force simp: position_ok_def updateRoundStep_def)
  qed
  moreover have "decided V (updateRoundStep rnd step cs) = decided V cs" "rs_Height (updateRoundStep rnd step cs) = rs_Height cs"
    by (simp_all add: updateRoundStep_def decided_def)
  ultimately show ?thesis using inv own_place [of "updateRoundStep rnd step cs" cs] by (simp add: lock_inv_def)
qed

lemma lock_inv_timeout:
  assumes "lock_inv V past cs" "rnd \<le> rs_Round cs"
  shows "lock_inv V past (scheduleTimeout d h rnd step cs)"
proof -
  have "position_ok V A (scheduleTimeout d h rnd step cs)" if "position_ok V A cs" for A
    using that assms(2) by (simp add: position_ok_def locked_on_def scheduleTimeout_def)
  moreover have "decided V (scheduleTimeout d h rnd step cs) = decided V cs" "rs_Height (scheduleTimeout d h rnd step cs) = rs_Height cs"
    by (simp_all add: decided_def scheduleTimeout_def)
  ultimately show ?thesis using assms(1) own_place [of "scheduleTimeout d h rnd step cs" cs] by (simp add: lock_inv_def)
qed

text \<open>Adding a vote of another height changes nothing.\<close>

lemma own_insert: "voted cs' = insert v (voted cs) \<Longrightarrow> own V past cs' = (if v_Height v = vw_height V then insert v (own V past cs) else own V past cs)"
  by (auto simp: own_def)

lemma own_same: "voted cs' = voted cs \<or> (\<exists>v. voted cs' = insert v (voted cs) \<and> v_Height v \<noteq> vw_height V) \<Longrightarrow> own V past cs' = own V past cs"
  by (auto simp: own_def)

lemma lock_inv_other_height:
  assumes "lock_inv V past cs" "rs_Height cs \<noteq> vw_height V" "votes_for t x cs cs'"
  shows "lock_inv V past cs'"
proof -
  have p: "place cs' = place cs" using assms(3) by (simp add: votes_for_def)
  have "own V past cs' = own V past cs" using assms(2,3) unfolding votes_for_def by (intro own_same) auto
  then show ?thesis using assms(1,2) decided_place [OF p] place_eqD(1) [OF p] by (simp add: lock_inv_def)
qed

text \<open>A prevote for the locked block, or for anything when no block is locked.\<close>

lemma lock_inv_prevote:
  assumes inv: "lock_inv V past cs" and v: "votes_for PrevoteType x cs cs'"
    and lock: "rs_LockedBlock cs \<noteq> None \<Longrightarrow> block_hash (vw_env V) (rs_LockedBlock cs) = Inr x"
  shows "lock_inv V past cs'"
proof (cases "rs_Height cs = vw_height V \<and> voted cs' \<noteq> voted cs")
  case False
  then show ?thesis using lock_inv_other_height [OF inv _ v] lock_inv_keep [OF inv, of cs'] v by (auto simp: votes_for_def still_def)
next
  case True
  then obtain w where w: "voted cs' = insert w (voted cs)" "v_Type w = PrevoteType" "v_Height w = vw_height V" "v_Round w = rs_Round cs" "vhash w = x"
    and p: "place cs' = place cs" using v by (auto simp: votes_for_def)
  let ?A = "own V past cs"
  have own: "own V past cs' = insert w ?A" using own_insert [OF w(1)] w(3) by simp
  have h: "history_ok V ?A" and pos: "position_ok V ?A cs" using inv True by (simp_all add: lock_inv_def)
  have nt: "PrevoteType \<noteq> PrecommitType" by (simp add: PrevoteType_def PrecommitType_def)
  have late: "v_Round c \<le> rs_Round cs" if "c \<in> ?A" for c using that pos by (simp add: position_ok_def)
  have new: "vhash w = vhash c \<or> moved_on V (vhash c) (v_Round c) (v_Round w)"
    if "c \<in> ?A" "v_Type c = PrecommitType" "vhash c \<noteq> []" for c
  proof -
    have "locked_on V (vhash c) (v_Round c) cs \<or> moved_on V (vhash c) (v_Round c) (rs_Round cs)"
      using that pos by (simp add: position_ok_def)
    then show ?thesis
    proof
      assume "locked_on V (vhash c) (v_Round c) cs"
      then have "rs_LockedBlock cs \<noteq> None" "block_hash (vw_env V) (rs_LockedBlock cs) = Inr (vhash c)"
        using that(3) by (cases "rs_LockedBlock cs"; simp add: locked_on_def)+
      then show ?thesis using lock w(5) by simp
    qed (simp add: w(4))
  qed
  have "vw_from V \<le> rs_Round cs" using pos by (simp add: position_ok_def)
  then have "history_ok V (insert w ?A)"
    using w nt new late by (intro history_ok_insert [OF h]) (auto dest: leD)
  moreover have "position_ok V (insert w ?A) cs'"
    using pos w nt unfolding position_ok_place [OF p] by (simp add: position_ok_def)
  ultimately show ?thesis using True place_eqD(1) [OF p] by (simp add: lock_inv_def own)
qed

text \<open>Giving up a lock because of a later majority for something else.\<close>

lemma lock_inv_unlock:
  assumes inv: "lock_inv V past cs" and hvs: "rs_Votes cs = Some hvs" and r: "rs_LockedRound cs < r" "r \<le> rs_Round cs"
    and B: "majority_at r PrevoteType hvs = Some B" "bid_Hash B \<noteq> [] \<Longrightarrow> block_hash (vw_env V) (rs_LockedBlock cs) \<noteq> Inr (bid_Hash B)"
  shows "lock_inv V past (unlock cs)"
proof -
  have "position_ok V A (unlock cs)" if p: "position_ok V A cs" for A
  proof -
    have "seen V r PrevoteType B" using p hvs B(1) by (intro seen_majority [of V hvs]) (auto simp: position_ok_def)
    then have "moved_on V (vhash c) (v_Round c) (rs_Round cs)" if "locked_on V (vhash c) (v_Round c) cs" "vhash c \<noteq> []" for c
      using that B(2) r unfolding locked_on_def moved_on_def by (intro exI [of _ r] exI [of _ B]) auto
    then have "\<forall>c \<in> A. v_Type c = PrecommitType \<and> vhash c \<noteq> [] \<longrightarrow> moved_on V (vhash c) (v_Round c) (rs_Round cs)"
      using p unfolding position_ok_def by blast
    then show ?thesis using p by (simp add: position_ok_def unlock_def)
  qed
  moreover have "decided V (unlock cs) = decided V cs" "rs_Height (unlock cs) = rs_Height cs" by (simp_all add: decided_def unlock_def)
  ultimately show ?thesis using inv own_place [of "unlock cs" cs] by (simp add: lock_inv_def)
qed

text \<open>
  A precommit: nil, or the block of the majority in this round, on which the node is locked afterwards. An earlier lock on another block is only given up
  when there is a majority in this round for something else.
\<close>

lemma lock_inv_precommit:
  assumes inv: "lock_inv V past cs" and step: "rs_Step cs < RoundStepPrecommit" and hvs: "rs_Votes cs = Some hvs"
    and same: "place (d\<lparr>rs_LockedRound := rs_LockedRound cs, rs_LockedBlock := rs_LockedBlock cs\<rparr>) = place cs" "voted d = voted cs"
    and v: "votes_for PrecommitType x d cs'"
    and keep: "\<And>y. y \<noteq> [] \<Longrightarrow> block_hash (vw_env V) (rs_LockedBlock cs) = Inr y \<Longrightarrow>
        (block_hash (vw_env V) (rs_LockedBlock d) = Inr y \<and> (rs_LockedRound d = rs_LockedRound cs \<or> rs_LockedRound d = rs_Round cs)) \<or>
        (\<exists>B. majority_at (rs_Round cs) PrevoteType hvs = Some B \<and> bid_Hash B \<noteq> y)"
    and new: "x \<noteq> [] \<Longrightarrow> \<exists>B. majority_at (rs_Round cs) PrevoteType hvs = Some B \<and> bid_Hash B = x \<and>
        block_hash (vw_env V) (rs_LockedBlock d) = Inr x \<and> rs_LockedRound d = rs_Round cs"
  shows "lock_inv V past (updateRoundStep (rs_Round cs) RoundStepPrecommit cs')"
proof -
  let ?cs = "updateRoundStep (rs_Round cs) RoundStepPrecommit cs'" and ?A = "own V past cs"
  have eq: "rs_Height d = rs_Height cs" "rs_Round d = rs_Round cs" "rs_Step d = rs_Step cs" "rs_Votes d = rs_Votes cs" "cs_timeouts d = cs_timeouts cs" "cs_state d = cs_state cs"
    using place_eqD [OF same(1)] by simp_all
  have p: "place cs' = place d" using v by (simp add: votes_for_def)
  note eq' = place_eqD [OF p]
  have u: "rs_Height ?cs = rs_Height cs" "rs_Round ?cs = rs_Round cs" "rs_Step ?cs = RoundStepPrecommit" "rs_Votes ?cs = rs_Votes cs"
      "cs_timeouts ?cs = cs_timeouts cs" "cs_state ?cs = cs_state cs" "rs_LockedBlock ?cs = rs_LockedBlock d" "rs_LockedRound ?cs = rs_LockedRound d"
    using eq eq' by (simp_all add: updateRoundStep_def)
  have votes: "voted ?cs = voted cs \<or> (\<exists>w. voted ?cs = insert w (voted cs) \<and> v_Type w = PrecommitType \<and> v_Height w = rs_Height cs \<and> v_Round w = rs_Round cs \<and> vhash w = x)"
    using v same(2) eq by (simp add: votes_for_def)
  show ?thesis
  proof (cases "rs_Height cs = vw_height V")
    case False
    have "own V past ?cs = ?A" using votes False by (intro own_same) auto
    moreover have "decided V ?cs = decided V cs" using u by (simp add: decided_def)
    ultimately show ?thesis using inv False u(1) by (simp add: lock_inv_def)
  next
    case True
    have h: "history_ok V ?A" and pos: "position_ok V ?A cs" using inv True by (simp_all add: lock_inv_def)
    have seenB: "seen V (rs_Round cs) PrevoteType B" if "majority_at (rs_Round cs) PrevoteType hvs = Some B" for B
      using pos hvs that by (intro seen_majority [of V hvs]) (auto simp: position_ok_def)
    have early: "v_Round c \<le> rs_Round cs" if "c \<in> ?A" for c using that pos by (simp add: position_ok_def)
    have before: "v_Round c < rs_Round cs" if "c \<in> ?A" "v_Type c = PrecommitType" for c
      using that pos step early [OF that(1)] by (force simp: position_ok_def)
    have locks: "locked_on V (vhash c) (v_Round c) ?cs \<or> moved_on V (vhash c) (v_Round c) (rs_Round cs)"
      if c: "c \<in> ?A" "v_Type c = PrecommitType" "vhash c \<noteq> []" for c
    proof -
      have "locked_on V (vhash c) (v_Round c) cs \<or> moved_on V (vhash c) (v_Round c) (rs_Round cs)" using c pos by (simp add: position_ok_def)
      moreover have ?thesis if l: "locked_on V (vhash c) (v_Round c) cs"
      proof -
        have l1: "block_hash (vw_env V) (rs_LockedBlock cs) = Inr (vhash c)" "v_Round c \<le> rs_LockedRound cs" using l by (simp_all add: locked_on_def)
        from keep [OF c(3) l1(1)] show ?thesis
        proof
          assume "\<exists>B. majority_at (rs_Round cs) PrevoteType hvs = Some B \<and> bid_Hash B \<noteq> vhash c"
          then show ?thesis using seenB before [OF c(1,2)] unfolding moved_on_def by blast
        next
          assume "block_hash (vw_env V) (rs_LockedBlock d) = Inr (vhash c) \<and> (rs_LockedRound d = rs_LockedRound cs \<or> rs_LockedRound d = rs_Round cs)"
          then show ?thesis using l1(2) before [OF c(1,2)] u(7,8) by (auto simp: locked_on_def)
        qed
      qed
      ultimately show ?thesis by blast
    qed
    have timeouts: "\<forall>ti \<in> set (cs_timeouts cs). ti_Height ti = vw_height V \<longrightarrow> ti_Round ti \<le> rs_Round cs"
      and rest: "\<exists>hvs. rs_Votes cs = Some hvs \<and> tracks V hvs" "0 \<le> rs_Round cs" "vw_from V \<le> rs_Round cs" using pos by (simp_all add: position_ok_def)
    have old: "position_ok V ?A ?cs" using u early locks timeouts rest by (simp add: position_ok_def)
    show ?thesis
    proof (cases "voted ?cs = voted cs")
      case True
      then show ?thesis using old h own_place [OF True] u(1) \<open>rs_Height cs = vw_height V\<close> by (simp add: lock_inv_def)
    next
      case False
      then obtain w where w: "voted ?cs = insert w (voted cs)" "v_Type w = PrecommitType" "v_Height w = vw_height V" "v_Round w = rs_Round cs" "vhash w = x"
        using votes True by auto
      have own: "own V past ?cs = insert w ?A" using own_insert [OF w(1)] w(3) by simp
      have nt: "PrevoteType \<noteq> PrecommitType" by (simp add: PrevoteType_def PrecommitType_def)
      have "\<exists>B. seen V (v_Round w) PrevoteType B \<and> bid_Hash B = vhash w" if "vhash w \<noteq> []" using that new seenB w(4,5) by auto
      then have "history_ok V (insert w ?A)"
        by (intro history_ok_insert [OF h]) (use w(2,4) nt early rest(3) in \<open>auto dest: before\<close>)
      moreover have "locked_on V (vhash w) (v_Round w) ?cs" if "vhash w \<noteq> []" using that new w u by (auto simp: locked_on_def)
      then have "position_ok V (insert w ?A) ?cs" using old w u by (simp add: position_ok_def)
      ultimately show ?thesis using True u(1) by (simp add: lock_inv_def own)
    qed
  qed
qed

section \<open>The handlers\<close>

lemma hashes_to_eq: "hashes_to E x b = (if x = [] then Inr False else and_then (block_hash E b) (\<lambda>h. Inr (h = x)))"
proof (cases b)
  case None
  then show ?thesis by (simp add: hashes_to_def Block_HashesTo_def)
next
  case (Some c)
  then show ?thesis
    by (auto simp: hashes_to_def Block_HashesTo_def block_hash_def and_then_def dies_def split: sum.splits fault.splits prod.splits)
qed

lemma hashes_to_True: "hashes_to E x b = Inr True \<longleftrightarrow> x \<noteq> [] \<and> block_hash E b = Inr x"
  by (auto simp: hashes_to_eq and_then_Inr_iff)

lemma hashes_to_False: "hashes_to E x b = Inr False \<Longrightarrow> x \<noteq> [] \<Longrightarrow> block_hash E b \<noteq> Inr x"
  by (auto simp: hashes_to_eq and_then_Inr_iff)

text \<open>What a handler that stays at the height keeps.\<close>

definition advances :: "view \<Rightarrow> Vote set \<Rightarrow> ConsensusState \<Rightarrow> ConsensusState \<Rightarrow> bool" where
  "advances V past cs cs' \<longleftrightarrow> lock_inv V past cs' \<and> rs_Height cs' = rs_Height cs \<and> rs_Round cs \<le> rs_Round cs'"

lemma advances_refl [simp]: "advances V past cs cs = lock_inv V past cs"
  by (simp add: advances_def)

lemma advances_trans: "advances V past a b \<Longrightarrow> advances V past b c \<Longrightarrow> advances V past a c"
  by (simp add: advances_def)

lemma stillD: "still cs cs' \<Longrightarrow> rs_Height cs' = rs_Height cs" "still cs cs' \<Longrightarrow> rs_Round cs' = rs_Round cs" "still cs cs' \<Longrightarrow> rs_Step cs' = rs_Step cs"
  "still cs cs' \<Longrightarrow> rs_Votes cs' = rs_Votes cs" "still cs cs' \<Longrightarrow> rs_LockedBlock cs' = rs_LockedBlock cs" "still cs cs' \<Longrightarrow> cs_state cs' = cs_state cs"
  using place_eqD [of cs' cs] by (simp_all add: still_def)

lemma advances_still: "advances V past a b \<Longrightarrow> still b c \<Longrightarrow> advances V past a c"
  using lock_inv_keep [of V past b c] stillD(1,2) [of b c] by (simp add: advances_def)

lemma still_advances: "still a b \<Longrightarrow> advances V past b c \<Longrightarrow> advances V past a c"
  using stillD(1,2) [of a b] by (simp add: advances_def)

lemma newStep_advances [simp]: "advances V past cs (newStep cs') = advances V past cs cs'"
proof -
  have "still cs' (newStep cs')" by simp
  from lock_inv_still [OF this] stillD(1,2) [OF this] show ?thesis by (simp add: advances_def)
qed

lemma updateRoundStep_simps [simp]:
  "rs_Height (updateRoundStep r st cs) = rs_Height cs" "rs_Round (updateRoundStep r st cs) = r" "rs_Step (updateRoundStep r st cs) = st"
  "rs_Votes (updateRoundStep r st cs) = rs_Votes cs"
  by (simp_all add: updateRoundStep_def)

lemma scheduleTimeout_simps [simp]:
  "rs_Height (scheduleTimeout d h r st cs) = rs_Height cs" "rs_Round (scheduleTimeout d h r st cs) = rs_Round cs" "rs_Step (scheduleTimeout d h r st cs) = rs_Step cs"
  by (simp_all add: scheduleTimeout_def)

lemma advances_round:
  assumes "lock_inv V past cs" "rs_Round cs \<le> rnd" "rs_Round cs = rnd \<Longrightarrow> rs_Step cs < RoundStepPrecommit \<or> RoundStepPrecommit \<le> step"
  shows "advances V past cs (updateRoundStep rnd step cs)"
  using lock_inv_round [OF assms] assms(2) by (simp add: advances_def)

lemma advances_timeout: "advances V past cs cs' \<Longrightarrow> rnd \<le> rs_Round cs' \<Longrightarrow> advances V past cs (scheduleTimeout d h rnd st cs')"
  by (simp add: advances_def lock_inv_timeout)

subsection \<open>Prevote\<close>

lemma prevote_inv:
  assumes inv: "lock_inv V past cs" and E: "same_world (vw_env V) E"
  shows "whenever (\<lambda>cs'. lock_inv V past cs' \<and> place cs' = place cs) (defaultDoPrevote E h rnd cs)"
proof -
  have sign: "whenever (\<lambda>cs'. lock_inv V past cs' \<and> place cs' = place cs) (signAddVote E PrevoteType x hdr cs)"
    if "rs_LockedBlock cs \<noteq> None \<Longrightarrow> block_hash (vw_env V) (rs_LockedBlock cs) = Inr x" for x hdr
    using signAddVote_votes by (rule whenever_mono) (use lock_inv_prevote [OF inv _ that] in \<open>auto simp: votes_for_def\<close>)
  show ?thesis
  proof (cases "rs_LockedBlock cs")
    case None
    then have "whenever (\<lambda>cs'. lock_inv V past cs' \<and> place cs' = place cs) (signAddVote E PrevoteType x hdr cs)" for x hdr by (intro sign) simp
    then show ?thesis using None by (auto simp: defaultDoPrevote_def intro!: whenever_all split: option.split)
  next
    case (Some b)
    have "whenever (\<lambda>cs'. lock_inv V past cs' \<and> place cs' = place cs) (signAddVote E PrevoteType x hdr cs)" if "block_hash E (Some b) = Inr x" for x hdr
      using sign [of x hdr] Some that same_world_hash(1) [OF E] by simp
    then show ?thesis using Some by (simp add: defaultDoPrevote_def) (rule wheneverI, simp)
  qed
qed

lemma enterPrevote_inv:
  assumes inv: "lock_inv V past cs" and E: "same_world (vw_env V) E" and r: "rnd \<le> rs_Round cs"
  shows "whenever (advances V past cs) (enterPrevote E h rnd cs)"
proof -
  have "advances V past cs (updateRoundStep rnd RoundStepPrevote x)"
    if "lock_inv V past x \<and> place x = place cs" "rnd = rs_Round cs" "rs_Step cs < RoundStepPrevote" for x
  proof -
    have "rs_Round x = rs_Round cs" "rs_Step x = rs_Step cs" "rs_Height x = rs_Height cs" using that(1) place_eqD by blast+
    then show ?thesis using that advances_round [of V past x rnd RoundStepPrevote] by (simp add: advances_def round_steps)
  qed
  then show ?thesis
    using inv r by (auto simp: enterPrevote_def not_le intro!: whenever_mono [OF prevote_inv [OF inv E]])
qed

lemma enterPropose_inv:
  assumes inv: "lock_inv V past cs" and E: "same_world (vw_env V) E" and r: "rnd \<le> rs_Round cs"
  shows "whenever (advances V past cs) (enterPropose E h rnd cs)"
proof -
  let ?s = "scheduleTimeout (cfg_Propose (ne_config E) rnd) h rnd RoundStepPropose cs"
  have "whenever (advances V past cs) (and_then (isProposalComplete y) (\<lambda>c. if c then enterPrevote E h (rs_Round y) y else Inr y))"
    if x: "still ?s x" and rnd: "rnd = rs_Round cs" "rs_Step cs < RoundStepPropose" and y: "y = newStep (updateRoundStep rnd RoundStepPropose x)" for x y
  proof -
    have "advances V past cs ?s" using inv r by (simp add: advances_timeout)
    then have ax: "advances V past cs x" using x by (rule advances_still)
    then have lx: "lock_inv V past x" by (simp add: advances_def)
    have "rs_Round x = rs_Round cs" "rs_Step x = rs_Step cs" using x place_eqD(2,3) [of x ?s] by (simp_all add: still_def)
    then have "advances V past x y" using lx rnd unfolding y by (simp add: advances_round round_steps)
    then have ay: "advances V past cs y" by (rule advances_trans [OF ax])
    then have "lock_inv V past y" by (simp add: advances_def)
    then have "whenever (advances V past cs) (enterPrevote E h (rs_Round y) y)"
      by (rule whenever_mono [OF enterPrevote_inv [OF _ E]]) (use ay advances_trans in \<open>auto\<close>)
    with ay show ?thesis by (auto intro!: whenever_all)
  qed
  then show ?thesis
    using inv r by (auto simp: enterPropose_def Let_def not_le simp del: whenever_simps(3) intro!: whenever_bind [OF propose_still])
qed

lemma SetRound_tracks:
  assumes "tracks V hvs"
  shows "whenever (tracks V) (SetRound r hvs)"
proof -
  have inv: "hvs_inv (ne_crypto (vw_env V)) hvs" using assms by (simp add: tracks_def)
  have "tracks V (x\<lparr>hvs_round := r\<rparr>)" if "add_rounds rs hvs = Inr x" for rs x
    using add_rounds_step [OF inv, of rs] that tracks_step [OF assms, of "{}" "x\<lparr>hvs_round := r\<rparr>"] by auto
  then show ?thesis by (auto simp: SetRound_def intro!: whenever_all wheneverI)
qed

lemma lock_inv_tracks: "lock_inv V past cs \<Longrightarrow> rs_Height cs = vw_height V \<Longrightarrow> rs_Votes cs = Some hvs \<Longrightarrow> tracks V hvs"
  by (auto simp: lock_inv_def position_ok_def)

lemma enterNewRound_inv:
  assumes inv: "lock_inv V past cs" and E: "same_world (vw_env V) E"
  shows "whenever (\<lambda>cs'. advances V past cs cs' \<and> (rs_Height cs = h \<longrightarrow> rnd \<le> rs_Round cs')) (enterNewRound E h rnd cs)"
proof (cases "rs_Height cs \<noteq> h \<or> rnd < rs_Round cs \<or> (rs_Round cs = rnd \<and> rs_Step cs \<noteq> RoundStepNewHeight)")
  case True
  then show ?thesis using inv by (auto simp: enterNewRound_def)
next
  case False
  have ready: "advances V past cs y \<and> rs_Round y = rnd"
    if x: "still (updateRoundStep rnd RoundStepNewRound (snd (Now E cs))) x" and v: "rs_Votes x = Some votes" "SetRound r1 votes = Inr votes'"
      and y: "still (x\<lparr>rs_Votes := Some votes'\<rparr>) y" for x votes r1 votes' y
  proof -
    let ?n = "snd (Now E cs)"
    have n: "still cs ?n" by simp
    have ln: "lock_inv V past ?n" by (rule lock_inv_keep [OF inv n])
    have eqn: "rs_Round ?n = rs_Round cs" "rs_Step ?n = rs_Step cs" using stillD [OF n] by simp_all
    have "advances V past ?n (updateRoundStep rnd RoundStepNewRound ?n)"
      using ln False eqn by (intro advances_round) (auto simp: round_steps)
    then have ax: "advances V past cs x" using still_advances [OF n] advances_still [OF _ x] by blast
    then have lx: "lock_inv V past x" by (simp add: advances_def)
    have "tracks V votes'" if "rs_Height x = vw_height V"
      using wheneverD [OF SetRound_tracks [OF lock_inv_tracks [OF lx that v(1)]] v(2)] .
    then have "lock_inv V past (x\<lparr>rs_Votes := Some votes'\<rparr>)" by (rule lock_inv_votes [OF lx])
    then have "advances V past cs (x\<lparr>rs_Votes := Some votes'\<rparr>)" using ax by (simp add: advances_def)
    moreover have "rs_Round y = rnd" using stillD(2) [OF y] stillD(2) [OF x] by simp
    ultimately show ?thesis using advances_still [OF _ y] by blast
  qed
  have go: "whenever (\<lambda>cs'. advances V past cs cs' \<and> rnd \<le> rs_Round cs') (enterPropose E h rnd y)"
    if y: "advances V past cs y \<and> rs_Round y = rnd" for y
  proof -
    have "lock_inv V past y" using y by (simp add: advances_def)
    then show ?thesis
      by (rule whenever_mono [OF enterPropose_inv [OF _ E]]) (use y advances_trans in \<open>auto simp: advances_def\<close>)
  qed
  have asks: "whenever (\<lambda>(m, y). still a y) (isProposer [] b)" if "still a b" for a b
    by (rule whenever_mono [OF isProposer_still]) (use that still_trans in \<open>auto split: prod.splits\<close>)
  have start: "whenever (\<lambda>cs'. advances V past cs cs' \<and> (rs_Height cs = h \<longrightarrow> rnd \<le> rs_Round cs')) (start_round E h rnd votes' x)"
    if "still (updateRoundStep rnd RoundStepNewRound (snd (Now E cs))) x" "rs_Votes x = Some votes" "SetRound r1 votes = Inr votes'" for x votes r1 votes'
    unfolding start_round_def
  proof (rule whenever_bind [OF asks])
    show "still (x\<lparr>rs_Votes := Some votes'\<rparr>) (x\<lparr>rs_Votes := Some votes', rs_TriggeredTimeoutPrecommit := False\<rparr>)" by simp
  next
    fix p assume p: "case p of (m, y) \<Rightarrow> still (x\<lparr>rs_Votes := Some votes'\<rparr>) y"
    obtain m y where "p = (m, y)" by (cases p)
    with p ready [OF that, of y] go [of y] show "whenever (\<lambda>cs'. advances V past cs cs' \<and> (rs_Height cs = h \<longrightarrow> rnd \<le> rs_Round cs'))
        (case p of (_, cs) \<Rightarrow> if WaitForTxs (ne_config E) \<and> rnd = 0 \<and> h > 1
        then Inr (if cfg_CreateEmptyBlocksInterval (ne_config E) > 0
          then scheduleTimeout (cfg_CreateEmptyBlocksInterval (ne_config E)) h rnd RoundStepNewRound cs else cs)
        else enterPropose E h rnd cs)"
      using False by (auto intro: advances_timeout)
  qed
  have "advances V past cs y \<and> (rs_Height cs = h \<longrightarrow> rnd \<le> rs_Round y)"
    if "Now E cs = (t, x)" "rs_Votes (reset_round rnd vals x) = Some votes" "SetRound r1 votes = Inr votes'" "start_round E h rnd votes' (reset_round rnd vals x) = Inr y"
    for t x vals votes r1 votes' y
    using that by (intro wheneverD [OF start that(4)]) (auto simp: reset_round_def Let_def)
  then show ?thesis
    using False by (auto simp: enterNewRound_def Let_def intro!: wheneverI split: prod.split)
qed

lemma enterPrevoteWait_inv:
  assumes "lock_inv V past cs" "rnd \<le> rs_Round cs"
  shows "whenever (advances V past cs) (enterPrevoteWait E h rnd cs)"
proof -
  let ?s = "scheduleTimeout (cfg_Prevote (ne_config E) rnd) h rnd RoundStepPrevoteWait cs"
  have s: "advances V past cs ?s" using assms by (simp add: advances_timeout)
  then have "lock_inv V past ?s" by (simp add: advances_def)
  then have "advances V past ?s (updateRoundStep rnd RoundStepPrevoteWait ?s)" if "rnd = rs_Round cs" "rs_Step cs < RoundStepPrevoteWait"
    using that by (intro advances_round) (auto simp: round_steps)
  then show ?thesis using assms s advances_trans by (auto simp: enterPrevoteWait_def not_le intro!: whenever_all)
qed

lemma enterPrecommitWait_inv:
  assumes "lock_inv V past cs" "rnd \<le> rs_Round cs"
  shows "whenever (advances V past cs) (enterPrecommitWait E h rnd cs)"
proof -
  let ?s = "scheduleTimeout (cfg_Precommit (ne_config E) rnd) h rnd RoundStepPrecommitWait cs"
  have "advances V past cs ?s" using assms by (simp add: advances_timeout)
  then have "advances V past cs (?s\<lparr>rs_TriggeredTimeoutPrecommit := True\<rparr>)" by (rule advances_still) simp
  then show ?thesis using assms by (auto simp: enterPrecommitWait_def intro!: whenever_all)
qed

subsection \<open>Precommit\<close>

lemma precommit_inv:
  assumes inv: "lock_inv V past cs" and E: "same_world (vw_env V) E" and step: "rs_Step cs < RoundStepPrecommit"
  shows "whenever (\<lambda>cs'. advances V past cs (updateRoundStep (rs_Round cs) RoundStepPrecommit cs')) (precommit E h (rs_Round cs) cs)"
proof -
  define P where "P = (\<lambda>cs'. advances V past cs (updateRoundStep (rs_Round cs) RoundStepPrecommit cs'))"
  note hash = same_world_hash [OF E]
  show ?thesis
    unfolding P_def [symmetric]
  proof (cases "rs_Votes cs")
    case None
    then show "whenever P (precommit E h (rs_Round cs) cs)" by (simp add: precommit_def)
  next
    case (Some hvs)
    have sign: "whenever P (signAddVote E PrecommitType x hdr d)"
      if "place (d\<lparr>rs_LockedRound := rs_LockedRound cs, rs_LockedBlock := rs_LockedBlock cs\<rparr>) = place cs" "voted d = voted cs"
        "\<And>y. y \<noteq> [] \<Longrightarrow> block_hash (vw_env V) (rs_LockedBlock cs) = Inr y \<Longrightarrow>
        (block_hash (vw_env V) (rs_LockedBlock d) = Inr y \<and> (rs_LockedRound d = rs_LockedRound cs \<or> rs_LockedRound d = rs_Round cs)) \<or>
        (\<exists>B. majority_at (rs_Round cs) PrevoteType hvs = Some B \<and> bid_Hash B \<noteq> y)"
        "x \<noteq> [] \<Longrightarrow> \<exists>B. majority_at (rs_Round cs) PrevoteType hvs = Some B \<and> bid_Hash B = x \<and>
        block_hash (vw_env V) (rs_LockedBlock d) = Inr x \<and> rs_LockedRound d = rs_Round cs" for x hdr d
    proof (rule whenever_mono [OF signAddVote_votes])
      fix cs' assume v: "votes_for PrecommitType x d cs'"
      have "rs_Height cs' = rs_Height cs" using v place_eqD(1) [OF that(1)] place_eqD(1) [of cs' d] by (simp add: votes_for_def)
      then show "P cs'" using lock_inv_precommit [OF inv step Some that(1,2) v that(3,4)] by (simp add: P_def advances_def)
    qed
    have pl: "place (d\<lparr>rs_LockedRound := rs_LockedRound cs, rs_LockedBlock := rs_LockedBlock cs\<rparr>) = place cs" "voted d = voted cs"
      if "still (cs\<lparr>rs_LockedRound := a, rs_LockedBlock := b\<rparr>) d" for a b d
      using that by (simp_all add: still_def place_def voted_def)
    obtain B ok where maj: "TwoThirdsMajority (Prevotes (rs_Round cs) hvs) = (B, ok)" by (cases "TwoThirdsMajority (Prevotes (rs_Round cs) hvs)")
    have m: "majority_at (rs_Round cs) PrevoteType hvs = Some B" if ok using that maj TwoThirdsMajority_at(1) by simp
    have nil: "whenever P (signAddVote E PrecommitType [] nil_header cs)" by (rule sign) (simp_all add: place_def)
    have unlocked: "whenever P (signAddVote E PrecommitType [] nil_header d)"
      if "still (unlock cs) d" ok "bid_Hash B = [] \<or> block_hash E (rs_LockedBlock cs) \<noteq> Inr (bid_Hash B)" for d
    proof (rule sign)
      have "still (cs\<lparr>rs_LockedRound := -1, rs_LockedBlock := None\<rparr>) d" using that(1) by (simp add: unlock_def still_def place_def voted_def)
      from pl [OF this] show "place (d\<lparr>rs_LockedRound := rs_LockedRound cs, rs_LockedBlock := rs_LockedBlock cs\<rparr>) = place cs" "voted d = voted cs" .
    qed (use that m hash in auto)
    have locked: "whenever P (signAddVote E PrecommitType (bid_Hash B) (bid_PartSetHeader B) d)"
      if "still (cs\<lparr>rs_LockedRound := rs_Round cs, rs_LockedBlock := b\<rparr>) d" ok "block_hash E b = Inr (bid_Hash B)" for b d
    proof (rule sign)
      from pl [OF that(1)] show "place (d\<lparr>rs_LockedRound := rs_LockedRound cs, rs_LockedBlock := rs_LockedBlock cs\<rparr>) = place cs" "voted d = voted cs" .
      have e: "rs_LockedBlock d = b" "rs_LockedRound d = rs_Round cs" using that(1) by (simp_all add: still_def place_def)
      show "\<exists>B'. majority_at (rs_Round cs) PrevoteType hvs = Some B' \<and> bid_Hash B' = bid_Hash B \<and>
          block_hash (vw_env V) (rs_LockedBlock d) = Inr (bid_Hash B) \<and> rs_LockedRound d = rs_Round cs"
        using m that(2,3) e hash(1) by simp
      show "(block_hash (vw_env V) (rs_LockedBlock d) = Inr y \<and> (rs_LockedRound d = rs_LockedRound cs \<or> rs_LockedRound d = rs_Round cs)) \<or>
        (\<exists>B. majority_at (rs_Round cs) PrevoteType hvs = Some B \<and> bid_Hash B \<noteq> y)" for y
        using m that(2,3) e hash(1) by (cases "y = bid_Hash B") auto
    qed
    have l1: "whenever P (signAddVote E PrecommitType (bid_Hash B) (bid_PartSetHeader B) (cs\<lparr>rs_LockedRound := rs_Round cs\<rparr>))"
      if ok "block_hash E (rs_LockedBlock cs) = Inr (bid_Hash B)"
      using that by (intro locked [of "rs_LockedBlock cs"]) (simp_all add: still_def place_def voted_def)
    have l2: "whenever P (signAddVote E PrecommitType (bid_Hash B) (bid_PartSetHeader B)
        (cs\<lparr>rs_LockedRound := rs_Round cs, rs_LockedBlock := rs_ProposalBlock cs, rs_LockedBlockParts := rs_ProposalBlockParts cs\<rparr>))"
      if ok "block_hash E (rs_ProposalBlock cs) = Inr (bid_Hash B)"
      using that by (intro locked [of "rs_ProposalBlock cs"]) simp_all
    show "whenever P (precommit E h (rs_Round cs) cs)"
      using Some maj nil unlocked l1 l2 by (auto simp: precommit_def Let_def whenever_bool hashes_to_True dest!: hashes_to_False)
  qed
qed

end
