(* ===== verification/Consensus_Steps.thy ===== *)
theory Consensus_Steps
  imports Consensus_Locking
begin

text \<open>
  The handlers of \<^verbatim>\<open>consensus/state.go\<close> from precommitting to one turn of \<^verbatim>\<open>receiveRoutine\<close>: each of them
  keeps the invariant of the lock, and a node that leaves the height has applied a block that it saw a majority of precommits for.
\<close>

section \<open>Precommitting\<close>

lemma enterPrecommit_inv:
  assumes inv: "lock_inv V past cs" and E: "same_world (vw_env V) E" and r: "rnd \<le> rs_Round cs"
  shows "whenever (advances V past cs) (enterPrecommit E h rnd cs)"
proof (cases "rs_Height cs \<noteq> h \<or> rnd < rs_Round cs \<or> (rs_Round cs = rnd \<and> RoundStepPrecommit \<le> rs_Step cs)")
  case True
  then show ?thesis using inv by (auto simp: enterPrecommit_def)
next
  case False
  then have "rnd = rs_Round cs" "rs_Step cs < RoundStepPrecommit" using r by auto
  with precommit_inv [OF inv E this(2), of h] False show ?thesis by (simp add: enterPrecommit_def)
qed

lemma unlock_on_polka_inv:
  assumes inv: "lock_inv V past cs" and E: "same_world (vw_env V) E" and v: "rs_Votes cs = Some hvs" "majority_at (v_Round vote) PrevoteType hvs = Some B"
  shows "whenever (advances V past cs) (unlock_on_polka E vote B cs)"
proof -
  have u: "advances V past cs (unlock cs)"
    if "hashes_to E (bid_Hash B) (rs_LockedBlock cs) = Inr False" "rs_LockedRound cs < v_Round vote" "v_Round vote \<le> rs_Round cs" "rs_LockedBlock cs \<noteq> None"
  proof -
    have "lock_inv V past (unlock cs)"
      using hashes_to_False [OF that(1)] same_world_hash(1) [OF E] by (intro lock_inv_unlock [OF inv v(1) that(2,3) v(2)]) simp
    then show ?thesis by (simp add: advances_def unlock_def)
  qed
  have "whenever (advances V past cs) (savePOLC E r B (unlock cs))" if "advances V past cs (unlock cs)" for r
    by (rule whenever_mono [OF savePOLC_still]) (rule advances_still [OF that])
  with inv u show ?thesis by (auto simp: unlock_on_polka_def whenever_bool)
qed

lemma updated_valid_block_inv: "advances V past cs x \<Longrightarrow> whenever (advances V past cs) (update_valid_block E vote B x)"
  by (rule whenever_mono [OF update_valid_block_still]) (rule advances_still)

section \<open>Committing\<close>

lemma fillHeader_height: "whenever (\<lambda>b'. h_Height (b_Header b') = h_Height (b_Header b)) (fillHeader enc cr H lc b)"
  by (auto simp: fillHeader_def Let_def intro!: whenever_all split: prod.splits)

lemma Block_Hash_height: "whenever (\<lambda>(x, b'). \<exists>c. b' = Some c \<and> h_Height (b_Header c) = h_Height (b_Header b)) (Block_Hash enc cr H (Some b))"
  by (auto simp: Block_Hash_def intro!: whenever_mono [OF fillHeader_height] split: option.splits)

lemma ApplyBlock_last:
  "whenever (\<lambda>(st, _). st_LastBlockID st = B \<and> st_LastBlockHeight st = wrap64 (st_LastBlockHeight state + 1)) (ApplyBlock enc cr H ap pool state B block db)"
proof -
  have valid: "whenever (\<lambda>b. h_Height (b_Header b) = wrap64 (st_LastBlockHeight state + 1)) (validateBlock enc cr H pool db state block)"
    by (auto simp: validateBlock_def check_header_def guard_def Let_def intro!: whenever_all split: option.splits)
  have req: "whenever (\<lambda>(_, c). h_Height (b_Header c) = h_Height (b_Header b)) (block_request enc cr H db b)" for b
    by (auto simp: block_request_def intro!: whenever_all whenever_mono [OF Block_Hash_height] split: prod.splits)
  have run: "whenever (\<lambda>(_, c). h_Height (b_Header c) = h_Height (b_Header b)) (execBlockOnProxyApp enc cr H ap db b)" for b
    by (auto simp: execBlockOnProxyApp_def intro!: whenever_all whenever_mono [OF req] split: option.splits prod.splits)
  have upd: "whenever (\<lambda>st. st_LastBlockID st = B \<and> st_LastBlockHeight st = h_Height hd) (updateState state B hd r u)" for hd r u
    by (auto simp: updateState_def Let_def intro!: whenever_all split: prod.splits)
  show ?thesis
    unfolding ApplyBlock_def
    by (rule whenever_bind [OF valid], rule whenever_bind [OF run])
      (auto simp: Let_def SaveABCIResponses_def intro!: whenever_all whenever_mono [OF upd] split: prod.splits)
qed

lemma result_cases: obtains (panic) s where "r = Inl (Panic s)" | (err) e where "r = Inl (Err e)" | (ok) x where "r = Inr x"
  by (metis fault.exhaust sum.exhaust)

lemma wrap64_next_neq: "wrap64 (x + 1) \<noteq> x"
proof
  assume "wrap64 (x + 1) = x"
  then have "(x + 1 + 2 ^ 63) mod 2 ^ 64 = x + 2 ^ 63" by (simp add: wrap_int_def)
  moreover have "(x + 1 + 2 ^ 63) mod 2 ^ 64 = (x + 1 + 2 ^ 63) - 2 ^ 64 * ((x + 1 + 2 ^ 63) div 2 ^ 64)" by (simp add: minus_mult_div_eq_mod)
  moreover have "1 \<noteq> 18446744073709551616 * k" for k :: int by (metis even_mult_iff even_numeral odd_one)
  ultimately show False by simp
qed

lemma lock_inv_height: "lock_inv V past cs \<Longrightarrow> rs_Height cs = vw_height V \<Longrightarrow> 0 \<le> rs_Round cs"
  by (auto simp: lock_inv_def position_ok_def)

lemma updateToState_inv:
  assumes inv: "lock_inv V past cs" and h: "rs_Height cs = vw_height V" and st: "cs_state cs = Some old" "st_LastBlockHeight st = wrap64 (st_LastBlockHeight old + 1)"
    and B: "seen V r PrecommitType B" "bid_Hash B = bid_Hash (st_LastBlockID st)" "bid_Hash B \<noteq> []"
  shows "whenever (\<lambda>cs'. lock_inv V past cs' \<and> 0 \<le> rs_Round cs') (updateToState E st cs)"
proof -
  have left: "lock_inv V past d" if "rs_Height d = wrap64 (vw_height V + 1)" "cs_state d = Some st" "voted d = voted cs" for d
  proof -
    have "decided V d" using that B unfolding decided_def by blast
    moreover have "history_ok V (own V past d)" using inv own_place [OF that(3)] by (simp add: lock_inv_def)
    ultimately show ?thesis using that(1) wrap64_next_neq by (simp add: lock_inv_def)
  qed
  have ign: "lock_inv V past (newStep cs) \<and> 0 \<le> rs_Round (newStep cs)"
    using lock_inv_keep [OF inv, of "newStep cs"] lock_inv_height [OF inv h] by (simp add: newStep_def)
  have new: "lock_inv V past (newStep (d\<lparr>rs_Validators := a, rs_Proposal := None, rs_ProposalBlock := None, rs_ProposalBlockParts := None,
          rs_LockedRound := -1, rs_LockedBlock := None, rs_LockedBlockParts := None, rs_ValidRound := -1, rs_ValidBlock := None, rs_ValidBlockParts := None,
          rs_Votes := c, rs_CommitRound := -1, rs_LastValidators := e, rs_TriggeredTimeoutPrecommit := False, cs_state := Some st\<rparr>))"
    if "rs_Height d = wrap64 (vw_height V + 1)" "cs_internalMsgQueue d = cs_internalMsgQueue cs" for d a c e
    using that by (intro left) (simp_all add: newStep_def voted_def)
  show ?thesis
  proof (cases "wrap64 (st_LastBlockHeight old + 1) = rs_Height cs")
    case True
    then have last: "st_LastBlockHeight st = vw_height V" using st h by simp
    show ?thesis
      using ign by (simp add: updateToState_def Let_def st(1) last Now_def) (intro impI conjI whenever_all new; simp add: newStep_def updateRoundStep_def)
  next
    case False
    then show ?thesis using st by (simp add: updateToState_def)
  qed
qed

lemma scheduleRound0_inv: "lock_inv V past cs \<Longrightarrow> 0 \<le> rs_Round cs \<Longrightarrow> lock_inv V past (scheduleRound0 E cs)"
proof -
  assume "lock_inv V past cs" "0 \<le> rs_Round cs"
  then have "lock_inv V past (snd (Now E cs))" "0 \<le> rs_Round (snd (Now E cs))" using lock_inv_keep [of V past cs "snd (Now E cs)"] by (simp_all add: Now_def)
  then show ?thesis using lock_inv_timeout by (simp add: scheduleRound0_def case_prod_beta)
qed

lemma finalizeCommit_inv:
  assumes inv: "lock_inv V past cs" and E: "same_world (vw_env V) E" and h: "rs_Height cs = vw_height V"
  shows "whenever (lock_inv V past) (finalizeCommit E height cs)"
proof -
  have core: "whenever (lock_inv V past) (and_then (if ret > 0 then pruneBlocks E ret d else Inr d) (\<lambda>cs. and_then (recordMetrics E height b cs) (\<lambda>_.
      and_then (updateToState E st cs) (\<lambda>cs. Inr (scheduleRound0 E cs)))))"
    if d: "still cs d" and a: "ApplyBlock (ne_enc E) (ne_crypto E) (ne_H E) (ne_app E) (ne_pool E) old B' (Some b) db = Inr (st, ret, ah, db')"
      and B: "majority_at r PrecommitType hvs = Some B" "bid_Hash B = bid_Hash B'" "bid_Hash B \<noteq> []" and st: "cs_state cs = Some old" "rs_Votes cs = Some hvs"
    for d st ret b old B' db ah db' r hvs B
  proof (rule whenever_bind)
    have "whenever (still cs) (pruneBlocks E ret d)" by (rule whenever_mono [OF pruneBlocks_still]) (rule still_trans [OF d])
    then show "whenever (still cs) (if ret > 0 then pruneBlocks E ret d else Inr d)" using d by simp
  next
    fix x assume x: "still cs x"
    have "st_LastBlockID st = B'" "st_LastBlockHeight st = wrap64 (st_LastBlockHeight old + 1)"
      using wheneverD [OF ApplyBlock_last a] by simp_all
    moreover have "seen V r PrecommitType B" using inv h st(2) B(1) by (intro seen_majority [of V hvs]) (auto dest: lock_inv_tracks)
    ultimately have "whenever (\<lambda>cs'. lock_inv V past cs' \<and> 0 \<le> rs_Round cs') (updateToState E st x)"
      using B stillD [OF x] h st by (intro updateToState_inv [OF lock_inv_keep [OF inv x], of old st r B]) simp_all
    then have "whenever (lock_inv V past) (and_then (updateToState E st x) (\<lambda>cs. Inr (scheduleRound0 E cs)))"
      by (rule whenever_bind) (simp add: scheduleRound0_inv)
    then show "whenever (lock_inv V past) (and_then (recordMetrics E height b x) (\<lambda>_. and_then (updateToState E st x) (\<lambda>cs. Inr (scheduleRound0 E cs))))"
      by (simp add: whenever_all)
  qed
  have commit: "whenever (lock_inv V past) (commit_block E height b ps pc cs)"
    if m: "majority_at r PrecommitType hvs = Some B" "block_hash E (Some b) = Inr (bid_Hash B)" "bid_Hash B \<noteq> []" "rs_Votes cs = Some hvs" for b ps pc r hvs B
    unfolding commit_block_def Let_def m(2) and_then_simps
  proof (rule whenever_bind [of "\<lambda>_. True"])
    fix bs
    let ?d = "cs\<lparr>cs_blockStore := bs, cs_wal := cs_wal cs @ [EndHeightMessage height]\<rparr>" and ?B = "\<lparr>bid_Hash = bid_Hash B, bid_PartSetHeader = PartSet_Header ps\<rparr>"
    have d: "still cs ?d" by simp
    let ?apply = "\<lambda>old. ApplyBlock (ne_enc E) (ne_crypto E) (ne_H E) (ne_app E) (ne_pool E) old ?B (Some b) (cs_db ?d)"
    let ?last = "\<lambda>st ret ah db. and_then (if ret > 0 then pruneBlocks E ret (?d\<lparr>cs_db := db\<rparr>) else Inr (?d\<lparr>cs_db := db\<rparr>)) (\<lambda>cs.
        and_then (recordMetrics E height b cs) (\<lambda>_. and_then (updateToState E st cs) (\<lambda>cs. Inr (scheduleRound0 E cs))))"
    have "whenever (lock_inv V past) (?last st ret ah db)" if a: "?apply old = Inr (st, ret, ah, db)" "cs_state ?d = Some old" for old st ret ah db
      using a(2) m by (intro core [OF _ a(1) m(1) _ m(3) _ m(4)]) simp_all
    then have "whenever (lock_inv V past) (case ?apply old of Inl (Panic s) \<Rightarrow> Inl (Panic s) | Inl (Err _) \<Rightarrow> Inr ?d | Inr (st, ret, ah, db) \<Rightarrow> ?last st ret ah db)"
      if "cs_state ?d = Some old" for old
      using that lock_inv_keep [OF inv d] by (cases "?apply old" rule: result_cases) (auto simp del: whenever_simps(3) whenever_if split del: if_split split: prod.split)
    then show "whenever (lock_inv V past) (and_then (must (cs_state ?d)) (\<lambda>old.
        case ?apply old of Inl (Panic s) \<Rightarrow> Inl (Panic s) | Inl (Err _) \<Rightarrow> Inr ?d | Inr (st, ret, ah, db) \<Rightarrow> ?last st ret ah db))"
      by (cases "cs_state ?d") (simp_all del: whenever_if add: must_def)
  qed simp
  show ?thesis
    using inv commit by (auto simp: finalizeCommit_def Let_def precommits_of_def whenever_bool hashes_to_True TwoThirdsMajority_at split: prod.split)
qed

lemma tryFinalizeCommit_inv:
  assumes inv: "lock_inv V past cs" and E: "same_world (vw_env V) E" and h: "rs_Height cs = vw_height V"
  shows "whenever (lock_inv V past) (tryFinalizeCommit E height cs)"
  using inv finalizeCommit_inv [OF assms, of height] by (auto simp: tryFinalizeCommit_def whenever_bool intro!: whenever_all split: prod.split)

lemma enterCommit_inv:
  assumes inv: "lock_inv V past cs" and E: "same_world (vw_env V) E" and h: "rs_Height cs = vw_height V"
  shows "whenever (lock_inv V past) (enterCommit E height rnd cs)"
proof -
  have "whenever (lock_inv V past) (tryFinalizeCommit E height y)"
    if x: "still cs x" and y: "still (updateRoundStep (rs_Round x) RoundStepCommit x) y" for x y
  proof -
    have "lock_inv V past (updateRoundStep (rs_Round x) RoundStepCommit x)"
      by (rule lock_inv_round [OF lock_inv_keep [OF inv x]]) (simp_all add: round_steps)
    then have "lock_inv V past y" using y by (rule lock_inv_keep)
    moreover have "rs_Height y = vw_height V" using stillD(1) [OF y] stillD(1) [OF x] h by simp
    ultimately show ?thesis by (rule tryFinalizeCommit_inv [OF _ E])
  qed
  then have go: "whenever (lock_inv V past) (case Now E ((updateRoundStep (rs_Round x) RoundStepCommit x)\<lparr>rs_CommitRound := rnd\<rparr>) of (now, cs) \<Rightarrow>
      tryFinalizeCommit E height (newStep (cs\<lparr>rs_CommitTime := now\<rparr>)))" if "still cs x" for x
    using that by (simp add: Now_def)
  show ?thesis
    unfolding enterCommit_def using inv by (simp del: whenever_simps(3)) (intro impI whenever_bind [OF prepare_commit_still] go)
qed

section \<open>Proposals and blocks\<close>

lemma whenever_split: "(\<And>a b. x = (a, b) \<Longrightarrow> whenever P (f a b)) \<Longrightarrow> whenever P (case x of (a, b) \<Rightarrow> f a b)"
  by (cases x) simp

lemma whenever_trans:
  assumes "advances V past cs x" "lock_inv V past x \<Longrightarrow> whenever (advances V past x) r"
  shows "whenever (advances V past cs) r"
proof -
  have "whenever (advances V past x) r" using assms by (simp add: advances_def)
  then show ?thesis by (rule whenever_mono) (rule advances_trans [OF assms(1)])
qed

lemma whenever_lock: "whenever (advances V past cs) r \<Longrightarrow> whenever (lock_inv V past) r"
  by (erule whenever_mono) (simp add: advances_def)

lemma received_block_inv:
  assumes inv: "lock_inv V past cs" and E: "same_world (vw_env V) E" and h: "rs_Height cs = vw_height V"
  shows "whenever (lock_inv V past) (received_block E height b cs)"
proof -
  have vote: "whenever (lock_inv V past) (and_then (enterPrevote E height (rs_Round x) x) (\<lambda>cs. if c then enterPrecommit E height (rs_Round cs) cs else Inr cs))"
    if x: "still cs x" for x c
  proof (rule whenever_bind)
    have lx: "lock_inv V past x" by (rule lock_inv_keep [OF inv x])
    show "whenever (lock_inv V past) (enterPrevote E height (rs_Round x) x)" by (rule whenever_lock [OF enterPrevote_inv [OF lx E]]) simp
    show "whenever (lock_inv V past) (if c then enterPrecommit E height (rs_Round y) y else Inr y)" if "lock_inv V past y" for y
      using that whenever_lock [OF enterPrecommit_inv [OF that E, of "rs_Round y" height]] by simp
  qed
  have fin: "whenever (lock_inv V past) (tryFinalizeCommit E height x)" if x: "still cs x" for x
    using stillD(1) [OF x] h by (intro tryFinalizeCommit_inv [OF lock_inv_keep [OF inv x] E]) simp
  have keep: "lock_inv V past x" if "still cs x" for x by (rule lock_inv_keep [OF inv that])
  have tail: "whenever (lock_inv V past) (and_then (if rs_Step x \<le> RoundStepPropose then isProposalComplete x else Inr False) (\<lambda>complete.
      if complete then and_then (enterPrevote E height (rs_Round x) x) (\<lambda>cs. if c then enterPrecommit E height (rs_Round cs) cs else Inr cs)
      else if rs_Step x = RoundStepCommit then tryFinalizeCommit E height x else Inr x))" if "still cs x" for x c
    using vote [OF that, of c] fin [OF that] keep [OF that] by (intro whenever_bind [of "\<lambda>_. True"]) simp_all
  show ?thesis
    unfolding received_block_def Let_def
    by (rule whenever_bind [of "\<lambda>_. True"], simp, rule whenever_split, rule whenever_bind [of "still cs"], (auto intro!: whenever_all) [1], erule tail)
qed

lemma addProposalBlockPart_inv:
  assumes inv: "lock_inv V past cs" and E: "same_world (vw_env V) E" and h: "rs_Height cs = vw_height V"
  shows "whenever (\<lambda>(_, _, cs'). lock_inv V past cs') (addProposalBlockPart E height rnd part peer cs)"
proof -
  let ?d = "\<lambda>ps. cs\<lparr>cs_partSets := ps\<rparr>"
  have k: "lock_inv V past (?d ps)" for ps by (rule lock_inv_keep [OF inv]) simp
  then have "whenever (lock_inv V past) (received_block E height b (?d ps))" for b ps using h by (intro received_block_inv [OF _ E]) simp_all
  then show ?thesis
    using inv k by (auto simp: addProposalBlockPart_def Let_def split: option.split sum.split fault.split prod.split)
qed

section \<open>Votes\<close>

lemma added_prevote_inv:
  assumes inv: "lock_inv V past cs" and E: "same_world (vw_env V) E"
  shows "whenever (lock_inv V past) (added_prevote E height vote cs)"
proof -
  have tail: "whenever (lock_inv V past) (and_then (if rs_Round x < v_Round vote then dies m (HasTwoThirdsAny prevotes) else Inr False) (\<lambda>skip.
     if skip then enterNewRound E height (v_Round vote) x
     else if rs_Round x = v_Round vote \<and> RoundStepPrevote \<le> rs_Step x
     then and_then (isProposalComplete x) (\<lambda>complete.
       if ok \<and> (complete \<or> bid_Hash B = []) then enterPrecommit E height (v_Round vote) x
       else and_then (dies m (HasTwoThirdsAny prevotes)) (\<lambda>any. if any then enterPrevoteWait E height (v_Round vote) x else Inr x))
     else (case rs_Proposal x of
         None \<Rightarrow> Inr x
       | Some p \<Rightarrow>
           if 0 \<le> p_POLRound p \<and> p_POLRound p = v_Round vote
           then and_then (isProposalComplete x) (\<lambda>complete. if complete then enterPrevote E height (rs_Round x) x else Inr x)
           else Inr x)))" if x: "lock_inv V past x" for x m prevotes ok B
  proof -
    have "whenever (lock_inv V past) (enterNewRound E height (v_Round vote) x)"
      by (rule whenever_mono [OF enterNewRound_inv [OF x E]]) (simp add: advances_def)
    moreover have "whenever (lock_inv V past) (enterPrecommit E height (v_Round vote) x)" "whenever (lock_inv V past) (enterPrevoteWait E height (v_Round vote) x)"
      if "rs_Round x = v_Round vote"
      using that whenever_lock [OF enterPrecommit_inv [OF x E]] whenever_lock [OF enterPrevoteWait_inv [OF x]] by simp_all
    moreover have "whenever (lock_inv V past) (enterPrevote E height (rs_Round x) x)" by (rule whenever_lock [OF enterPrevote_inv [OF x E]]) simp
    ultimately show ?thesis using x by (auto intro!: whenever_all split: option.split)
  qed
  have head: "whenever (lock_inv V past) (if ok then and_then (unlock_on_polka E vote B cs) (update_valid_block E vote B) else Inr cs)"
    if "rs_Votes cs = Some hvs" "TwoThirdsMajority (Prevotes (v_Round vote) hvs) = (B, ok)" for hvs B ok
  proof -
    have "whenever (advances V past cs) (unlock_on_polka E vote B cs)" if ok
      using that \<open>TwoThirdsMajority (Prevotes (v_Round vote) hvs) = (B, ok)\<close> by (intro unlock_on_polka_inv [OF inv E \<open>rs_Votes cs = Some hvs\<close>]) (simp add: TwoThirdsMajority_at)
    then have "whenever (advances V past cs) (and_then (unlock_on_polka E vote B cs) (update_valid_block E vote B))" if ok
      using that by (intro whenever_bind updated_valid_block_inv)
    then show ?thesis using inv by (simp del: whenever_simps(3)) (blast intro: whenever_lock)
  qed
  show ?thesis
  proof (cases "rs_Votes cs")
    case None
    then show ?thesis by (simp add: added_prevote_def prevotes_of_def must_def)
  next
    case (Some hvs)
    show ?thesis
      unfolding added_prevote_def prevotes_of_def Some must_simps and_then_simps
      by (rule whenever_split, rule whenever_bind [OF head [OF Some] tail])
  qed
qed

lemma added_precommit_inv:
  assumes inv: "lock_inv V past cs" and E: "same_world (vw_env V) E" and h: "rs_Height cs = vw_height V" "rs_Height cs = height"
  shows "whenever (lock_inv V past) (added_precommit E height vote cs)"
proof -
  let ?r = "v_Round vote"
  have new: "whenever (\<lambda>x. advances V past cs x \<and> ?r \<le> rs_Round x) (enterNewRound E height ?r cs)"
    by (rule whenever_mono [OF enterNewRound_inv [OF inv E, of height ?r]]) (use h(2) in blast)
  have pre: "whenever (\<lambda>y. advances V past cs y \<and> ?r \<le> rs_Round y) (enterPrecommit E height ?r x)" if "advances V past cs x \<and> ?r \<le> rs_Round x" for x
  proof -
    have "whenever (advances V past x) (enterPrecommit E height ?r x)" using that by (intro enterPrecommit_inv [OF _ E]) (auto simp: advances_def)
    then show ?thesis by (rule whenever_mono) (use that in \<open>auto simp: advances_def\<close>)
  qed
  have wait: "whenever (lock_inv V past) (enterPrecommitWait E height ?r x)" if "advances V past cs x \<and> ?r \<le> rs_Round x" for x
    using that by (intro whenever_lock [OF enterPrecommitWait_inv]) (auto simp: advances_def)
  have commit: "whenever (lock_inv V past) (enterCommit E height ?r x)" if "advances V past cs x \<and> ?r \<le> rs_Round x" for x
    using that h by (intro enterCommit_inv [OF _ E]) (auto simp: advances_def)
  have after: "whenever (lock_inv V past) (if c then and_then (must pcs) (\<lambda>pc. and_then (dies m (VoteSet_HasAll pc)) (\<lambda>all.
           if all then enterNewRound E (rs_Height x) 0 x else Inr x)) else Inr x)" if "lock_inv V past x" for x c pcs m
  proof -
    have "whenever (lock_inv V past) (enterNewRound E (rs_Height x) 0 x)"
      by (rule whenever_mono [OF enterNewRound_inv [OF that E]]) (simp add: advances_def)
    then show ?thesis using that by (auto intro!: whenever_all)
  qed
  have "whenever (lock_inv V past) (if ok
     then and_then (enterNewRound E height ?r cs) (\<lambda>cs. and_then (enterPrecommit E height ?r cs) (\<lambda>cs.
       if bid_Hash B \<noteq> [] then and_then (enterCommit E height ?r cs) (\<lambda>cs.
         if c then and_then (must pcs) (\<lambda>pc. and_then (dies m (VoteSet_HasAll pc)) (\<lambda>all. if all then enterNewRound E (rs_Height cs) 0 cs else Inr cs)) else Inr cs)
       else enterPrecommitWait E height ?r cs))
     else and_then (if rs_Round cs \<le> ?r then dies m' (HasTwoThirdsAny pcs) else Inr False) (\<lambda>any.
       if any then and_then (enterNewRound E height ?r cs) (enterPrecommitWait E height ?r) else Inr cs))" for ok B c pcs m m'
  proof (cases ok)
    case True
    have "whenever (lock_inv V past) (if bid_Hash B \<noteq> [] then and_then (enterCommit E height ?r x) (\<lambda>cs.
         if c then and_then (must pcs) (\<lambda>pc. and_then (dies m (VoteSet_HasAll pc)) (\<lambda>all. if all then enterNewRound E (rs_Height cs) 0 cs else Inr cs)) else Inr cs)
       else enterPrecommitWait E height ?r x)" if "advances V past cs x \<and> ?r \<le> rs_Round x" for x
      using whenever_bind [OF commit [OF that] after] wait [OF that] by (simp del: whenever_simps(3) whenever_if)
    with True show ?thesis by (simp del: whenever_simps(3) whenever_if) (intro whenever_bind [OF new] whenever_bind [OF pre])
  next
    case False
    have "whenever (lock_inv V past) (and_then (enterNewRound E height ?r cs) (enterPrecommitWait E height ?r))" by (rule whenever_bind [OF new wait])
    with False inv show ?thesis by (auto simp del: whenever_simps(3) intro!: whenever_bind [of "\<lambda>_. True"])
  qed
  then show ?thesis
    unfolding added_precommit_def by (intro whenever_bind [of "\<lambda>_. True"] whenever_split) simp
qed

text \<open>Delivering a vote that is well formed and known.\<close>

definition deliverable :: "view \<Rightarrow> Vote \<Rightarrow> bool" where
  "deliverable V v \<longleftrightarrow> votable (ne_crypto (vw_env V)) v \<and> vw_known V v"

lemma late_precommit_inv:
  assumes inv: "lock_inv V past cs" and E: "same_world (vw_env V) E"
  shows "whenever (\<lambda>(_, _, cs'). lock_inv V past cs') (late_precommit E vote cs)"
proof -
  have k: "lock_inv V past (cs\<lparr>rs_LastCommit := lc\<rparr>)" for lc by (rule lock_inv_keep [OF inv]) simp
  then have "whenever (lock_inv V past) (enterNewRound E hh 0 (cs\<lparr>rs_LastCommit := lc\<rparr>))" for hh lc
    by (intro whenever_mono [OF enterNewRound_inv [OF _ E]]) (auto simp: advances_def)
  then show ?thesis using inv k by (auto simp: late_precommit_def Let_def intro!: whenever_all split: prod.split)
qed

lemma cs_addVote_inv:
  assumes inv: "lock_inv V past cs" and E: "same_world (vw_env V) E" and h: "rs_Height cs = vw_height V" and v: "deliverable V vote"
  shows "whenever (\<lambda>(_, _, cs'). lock_inv V past cs') (cs_addVote E vote peer cs)"
proof (cases "rs_Votes cs")
  case None
  then show ?thesis using inv late_precommit_inv [OF inv E, of vote] by (auto simp: cs_addVote_def must_def)
next
  case (Some hvs)
  have cr: "ne_crypto E = ne_crypto (vw_env V)" using E by (simp add: same_world_def)
  have t: "tracks V hvs" by (rule lock_inv_tracks [OF inv h Some])
  then have hi: "hvs_inv (ne_crypto E) hvs" using cr by (simp add: tracks_def)
  have vt: "votable (ne_crypto E) vote" using v cr by (simp add: deliverable_def)
  obtain added err hvs' where a: "HeightVoteSet_AddVote (ne_crypto E) vote peer hvs = Inr (added, err, hvs')" "hvs_step (ne_crypto E) {vote} hvs hvs'"
    by (rule HeightVoteSet_AddVote_step [OF hi vt]) blast
  let ?d = "cs\<lparr>rs_Votes := Some hvs'\<rparr>"
  have "tracks V hvs'" using a(2) v cr by (intro tracks_step [OF t]) (auto simp: deliverable_def)
  then have d: "lock_inv V past ?d" by (intro lock_inv_votes [OF inv])
  have "whenever (lock_inv V past) (added_prevote E (rs_Height cs) vote ?d)" "whenever (lock_inv V past) (added_precommit E (rs_Height cs) vote ?d)"
    using h by (intro added_prevote_inv [OF d E] added_precommit_inv [OF d E]; simp)+
  then show ?thesis using Some inv d a(1) late_precommit_inv [OF inv E, of vote] by (simp add: cs_addVote_def Let_def)
qed

lemma tryAddVote_inv:
  assumes "lock_inv V past cs" "same_world (vw_env V) E" "rs_Height cs = vw_height V" "deliverable V vote"
  shows "whenever (\<lambda>(_, _, cs'). lock_inv V past cs') (tryAddVote E vote peer cs)"
proof -
  have "lock_inv V past (x\<lparr>cs_evpool := p\<rparr>)" if "lock_inv V past x" for x p by (rule lock_inv_keep [OF that]) simp
  then show ?thesis
    unfolding tryAddVote_def
    by (intro whenever_bind [OF cs_addVote_inv [OF assms]])
      (auto split: prod.split option.split hvs_error.split vote_error.split)
qed

section \<open>One turn\<close>

lemma handleMsg_inv:
  assumes inv: "lock_inv V past cs" and E: "same_world (vw_env V) E" and h: "rs_Height cs = vw_height V"
    and v: "\<And>v. fst mi = VoteMessage v \<Longrightarrow> deliverable V v"
  shows "whenever (lock_inv V past) (handleMsg E mi cs)"
proof (cases mi)
  case (Pair msg peer)
  show ?thesis
  proof (cases msg)
    case (ProposalMessage p)
    have "whenever (\<lambda>(_, cs'). lock_inv V past cs') (defaultSetProposal E p cs)"
      by (rule whenever_mono [OF defaultSetProposal_still]) (auto intro: lock_inv_keep [OF inv])
    with Pair ProposalMessage show ?thesis by (simp add: handleMsg_def)
  next
    case (BlockPartMessage hh r part)
    with Pair addProposalBlockPart_inv [OF inv E h, of hh r part peer] show ?thesis by (simp add: handleMsg_def)
  next
    case (VoteMessage vote)
    with Pair v have "deliverable V vote" by simp
    with Pair VoteMessage tryAddVote_inv [OF inv E h, of vote peer] show ?thesis by (simp add: handleMsg_def)
  qed
qed

lemma handleTimeout_inv:
  assumes inv: "lock_inv V past cs" and E: "same_world (vw_env V) E" and h: "rs_Height cs = vw_height V" and ti: "ti \<in> set (cs_timeouts cs)"
  shows "whenever (lock_inv V past) (handleTimeout E ti cs)"
proof (cases "ti_Height ti = rs_Height cs")
  case False
  then show ?thesis using inv by (simp add: handleTimeout_def)
next
  case True
  then have r: "ti_Round ti \<le> rs_Round cs" "0 \<le> rs_Round cs" using inv h ti by (auto simp: lock_inv_def position_ok_def)
  have new: "whenever (lock_inv V past) (enterNewRound E hh rr x)" if "lock_inv V past x" for hh rr x
    by (rule whenever_mono [OF enterNewRound_inv [OF that E]]) (simp add: advances_def)
  have pre: "whenever (lock_inv V past) (enterPrecommit E hh (ti_Round ti) cs)" for hh by (rule whenever_lock [OF enterPrecommit_inv [OF inv E r(1)]])
  have "whenever (lock_inv V past) (and_then (enterPrecommit E hh (ti_Round ti) cs) (enterNewRound E hh rr))" for hh rr
    by (rule whenever_bind [OF pre new])
  then show ?thesis
    using inv new [OF inv] pre whenever_lock [OF enterPropose_inv [OF inv E r(2)]] whenever_lock [OF enterPrevote_inv [OF inv E r(1)]]
    by (simp add: handleTimeout_def del: whenever_simps(3))
qed

lemma handleTxsAvailable_inv:
  assumes "lock_inv V past cs" "same_world (vw_env V) E"
  shows "whenever (lock_inv V past) (handleTxsAvailable E cs)"
  using assms(1) whenever_lock [OF enterPropose_inv [OF assms, of 0 "rs_Height cs"]] by (simp add: handleTxsAvailable_def)

text \<open>The votes that a turn delivers, and the timeouts that fire are those that were asked for.\<close>

fun possible :: "view \<Rightarrow> ConsensusState \<Rightarrow> input \<Rightarrow> bool" where
  "possible V cs (PeerMsg (VoteMessage v, _)) = deliverable V v"
| "possible V cs (OwnMsg k) = (\<forall>v. k < length (cs_internalMsgQueue cs) \<and> fst (cs_internalMsgQueue cs ! k) = VoteMessage v \<longrightarrow> deliverable V v)"
| "possible V cs (Tock ti) = (ti \<in> set (cs_timeouts cs))"
| "possible V cs _ = True"

lemma lock_inv_past: "voted cs' \<subseteq> voted cs \<Longrightarrow> place cs' = place cs \<Longrightarrow> lock_inv V (past \<union> voted cs) cs' = lock_inv V past cs"
proof -
  assume a: "voted cs' \<subseteq> voted cs" "place cs' = place cs"
  have "own V (past \<union> voted cs) cs' = own V past cs" using a(1) by (auto simp: own_def)
  then show ?thesis using position_ok_place [OF a(2)] decided_place [OF a(2)] place_eqD(1) [OF a(2)] by (simp add: lock_inv_def)
qed

lemma receive_inv:
  assumes inv: "lock_inv V past cs" and E: "same_world (vw_env V) E" and h: "rs_Height cs = vw_height V" and p: "possible V cs inp"
  shows "whenever (lock_inv V (past \<union> voted cs)) (receive E inp cs)"
proof -
  have inv': "lock_inv V (past \<union> voted cs) cs" using inv lock_inv_past [of cs cs] by simp
  have wal: "lock_inv V (past \<union> voted cs) (wal_Write m cs)" "rs_Height (wal_Write m cs) = vw_height V" "cs_timeouts (wal_Write m cs) = cs_timeouts cs" for m
    using lock_inv_keep [OF inv', of "wal_Write m cs"] h by (simp_all add: wal_Write_def)
  show ?thesis
  proof (cases inp)
    case (PeerMsg mi)
    then have "deliverable V v" if "fst mi = VoteMessage v" for v using p that by (cases mi) auto
    with PeerMsg handleMsg_inv [OF wal(1) E wal(2)] show ?thesis by (simp add: receive_def)
  next
    case (OwnMsg k)
    let ?q = "cs_internalMsgQueue cs"
    let ?d = "wal_Write (WALMsgInfo (?q ! k)) (cs\<lparr>cs_internalMsgQueue := take k ?q @ drop (Suc k) ?q\<rparr>)"
    have "set (take k ?q @ drop (Suc k) ?q) \<subseteq> set ?q" using set_take_subset set_drop_subset by fastforce
    then have "voted ?d \<subseteq> voted cs" by (auto simp: voted_def wal_Write_def)
    then have "lock_inv V (past \<union> voted cs) ?d" using inv lock_inv_past [of ?d cs] by (simp add: place_def wal_Write_def)
    then have "whenever (lock_inv V (past \<union> voted cs)) (handleMsg E (?q ! k) ?d)" if "k < length ?q"
      using h p OwnMsg that by (intro handleMsg_inv [OF _ E]) (auto simp: wal_Write_def)
    then show ?thesis using OwnMsg inv' by (simp add: receive_def Let_def)
  next
    case (Tock ti)
    then show ?thesis using p handleTimeout_inv [OF wal(1) E wal(2)] wal(3) by (simp add: receive_def)
  next
    case TxsAvailable
    then show ?thesis using handleTxsAvailable_inv [OF inv' E] by (simp add: receive_def)
  next
    case (VoteSetMaj23 hh r t peer b)
    have "lock_inv V (past \<union> voted cs) (cs\<lparr>rs_Votes := Some hvs'\<rparr>)"
      if "rs_Votes cs = Some hvs" "HeightVoteSet_SetPeerMaj23 r t peer b hvs = Inr (e, hvs')" for hvs e hvs'
    proof -
      have t: "tracks V hvs" by (rule lock_inv_tracks [OF inv h that(1)])
      then have hi: "hvs_inv (ne_crypto (vw_env V)) hvs" by (simp add: tracks_def)
      have "hvs_step (ne_crypto (vw_env V)) {} hvs hvs'" by (rule HeightVoteSet_SetPeerMaj23_step [OF hi, of r t peer b]) (use that(2) in simp)
      then show ?thesis using tracks_step [OF t] by (intro lock_inv_votes [OF inv']) simp
    qed
    then show ?thesis using VoteSetMaj23 inv' by (auto simp: receive_def intro!: wheneverI)
  qed
qed

end
