(* ===== verification/Consensus_Run.thy ===== *)
theory Consensus_Run
  imports Consensus_Steps "HOL-Library.Code_Target_Nat"
begin

text \<open>
  Runs of several nodes at one height, a check of runs by evaluation, and a run of three validators, two of which follow the code, from genesis
  to the second height. The sample takes every handler on the way to a decision: proposing, parts, both kinds of votes, committing, storing and applying the block.
\<close>

section \<open>Runs\<close>

definition own_votes :: "int64 \<Rightarrow> (nat \<Rightarrow> Vote set) \<Rightarrow> (nat \<Rightarrow> ConsensusState) \<Rightarrow> nat \<Rightarrow> Vote set" where
  "own_votes h P G i = {v \<in> P i \<union> voted (G i). v_Height v = h}"

definition authentic :: "crypto \<Rightarrow> bytes \<Rightarrow> ValidatorSet \<Rightarrow> int64 \<Rightarrow> nat set \<Rightarrow> (nat \<Rightarrow> Vote set) \<Rightarrow> Vote \<Rightarrow> bool" where
  "authentic cr chain vals h Hon A v \<longleftrightarrow> (\<forall>i \<in> Hon. vote_of cr chain vals i v \<and> v_Height v = h \<longrightarrow>
     (\<exists>w \<in> A i. v_Round w = v_Round v \<and> v_Type w = v_Type v \<and> v_BlockID w = v_BlockID v))"

definition at_start :: "bytes \<Rightarrow> ValidatorSet \<Rightarrow> int64 \<Rightarrow> ConsensusState \<Rightarrow> bool" where
  "at_start chain vals h cs \<longleftrightarrow> rs_Height cs = h \<and> rs_Round cs = 0 \<and>
     (case NewHeightVoteSet chain h vals of Inr hvs \<Rightarrow> rs_Votes cs = Some hvs | Inl _ \<Rightarrow> False) \<and>
     (\<forall>v \<in> voted cs. v_Height v \<noteq> h) \<and> (\<forall>ti \<in> set (cs_timeouts cs). ti_Height ti = h \<longrightarrow> ti_Round ti \<le> 0)"

definition view_at :: "node_env \<Rightarrow> bytes \<Rightarrow> ValidatorSet \<Rightarrow> int64 \<Rightarrow> nat set \<Rightarrow> (nat \<Rightarrow> Vote set) \<Rightarrow> view" where
  "view_at W chain vals h Hon A = \<lparr>vw_env = W, vw_known = authentic (ne_crypto W) chain vals h Hon A, vw_chain = chain, vw_vals = vals, vw_height = h,
     vw_old = {}, vw_from = 0\<rparr>"

inductive run :: "node_env \<Rightarrow> bytes \<Rightarrow> ValidatorSet \<Rightarrow> int64 \<Rightarrow> nat set \<Rightarrow> (nat \<Rightarrow> Vote set) \<Rightarrow> (nat \<Rightarrow> ConsensusState) \<Rightarrow> bool"
  for W chain vals h Hon where
  run_start: "(\<And>i. i \<in> Hon \<Longrightarrow> P i = {} \<and> at_start chain vals h (G i)) \<Longrightarrow> run W chain vals h Hon P G"
| run_turn: "run W chain vals h Hon P G \<Longrightarrow> i \<in> Hon \<Longrightarrow> rs_Height (G i) = h \<Longrightarrow> same_world W E \<Longrightarrow>
    possible (view_at W chain vals h Hon (own_votes h P G)) (G i) inp \<Longrightarrow> receive E inp (G i) = Inr cs \<Longrightarrow>
    run W chain vals h Hon (P(i := P i \<union> voted (G i))) (G(i := cs))"

lemma view_at_simps [simp]:
  "vw_env (view_at W chain vals h Hon A) = W" "vw_known (view_at W chain vals h Hon A) = authentic (ne_crypto W) chain vals h Hon A"
  "vw_chain (view_at W chain vals h Hon A) = chain" "vw_vals (view_at W chain vals h Hon A) = vals" "vw_height (view_at W chain vals h Hon A) = h"
  "vw_old (view_at W chain vals h Hon A) = {}" "vw_from (view_at W chain vals h Hon A) = 0"
  by (simp_all add: view_at_def)

section \<open>Checking a run by evaluation\<close>

definition verifies :: "crypto \<Rightarrow> bytes \<Rightarrow> ValidatorSet \<Rightarrow> nat \<Rightarrow> Vote \<Rightarrow> bool" where
  "verifies cr chain vals i v = (case val_PubKey (vs_Validators vals ! i) of None \<Rightarrow> False | Some pk \<Rightarrow> (case Vote_Verify cr chain pk v of Inr _ \<Rightarrow> True | Inl _ \<Rightarrow> False))"

definition vote_in :: "Message \<Rightarrow> Vote option" where
  "vote_in m = (case m of VoteMessage v \<Rightarrow> Some v | _ \<Rightarrow> None)"

fun votes_in :: "msgInfo list \<Rightarrow> Vote list" where
  "votes_in [] = []"
| "votes_in ((m, _) # q) = (case vote_in m of None \<Rightarrow> votes_in q | Some v \<Rightarrow> v # votes_in q)"

definition queued :: "ConsensusState \<Rightarrow> Vote list" where
  "queued cs = votes_in (cs_internalMsgQueue cs)"

definition authentic_in :: "crypto \<Rightarrow> bytes \<Rightarrow> ValidatorSet \<Rightarrow> int64 \<Rightarrow> Vote list list \<Rightarrow> ConsensusState list \<Rightarrow> Vote \<Rightarrow> bool" where
  "authentic_in cr chain vals h P G v \<longleftrightarrow> v_Height v = h \<longrightarrow> list_all (\<lambda>i. verifies cr chain vals i v \<longrightarrow>
     list_ex (\<lambda>w. v_Height w = h \<and> v_Round w = v_Round v \<and> v_Type w = v_Type v \<and> v_BlockID w = v_BlockID v) (P ! i @ queued (G ! i))) [0..<length G]"

definition votable_in :: "crypto \<Rightarrow> Vote \<Rightarrow> bool" where
  "votable_in cr v \<longleftrightarrow> (case Vote_ValidateBasic v of Inr _ \<Rightarrow> True | Inl _ \<Rightarrow> False) \<and> cr_TimeBytes cr (v_Timestamp v) \<noteq> None"

definition delivered :: "ConsensusState \<Rightarrow> input \<Rightarrow> Vote option" where
  "delivered cs inp = (case inp of PeerMsg (m, _) \<Rightarrow> vote_in m
     | OwnMsg k \<Rightarrow> (if k < length (cs_internalMsgQueue cs) then vote_in (fst (cs_internalMsgQueue cs ! k)) else None) | _ \<Rightarrow> None)"

definition legal :: "node_env \<Rightarrow> bytes \<Rightarrow> ValidatorSet \<Rightarrow> int64 \<Rightarrow> Vote list list \<Rightarrow> ConsensusState list \<Rightarrow> nat \<Rightarrow> input \<Rightarrow> bool" where
  "legal E chain vals h P G i inp \<longleftrightarrow> i < length G \<and> rs_Height (G ! i) = h \<and>
     (case delivered (G ! i) inp of None \<Rightarrow> True | Some v \<Rightarrow> votable_in (ne_crypto E) v \<and> authentic_in (ne_crypto E) chain vals h P G v) \<and>
     (case inp of Tock ti \<Rightarrow> ti \<in> set (cs_timeouts (G ! i)) | _ \<Rightarrow> True)"

fun turns :: "node_env \<Rightarrow> bytes \<Rightarrow> ValidatorSet \<Rightarrow> int64 \<Rightarrow> (nat \<times> (ConsensusState list \<Rightarrow> input)) list \<Rightarrow> Vote list list \<Rightarrow> ConsensusState list \<Rightarrow> ConsensusState list option" where
  "turns E chain vals h [] P G = Some G"
| "turns E chain vals h ((i, f) # ts) P G =
     (let inp = f G in if legal E chain vals h P G i inp
      then (case receive E inp (G ! i) of Inl _ \<Rightarrow> None | Inr cs \<Rightarrow> turns E chain vals h ts (P[i := P ! i @ queued (G ! i)]) (G[i := cs]))
      else None)"

lemma voted_queued: "voted cs = set (queued cs)"
proof -
  have "v \<in> set (votes_in q) \<longleftrightarrow> (\<exists>p. (VoteMessage v, p) \<in> set q)" for v q
    by (induction q rule: votes_in.induct) (auto simp: vote_in_def split: Message.splits)
  then show ?thesis by (auto simp: voted_def queued_def)
qed

lemma verifies_iff: "verifies cr chain vals i v = vote_of cr chain vals i v"
  by (auto simp: verifies_def vote_of_def split: option.splits sum.splits)

lemma own_votes_lists: "own_votes h (\<lambda>i. set (P ! i)) ((!) G) i = {v \<in> set (P ! i @ queued (G ! i)). v_Height v = h}"
  by (auto simp: own_votes_def voted_queued)

lemma authentic_in_iff:
  "authentic_in cr chain vals h P G v = authentic cr chain vals h {..<length G} (own_votes h (\<lambda>i. set (P ! i)) ((!) G)) v"
  unfolding authentic_in_def authentic_def verifies_iff own_votes_lists by (auto simp: list_all_iff list_ex_iff)

lemma legal_possible:
  assumes "legal E chain vals h P G i inp"
  shows "possible (view_at E chain vals h {..<length G} (own_votes h (\<lambda>i. set (P ! i)) ((!) G))) (G ! i) inp"
proof -
  let ?V = "view_at E chain vals h {..<length G} (own_votes h (\<lambda>i. set (P ! i)) ((!) G))"
  have d: "deliverable ?V v" if "delivered (G ! i) inp = Some v" for v
    using assms that by (auto simp: legal_def deliverable_def votable_in_def votable_def authentic_in_iff split: sum.splits)
  show ?thesis
  proof (cases "(?V, G ! i, inp)" rule: possible.cases)
    case (1 V cs v uu)
    then show ?thesis using d by (simp add: delivered_def vote_in_def)
  next
    case (2 V cs k)
    then show ?thesis using d by (auto simp: delivered_def vote_in_def)
  next
    case (3 V cs ti)
    then show ?thesis using assms by (simp add: legal_def)
  qed simp_all
qed

lemma turns_run:
  assumes "turns E chain vals h ts P G = Some G'" "length P = length G" "run E chain vals h {..<length G} (\<lambda>i. set (P ! i)) ((!) G)"
  shows "length G' = length G \<and> (\<exists>P'. run E chain vals h {..<length G} P' ((!) G'))"
  using assms
proof (induction ts arbitrary: P G)
  case Nil
  then show ?case by auto
next
  case (Cons t ts)
  obtain i f where t: "t = (i, f)" by (cases t)
  from Cons.prems(1) obtain cs where leg: "legal E chain vals h P G i (f G)" and cs: "receive E (f G) (G ! i) = Inr cs"
      and rest: "turns E chain vals h ts (P[i := P ! i @ queued (G ! i)]) (G[i := cs]) = Some G'"
    by (auto simp: t Let_def split: if_splits sum.splits)
  have i: "i < length G" "rs_Height (G ! i) = h" using leg by (simp_all add: legal_def)
  have "(\<lambda>j. set (P[i := P ! i @ queued (G ! i)] ! j)) = (\<lambda>j. set (P ! j))(i := set (P ! i) \<union> voted (G ! i))" "(!) (G[i := cs]) = ((!) G)(i := cs)"
    using i(1) Cons.prems(2) by (auto simp: voted_queued nth_list_update fun_eq_iff)
  then have "run E chain vals h {..<length G} (\<lambda>j. set (P[i := P ! i @ queued (G ! i)] ! j)) ((!) (G[i := cs]))"
    using run_turn [OF Cons.prems(3) _ _ _ legal_possible [OF leg] cs] i by (simp add: same_world_def)
  with Cons.IH [OF rest] Cons.prems(2) show ?case by simp
qed

text \<open>The states that \<^verbatim>\<open>NewState\<close> and \<^verbatim>\<open>OnStart\<close> make are at the start of a height.\<close>

lemma NewState_at_start:
  assumes "NewState E state db bs pv = Inr cs" "int64_range (st_LastBlockHeight state + 1)"
  shows "at_start (st_ChainID state) (st_Validators state) (st_LastBlockHeight state + 1) cs"
proof -
  have up: "whenever (\<lambda>cs. at_start (st_ChainID state) (st_Validators state) (st_LastBlockHeight state + 1) (scheduleRound0 E cs)) (updateToState E state x)"
    if x: "cs_state x = None" "cs_internalMsgQueue x = []" "cs_timeouts x = []" for x
    using assms(2) x
    by (auto simp: updateToState_def Let_def Now_def scheduleRound0_def scheduleTimeout_def newStep_def updateRoundStep_def at_start_def voted_def intro!: wheneverI)
  have "whenever (\<lambda>x. cs_state x = None \<and> cs_internalMsgQueue x = [] \<and> cs_timeouts x = []) (reconstructLastCommit E state (zero_ConsensusState db bs pv))"
    by (auto simp: reconstructLastCommit_def zero_ConsensusState_def intro!: whenever_all split: option.split)
  then have "whenever (\<lambda>x. cs_state x = None \<and> cs_internalMsgQueue x = [] \<and> cs_timeouts x = [])
      (if st_LastBlockHeight state > 0 then reconstructLastCommit E state (zero_ConsensusState db bs pv) else Inr (zero_ConsensusState db bs pv))"
    by (simp add: zero_ConsensusState_def)
  then have "whenever (at_start (st_ChainID state) (st_Validators state) (st_LastBlockHeight state + 1)) (NewState E state db bs pv)"
    unfolding NewState_def Let_def by (rule whenever_bind) (use up in simp)
  then show ?thesis using assms(1) by simp
qed

section \<open>Three validators\<close>

definition trio_crypto :: crypto where
  "trio_crypto = \<lparr>cr_Address = take 20, cr_VerifyBytes = (\<lambda>pk msg sig. sig = pk), cr_TimeBytes = demo_time\<rparr>"

definition trio_app :: app where
  "trio_app = \<lparr>app_DeliverBlock = (\<lambda>_. Some \<lparr>rdb_DeliverTxs = [], rdb_ValidatorUpdates = [], rdb_ConsensusParamUpdates = None, rdb_Events = []\<rparr>),
     app_CheckBlock = (\<lambda>_. Some \<lparr>rcb_Code = 0, rcb_AppHash = [], rcb_DeliverTxs = [], rcb_Events = []\<rparr>),
     app_CreateBlock = (\<lambda>_ _ _. Some \<lparr>rcr_Txs = [], rcr_InvalidTxs = [], rcr_AppHash = [], rcr_Events = [], rcr_DeliverTxs = []\<rparr>), app_FlushAppConn = True, app_CommitSync = Some ([], 0),
     app_MempoolUpdate = True, app_PendingEvidence = (\<lambda>_. []), app_enc_tx = (\<lambda>_. Some []), app_enc_events = (\<lambda>_. Some [])\<rparr>"

definition trio_member :: "8 word \<Rightarrow> int64 \<Rightarrow> Validator" where
  "trio_member k p = \<lparr>val_Address = replicate 20 k, val_PubKey = Some (replicate 32 k), val_VotingPower = p, val_ProposerPriority = 0\<rparr>"

definition trio_set :: ValidatorSet where
  "trio_set = \<lparr>vs_Validators = [trio_member 1 10, trio_member 2 10, trio_member 3 5], vs_Proposer = Some (trio_member 1 10), vs_totalVotingPower = 25\<rparr>"

definition trio_state :: State where
  "trio_state = demo_state\<lparr>st_Validators := trio_set, st_NextValidators := trio_set\<rparr>"

definition trio_db :: state_db where
  "trio_db = (let db = \<lparr>db_vals = Map.empty, db_params = Map.empty, db_abci = Map.empty, db_state = None\<rparr> in case SaveState db trio_state of Inr db \<Rightarrow> db | Inl _ \<Rightarrow> db)"

definition trio_marshal :: "tmproto_Block \<Rightarrow> bytes option" where
  "trio_marshal _ = Some [1]"

definition trio_unmarshal :: "bytes \<Rightarrow> tmproto_Block option" where
  "trio_unmarshal _ =
     (case CreateProposalBlock byte_encoders trio_marshal trio_crypto zero_hash trio_app trio_db 1 trio_state (NewCommit 0 0 nil_BlockID []) (replicate 20 1) of
        Inr (b, _) \<Rightarrow> (case Block_ToProto (Some b) of Inr p \<Rightarrow> Some p | Inl _ \<Rightarrow> None) | Inl _ \<Rightarrow> None)"

definition trio_config :: ConsensusConfig where
  "trio_config = \<lparr>cfg_TimeoutPropose = 3, cfg_TimeoutProposeDelta = 1, cfg_TimeoutPrevote = 1, cfg_TimeoutPrevoteDelta = 1, cfg_TimeoutPrecommit = 1, cfg_TimeoutPrecommitDelta = 1,
     cfg_TimeoutCommit = 1, cfg_SkipTimeoutCommit = False, cfg_CreateEmptyBlocks = True, cfg_CreateEmptyBlocksInterval = 0\<rparr>"

definition trio_env :: node_env where
  "trio_env = \<lparr>ne_enc = byte_encoders, ne_marshal = trio_marshal, ne_unmarshal = trio_unmarshal, ne_H = zero_hash,
     ne_pv = \<lparr>env_crypto = trio_crypto, env_PubKey = (\<lambda>k. k), env_Sign = (\<lambda>k m. Some k), env_TimeOf = demo_time_of\<rparr>, ne_write_ok = True,
     ne_app = trio_app, ne_pool = None, ne_config = trio_config, ne_clock = (\<lambda>n. 10 + int n)\<rparr>"

definition trio_pv :: "8 word \<Rightarrow> FilePV \<times> pv_files" where
  "trio_pv k = (\<lparr>pv_Key = \<lparr>pvk_Address = replicate 20 k, pvk_PubKey = replicate 32 k, pvk_PrivKey = replicate 32 k, pvk_filePath = ''k''\<rparr>,
     pv_LastSignState = \<lparr>lss_Height = 0, lss_Round = 0, lss_Step = 0, lss_Signature = None, lss_SignBytes = None, lss_filePath = ''s''\<rparr>\<rparr>, \<lparr>fs_Key = None, fs_State = None\<rparr>)"

definition trio_start :: "8 word \<Rightarrow> ConsensusState cs_result" where
  "trio_start k = NewState trio_env trio_state trio_db (NewBlockStore empty_block_db) (Some (trio_pv k))"

definition trio_turns :: "(nat \<times> (ConsensusState list \<Rightarrow> input)) list" where
  "trio_turns = (let wake = (\<lambda>_. Tock \<lparr>ti_Duration = 0, ti_Height = 1, ti_Round = 0, ti_Step = RoundStepNewHeight\<rparr>); own = (\<lambda>_. OwnMsg 0);
       from = (\<lambda>j k G. PeerMsg (fst (cs_internalMsgQueue (G ! j) ! k), [1])) in
     [(0, wake), (1, wake), (1, from 0 0), (1, from 0 1), (0, own), (0, own), (0, from 1 0), (1, from 0 0), (0, own), (1, own),
      (0, from 1 0), (1, from 0 0), (0, own), (1, own)])"

definition trio_end :: "ConsensusState list option" where
  "trio_end = (case (trio_start 1, trio_start 2) of (Inr a, Inr b) \<Rightarrow> turns trio_env [116] trio_set 1 trio_turns [[], []] [a, b] | _ \<Rightarrow> None)"

lemma trio_decides: "case trio_end of None \<Rightarrow> False | Some G \<Rightarrow> length G = 2 \<and> rs_Height (G ! 0) = 2 \<and> rs_Height (G ! 1) = 2"
  by code_simp

lemma trio_run:
  obtains P G where "run trio_env [116] trio_set 1 {0, 1} P G" "rs_Height (G 0) = 2" "rs_Height (G 1) = 2"
proof -
  obtain G where G: "trio_end = Some G" "rs_Height (G ! 0) = 2" "rs_Height (G ! 1) = 2" using trio_decides by (auto split: option.splits)
  obtain a b where ab: "trio_start 1 = Inr a" "trio_start 2 = Inr b" "turns trio_env [116] trio_set 1 trio_turns [[], []] [a, b] = Some G"
    using G(1) by (auto simp: trio_end_def split: prod.splits sum.splits)
  have "at_start [116] trio_set 1 c" if "trio_start k = Inr c" for k c
    using NewState_at_start [OF that [unfolded trio_start_def]] by (simp add: trio_state_def demo_state_def int_limits int64_range_iff)
  then have "run trio_env [116] trio_set 1 {..<length [a, b]} (\<lambda>i. set ([[], []] ! i)) ((!) [a, b])"
    using ab(1,2) by (intro run_start) (auto simp: less_Suc_eq)
  then obtain P where "run trio_env [116] trio_set 1 {..<length [a, b]} P ((!) G)" using turns_run [OF ab(3)] by auto
  moreover have "{..<length [a, b]} = {0, 1}" by auto
  ultimately show ?thesis using that G(2,3) by simp
qed

lemma trio_set_ok:
  "vset_wf trio_set" "vset_keys trio_set" "3 * power_in trio_set ({..<ValidatorSet_Size trio_set} - {0, 1}) < all_power trio_set"
proof -
  have "{..<ValidatorSet_Size trio_set} - {0, 1} = {2}" by (auto simp: ValidatorSet_Size_def trio_set_def)
  then show "3 * power_in trio_set ({..<ValidatorSet_Size trio_set} - {0, 1}) < all_power trio_set"
    by (simp add: trio_set_def trio_member_def power_of_def)
qed (simp_all add: vset_wf_def validators_wf_def vset_keys_def trio_set_def trio_member_def MaxTotalVotingPower_eq)

end
