(* ===== verification/Agreement.thy ===== *)
theory Agreement
  imports Consensus_Run
begin

text \<open>
  Agreement of the nodes on the block of a height. A run interleaves turns of \<^verbatim>\<open>receiveRoutine\<close> of the validators that follow the
  code, at one height, with any clock, configuration, application and evidence pool in each turn, any proposals, parts
  and claims of peers, and any votes that are authentic: a vote that verifies under the key of such a validator repeats what that validator has voted
  before. The other validators may sign anything. When they hold less than a third of the
  power, two nodes that leave the height have applied blocks with the same hash.

  The argument follows the time of the run: when a third of the power precommits a block in a round, or may still do so, these validators
  prevote nothing else in later rounds, because they would need a majority for something else that exists before.
\<close>

section \<open>The invariant along a run\<close>

lemma history_okD:
  assumes "history_ok V A"
  shows "\<And>p c. p \<in> A \<Longrightarrow> c \<in> A \<Longrightarrow> v_Type p = PrevoteType \<Longrightarrow> v_Type c = PrecommitType \<Longrightarrow> vhash c \<noteq> [] \<Longrightarrow> v_Round c < v_Round p \<Longrightarrow>
      vhash p = vhash c \<or> moved_on V (vhash c) (v_Round c) (v_Round p)"
    and "\<And>c. c \<in> A \<Longrightarrow> v_Type c = PrecommitType \<Longrightarrow> vhash c \<noteq> [] \<Longrightarrow> \<exists>B. seen V (v_Round c) PrevoteType B \<and> bid_Hash B = vhash c"
    and "\<And>c d. c \<in> A \<Longrightarrow> d \<in> A \<Longrightarrow> v_Type c = PrecommitType \<Longrightarrow> v_Type d = PrecommitType \<Longrightarrow> v_Round c = v_Round d \<Longrightarrow> vhash c = vhash d"
    and "\<And>v. v \<in> A \<Longrightarrow> v \<notin> vw_old V \<Longrightarrow> vw_from V \<le> v_Round v"
  using assms unfolding history_ok_def by blast+

lemma position_okD:
  assumes "position_ok V A cs"
  shows "0 \<le> rs_Round cs" "vw_from V \<le> rs_Round cs" "\<And>v. v \<in> A \<Longrightarrow> v_Round v \<le> rs_Round cs"
  using assms unfolding position_ok_def by blast+

lemma lock_invD:
  assumes "lock_inv V past cs"
  shows "history_ok V (own V past cs)" "rs_Height cs = vw_height V \<Longrightarrow> position_ok V (own V past cs) cs" "rs_Height cs \<noteq> vw_height V \<Longrightarrow> decided V cs"
  using assms by (simp_all add: lock_inv_def)

lemma own_own_votes: "own V (P i) (G i) = own_votes (vw_height V) P G i"
  by (simp add: own_def own_votes_def)

definition later_view :: "view \<Rightarrow> view \<Rightarrow> bool" where
  "later_view V W \<longleftrightarrow> vw_env W = vw_env V \<and> vw_chain W = vw_chain V \<and> vw_vals W = vw_vals V \<and> vw_height W = vw_height V \<and> (\<forall>v. vw_known V v \<longrightarrow> vw_known W v)"

lemma later_seen: "later_view V W \<Longrightarrow> seen V r t B \<Longrightarrow> seen W r t B"
  unfolding later_view_def by (rule seen_mono) auto

lemma later_moved: "later_view V W \<Longrightarrow> moved_on V x r r' \<Longrightarrow> moved_on W x r r'"
  unfolding moved_on_def using later_seen by blast

lemma later_decided:
  assumes W: "later_view V W" and d: "decided V cs"
  shows "decided W cs"
proof -
  have "vw_height W = vw_height V" using W by (simp add: later_view_def)
  then show ?thesis using d later_seen [OF W] unfolding decided_def by metis
qed

lemma lock_inv_later:
  assumes inv: "lock_inv V past cs" and W: "later_view V W"
    and new: "\<And>v. v \<in> own V past cs \<Longrightarrow> v \<notin> vw_old W \<Longrightarrow> vw_from W \<le> v_Round v" "rs_Height cs = vw_height V \<Longrightarrow> vw_from W \<le> rs_Round cs"
  shows "lock_inv W past cs"
proof -
  have e: "vw_env W = vw_env V" "vw_chain W = vw_chain V" "vw_vals W = vw_vals V" "vw_height W = vw_height V" "\<And>v. vw_known V v \<Longrightarrow> vw_known W v"
    using W by (auto simp: later_view_def)
  have own: "own W past cs = own V past cs" by (simp add: own_def e)
  have "history_ok W (own V past cs)"
    using inv new(1) later_seen [OF W] later_moved [OF W] unfolding lock_inv_def history_ok_def by meson
  moreover have "position_ok W (own V past cs) cs" if "rs_Height cs = vw_height V" "position_ok V (own V past cs) cs"
  proof -
    have "\<exists>hvs. rs_Votes cs = Some hvs \<and> tracks W hvs" using that(2) e by (auto simp: position_ok_def tracks_def)
    moreover have "locked_on W x r cs = locked_on V x r cs" for x r by (simp add: locked_on_def e)
    ultimately show ?thesis using that new(2) later_moved [OF W] unfolding position_ok_def e(4) by blast
  qed
  moreover have "decided W cs" if "decided V cs" by (rule later_decided [OF W that])
  ultimately show ?thesis using inv own e(4) by (simp add: lock_inv_def)
qed

lemma at_start_inv:
  assumes "at_start chain vals h cs" "0 < h" "vset_wf vals" "vset_keys vals"
  shows "lock_inv (view_at W chain vals h Hon A) {} cs"
proof -
  obtain hvs where hvs: "NewHeightVoteSet chain h vals = Inr hvs" "hvs_inv (ne_crypto W) hvs" "hvs_votes hvs = {}" "hvs_chainID hvs = chain"
      "hvs_height hvs = h" "hvs_valSet hvs = vals"
    using NewHeightVoteSet_inv [of h vals chain "ne_crypto W"] assms(2-4) by (metis less_irrefl)
  have "own (view_at W chain vals h Hon A) {} cs = {}" using assms(1) by (auto simp: own_def at_start_def)
  then show ?thesis using assms(1) hvs by (simp add: lock_inv_def position_ok_def history_ok_def at_start_def tracks_def)
qed

lemma authentic_mono:
  assumes "authentic cr chain vals h Hon A v" "\<And>i. i \<in> Hon \<Longrightarrow> A i \<subseteq> A' i"
  shows "authentic cr chain vals h Hon A' v"
  using assms unfolding authentic_def by (meson subsetD)

text \<open>A turn: the votes of the node grow, with rounds that are not before its round, and the invariant holds for what was known before the turn.\<close>

lemma turn_inv:
  assumes inv: "lock_inv (view_at W chain vals h Hon A) past cs" and own: "A i = own (view_at W chain vals h Hon A) past cs" and h: "rs_Height cs = h"
    and E: "same_world W E" and p: "possible (view_at W chain vals h Hon A) cs inp" and r: "receive E inp cs = Inr cs'"
  shows "lock_inv (view_at W chain vals h Hon A) (past \<union> voted cs) cs'"
    and "\<And>v. v \<in> own (view_at W chain vals h Hon A) (past \<union> voted cs) cs' \<Longrightarrow> v \<in> A i \<or> (\<forall>w \<in> A i. v_Round w \<le> v_Round v)"
    and "A i \<subseteq> own (view_at W chain vals h Hon A) (past \<union> voted cs) cs'"
proof -
  let ?V = "view_at W chain vals h Hon A"
  let ?W = "?V\<lparr>vw_old := A i, vw_from := rs_Round cs\<rparr>"
  have ow: "own ?W q c = own ?V q c" for q c by (simp add: own_def)
  have lw: "later_view ?V ?W" "later_view ?W ?V" by (simp_all add: later_view_def)
  have pos: "position_ok ?V (A i) cs" and hist: "history_ok ?V (A i)" using inv h own by (simp_all add: lock_inv_def)
  have pw: "possible ?W cs inp" using p by (cases "(?W, cs, inp)" rule: possible.cases) (auto simp: deliverable_def)
  have "lock_inv ?W past cs" by (rule lock_inv_later [OF inv lw(1)]) (use own in simp_all)
  then have "whenever (lock_inv ?W (past \<union> voted cs)) (receive E inp cs)" by (rule receive_inv) (use E h pw in simp_all)
  then have new: "lock_inv ?W (past \<union> voted cs) cs'" using r by simp
  have late: "v \<in> A i \<or> rs_Round cs \<le> v_Round v" if "v \<in> own ?V (past \<union> voted cs) cs'" for v
    using history_okD(4) [OF lock_invD(1) [OF new], of v] that ow by auto
  have ge: "0 \<le> rs_Round cs" "\<And>v. v \<in> A i \<Longrightarrow> 0 \<le> v_Round v" "\<And>v. v \<in> A i \<Longrightarrow> v_Round v \<le> rs_Round cs"
    using position_okD(1,3) [OF pos] history_okD(4) [OF hist] by simp_all
  show "lock_inv ?V (past \<union> voted cs) cs'"
  proof (rule lock_inv_later [OF new lw(2)])
    show "vw_from ?V \<le> v_Round v" if "v \<in> own ?W (past \<union> voted cs) cs'" for v using late [of v] ge that ow by force
    show "vw_from ?V \<le> rs_Round cs'" if "rs_Height cs' = vw_height ?W" using position_okD(1) [OF lock_invD(2) [OF new that]] by simp
  qed
  show "v \<in> A i \<or> (\<forall>w \<in> A i. v_Round w \<le> v_Round v)" if "v \<in> own ?V (past \<union> voted cs) cs'" for v
    using late [OF that] ge(3) by force
  show "A i \<subseteq> own ?V (past \<union> voted cs) cs'" using own by (auto simp: own_def)
qed

section \<open>Majorities of honest votes\<close>

lemma seen_votes:
  assumes "seen (view_at W chain vals h Hon A) r t B"
  obtains s where "s \<subseteq> {..<ValidatorSet_Size vals}" "2 * all_power vals < 3 * power_in vals s"
    "\<And>i. i \<in> s \<Longrightarrow> i \<in> Hon \<Longrightarrow> \<exists>w \<in> A i. v_Round w = r \<and> v_Type w = t \<and> v_BlockID w = B"
proof -
  obtain s where s: "s \<subseteq> {..<ValidatorSet_Size vals}" "2 * all_power vals < 3 * power_in vals s"
      "\<And>i. i \<in> s \<Longrightarrow> \<exists>v. authentic (ne_crypto W) chain vals h Hon A v \<and> vote_of (ne_crypto W) chain vals i v \<and> v_Height v = h \<and>
        v_Round v = r \<and> v_Type v = t \<and> v_BlockID v = B"
    using assms unfolding seen_def view_at_simps by blast
  have "\<exists>w \<in> A i. v_Round w = r \<and> v_Type w = t \<and> v_BlockID w = B" if i: "i \<in> s" "i \<in> Hon" for i
    using s(3) [OF i(1)] i(2) unfolding authentic_def by metis
  with s(1,2) that show ?thesis by blast
qed

lemma overlap:
  assumes "vset_wf vals" "s \<subseteq> {..<ValidatorSet_Size vals}" "f \<subseteq> {..<ValidatorSet_Size vals}"
    and "2 * all_power vals < 3 * power_in vals s" "all_power vals \<le> 3 * power_in vals f"
  obtains i where "i \<in> s" "i \<in> f"
proof -
  have fin: "finite s" "finite f" using assms(2,3) finite_subset by blast+
  have "power_in vals (s \<union> f) \<le> all_power vals" using power_in_le [OF assms(1), of "s \<union> f"] assms(2,3) by simp
  moreover have "power_in vals (s \<union> f) = power_in vals s + power_in vals f" if "s \<inter> f = {}" using that fin by (simp add: sum.union_disjoint)
  ultimately have "s \<inter> f \<noteq> {}" using assms(4,5) by linarith
  then show ?thesis using that by blast
qed

lemma honest_part:
  assumes "vset_wf vals" "s \<subseteq> {..<ValidatorSet_Size vals}" "2 * all_power vals < 3 * power_in vals s"
    and "3 * power_in vals ({..<ValidatorSet_Size vals} - Hon) < all_power vals"
  shows "all_power vals \<le> 3 * power_in vals (s \<inter> Hon)"
proof -
  have fin: "finite s" using assms(2) finite_subset by blast
  have "power_in vals s = power_in vals (s \<inter> Hon) + power_in vals (s - Hon)" using fin by (simp add: sum.Int_Diff)
  moreover have "power_in vals (s - Hon) \<le> power_in vals ({..<ValidatorSet_Size vals} - Hon)"
    using voters.weight_mono [OF assms(1), of "{..<ValidatorSet_Size vals} - Hon" "s - Hon"] assms(2) by auto
  ultimately show ?thesis using assms(3,4) by linarith
qed

section \<open>Safety of a run\<close>

text \<open>Validators that precommitted a block in a round or may still do so, and what they prevote later.\<close>

definition supports :: "int32 \<Rightarrow> bytes \<Rightarrow> Vote set \<Rightarrow> bool" where
  "supports r x A \<longleftrightarrow> (\<exists>c \<in> A. v_Type c = PrecommitType \<and> v_Round c = r \<and> vhash c = x)"

definition stuck_to :: "int32 \<Rightarrow> bytes \<Rightarrow> Vote set \<Rightarrow> bool" where
  "stuck_to r x A \<longleftrightarrow> (\<forall>p \<in> A. v_Type p = PrevoteType \<and> r < v_Round p \<longrightarrow> vhash p = x)"

definition locks_hold :: "ValidatorSet \<Rightarrow> nat set \<Rightarrow> (nat \<Rightarrow> Vote set) \<Rightarrow> bool" where
  "locks_hold vals Hon A \<longleftrightarrow> (\<forall>r x F. x \<noteq> [] \<longrightarrow> F \<subseteq> Hon \<inter> {..<ValidatorSet_Size vals} \<longrightarrow> all_power vals \<le> 3 * power_in vals F \<longrightarrow>
     (\<forall>i \<in> F. supports r x (A i) \<or> (\<forall>v \<in> A i. v_Round v \<le> r)) \<longrightarrow> (\<forall>i \<in> F. stuck_to r x (A i)))"

lemma locks_holdD:
  assumes "locks_hold vals Hon A" "x \<noteq> []" "F \<subseteq> Hon \<inter> {..<ValidatorSet_Size vals}" "all_power vals \<le> 3 * power_in vals F"
    "\<And>i. i \<in> F \<Longrightarrow> supports r x (A i) \<or> (\<forall>v \<in> A i. v_Round v \<le> r)" "i \<in> F"
  shows "stuck_to r x (A i)"
  using assms unfolding locks_hold_def by blast

lemma locks_hold_turn:
  assumes old: "locks_hold vals Hon A" and wf: "vset_wf vals" and hist: "\<And>i. i \<in> Hon \<Longrightarrow> history_ok (view_at W chain vals h Hon A) (A' i)"
    and grow: "\<And>i. i \<in> Hon \<Longrightarrow> A i \<subseteq> A' i" and new: "\<And>i v. i \<in> Hon \<Longrightarrow> v \<in> A' i \<Longrightarrow> v \<in> A i \<or> (\<forall>w \<in> A i. v_Round w \<le> v_Round v)"
  shows "locks_hold vals Hon A'"
  unfolding locks_hold_def
proof (intro allI impI ballI)
  fix r x F i
  assume x: "x \<noteq> []" and F: "F \<subseteq> Hon \<inter> {..<ValidatorSet_Size vals}" "all_power vals \<le> 3 * power_in vals F"
    and sup: "\<forall>i \<in> F. supports r x (A' i) \<or> (\<forall>v \<in> A' i. v_Round v \<le> r)" and i: "i \<in> F"
  have before: "supports r x (A j) \<or> (\<forall>v \<in> A j. v_Round v \<le> r)" if j: "j \<in> F" for j
  proof -
    have "j \<in> Hon" using j F by blast
    note g = subsetD [OF grow [OF this]] and n = new [OF this]
    consider c where "c \<in> A' j" "v_Type c = PrecommitType" "v_Round c = r" "vhash c = x" | "\<forall>v \<in> A' j. v_Round v \<le> r"
      using sup j unfolding supports_def by blast
    then show ?thesis
    proof cases
      case 1
      then show ?thesis using n [OF 1(1)] unfolding supports_def by blast
    qed (use g in blast)
  qed
  have none: "\<not> (\<exists>r' B. r < r' \<and> seen (view_at W chain vals h Hon A) r' PrevoteType B \<and> bid_Hash B \<noteq> x)"
  proof
    assume "\<exists>r' B. r < r' \<and> seen (view_at W chain vals h Hon A) r' PrevoteType B \<and> bid_Hash B \<noteq> x"
    then obtain r' B where B: "r < r'" "seen (view_at W chain vals h Hon A) r' PrevoteType B" "bid_Hash B \<noteq> x" by blast
    obtain s where s: "s \<subseteq> {..<ValidatorSet_Size vals}" "2 * all_power vals < 3 * power_in vals s"
        "\<And>j. j \<in> s \<Longrightarrow> j \<in> Hon \<Longrightarrow> \<exists>w \<in> A j. v_Round w = r' \<and> v_Type w = PrevoteType \<and> v_BlockID w = B"
      using seen_votes [OF B(2)] by metis
    have fs: "F \<subseteq> {..<ValidatorSet_Size vals}" using F(1) by blast
    obtain j where j: "j \<in> s" "j \<in> F" by (rule overlap [OF wf s(1) fs s(2) F(2)])
    have "stuck_to r x (A j)" by (rule locks_holdD [OF old x F before j(2)])
    moreover have "j \<in> Hon" using j F by blast
    ultimately show False using s(3) [OF j(1)] B(1,3) unfolding stuck_to_def by fastforce
  qed
  have iH: "i \<in> Hon" using i F by blast
  show "stuck_to r x (A' i)"
    unfolding stuck_to_def
  proof (intro ballI impI)
    fix p assume p: "p \<in> A' i" "v_Type p = PrevoteType \<and> r < v_Round p"
    then obtain c where c: "c \<in> A' i" "v_Type c = PrecommitType" "v_Round c = r" "vhash c = x"
      using sup i unfolding supports_def by force
    have "vhash p = vhash c \<or> moved_on (view_at W chain vals h Hon A) (vhash c) (v_Round c) (v_Round p)"
      using p c x by (intro history_okD(1) [OF hist [OF iH]]) simp_all
    then show "vhash p = x" using none c unfolding moved_on_def by blast
  qed
qed

lemma run_inv:
  assumes "run W chain vals h Hon P G" "0 < h" "vset_wf vals" "vset_keys vals"
  shows "(\<forall>i \<in> Hon. lock_inv (view_at W chain vals h Hon (own_votes h P G)) (P i) (G i)) \<and> locks_hold vals Hon (own_votes h P G)"
  using assms(1)
proof induction
  case (run_start P G)
  have "own_votes h P G i = {}" if "i \<in> Hon" for i using run_start [OF that] by (auto simp: own_votes_def at_start_def)
  then have "locks_hold vals Hon (own_votes h P G)" unfolding locks_hold_def stuck_to_def by blast
  then show ?case using run_start assms(2-4) by (simp add: at_start_inv)
next
  case (run_turn P G i E inp cs)
  let ?A = "own_votes h P G" and ?P = "P(i := P i \<union> voted (G i))" and ?G = "G(i := cs)"
  let ?A' = "own_votes h ?P ?G"
  let ?V = "view_at W chain vals h Hon ?A"
  have inv: "lock_inv ?V (P j) (G j)" if "j \<in> Hon" for j using run_turn.IH that by blast
  have A: "?A j = own ?V (P j) (G j)" for j by (simp add: own_def own_votes_def)
  have A': "?A' j = own ?V (?P j) (?G j)" for j by (simp add: own_def own_votes_def)
  note t = turn_inv [OF inv [OF run_turn.hyps(2)] A run_turn.hyps(3-6)]
  have inv': "lock_inv ?V (?P j) (?G j)" if "j \<in> Hon" for j using inv [OF that] t(1) by simp
  have grow: "?A j \<subseteq> ?A' j" for j using t(3) A A' by (cases "j = i") simp_all
  have new: "v \<in> ?A j \<or> (\<forall>w \<in> ?A j. v_Round w \<le> v_Round v)" if "v \<in> ?A' j" for j v
    using t(2) [of v] that A A' by (cases "j = i") auto
  have "locks_hold vals Hon ?A'"
  proof (rule locks_hold_turn [OF _ assms(3)])
    show "history_ok ?V (?A' j)" if "j \<in> Hon" for j using lock_invD(1) [OF inv' [OF that]] A' by simp
  qed (use run_turn.IH grow new in auto)
  moreover have "later_view ?V (view_at W chain vals h Hon ?A')"
    using grow by (auto simp: later_view_def intro: authentic_mono)
  then have "lock_inv (view_at W chain vals h Hon ?A') (?P j) (?G j)" if "j \<in> Hon" for j
    using history_okD(4) [OF lock_invD(1) [OF inv' [OF that]]] position_okD(1) [OF lock_invD(2) [OF inv' [OF that]]]
    by (intro lock_inv_later [OF inv' [OF that]]) auto
  ultimately show ?case by blast
qed

section \<open>Agreement\<close>

lemma decisions_agree_ordered:
  assumes wf: "vset_wf vals" and few: "3 * power_in vals ({..<ValidatorSet_Size vals} - Hon) < all_power vals"
    and inv: "\<And>i. i \<in> Hon \<Longrightarrow> history_ok (view_at W chain vals h Hon A) (A i)" and locks: "locks_hold vals Hon A"
    and seen: "seen (view_at W chain vals h Hon A) r PrecommitType B" "seen (view_at W chain vals h Hon A) r' PrecommitType B'"
    and ne: "bid_Hash B \<noteq> []" "bid_Hash B' \<noteq> []" and r: "r \<le> r'"
  shows "bid_Hash B = bid_Hash B'"
proof -
  let ?n = "{..<ValidatorSet_Size vals}"
  obtain s where s: "s \<subseteq> ?n" "2 * all_power vals < 3 * power_in vals s"
      "\<And>i. i \<in> s \<Longrightarrow> i \<in> Hon \<Longrightarrow> \<exists>w \<in> A i. v_Round w = r \<and> v_Type w = PrecommitType \<and> v_BlockID w = B"
    using seen_votes [OF seen(1)] by metis
  obtain s' where s': "s' \<subseteq> ?n" "2 * all_power vals < 3 * power_in vals s'"
      "\<And>i. i \<in> s' \<Longrightarrow> i \<in> Hon \<Longrightarrow> \<exists>w \<in> A i. v_Round w = r' \<and> v_Type w = PrecommitType \<and> v_BlockID w = B'"
    using seen_votes [OF seen(2)] by metis
  have F: "s \<inter> Hon \<subseteq> ?n" "all_power vals \<le> 3 * power_in vals (s \<inter> Hon)" using s(1) honest_part [OF wf s(1,2) few] by auto
  obtain i where i: "i \<in> s'" "i \<in> s \<inter> Hon" by (rule overlap [OF wf s'(1) F(1) s'(2) F(2)])
  then have iH: "i \<in> Hon" by blast
  obtain c where c: "c \<in> A i" "v_Round c = r'" "v_Type c = PrecommitType" "v_BlockID c = B'" using s'(3) [OF i(1) iH] by blast
  show ?thesis
  proof (cases "r = r'")
    case True
    obtain b where b: "b \<in> A i" "v_Round b = r" "v_Type b = PrecommitType" "v_BlockID b = B" using s(3) [of i] i(2) by blast
    have "vhash b = vhash c" using b c True by (intro history_okD(3) [OF inv [OF iH]]) simp_all
    then show ?thesis using b c by simp
  next
    case False
    obtain C where C: "seen (view_at W chain vals h Hon A) r' PrevoteType C" "bid_Hash C = bid_Hash B'"
      using history_okD(2) [OF inv [OF iH] c(1)] c ne by auto
    obtain q where q: "q \<subseteq> ?n" "2 * all_power vals < 3 * power_in vals q"
        "\<And>i. i \<in> q \<Longrightarrow> i \<in> Hon \<Longrightarrow> \<exists>w \<in> A i. v_Round w = r' \<and> v_Type w = PrevoteType \<and> v_BlockID w = C"
      using seen_votes [OF C(1)] by metis
    obtain j where j: "j \<in> q" "j \<in> s \<inter> Hon" by (rule overlap [OF wf q(1) F(1) q(2) F(2)])
    have "stuck_to r (bid_Hash B) (A j)"
    proof (rule locks_holdD [OF locks ne(1) _ F(2) _ j(2)])
      show "supports r (bid_Hash B) (A k) \<or> (\<forall>v \<in> A k. v_Round v \<le> r)" if "k \<in> s \<inter> Hon" for k
        using s(3) [of k] that unfolding supports_def by fastforce
    qed (use s(1) in auto)
    moreover obtain p where "p \<in> A j" "v_Round p = r'" "v_Type p = PrevoteType" "v_BlockID p = C" using q(3) [of j] j by blast
    ultimately show ?thesis using C(2) r False unfolding stuck_to_def by force
  qed
qed

text \<open>
  C1: Agreement. In a run of any number of turns at a height, with validators that do not follow the code holding less than a third of the
  voting power, any two nodes that have left the height have applied blocks with the same hash, and both are at the next height.
\<close>

theorem nodes_agree:
  assumes "run W chain vals h Hon P G" "0 < h" "vset_wf vals" "vset_keys vals"
    and "3 * power_in vals ({..<ValidatorSet_Size vals} - Hon) < all_power vals"
    and "i \<in> Hon" "j \<in> Hon" "rs_Height (G i) \<noteq> h" "rs_Height (G j) \<noteq> h"
  shows "\<exists>st st'. cs_state (G i) = Some st \<and> cs_state (G j) = Some st' \<and> bid_Hash (st_LastBlockID st) = bid_Hash (st_LastBlockID st') \<and>
    rs_Height (G i) = wrap64 (h + 1) \<and> rs_Height (G j) = wrap64 (h + 1)"
proof -
  let ?V = "view_at W chain vals h Hon (own_votes h P G)"
  have inv: "lock_inv ?V (P k) (G k)" if "k \<in> Hon" for k using run_inv [OF assms(1-4)] that by blast
  have hist: "history_ok ?V (own_votes h P G k)" if "k \<in> Hon" for k
    using lock_invD(1) [OF inv [OF that]] by (simp add: own_def own_votes_def)
  have locks: "locks_hold vals Hon (own_votes h P G)" using run_inv [OF assms(1-4)] by blast
  have "decided ?V (G i)" "decided ?V (G j)" using lock_invD(3) [OF inv] assms(6-9) by simp_all
  then obtain st r B st' r' B' where d: "rs_Height (G i) = wrap64 (h + 1)" "cs_state (G i) = Some st" "seen ?V r PrecommitType B" "bid_Hash B = bid_Hash (st_LastBlockID st)" "bid_Hash B \<noteq> []"
      "rs_Height (G j) = wrap64 (h + 1)" "cs_state (G j) = Some st'" "seen ?V r' PrecommitType B'" "bid_Hash B' = bid_Hash (st_LastBlockID st')" "bid_Hash B' \<noteq> []"
    unfolding decided_def view_at_simps by blast
  note agree = decisions_agree_ordered [OF assms(3,5) hist locks, simplified]
  have "bid_Hash B = bid_Hash B'"
    using agree [OF d(3,8,5,10)] agree [OF d(8,3,10,5)] by (cases "r \<le> r'") simp_all
  with d show ?thesis by simp
qed

theorem nodes_agree_witness:
  "\<exists>P G st st'. run trio_env [116] trio_set 1 {0, 1} P G \<and> vset_wf trio_set \<and> vset_keys trio_set \<and>
     3 * power_in trio_set ({..<ValidatorSet_Size trio_set} - {0, 1}) < all_power trio_set \<and> rs_Height (G 0) = 2 \<and> rs_Height (G 1) = 2 \<and>
     cs_state (G 0) = Some st \<and> cs_state (G 1) = Some st' \<and> bid_Hash (st_LastBlockID st) = bid_Hash (st_LastBlockID st')"
proof -
  obtain P G where r: "run trio_env [116] trio_set 1 {0, 1} P G" "rs_Height (G 0) = 2" "rs_Height (G 1) = 2" by (rule trio_run)
  show ?thesis using nodes_agree [OF r(1) _ trio_set_ok, of 0 1] r trio_set_ok by auto
qed

end
