(* ===== verification/Spec2Isabelle.thy ===== *)
theory Spec2Isabelle
  imports Vote_Set Priv_Validator Headers Evidence Blocks Height_Vote_Set State_Store Execution Agreement
begin

text \<open>
  Verification of the tendermintx consensus engine, a Byzantine fault tolerant replication of an application
  over blocks, written in Go under \<^verbatim>\<open>src/\<close>.

  \<^bold>\<open>The program.\<close> Validators with voting power agree on one block per height. In each round of a height a proposer,
  chosen by the priorities of the validator set, splits a block into parts with Merkle proofs; validators sign
  prevotes and precommits; votes are counted in vote sets; a block with more than two thirds of the
  precommits is committed, the votes become the commit stored in the next block, and applying the block
  to the application gives the validators and parameters of later heights. Signing twice at a step is punished by
  evidence, and the signer refuses to do so.

  \<^bold>\<open>The theories.\<close> In the order of their imports:

  \<^item> \<^verbatim>\<open>Prelude\<close>: integers of Go (\<^verbatim>\<open>wrap64\<close>, \<^verbatim>\<open>wrap32\<close>, truncating division), results with errors and panics,
    bytes, and lemmas on lists, sums and weights that the components share.
  \<^item> \<^verbatim>\<open>Safe_Math\<close>: \<^verbatim>\<open>libs/math\<close>, checked and saturating arithmetic.
  \<^item> \<^verbatim>\<open>Validators\<close>, \<^verbatim>\<open>Proposer_Rotation\<close>, \<^verbatim>\<open>Validator_Updates\<close>: \<^verbatim>\<open>types/validator.go\<close> and \<^verbatim>\<open>types/validator_set.go\<close>. A
    set is the record \<^verbatim>\<open>ValidatorSet\<close> with the invariant \<^verbatim>\<open>vset_wf\<close>, kept by every operation. Shown: rotation of the
    proposer does not clip when the priorities are bounded and the set has at most 32 validators or a total power of at most
    \<open>2^57\<close>, is fair over time, and reaches every validator; a change set has exactly the effect of the abstract
    update of a map from addresses to validators, or an error.
  \<^item> \<^verbatim>\<open>Bit_Array\<close>: \<^verbatim>\<open>libs/bits\<close>, refined to sets of indices; JSON round trip.
  \<^item> \<^verbatim>\<open>Wire_Format\<close>, \<^verbatim>\<open>Wire_Decode\<close>: encoders and decoders of the canonical messages that are signed
    (\<^verbatim>\<open>proto/tendermint/types/canonical.pb.go\<close>, \<^verbatim>\<open>libs/protoio\<close>). Shown: the bytes determine the message, decoding inverts
    encoding, and the bounds checks of the decoders suffice: no bytes make an index or slice expression panic.
  \<^item> \<^verbatim>\<open>Merkle\<close>, \<^verbatim>\<open>Part_Set\<close>: \<^verbatim>\<open>crypto/merkle\<close> and \<^verbatim>\<open>types/part_set.go\<close>. Shown: proofs are complete and sound up to a
    collision of the hash, the iterative tree hash equals the recursive one, and parts reassemble the data.
  \<^item> \<^verbatim>\<open>Block_Types\<close>, \<^verbatim>\<open>Headers\<close>, \<^verbatim>\<open>Blocks\<close>: votes, proposals, commits, headers, transactions and blocks
    (\<^verbatim>\<open>types/block.go\<close>, \<^verbatim>\<open>vote.go\<close>, \<^verbatim>\<open>proposal.go\<close>, \<^verbatim>\<open>tx.go\<close>). Shown: hashes bind the contents up to a collision,
    as long as they are computed and not memoised from a message.
  \<^item> \<^verbatim>\<open>Commit_Verify\<close>: the three commit checks of validator sets; each accepts exactly when enough power signed, and
    two commits for different blocks convict more than a third of the power.
  \<^item> \<^verbatim>\<open>Vote_Set\<close>, \<^verbatim>\<open>Height_Vote_Set\<close>: \<^verbatim>\<open>types/vote_set.go\<close> and \<^verbatim>\<open>consensus/types/height_vote_set.go\<close>. The invariant
    \<^verbatim>\<open>vote_set_inv\<close> holds in every reachable set; the recorded majority is exact and stays; a commit made from a
    vote set is accepted and read back; the vote sets of a height keep all this for every round.
  \<^item> \<^verbatim>\<open>Priv_Validator\<close>: \<^verbatim>\<open>privval/file.go\<close>, with the state file and a crash between any two writes; it never signs two
    conflicting messages and signs a repeated request again.
  \<^item> \<^verbatim>\<open>Evidence\<close>: \<^verbatim>\<open>types/evidence.go\<close>; conflicting votes become evidence that every node accepts, and an honest signer is never
    convicted of a duplicate vote.
  \<^item> \<^verbatim>\<open>State_Store\<close>: \<^verbatim>\<open>types/params.go\<close>, \<^verbatim>\<open>types/genesis.go\<close>, \<^verbatim>\<open>state/state.go\<close>, \<^verbatim>\<open>state/store.go\<close>; entries that refer to
    earlier heights load the set of their height, also after pruning.
  \<^item> \<^verbatim>\<open>Execution\<close>: \<^verbatim>\<open>state/validation.go\<close>, \<^verbatim>\<open>state/execution.go\<close>, \<^verbatim>\<open>types/protobuf.go\<close>, \<^verbatim>\<open>types/time/time.go\<close>; what a valid block
    may do to the node, and what bounds the time of a block.
  \<^item> \<^verbatim>\<open>Block_Store\<close>: \<^verbatim>\<open>store/store.go\<close> and \<^verbatim>\<open>types/block_meta.go\<close>. Shown: a saved block is loaded again, and pruning removes
    the blocks below its height and nothing else.
  \<^item> \<^verbatim>\<open>Consensus_State\<close>: \<^verbatim>\<open>consensus/state.go\<close> with \<^verbatim>\<open>consensus/types/round_state.go\<close>: one definition for each handler that
    \<^verbatim>\<open>receiveRoutine\<close> calls, over the record \<^verbatim>\<open>ConsensusState\<close>.
  \<^item> \<^verbatim>\<open>Consensus_Locking\<close>, \<^verbatim>\<open>Consensus_Steps\<close>: the invariant \<^verbatim>\<open>lock_inv\<close> that ties the votes of a node to its lock and to the majorities it has
    seen, kept by every handler up to one turn of \<^verbatim>\<open>receiveRoutine\<close>.
  \<^item> \<^verbatim>\<open>Consensus_Run\<close>, \<^verbatim>\<open>Agreement\<close>: interleaved turns of several nodes at one height, a sample run of two nodes from genesis to the second
    height, and agreement: nodes that leave the height have applied blocks with the same hash when the others hold less than a third of the power.

  \<^bold>\<open>Conventions.\<close> \<^verbatim>\<open>int64\<close> and \<^verbatim>\<open>int32\<close> are \<^verbatim>\<open>int\<close> with the wrap-around written at every operation that may overflow. A pointer is
    an option where the code may find it nil, and dereferencing nil, an index out of range and an
    explicit \<^verbatim>\<open>panic\<close> are the value \<^verbatim>\<open>Inl (Panic s)\<close>; a returned error is \<^verbatim>\<open>Inl (Err e)\<close>. Receivers that a method mutates are returned.
    Times are nanoseconds since the zero time of Go. Hashing, keys and signatures (\<^verbatim>\<open>H\<close>, record \<^verbatim>\<open>crypto\<close>), encoders of
    messages outside the canonical ones (record \<^verbatim>\<open>encoders\<close>), the application (record \<^verbatim>\<open>app\<close>) and the
    evidence pool (record \<^verbatim>\<open>evpool\<close>) are parameters. Properties of hashes are stated as: the conclusion holds or
    two different inputs of the given hash collide.

  \<^bold>\<open>Bounds.\<close> No definition uses fuel except \<^verbatim>\<open>Split\<close> of \<^verbatim>\<open>Evidence\<close>, where it stands for a loop of the code that may
    not end; the loops of the decoders end because each turn moves the index forward, the others by structure.

  \<^bold>\<open>Not modelled.\<close> The consensus reactor, the write-ahead log and replay, the evidence
    pool, the mempool, fast sync, state sync, the peer-to-peer layer, RPC, the event bus, the node and its
    start-up: these are goroutines over connections, files and databases, which reach consensus only through
    the components above; a run of the consensus nodes has no restart in it. The light client is left out; the commit checks it calls are in \<^verbatim>\<open>Commit_Verify\<close>. Remote
    signers, key files and the JSON forms of blocks are I/O. Mutexes, logging and metrics are left out throughout.
\<close>

end
